(* ===== verification/Prelude.thy ===== *)
theory Prelude
  imports Main "HOL-Library.Word" "HOL-Library.Signed_Division" "HOL-Library.Monad_Syntax"
begin

text \<open>
  Shared vocabulary of the development: machine bytes, byte buffers and the two operations the
  runtime performs on them (copying a range out, and \<^verbatim>\<open>memcpy\<close>-ing a range in), the
  little-endian layout of unsigned integers, and the environment variables the code reads with
  \<^verbatim>\<open>getenv\<close>.

  Conventions used by every component theory:
  \<^item> \<^verbatim>\<open>int\<close> and \<^verbatim>\<open>int64_t\<close> values are \<^typ>\<open>int\<close>: overflow of a signed
    integer is undefined behaviour in C++, so a faithful run never leaves the range; where the
    range matters a bounds lemma says so. \<^verbatim>\<open>/\<close> on signed values truncates and is
    \<^verbatim>\<open>sdiv\<close>;
  \<^item> \<^verbatim>\<open>uint8_t\<close>, \<^verbatim>\<open>uint32_t\<close> and \<^verbatim>\<open>uint64_t\<close> (and \<^verbatim>\<open>size_t\<close>
    where it is added or compared) are words of that width, whose arithmetic wraps;
  \<^item> \<^verbatim>\<open>std::string\<close> is \<^typ>\<open>string\<close>, a list of bytes written as \<^typ>\<open>char\<close>;
  \<^item> diagnostics printed to \<^verbatim>\<open>stderr\<close> are not part of the state.
\<close>

named_theorems buf_simps \<open>reading back buffers after copies\<close>
named_theorems layout_simps \<open>sizes and strides of the memory layouts\<close>

type_synonym byte = "8 word"
type_synonym u32 = "32 word"
type_synonym u64 = "64 word"
type_synonym env = "string \<Rightarrow> string option"


section \<open>Byte buffers\<close>

text \<open>\<^verbatim>\<open>slice off len buf\<close> is the range \<^verbatim>\<open>[off, off + len)\<close>;
  \<^verbatim>\<open>blit buf off src\<close> is the buffer after \<^verbatim>\<open>memcpy(buf + off, src, n)\<close>.\<close>

definition slice :: "nat \<Rightarrow> nat \<Rightarrow> 'a list \<Rightarrow> 'a list" where
  "slice off len buf = take len (drop off buf)"

definition blit :: "'a list \<Rightarrow> nat \<Rightarrow> 'a list \<Rightarrow> 'a list" where
  "blit buf off src = take off buf @ src @ drop (off + length src) buf"

text \<open>\<^verbatim>\<open>memset(buf + off, 0, n)\<close>.\<close>

definition zero_fill :: "'a::zero list \<Rightarrow> nat \<Rightarrow> nat \<Rightarrow> 'a list" where
  "zero_fill buf off n = blit buf off (replicate n 0)"

lemma length_slice [buf_simps]: "off + len \<le> length buf \<Longrightarrow> length (slice off len buf) = len"
  by (simp add: slice_def)

lemma length_blit [buf_simps]:
  "off + length src \<le> length buf \<Longrightarrow> length (blit buf off src) = length buf"
  by (simp add: blit_def)

lemma length_zero_fill [buf_simps]:
  "off + n \<le> length buf \<Longrightarrow> length (zero_fill buf off n) = length buf"
  by (simp add: zero_fill_def length_blit)

lemma slice_zero_len [simp]: "slice off 0 buf = []"
  by (simp add: slice_def)

lemma slice_full [simp]: "slice 0 (length buf) buf = buf"
  by (simp add: slice_def)

lemma nth_slice: "off + len \<le> length buf \<Longrightarrow> i < len \<Longrightarrow> slice off len buf ! i = buf ! (off + i)"
  by (simp add: slice_def)

lemma nth_blit:
  assumes "off + length src \<le> length buf" "i < length buf"
  shows "blit buf off src ! i =
    (if i < off then buf ! i else if i < off + length src then src ! (i - off) else buf ! i)"
proof -
  consider "i < off" | "off \<le> i" "i < off + length src" | "off + length src \<le> i" by linarith
  then show ?thesis
    by cases (use assms in \<open>auto simp: blit_def nth_append min_def\<close>)
qed

lemma slice_blit_same [buf_simps]:
  "off + length src \<le> length buf \<Longrightarrow> slice off (length src) (blit buf off src) = src"
  by (simp add: slice_def blit_def)

lemma slice_blit_disjoint [buf_simps]:
  assumes "off + length src \<le> length buf" "o' + n \<le> length buf"
    and "o' + n \<le> off \<or> off + length src \<le> o'"
  shows "slice o' n (blit buf off src) = slice o' n buf"
  by (rule nth_equalityI)
     (use assms in \<open>auto simp: length_slice length_blit nth_slice nth_blit\<close>)

lemma slice_blit_inner:
  assumes "off + length src \<le> length buf" "off \<le> o'" "o' + n \<le> off + length src"
  shows "slice o' n (blit buf off src) = slice (o' - off) n src"
  by (rule nth_equalityI)
     (use assms in \<open>auto simp: length_slice length_blit nth_slice nth_blit\<close>)

lemma slice_slice [buf_simps]:
  assumes "o' + n \<le> len" "off + len \<le> length buf"
  shows "slice o' n (slice off len buf) = slice (off + o') n buf"
  using assms by (simp add: slice_def drop_take min_def add.commute)

lemma slice_append_left [buf_simps]: "off + n \<le> length xs \<Longrightarrow> slice off n (xs @ ys) = slice off n xs"
  by (simp add: slice_def)

lemma slice_append_right [buf_simps]:
  "length xs \<le> off \<Longrightarrow> slice off n (xs @ ys) = slice (off - length xs) n ys"
  by (simp add: slice_def)

lemma slice_append_exact:
  "off = length xs \<Longrightarrow> n = length ys \<Longrightarrow> slice off n (xs @ ys @ zs) = ys"
  by (simp add: slice_def)

lemma slice_zero_fill_same [buf_simps]:
  "off + n \<le> length buf \<Longrightarrow> slice off n (zero_fill buf off n) = replicate n 0"
  using slice_blit_same [of off "replicate n 0" buf] by (simp add: zero_fill_def)

lemma slice_zero_fill_disjoint [buf_simps]:
  "off + n \<le> length buf \<Longrightarrow> o' + m \<le> length buf \<Longrightarrow> o' + m \<le> off \<or> off + n \<le> o' \<Longrightarrow>
   slice o' m (zero_fill buf off n) = slice o' m buf"
  unfolding zero_fill_def by (rule slice_blit_disjoint) auto


section \<open>Little-endian integers\<close>

text \<open>The runtime only runs on little-endian machines (the build rejects anything but aarch64) and
  reads and writes its integers with raw copies, so a 32-bit value is four bytes, least significant
  first.\<close>

fun nat_to_le :: "nat \<Rightarrow> nat \<Rightarrow> byte list" where
  "nat_to_le 0 x = []"
| "nat_to_le (Suc n) x = of_nat x # nat_to_le n (x div 256)"

fun le_to_nat :: "byte list \<Rightarrow> nat" where
  "le_to_nat [] = 0"
| "le_to_nat (b # bs) = unat b + 256 * le_to_nat bs"

abbreviation le32 :: "u32 \<Rightarrow> byte list" where "le32 w \<equiv> nat_to_le 4 (unat w)"
abbreviation le64 :: "u64 \<Rightarrow> byte list" where "le64 w \<equiv> nat_to_le 8 (unat w)"
abbreviation u32_of :: "byte list \<Rightarrow> u32" where "u32_of bs \<equiv> of_nat (le_to_nat bs)"
abbreviation u64_of :: "byte list \<Rightarrow> u64" where "u64_of bs \<equiv> of_nat (le_to_nat bs)"

lemma length_nat_to_le [simp]: "length (nat_to_le n x) = n"
  by (induction n arbitrary: x) auto

lemma le_to_nat_bound: "le_to_nat bs < 256 ^ length bs"
proof (induction bs)
  case (Cons b bs)
  have "unat b < 256" using unsigned_less [of b] by simp
  with Cons show ?case by simp
qed simp

lemma le_to_nat_to_le: "le_to_nat (nat_to_le n x) = x mod 256 ^ n"
proof (induction n arbitrary: x)
  case (Suc n)
  have "unat (of_nat x :: byte) = x mod 256" by (simp add: unat_of_nat)
  with Suc show ?case by (simp add: mod_mult2_eq)
qed simp

lemma u32_of_le32 [simp]: "u32_of (le32 w) = w"
proof -
  have "unat w < 256 ^ 4" using unsigned_less [of w] by simp
  then show ?thesis by (simp add: le_to_nat_to_le)
qed

lemma u64_of_le64 [simp]: "u64_of (le64 w) = w"
proof -
  have "unat w < 256 ^ 8" using unsigned_less [of w] by simp
  then show ?thesis by (simp add: le_to_nat_to_le)
qed

lemma nat_to_le_to_nat: "nat_to_le (length bs) (le_to_nat bs) = bs"
proof (induction bs)
  case (Cons b bs)
  have b: "unat b < 256" using unsigned_less [of b] by simp
  then have "(unat b + 256 * le_to_nat bs) div 256 = le_to_nat bs" by simp
  moreover have "unat (of_nat (256 * le_to_nat bs) :: byte) = 0"
    by (simp only: unat_of_nat) simp
  then have "(of_nat (256 * le_to_nat bs) :: byte) = 0"
    by (simp only: unat_eq_zero)
  then have "(of_nat (unat b + 256 * le_to_nat bs) :: byte) = b"
    by (simp only: of_nat_add) simp
  ultimately show ?case using Cons by simp
qed simp


section \<open>C strings\<close>

text \<open>\<^verbatim>\<open>std::string::c_str()\<close> handed to a \<^verbatim>\<open>const char*\<close> parameter ends at the
  first NUL byte.\<close>

definition c_str :: "string \<Rightarrow> string" where
  "c_str s = takeWhile (\<lambda>c. c \<noteq> CHR 0x00) s"

lemma c_str_no_nul: "CHR 0x00 \<notin> set s \<Longrightarrow> c_str s = s"
  unfolding c_str_def by (rule takeWhile_eq_all_conv [THEN iffD2]) auto

text \<open>\<^verbatim>\<open>s.compare(pos, n, t) == 0\<close> at a position inside \<^verbatim>\<open>s\<close>: the text at
  \<^verbatim>\<open>pos\<close>, cut to \<^verbatim>\<open>n\<close> characters, is \<^verbatim>\<open>t\<close>.\<close>

definition starts_with :: "'a list \<Rightarrow> 'a list \<Rightarrow> bool" where
  "starts_with t s \<longleftrightarrow> take (length t) s = t"

text \<open>\<^verbatim>\<open>s.find(t)\<close>: the first index at which \<^verbatim>\<open>t\<close> occurs, or
  \<^verbatim>\<open>npos\<close>; \<^verbatim>\<open>strstr(s, t) != nullptr\<close> is that it occurs.\<close>

fun str_find :: "'a list \<Rightarrow> 'a list \<Rightarrow> nat option" where
  "str_find t [] = (if t = [] then Some 0 else None)"
| "str_find t (c # s) =
     (if starts_with t (c # s) then Some 0 else map_option Suc (str_find t s))"

lemma starts_with_append [simp]: "starts_with t (t @ s)"
  by (simp add: starts_with_def)

lemma starts_withE: "starts_with t s \<Longrightarrow> \<exists>r. s = t @ r"
  unfolding starts_with_def by (metis append_take_drop_id)

lemma starts_with_length: "starts_with t s \<Longrightarrow> length t \<le> length s"
  by (auto dest: starts_withE)

lemma starts_with_mono: "starts_with t s \<Longrightarrow> starts_with t (s @ r)"
  by (metis append.assoc starts_withE starts_with_append)

lemma starts_with_append_long:
  "length t \<le> length s \<Longrightarrow> starts_with t (s @ r) \<longleftrightarrow> starts_with t s"
  by (simp add: starts_with_def)

lemma str_find_Some:
  "str_find t s = Some p \<Longrightarrow> starts_with t (drop p s) \<and> p \<le> length s"
  by (induction t s arbitrary: p rule: str_find.induct)
     (auto simp: starts_with_def split: if_splits)

lemma str_find_least: "str_find t s = Some p \<Longrightarrow> q < p \<Longrightarrow> \<not> starts_with t (drop q s)"
proof (induction t s arbitrary: p q rule: str_find.induct)
  case (2 t c s)
  then show ?case by (cases q) (auto split: if_splits)
qed (auto split: if_splits)

lemma str_find_None: "str_find t s = None \<Longrightarrow> \<not> starts_with t (drop q s)"
proof (induction t s arbitrary: q rule: str_find.induct)
  case (2 t c s)
  then show ?case by (cases q) (auto split: if_splits)
qed (auto simp: starts_with_def split: if_splits)

lemma str_find_eq_SomeI:
  assumes "starts_with t (drop p s)" "p \<le> length s"
    and "\<And>q. q < p \<Longrightarrow> \<not> starts_with t (drop q s)"
  shows "str_find t s = Some p"
proof (cases "str_find t s")
  case None
  with assms(1) show ?thesis by (blast dest: str_find_None)
next
  case (Some p')
  then have "starts_with t (drop p' s)" by (blast dest: str_find_Some)
  with assms(3) have "\<not> p' < p" by blast
  moreover from Some assms(1) have "\<not> p < p'" by (blast dest: str_find_least)
  ultimately show ?thesis using Some by simp
qed


section \<open>Environment switches\<close>

text \<open>\<^verbatim>\<open>v && strcmp(v, "0") != 0\<close> (off unless set) and
  \<^verbatim>\<open>!v || strcmp(v, "0") != 0\<close> (on unless set to 0): the two shapes every
  \<^verbatim>\<open>JLLM_*\<close> switch has.\<close>

definition env_opt_in :: "env \<Rightarrow> string \<Rightarrow> bool" where
  "env_opt_in e name = (case e name of None \<Rightarrow> False | Some v \<Rightarrow> v \<noteq> ''0'')"

definition env_opt_out :: "env \<Rightarrow> string \<Rightarrow> bool" where
  "env_opt_out e name = (case e name of None \<Rightarrow> True | Some v \<Rightarrow> v \<noteq> ''0'')"

end
