(* ===== verification/C_Text.thy ===== *)
theory C_Text
  imports Prelude
begin

text \<open>
  The pieces of the C library that the runtime uses to read numbers and lines from text:
  \<^verbatim>\<open>strtoll\<close>, \<^verbatim>\<open>fgets\<close> with a 256-byte buffer, and the narrowing casts applied to
  the results.
\<close>


section \<open>Reading decimal numbers\<close>

text \<open>\<^verbatim>\<open>strtoll(p, nullptr, 10)\<close>: white space, an optional sign, digits; no digits give
  0; values outside the range saturate.\<close>

definition is_c_space :: "char \<Rightarrow> bool" where
  "is_c_space c \<longleftrightarrow> c \<in> {CHR '' '', CHR 0x09, CHR 0x0A, CHR 0x0B, CHR 0x0C, CHR 0x0D}"

definition is_digit :: "char \<Rightarrow> bool" where
  "is_digit c \<longleftrightarrow> 48 \<le> (of_char c :: nat) \<and> of_char c \<le> (57 :: nat)"

definition digits_value :: "string \<Rightarrow> int" where
  "digits_value ds = foldl (\<lambda>v c. 10 * v + (of_char c - 48)) 0 ds"

definition clamp_i64 :: "int \<Rightarrow> int" where
  "clamp_i64 v = max (- (2 ^ 63)) (min (2 ^ 63 - 1) v)"

definition strtoll10 :: "string \<Rightarrow> int" where
  "strtoll10 s =
     (let t = dropWhile is_c_space s;
          (sgn, u) = (case t of
              [] \<Rightarrow> (1, [])
            | c # r \<Rightarrow> if c = CHR ''-'' then (-1, r) else if c = CHR ''+'' then (1, r) else (1, t))
      in clamp_i64 (sgn * digits_value (takeWhile is_digit u)))"

text \<open>\<^verbatim>\<open>fgets(line, 256, f)\<close> until end of file: chunks that end after a newline or after
  255 characters.\<close>

fun fgets_chunk :: "nat \<Rightarrow> string \<Rightarrow> string \<times> string" where
  "fgets_chunk n [] = ([], [])"
| "fgets_chunk 0 s = ([], s)"
| "fgets_chunk (Suc n) (c # s) =
     (if c = CHR 0x0A then ([c], s) else (let (l, r) = fgets_chunk n s in (c # l, r)))"

lemma fgets_chunk_append: "fgets_chunk n s = (l, r) \<Longrightarrow> s = l @ r"
  by (induction n s arbitrary: l r rule: fgets_chunk.induct) (auto split: if_splits prod.splits)

lemma fgets_chunk_shrinks: "s \<noteq> [] \<Longrightarrow> 0 < n \<Longrightarrow> length (snd (fgets_chunk n s)) < length s"
proof -
  assume "s \<noteq> []" "0 < n"
  then obtain c s' m where s: "s = c # s'" "n = Suc m" by (cases s; cases n) auto
  obtain l r where "fgets_chunk m s' = (l, r)" by fastforce
  then show ?thesis using s by (auto dest: fgets_chunk_append)
qed

function fgets_lines :: "string \<Rightarrow> string list" where
  "fgets_lines s =
     (if s = [] then [] else (let (l, r) = fgets_chunk 255 s in l # fgets_lines r))"
  by auto
termination
  by (relation "measure length") (auto, metis fgets_chunk_shrinks snd_conv zero_less_numeral)

declare fgets_lines.simps [simp del]

lemma fgets_lines_Nil [simp]: "fgets_lines [] = []"
  by (simp add: fgets_lines.simps)

lemma fgets_chunk_line:
  "CHR 0x0A \<notin> set l \<Longrightarrow> length l < n \<Longrightarrow> fgets_chunk n (l @ CHR 0x0A # r) = (l @ [CHR 0x0A], r)"
proof (induction l arbitrary: n)
  case Nil
  then show ?case by (cases n) auto
next
  case (Cons c l)
  then show ?case by (cases n) auto
qed

lemma fgets_lines_line:
  "CHR 0x0A \<notin> set l \<Longrightarrow> length l < 255 \<Longrightarrow>
   fgets_lines (l @ CHR 0x0A # r) = (l @ [CHR 0x0A]) # fgets_lines r"
  by (subst fgets_lines.simps) (simp add: fgets_chunk_line)

text \<open>\<^verbatim>\<open>static_cast<int>\<close> of a 64-bit value keeps its low 32 bits.\<close>

definition to_int32 :: "int \<Rightarrow> int" where
  "to_int32 v = (v + 2 ^ 31) mod 2 ^ 32 - 2 ^ 31"

lemma sdiv_nonneg: "0 \<le> a \<Longrightarrow> 0 < b \<Longrightarrow> a sdiv b = a div (b::int)"
  by (simp add: signed_divide_int_def sgn_if)

lemma to_int32_id: "- (2 ^ 31) \<le> v \<Longrightarrow> v < 2 ^ 31 \<Longrightarrow> to_int32 v = v"
  by (simp add: to_int32_def)

lemma to_int32_range: "- (2 ^ 31) \<le> to_int32 v \<and> to_int32 v < 2 ^ 31"
  using pos_mod_bound [of "2 ^ 32" "v + 2 ^ 31"] pos_mod_sign [of "2 ^ 32" "v + 2 ^ 31"]
  by (simp add: to_int32_def)

lemma digit_chars: "is_digit c \<Longrightarrow> c \<noteq> CHR 0x0A \<and> c \<noteq> CHR 0x00 \<and> c \<noteq> CHR '':'' \<and> c \<noteq> CHR '' '' \<and>
    c \<noteq> CHR ''-'' \<and> c \<noteq> CHR ''+'' \<and> \<not> is_c_space c"
  by (auto simp: is_digit_def is_c_space_def)

lemma list_all_digit_chars:
  assumes "list_all is_digit ds"
  shows "CHR 0x0A \<notin> set ds" "CHR 0x00 \<notin> set ds"
  using assms digit_chars by (auto simp: list_all_iff)

lemma strtoll10_digits:
  assumes "ds \<noteq> []" "list_all is_digit ds" "\<not> is_digit c"
  shows "strtoll10 (ds @ c # r) = clamp_i64 (digits_value ds)"
proof -
  obtain d ds' where d: "ds = d # ds'" "is_digit d" using assms by (cases ds) auto
  have tw: "takeWhile is_digit (ds @ c # r) = ds"
    using assms(2,3) by (simp add: takeWhile_append2 list_all_iff)
  show ?thesis using d digit_chars [OF d(2)] tw by (simp add: strtoll10_def)
qed

lemma digits_value_nonneg: "list_all is_digit ds \<Longrightarrow> 0 \<le> digits_value ds"
proof -
  have "0 \<le> foldl (\<lambda>v c. 10 * v + (of_char c - 48)) (a::int) ds" if "list_all is_digit ds" "0 \<le> a" for a
    using that
  proof (induction ds arbitrary: a)
    case (Cons d ds)
    have "(48 :: nat) \<le> of_char d" using Cons.prems by (simp add: is_digit_def)
    then have "(48 :: int) \<le> of_char d"
      by (metis of_nat_le_iff of_nat_numeral of_nat_of_char)
    with Cons show ?case by simp
  qed simp
  then show "list_all is_digit ds \<Longrightarrow> 0 \<le> digits_value ds" by (simp add: digits_value_def)
qed

end
