(* ===== verification/Gguf_File.thy ===== *)
theory Gguf_File
  imports C_Text
begin

text \<open>
  Reading GGUF files: the cursor operations the loaders use (\<^verbatim>\<open>fread\<close>, \<^verbatim>\<open>fseek\<close>,
  \<^verbatim>\<open>ftell\<close>), \<^verbatim>\<open>parse_tensor_infos\<close> of \<^verbatim>\<open>src/engine/model.cpp\<close>, and the format
  itself as an encoder, so that the parsers can be compared with what a writer put in the file.

  The loaders ignore the result of \<^verbatim>\<open>fread\<close>; when the file ends inside an item they go on with
  an uninitialised variable. That is undefined, and here the value \<^verbatim>\<open>None\<close>. The same value
  stands for a tensor with more than four dimensions, which the code writes past the end of
  \<^verbatim>\<open>shape[4]\<close>.
\<close>


section \<open>Bytes and characters\<close>

definition str_of_bytes :: "byte list \<Rightarrow> string" where
  "str_of_bytes bs = map (\<lambda>b. char_of (unat b)) bs"

definition bytes_of_str :: "string \<Rightarrow> byte list" where
  "bytes_of_str s = map (\<lambda>c. of_nat (of_char c)) s"

lemma str_of_bytes_of_str [simp]: "str_of_bytes (bytes_of_str s) = s"
  by (induction s) (auto simp: str_of_bytes_def bytes_of_str_def unat_of_nat)

lemma length_bytes_of_str [simp]: "length (bytes_of_str s) = length s"
  by (simp add: bytes_of_str_def)


section \<open>The cursor\<close>

text \<open>\<^verbatim>\<open>fread\<close> of \<^verbatim>\<open>n\<close> bytes at position \<^verbatim>\<open>p\<close>.\<close>

definition rd :: "nat \<Rightarrow> byte list \<Rightarrow> nat \<Rightarrow> (byte list \<times> nat) option" where
  "rd n d p = (if n = 0 \<or> p + n \<le> length d then Some (slice p n d, p + n) else None)"

definition rd32 :: "byte list \<Rightarrow> nat \<Rightarrow> (u32 \<times> nat) option" where
  "rd32 d p = map_option (\<lambda>(b, q). (u32_of b, q)) (rd 4 d p)"

definition rd64 :: "byte list \<Rightarrow> nat \<Rightarrow> (u64 \<times> nat) option" where
  "rd64 d p = map_option (\<lambda>(b, q). (u64_of b, q)) (rd 8 d p)"

text \<open>\<^verbatim>\<open>fseek(f, off, SEEK_CUR)\<close> with an unsigned 64-bit offset converted to
  \<^verbatim>\<open>long\<close>: it may move backwards, past the end, and fails without moving in front of the
  file.\<close>

definition seek_cur :: "u64 \<Rightarrow> nat \<Rightarrow> nat" where
  "seek_cur off p = (let q = int p + sint off in if q < 0 then p else nat q)"

lemma drop_add_append: "drop p d = xs @ r \<Longrightarrow> drop (p + length xs) d = r"
  by (metis add.commute append_eq_conv_conj drop_drop)

lemma rd_at:
  assumes "drop p d = xs @ r" "n = length xs"
  shows "rd n d p = Some (xs, p + n)"
proof (cases "p \<le> length d")
  case True
  have "length d - p = length xs + length r" using arg_cong [OF assms(1), of length] by simp
  then have "p + n \<le> length d" using assms(2) True by linarith
  then show ?thesis using assms by (simp add: rd_def slice_def)
next
  case False
  then show ?thesis using assms by (simp add: rd_def slice_def)
qed

lemma rd32_at: "drop p d = le32 w @ r \<Longrightarrow> rd32 d p = Some (w, p + 4)"
  by (simp add: rd32_def rd_at [of p d "le32 w" r])

lemma rd64_at: "drop p d = le64 w @ r \<Longrightarrow> rd64 d p = Some (w, p + 8)"
  by (simp add: rd64_def rd_at [of p d "le64 w" r])

lemma drop_step:
  "drop p d = le32 w @ r \<Longrightarrow> drop (p + 4) d = r"
  "drop p d = le64 w' @ r \<Longrightarrow> drop (p + 8) d = r"
  using drop_add_append [of p d "le32 w" r] drop_add_append [of p d "le64 w'" r] by simp_all

lemma seek_cur_small: "n < 2 ^ 63 \<Longrightarrow> seek_cur (of_nat n) p = p + n"
proof -
  assume n: "n < 2 ^ 63"
  then have "int n < 2 ^ 63" by simp
  then have "sint (of_nat n :: u64) = int n"
    by (simp add: signed_of_nat signed_take_bit_int_eq_self)
  then show ?thesis by (simp add: seek_cur_def nat_add_distrib)
qed

lemma le64_of_nat_less: "n < 2 ^ 64 \<Longrightarrow> unat (of_nat n :: u64) = n"
  by (simp add: unat_of_nat)


section \<open>The format\<close>

text \<open>Metadata values: scalars (the type number and the raw bytes), strings, arrays of scalars and
  arrays of strings.\<close>

datatype gguf_value =
    GScalar u32 "byte list"
  | GString "byte list"
  | GArray u32 "byte list list"
  | GStrArray "byte list list"

definition gguf_scalar_size :: "u32 \<Rightarrow> nat" where
  "gguf_scalar_size ty =
     (if ty = 0 \<or> ty = 1 \<or> ty = 7 then 1
      else if ty = 2 \<or> ty = 3 then 2
      else if ty = 4 \<or> ty = 5 \<or> ty = 6 then 4
      else if ty = 10 \<or> ty = 11 \<or> ty = 12 then 8
      else 0)"

definition lp_bytes :: "byte list \<Rightarrow> byte list" where
  "lp_bytes b = le64 (of_nat (length b)) @ b"

fun value_type :: "gguf_value \<Rightarrow> u32" where
  "value_type (GScalar ty b) = ty"
| "value_type (GString b) = 8"
| "value_type (GArray ty es) = 9"
| "value_type (GStrArray ss) = 9"

fun value_bytes :: "gguf_value \<Rightarrow> byte list" where
  "value_bytes (GScalar ty b) = b"
| "value_bytes (GString b) = lp_bytes b"
| "value_bytes (GArray ty es) = le32 ty @ le64 (of_nat (length es)) @ concat es"
| "value_bytes (GStrArray ss) = le32 8 @ le64 (of_nat (length ss)) @ concat (map lp_bytes ss)"

fun value_ok :: "gguf_value \<Rightarrow> bool" where
  "value_ok (GScalar ty b) \<longleftrightarrow> gguf_scalar_size ty > 0 \<and> length b = gguf_scalar_size ty"
| "value_ok (GString b) \<longleftrightarrow> length b < 2 ^ 63"
| "value_ok (GArray ty es) \<longleftrightarrow> gguf_scalar_size ty > 0 \<and> length es * 8 < 2 ^ 63 \<and>
     list_all (\<lambda>e. length e = gguf_scalar_size ty) es"
| "value_ok (GStrArray ss) \<longleftrightarrow> length ss < 2 ^ 63 \<and> list_all (\<lambda>b. length b < 2 ^ 63) ss"

type_synonym gguf_kv = "string \<times> gguf_value"

definition kv_bytes :: "gguf_kv \<Rightarrow> byte list" where
  "kv_bytes kv = lp_bytes (bytes_of_str (fst kv)) @ le32 (value_type (snd kv)) @ value_bytes (snd kv)"

definition kv_ok :: "gguf_kv \<Rightarrow> bool" where
  "kv_ok kv \<longleftrightarrow> length (fst kv) < 2 ^ 63 \<and> value_ok (snd kv)"

record tensor_info =
  ti_name :: string
  ti_n_dims :: u32
  ti_shape :: "int list"
  ti_type :: u32
  ti_offset :: u64

definition i64_bytes :: "int \<Rightarrow> byte list" where
  "i64_bytes v = le64 (of_int v)"

definition tensor_info_bytes :: "tensor_info \<Rightarrow> byte list" where
  "tensor_info_bytes ti = lp_bytes (bytes_of_str (ti_name ti)) @ le32 (ti_n_dims ti) @
     concat (map i64_bytes (take (unat (ti_n_dims ti)) (ti_shape ti))) @ le32 (ti_type ti) @ le64 (ti_offset ti)"

definition tensor_info_ok :: "tensor_info \<Rightarrow> bool" where
  "tensor_info_ok ti \<longleftrightarrow> length (ti_name ti) \<le> 255 \<and> CHR 0x00 \<notin> set (ti_name ti) \<and>
     unat (ti_n_dims ti) \<le> 4 \<and> length (ti_shape ti) = 4 \<and>
     list_all (\<lambda>v. - (2 ^ 63) \<le> v \<and> v < 2 ^ 63) (ti_shape ti) \<and>
     drop (unat (ti_n_dims ti)) (ti_shape ti) = replicate (4 - unat (ti_n_dims ti)) 1"

definition GGUF_MAGIC :: u32 where "GGUF_MAGIC = 0x46554747"

definition gguf_bytes :: "u32 \<Rightarrow> gguf_kv list \<Rightarrow> tensor_info list \<Rightarrow> byte list" where
  "gguf_bytes version kvs tis =
     le32 GGUF_MAGIC @ le32 version @ le64 (of_nat (length tis)) @ le64 (of_nat (length kvs)) @
     concat (map kv_bytes kvs) @ concat (map tensor_info_bytes tis)"


section \<open>parse_tensor_infos\<close>

fun skip_strings :: "nat \<Rightarrow> byte list \<Rightarrow> nat \<Rightarrow> nat option" where
  "skip_strings 0 d p = Some p"
| "skip_strings (Suc n) d p = do { (sl, p) \<leftarrow> rd64 d p; skip_strings n d (seek_cur sl p) }"

definition skip_value :: "byte list \<Rightarrow> u32 \<Rightarrow> nat \<Rightarrow> nat option" where
  "skip_value d vtype p =
     (let scalar_sz = gguf_scalar_size vtype in
      if scalar_sz > 0 then Some (p + scalar_sz)
      else if vtype = 8 then do { (slen, p) \<leftarrow> rd64 d p; Some (seek_cur slen p) }
      else if vtype = 9 then do {
        (atype, p) \<leftarrow> rd32 d p;
        (alen, p) \<leftarrow> rd64 d p;
        let elem_sz = gguf_scalar_size atype in
        if elem_sz > 0 then Some (seek_cur (alen * of_nat elem_sz) p)
        else if atype = 8 then skip_strings (unat alen) d p
        else Some (p + 8 * unat alen)
      }
      else Some (p + 8))"

fun skip_kvs :: "nat \<Rightarrow> byte list \<Rightarrow> nat \<Rightarrow> nat option" where
  "skip_kvs 0 d p = Some p"
| "skip_kvs (Suc n) d p = do {
     (key_len, p) \<leftarrow> rd64 d p;
     let p = seek_cur key_len p;
     (vtype, p) \<leftarrow> rd32 d p;
     p \<leftarrow> skip_value d vtype p;
     skip_kvs n d p
   }"

fun read_dims :: "nat \<Rightarrow> byte list \<Rightarrow> nat \<Rightarrow> (int list \<times> nat) option" where
  "read_dims 0 d p = Some ([], p)"
| "read_dims (Suc n) d p = do {
     (v, p) \<leftarrow> rd64 d p;
     (vs, p) \<leftarrow> read_dims n d p;
     Some (sint v # vs, p)
   }"

definition read_tensor_info :: "byte list \<Rightarrow> nat \<Rightarrow> (tensor_info \<times> nat) option" where
  "read_tensor_info d p = do {
     (name_len, p) \<leftarrow> rd64 d p;
     (name, p) \<leftarrow> rd (min (unat name_len) 255) d p;
     let p = (if unat name_len > 255 then seek_cur (name_len - 255) p else p);
     (n_dims, p) \<leftarrow> rd32 d p;
     (dims, p) \<leftarrow> (if unat n_dims > 4 then None else read_dims (unat n_dims) d p);
     (ty, p) \<leftarrow> rd32 d p;
     (off, p) \<leftarrow> rd64 d p;
     Some (\<lparr>ti_name = c_str (str_of_bytes name), ti_n_dims = n_dims,
            ti_shape = dims @ replicate (4 - unat n_dims) 1, ti_type = ty, ti_offset = off\<rparr>, p)
   }"

fun read_tensor_infos :: "nat \<Rightarrow> byte list \<Rightarrow> nat \<Rightarrow> (tensor_info list \<times> nat) option" where
  "read_tensor_infos 0 d p = Some ([], p)"
| "read_tensor_infos (Suc n) d p = do {
     (ti, p) \<leftarrow> read_tensor_info d p;
     (tis, p) \<leftarrow> read_tensor_infos n d p;
     Some (ti # tis, p)
   }"

text \<open>The file is \<^verbatim>\<open>None\<close> when it cannot be opened; the result is the offset of the data
  section (or -1) and the tensors.\<close>

definition parse_tensor_infos :: "byte list option \<Rightarrow> (int \<times> tensor_info list) option" where
  "parse_tensor_infos file =
     (case file of
        None \<Rightarrow> Some (-1, [])
      | Some d \<Rightarrow> do {
          (magic, p) \<leftarrow> rd32 d 0;
          (version, p) \<leftarrow> rd32 d p;
          (n_tensors, p) \<leftarrow> rd64 d p;
          (n_kv, p) \<leftarrow> rd64 d p;
          p \<leftarrow> skip_kvs (unat n_kv) d p;
          (tensors, cur) \<leftarrow> read_tensor_infos (unat n_tensors) d p;
          Some ((int cur + 32 - 1) sdiv 32 * 32, tensors)
        })"


section \<open>The parser reads what the format says\<close>

lemma lp_at:
  assumes "drop p d = lp_bytes b @ r"
  shows "rd64 d p = Some (of_nat (length b), p + 8)" "drop (p + 8) d = b @ r"
    "drop (p + 8 + length b) d = r"
  using assms rd64_at [of p d "of_nat (length b)" "b @ r"] drop_step(2) [of p d "of_nat (length b)" "b @ r"]
    drop_add_append [of "p + 8" d b r]
  by (simp_all add: lp_bytes_def)

lemma length_lp_bytes [simp]: "length (lp_bytes b) = 8 + length b"
  by (simp add: lp_bytes_def)

lemma skip_strings_at:
  assumes "list_all (\<lambda>b. length b < 2 ^ 63) ss" "drop p d = concat (map lp_bytes ss) @ r"
  shows "skip_strings (length ss) d p = Some (p + length (concat (map lp_bytes ss)))"
  using assms
proof (induction ss arbitrary: p)
  case (Cons b ss)
  have at: "drop p d = lp_bytes b @ (concat (map lp_bytes ss) @ r)" using Cons.prems(2) by simp
  have "seek_cur (of_nat (length b)) (p + 8) = p + 8 + length b"
    using Cons.prems(1) by (intro seek_cur_small) simp
  then show ?case using Cons.IH [of "p + 8 + length b"] lp_at [OF at] Cons.prems(1) by simp
qed simp

lemma length_concat_fixed: "list_all (\<lambda>e. length e = k) es \<Longrightarrow> length (concat es) = length es * k"
  by (induction es) auto

lemma scalar_size_le: "gguf_scalar_size ty \<le> 8"
  by (simp add: gguf_scalar_size_def)

lemma skip_value_at:
  assumes ok: "value_ok v" and at: "drop p d = value_bytes v @ r"
  shows "skip_value d (value_type v) p = Some (p + length (value_bytes v))"
proof (cases v)
  case (GScalar ty b)
  then show ?thesis using ok by (simp add: skip_value_def)
next
  case (GString b)
  then have "drop p d = lp_bytes b @ r" using at by simp
  from lp_at [OF this] show ?thesis
    using GString ok seek_cur_small [of "length b" "p + 8"]
    by (simp add: skip_value_def gguf_scalar_size_def)
next
  case (GArray ty es)
  let ?k = "gguf_scalar_size ty"
  have at1: "drop p d = le32 ty @ (le64 (of_nat (length es)) @ (concat es @ r))" using at GArray by simp
  note at2 = drop_step(1) [OF at1]
  have sz: "length (concat es) = length es * ?k" using ok GArray by (auto intro: length_concat_fixed)
  have "length es * ?k \<le> length es * 8" using scalar_size_le by (intro mult_le_mono2)
  also have "length es * 8 < 2 ^ 63" using ok GArray by simp
  finally have "length es * ?k < 2 ^ 63" .
  then have "seek_cur (of_nat (length es) * of_nat ?k) (p + 4 + 8) = p + 4 + 8 + length es * ?k"
    using seek_cur_small [of "length es * ?k" "p + 4 + 8"] by simp
  then show ?thesis
    using GArray ok rd32_at [OF at1] rd64_at [OF at2] sz
    by (simp add: skip_value_def gguf_scalar_size_def [of 9] Let_def)
next
  case (GStrArray ss)
  have at1: "drop p d = le32 8 @ (le64 (of_nat (length ss)) @ (concat (map lp_bytes ss) @ r))"
    using at GStrArray by simp
  note at2 = drop_step(1) [OF at1]
  note at3 = drop_step(2) [OF at2]
  have n: "unat (of_nat (length ss) :: u64) = length ss" using ok GStrArray by (intro le64_of_nat_less) simp
  show ?thesis
    using GStrArray ok rd32_at [OF at1] rd64_at [OF at2] skip_strings_at [OF _ at3] n
    by (simp add: skip_value_def gguf_scalar_size_def Let_def)
qed

lemma skip_kvs_at:
  assumes "list_all kv_ok kvs" "drop p d = concat (map kv_bytes kvs) @ r"
  shows "skip_kvs (length kvs) d p = Some (p + length (concat (map kv_bytes kvs)))"
  using assms
proof (induction kvs arbitrary: p)
  case (Cons kv kvs)
  let ?k = "bytes_of_str (fst kv)" and ?rest = "concat (map kv_bytes kvs) @ r"
  have ok: "length ?k < 2 ^ 63" "value_ok (snd kv)" using Cons.prems(1) by (simp_all add: kv_ok_def)
  have a1: "drop p d = lp_bytes ?k @ (le32 (value_type (snd kv)) @ (value_bytes (snd kv) @ ?rest))"
    using Cons.prems(2) by (simp add: kv_bytes_def [of kv])
  note a2 = lp_at(3) [OF a1]
  note a3 = drop_step(1) [OF a2]
  note a4 = drop_add_append [OF a3]
  have s: "seek_cur (of_nat (length ?k)) (p + 8) = p + 8 + length ?k" by (rule seek_cur_small [OF ok(1)])
  show ?case
    using Cons.IH [OF _ a4] Cons.prems(1) s skip_value_at [OF ok(2) a3]
    by (simp add: lp_at(1) [OF a1, simplified] rd32_at [OF a2, simplified] kv_bytes_def [of kv] Let_def)
qed simp

lemma sint_of_int64: "- (2 ^ 63) \<le> v \<Longrightarrow> v < 2 ^ 63 \<Longrightarrow> sint (of_int v :: u64) = v"
  by (simp add: signed_of_int signed_take_bit_int_eq_self)

lemma read_dims_at:
  assumes "list_all (\<lambda>v. - (2 ^ 63) \<le> v \<and> v < 2 ^ 63) vs" "drop p d = concat (map i64_bytes vs) @ r"
  shows "read_dims (length vs) d p = Some (vs, p + 8 * length vs)"
  using assms
proof (induction vs arbitrary: p)
  case (Cons v vs)
  have a: "drop p d = le64 (of_int v) @ (concat (map i64_bytes vs) @ r)"
    using Cons.prems(2) by (simp add: i64_bytes_def [of v])
  show ?case
    using Cons.IH [OF _ drop_step(2) [OF a]] Cons.prems(1) rd64_at [OF a] sint_of_int64 [of v] by simp
qed simp

lemma length_concat_i64 [simp]: "length (concat (map i64_bytes vs)) = 8 * length vs"
  by (induction vs) (auto simp: i64_bytes_def)

lemma read_tensor_info_at:
  assumes ok: "tensor_info_ok ti" and at: "drop p d = tensor_info_bytes ti @ r"
  shows "read_tensor_info d p = Some (ti, p + length (tensor_info_bytes ti))"
proof -
  let ?name = "bytes_of_str (ti_name ti)" and ?k = "unat (ti_n_dims ti)"
  let ?dims = "take ?k (ti_shape ti)"
  have a1: "drop p d = lp_bytes ?name @ (le32 (ti_n_dims ti) @ (concat (map i64_bytes ?dims) @
      (le32 (ti_type ti) @ (le64 (ti_offset ti) @ r))))"
    using at by (simp add: tensor_info_bytes_def)
  note a2 = lp_at(2) [OF a1] and a3 = lp_at(3) [OF a1]
  note a4 = drop_step(1) [OF a3]
  note a5 = drop_add_append [OF a4]
  note a6 = drop_step(1) [OF a5]
  have len: "length ?dims = ?k" "?k \<le> 4" "min (length (ti_shape ti)) ?k = ?k"
    using ok by (auto simp: tensor_info_ok_def)
  have n: "unat (of_nat (length ?name) :: u64) = length ?name" "length ?name \<le> 255"
    using ok by (auto simp: tensor_info_ok_def unat_of_nat)
  have "list_all (\<lambda>v. - (2 ^ 63) \<le> v \<and> v < 2 ^ 63) ?dims"
    using ok by (auto simp: tensor_info_ok_def list_all_iff dest: in_set_takeD)
  from read_dims_at [OF this a4] have dims: "read_dims ?k d (p + 8 + length ?name + 4) = Some (?dims, p + 8 + length ?name + 4 + 8 * ?k)"
    by (simp only: len)
  have shape: "?dims @ replicate (4 - ?k) 1 = ti_shape ti"
    using ok by (metis append_take_drop_id tensor_info_ok_def)
  have name: "c_str (str_of_bytes ?name) = ti_name ti"
    using ok by (simp add: tensor_info_ok_def c_str_no_nul)
  have rdn: "rd (min (length ?name) 255) d (p + 8) = Some (?name, p + 8 + length ?name)"
    using rd_at [OF a2, of "length ?name"] n(2) by simp
  show ?thesis
    unfolding read_tensor_info_def
    using lp_at(1) [OF a1] n rdn rd32_at [OF a3] dims rd32_at [OF a5] rd64_at [OF a6] shape name
    by (simp add: Let_def tensor_info_bytes_def len not_less ac_simps)
qed

lemma read_tensor_infos_at:
  assumes "list_all tensor_info_ok tis" "drop p d = concat (map tensor_info_bytes tis) @ r"
  shows "read_tensor_infos (length tis) d p = Some (tis, p + length (concat (map tensor_info_bytes tis)))"
  using assms
proof (induction tis arbitrary: p)
  case (Cons ti tis)
  have a: "drop p d = tensor_info_bytes ti @ (concat (map tensor_info_bytes tis) @ r)" using Cons.prems(2) by simp
  show ?case
    using Cons.IH [OF _ drop_add_append [OF a]] read_tensor_info_at [OF _ a] Cons.prems(1) by simp
qed simp

lemma parse_tensor_infos_at:
  assumes kvs: "list_all kv_ok kvs" "length kvs < 2 ^ 64"
    and tis: "list_all tensor_info_ok tis" "length tis < 2 ^ 64"
  shows "parse_tensor_infos (Some (gguf_bytes version kvs tis @ data)) =
    Some ((int (length (gguf_bytes version kvs tis)) + 31) div 32 * 32, tis)"
proof -
  let ?d = "gguf_bytes version kvs tis @ data"
  let ?K = "concat (map kv_bytes kvs)" and ?T = "concat (map tensor_info_bytes tis)"
  have a0: "drop 0 ?d = le32 GGUF_MAGIC @ (le32 version @ (le64 (of_nat (length tis)) @
      (le64 (of_nat (length kvs)) @ (?K @ (?T @ data)))))"
    by (simp add: gguf_bytes_def)
  note a1 = drop_step(1) [OF a0]
  note a2 = drop_step(1) [OF a1]
  note a3 = drop_step(2) [OF a2]
  note a4 = drop_step(2) [OF a3]
  note a5 = drop_add_append [OF a4]
  have n: "unat (of_nat (length tis) :: u64) = length tis" "unat (of_nat (length kvs) :: u64) = length kvs"
    using kvs tis le64_of_nat_less by blast+
  let ?cur = "length (gguf_bytes version kvs tis)"
  have "parse_tensor_infos (Some ?d) = Some ((int ?cur + 32 - 1) sdiv 32 * 32, tis)"
    using rd32_at [OF a0] rd32_at [OF a1] rd64_at [OF a2] rd64_at [OF a3] skip_kvs_at [OF kvs(1) a4]
      read_tensor_infos_at [OF tis(1) a5] n
    by (simp add: parse_tensor_infos_def gguf_bytes_def)
  moreover have "(int ?cur + 32 - 1) sdiv 32 = (int ?cur + 31) div 32" by (simp add: sdiv_nonneg)
  ultimately show ?thesis by simp
qed


text \<open>A small file for the witnesses: a boolean, a 32-bit integer, a string and a string array in the
  metadata, one tensor.\<close>

definition demo_tensor :: tensor_info where
  "demo_tensor = \<lparr>ti_name = ''token_embd.weight'', ti_n_dims = 2, ti_shape = [64, 100, 1, 1], ti_type = 1, ti_offset = 0\<rparr>"

definition demo_kvs :: "gguf_kv list" where
  "demo_kvs = [(''q.flag'', GScalar 7 [1]), (''q.block_count'', GScalar 4 (le32 28)),
     (''q.embedding_length'', GScalar 4 (le32 64)), (''general.architecture'', GString (bytes_of_str ''qwen3'')),
     (''q.tokens'', GStrArray [bytes_of_str ''a'', bytes_of_str ''bc''])]"

lemma demo_tensor_ok: "tensor_info_ok demo_tensor"
  by (simp add: tensor_info_ok_def demo_tensor_def) (simp add: numeral_2_eq_2)

lemma demo_kvs_ok: "list_all kv_ok demo_kvs"
  by (simp add: demo_kvs_def kv_ok_def gguf_scalar_size_def)


end
