(* ===== verification/Gguf_Model.thy ===== *)
theory Gguf_Model
  imports Gguf_File
begin

text \<open>
  The model loader of \<^verbatim>\<open>src/engine/model.cpp\<close>: the configuration read from the metadata
  (\<^verbatim>\<open>load_gguf_config\<close>), the sizes of quantised tensors, the registered weight mapping, and
  the assignment of tensors to the weight structures (\<^verbatim>\<open>load_and_map_weights\<close>).

  Floats of the configuration are kept as their 32-bit patterns: they are only copied and compared
  with zero. Weight pointers are offsets into the mapped file. The answers of \<^verbatim>\<open>mmap\<close> and of
  the CUDA registration calls are arguments.
\<close>

unbundle bit_operations_syntax


section \<open>The configuration\<close>

record model_config =
  m_name :: string
  m_n_layers :: int
  m_n_heads :: int
  m_n_kv_heads :: int
  m_head_dim :: int
  m_hidden_dim :: int
  m_intermediate_dim :: int
  m_vocab_size :: int
  m_max_seq_len :: int
  m_rope_theta :: u32
  m_rms_eps :: u32
  m_rope_neox :: bool
  m_quant_type :: int

definition model_config_default :: model_config where
  "model_config_default = \<lparr>m_name = [], m_n_layers = 0, m_n_heads = 0, m_n_kv_heads = 0, m_head_dim = 0,
     m_hidden_dim = 0, m_intermediate_dim = 0, m_vocab_size = 0, m_max_seq_len = 0, m_rope_theta = 0,
     m_rms_eps = 0x3727C5AC, m_rope_neox = False, m_quant_type = 0\<rparr>"

definition gqa_group_size :: "model_config \<Rightarrow> int" where
  "gqa_group_size c = (if m_n_kv_heads c > 0 then m_n_heads c sdiv m_n_kv_heads c else 1)"

definition kv_per_token_bytes :: "model_config \<Rightarrow> int \<Rightarrow> int" where
  "kv_per_token_bytes c kv_type_bytes = 2 * m_n_layers c * m_n_kv_heads c * m_head_dim c * kv_type_bytes"

definition weight_bytes :: "model_config \<Rightarrow> int" where
  "weight_bytes c =
     (let params = m_n_layers c * (4 * m_hidden_dim c * m_hidden_dim c + 2 * m_hidden_dim c * m_intermediate_dim c);
          params = params + m_vocab_size c * m_hidden_dim c
      in params sdiv 2 + params sdiv 32 * 2)"

definition strstr :: "string \<Rightarrow> string \<Rightarrow> bool" where
  "strstr s t = (str_find t s \<noteq> None)"

definition int_of_u32 :: "u32 \<Rightarrow> int" where
  "int_of_u32 v = to_int32 (uint v)"

definition config_u32 :: "string \<Rightarrow> u32 \<Rightarrow> model_config \<Rightarrow> model_config" where
  "config_u32 key val c =
     (let v = int_of_u32 val in
      if strstr key ''block_count'' then c\<lparr>m_n_layers := v\<rparr>
      else if strstr key ''head_count_kv'' then c\<lparr>m_n_kv_heads := v\<rparr>
      else if strstr key ''head_count'' then c\<lparr>m_n_heads := v\<rparr>
      else if strstr key ''attention.key_length'' then c\<lparr>m_head_dim := v\<rparr>
      else if strstr key ''attention.value_length'' then c\<lparr>m_head_dim := v\<rparr>
      else if strstr key ''embedding_length'' then c\<lparr>m_hidden_dim := v\<rparr>
      else if strstr key ''feed_forward_length'' then c\<lparr>m_intermediate_dim := v\<rparr>
      else if strstr key ''vocab_size'' then c\<lparr>m_vocab_size := v\<rparr>
      else if strstr key ''context_length'' then c\<lparr>m_max_seq_len := v\<rparr>
      else c)"

definition config_f32 :: "string \<Rightarrow> u32 \<Rightarrow> model_config \<Rightarrow> model_config" where
  "config_f32 key val c =
     (if strstr key ''rope.freq_base'' then c\<lparr>m_rope_theta := val\<rparr>
      else if strstr key ''layer_norm_rms_epsilon'' \<or> strstr key ''rms_norm_eps'' then c\<lparr>m_rms_eps := val\<rparr>
      else c)"

definition neox_architectures :: "string list" where
  "neox_architectures = [''qwen'', ''qwen2'', ''qwen3'', ''qwen2moe'', ''qwen3moe'', ''gemma'', ''gemma2'',
     ''gemma3'', ''phi2'', ''phi3'', ''gptneox'', ''olmo'', ''olmo2'']"

text \<open>The branch for keys of more than 255 bytes skips the key and its value.\<close>

definition skip_long_kv :: "byte list \<Rightarrow> u64 \<Rightarrow> nat \<Rightarrow> nat option" where
  "skip_long_kv d key_len p = do {
     let p = seek_cur key_len p;
     (ty, p) \<leftarrow> rd32 d p;
     if ty \<le> 1 \<or> ty = 7 then Some (p + 1)
     else if ty \<le> 3 then Some (p + 2)
     else if ty \<le> 6 then Some (p + 4)
     else if ty \<ge> 10 \<and> ty \<le> 12 then Some (p + 8)
     else if ty = 8 then do { (sl, p) \<leftarrow> rd64 d p; Some (seek_cur sl p) }
     else if ty = 9 then do {
       (at, p) \<leftarrow> rd32 d p;
       (al, p) \<leftarrow> rd64 d p;
       if at = 8 then skip_strings (unat al) d p
       else
         (let esz = (if at \<le> 1 \<or> at = 7 then 1 else if at \<le> 3 then 2 else if at \<le> 6 then 4 else 8)
          in Some (seek_cur (al * esz) p))
     }
     else Some (p + 8)
   }"

definition read_config_kv :: "byte list \<Rightarrow> nat \<Rightarrow> model_config \<Rightarrow> (model_config \<times> nat) option" where
  "read_config_kv d p c = do {
     (key_len, p) \<leftarrow> rd64 d p;
     if key_len > 255 then map_option (\<lambda>p. (c, p)) (skip_long_kv d key_len p)
     else do {
       (kb, p) \<leftarrow> rd (unat key_len) d p;
       let key = c_str (str_of_bytes kb);
       (vtype, p) \<leftarrow> rd32 d p;
       if vtype = 4 then do { (val, p) \<leftarrow> rd32 d p; Some (config_u32 key val c, p) }
       else if vtype = 6 then do { (val, p) \<leftarrow> rd32 d p; Some (config_f32 key val c, p) }
       else if vtype = 8 then do {
         (str_len, p) \<leftarrow> rd64 d p;
         if strstr key ''general.name'' \<and> str_len < 256 then do {
           (b, p) \<leftarrow> rd (unat str_len) d p;
           Some (c\<lparr>m_name := c_str (str_of_bytes b)\<rparr>, p)
         }
         else if strstr key ''general.architecture'' then do {
           (b, p) \<leftarrow> rd (unat str_len) d p;
           Some (c\<lparr>m_rope_neox := str_of_bytes b \<in> set neox_architectures\<rparr>, p)
         }
         else Some (c, seek_cur str_len p)
       }
       else Some (c, p + 8)
     }
   }"

fun read_config_kvs :: "nat \<Rightarrow> byte list \<Rightarrow> nat \<Rightarrow> model_config \<Rightarrow> model_config option" where
  "read_config_kvs 0 d p c = Some c"
| "read_config_kvs (Suc n) d p c = do { (c, p) \<leftarrow> read_config_kv d p c; read_config_kvs n d p c }"

text \<open>\<^verbatim>\<open>rope_theta == 0.0f\<close> holds for both zeros; the default is \<^verbatim>\<open>10000.0f\<close>.\<close>

definition config_defaults :: "model_config \<Rightarrow> model_config" where
  "config_defaults c =
     (let c = (if m_head_dim c = 0 \<and> m_n_heads c > 0 \<and> m_hidden_dim c > 0
               then c\<lparr>m_head_dim := m_hidden_dim c sdiv m_n_heads c\<rparr> else c);
          c = (if m_rope_theta c AND 0x7FFFFFFF = 0 then c\<lparr>m_rope_theta := 0x461C4000\<rparr> else c);
          c = (if m_max_seq_len c = 0 then c\<lparr>m_max_seq_len := 2048\<rparr> else c)
      in (if m_n_kv_heads c = 0 then c\<lparr>m_n_kv_heads := m_n_heads c\<rparr> else c))"

definition vocab_from_tensors :: "tensor_info list \<Rightarrow> model_config \<Rightarrow> model_config" where
  "vocab_from_tensors tensors c =
     (case find (\<lambda>ti. ti_name ti = ''token_embd.weight'') tensors of
        None \<Rightarrow> c
      | Some ti \<Rightarrow>
          (let s0 = ti_shape ti ! 0;
               s1 = (if ti_n_dims ti \<ge> 2 then ti_shape ti ! 1 else 0);
               v = (if s0 = m_hidden_dim c then s1 else if s1 = m_hidden_dim c then s0 else max s0 s1)
           in c\<lparr>m_vocab_size := to_int32 v\<rparr>))"

definition config_vocab :: "byte list option \<Rightarrow> model_config \<Rightarrow> model_config option" where
  "config_vocab file c =
     (if m_vocab_size c = 0 \<and> m_hidden_dim c > 0 then do {
        (off, tensors) \<leftarrow> parse_tensor_infos file;
        let c = (if off \<ge> 0 then vocab_from_tensors tensors c else c);
        Some (if m_vocab_size c = 0 then c\<lparr>m_vocab_size := 32000\<rparr> else c)
      } else Some c)"

definition load_gguf_config :: "string \<Rightarrow> byte list option \<Rightarrow> model_config option" where
  "load_gguf_config path file =
     (let c = model_config_default\<lparr>m_name := path\<rparr> in
      case file of
        None \<Rightarrow> Some c
      | Some d \<Rightarrow> do {
          (magic, p) \<leftarrow> rd32 d 0;
          (version, p) \<leftarrow> rd32 d p;
          (n_tensors, p) \<leftarrow> rd64 d p;
          (n_kv, p) \<leftarrow> rd64 d p;
          if magic \<noteq> GGUF_MAGIC then Some c
          else do {
            c \<leftarrow> read_config_kvs (min (unat n_kv) 256) d p c;
            config_vocab file (config_defaults c)
          }
        })"


section \<open>Tensor sizes\<close>

definition ggml_type_block_size :: "int \<Rightarrow> int" where
  "ggml_type_block_size ty =
     (if ty \<in> {2, 3, 6, 7, 8, 9} then 32 else if ty \<in> {10, 11, 12, 13, 14} then 256 else 1)"

definition ggml_type_bytes_per_block :: "int \<Rightarrow> int" where
  "ggml_type_bytes_per_block ty =
     (if ty = 0 then 4 else if ty = 1 then 2 else if ty = 2 then 18 else if ty = 3 then 20
      else if ty = 6 then 22 else if ty = 7 then 24 else if ty = 8 then 34 else if ty = 9 then 36
      else if ty = 12 then 144 else if ty = 13 then 176 else if ty = 14 then 210
      else if ty = 10 then 84 else if ty = 11 then 110 else 4)"

definition tensor_bytes :: "int \<Rightarrow> int \<Rightarrow> int" where
  "tensor_bytes ty n_elements =
     (let block_size = ggml_type_block_size ty;
          n_blocks = (n_elements + block_size - 1) sdiv block_size
      in n_blocks * ggml_type_bytes_per_block ty)"


section \<open>The mapped weight region\<close>

text \<open>Addresses are integers; 0 is \<^verbatim>\<open>nullptr\<close>.\<close>

record weight_region =
  wr_host :: int
  wr_device :: int
  wr_bytes :: int

definition weight_region_none :: weight_region where
  "weight_region_none = \<lparr>wr_host = 0, wr_device = 0, wr_bytes = 0\<rparr>"

definition mapped_weight_device_enabled :: "env \<Rightarrow> bool" where
  "mapped_weight_device_enabled e = env_opt_out e ''JLLM_MAPPED_WEIGHTS''"

definition register_mapped_weight_region :: "int \<Rightarrow> int \<Rightarrow> int \<Rightarrow> weight_region" where
  "register_mapped_weight_region host device bytes = \<lparr>wr_host = host, wr_device = device, wr_bytes = bytes\<rparr>"

definition clear_mapped_weight_region :: "int \<Rightarrow> weight_region \<Rightarrow> weight_region" where
  "clear_mapped_weight_region host r = (if wr_host r = host then weight_region_none else r)"

definition resolve_mapped_weight_device_ptr :: "weight_region \<Rightarrow> int \<Rightarrow> int" where
  "resolve_mapped_weight_device_ptr r host_ptr =
     (if host_ptr = 0 \<or> wr_host r = 0 \<or> wr_device r = 0 then 0
      else if host_ptr < wr_host r \<or> host_ptr \<ge> wr_host r + wr_bytes r then 0
      else wr_device r + (host_ptr - wr_host r))"

record map_env =
  me_mmap :: "int option"
  me_host_register :: bool
  me_device_ptr :: "int option"

text \<open>\<^verbatim>\<open>load_gguf_weights\<close>: the address and size of the mapping, and the weight region it
  leaves registered.\<close>

definition load_gguf_weights ::
  "env \<Rightarrow> map_env \<Rightarrow> byte list option \<Rightarrow> weight_region \<Rightarrow> ((int \<times> int) option) \<times> weight_region"
where
  "load_gguf_weights e me file r =
     (case file of
        None \<Rightarrow> (None, r)
      | Some d \<Rightarrow>
          (let size = int (length d) in
           case me_mmap me of
             None \<Rightarrow> (None, r)
           | Some mapped \<Rightarrow>
               (Some (mapped, size),
                if \<not> mapped_weight_device_enabled e then r
                else if \<not> me_host_register me then r
                else (case me_device_ptr me of
                        Some dev \<Rightarrow> if dev \<noteq> 0 then register_mapped_weight_region mapped dev size else r
                      | None \<Rightarrow> r))))"


section \<open>Weight structures\<close>

text \<open>Pointers are addresses, 0 is \<^verbatim>\<open>nullptr\<close>. The per-channel scale pointers of the struct
  are never set by the loader. The structs are cleared with \<^verbatim>\<open>memset\<close>, which also clears the
  type fields.\<close>

record layer_weights =
  lw_wq :: int
  lw_wk :: int
  lw_wv :: int
  lw_wo :: int
  lw_w_gate :: int
  lw_w_up :: int
  lw_w_down :: int
  lw_rms_attn :: int
  lw_rms_ffn :: int
  lw_q_norm :: int
  lw_k_norm :: int
  lw_type_wq :: int
  lw_type_wk :: int
  lw_type_wv :: int
  lw_type_wo :: int
  lw_type_w_gate :: int
  lw_type_w_up :: int
  lw_type_w_down :: int
  lw_rms_type :: int
  lw_qk_norm_type :: int

definition layer_weights_zero :: layer_weights where
  "layer_weights_zero = \<lparr>lw_wq = 0, lw_wk = 0, lw_wv = 0, lw_wo = 0, lw_w_gate = 0, lw_w_up = 0, lw_w_down = 0,
     lw_rms_attn = 0, lw_rms_ffn = 0, lw_q_norm = 0, lw_k_norm = 0, lw_type_wq = 0, lw_type_wk = 0,
     lw_type_wv = 0, lw_type_wo = 0, lw_type_w_gate = 0, lw_type_w_up = 0, lw_type_w_down = 0,
     lw_rms_type = 0, lw_qk_norm_type = 0\<rparr>"

record model_weights =
  mw_tok_embd :: int
  mw_output_norm :: int
  mw_embd_type :: int
  mw_output :: int
  mw_output_type :: int
  mw_layers :: "layer_weights list"
  mw_n_layers :: int

definition model_weights_empty :: model_weights where
  "model_weights_empty = \<lparr>mw_tok_embd = 0, mw_output_norm = 0, mw_embd_type = 0, mw_output = 0,
     mw_output_type = 12, mw_layers = [], mw_n_layers = 0\<rparr>"

text \<open>\<^verbatim>\<open>sscanf(name, "blk.%d.", &layer) == 1\<close>: the literal, then a decimal number; the second
  dot does not count.\<close>

definition scan_blk :: "string \<Rightarrow> int option" where
  "scan_blk name =
     (if starts_with ''blk.'' name then
        (let r = dropWhile is_c_space (drop 4 name);
             (sgn, u) = (if r \<noteq> [] \<and> hd r = CHR ''-'' then (-1, tl r)
                         else if r \<noteq> [] \<and> hd r = CHR ''+'' then (1, tl r) else (1, r));
             ds = takeWhile is_digit u
         in if ds = [] then None else Some (to_int32 (clamp_i64 (sgn * digits_value ds))))
      else None)"

datatype weight_slot =
    S_wq | S_wk | S_wv | S_wo | S_gate | S_up | S_down | S_q_norm | S_k_norm | S_rms_attn | S_rms_ffn

definition layer_slot :: "string \<Rightarrow> weight_slot option" where
  "layer_slot name =
     (if strstr name ''attn_q.weight'' then Some S_wq
      else if strstr name ''attn_k.weight'' then Some S_wk
      else if strstr name ''attn_v.weight'' then Some S_wv
      else if strstr name ''attn_output.weight'' then Some S_wo
      else if strstr name ''ffn_gate.weight'' then Some S_gate
      else if strstr name ''ffn_up.weight'' then Some S_up
      else if strstr name ''ffn_down.weight'' then Some S_down
      else if strstr name ''attn_q_norm.weight'' then Some S_q_norm
      else if strstr name ''attn_k_norm.weight'' then Some S_k_norm
      else if strstr name ''attn_norm.weight'' then Some S_rms_attn
      else if strstr name ''ffn_norm.weight'' then Some S_rms_ffn
      else None)"

fun set_slot :: "weight_slot \<Rightarrow> int \<Rightarrow> int \<Rightarrow> layer_weights \<Rightarrow> layer_weights" where
  "set_slot S_wq ptr ty lw = lw\<lparr>lw_wq := ptr, lw_type_wq := ty\<rparr>"
| "set_slot S_wk ptr ty lw = lw\<lparr>lw_wk := ptr, lw_type_wk := ty\<rparr>"
| "set_slot S_wv ptr ty lw = lw\<lparr>lw_wv := ptr, lw_type_wv := ty\<rparr>"
| "set_slot S_wo ptr ty lw = lw\<lparr>lw_wo := ptr, lw_type_wo := ty\<rparr>"
| "set_slot S_gate ptr ty lw = lw\<lparr>lw_w_gate := ptr, lw_type_w_gate := ty\<rparr>"
| "set_slot S_up ptr ty lw = lw\<lparr>lw_w_up := ptr, lw_type_w_up := ty\<rparr>"
| "set_slot S_down ptr ty lw = lw\<lparr>lw_w_down := ptr, lw_type_w_down := ty\<rparr>"
| "set_slot S_q_norm ptr ty lw = lw\<lparr>lw_q_norm := ptr, lw_qk_norm_type := (if ty = 0 then 0 else 1)\<rparr>"
| "set_slot S_k_norm ptr ty lw = lw\<lparr>lw_k_norm := ptr, lw_qk_norm_type := (if ty = 0 then 0 else 1)\<rparr>"
| "set_slot S_rms_attn ptr ty lw = lw\<lparr>lw_rms_attn := ptr, lw_rms_type := (if ty = 0 then 0 else 1)\<rparr>"
| "set_slot S_rms_ffn ptr ty lw = lw\<lparr>lw_rms_ffn := ptr, lw_rms_type := (if ty = 0 then 0 else 1)\<rparr>"

fun get_slot :: "weight_slot \<Rightarrow> layer_weights \<Rightarrow> int" where
  "get_slot S_wq lw = lw_wq lw"
| "get_slot S_wk lw = lw_wk lw"
| "get_slot S_wv lw = lw_wv lw"
| "get_slot S_wo lw = lw_wo lw"
| "get_slot S_gate lw = lw_w_gate lw"
| "get_slot S_up lw = lw_w_up lw"
| "get_slot S_down lw = lw_w_down lw"
| "get_slot S_q_norm lw = lw_q_norm lw"
| "get_slot S_k_norm lw = lw_k_norm lw"
| "get_slot S_rms_attn lw = lw_rms_attn lw"
| "get_slot S_rms_ffn lw = lw_rms_ffn lw"

text \<open>One tensor of the mapping loop, with the counter of mapped tensors.\<close>

definition blk_layer :: "int \<Rightarrow> string \<Rightarrow> nat option" where
  "blk_layer n_layers name =
     (case scan_blk name of
        Some layer \<Rightarrow> if layer \<ge> 0 \<and> layer < n_layers then Some (nat layer) else None
      | None \<Rightarrow> None)"

definition map_tensor :: "int \<Rightarrow> int \<Rightarrow> tensor_info \<Rightarrow> model_weights \<times> nat \<Rightarrow> model_weights \<times> nat" where
  "map_tensor n_layers base ti = (\<lambda>(mw, mapped).
     (let ptr = base + uint (ti_offset ti); ty = int_of_u32 (ti_type ti); name = ti_name ti in
      case blk_layer n_layers name of
        Some l \<Rightarrow>
          (case layer_slot name of
             Some sl \<Rightarrow> (mw\<lparr>mw_layers := (mw_layers mw)[l := set_slot sl ptr ty (mw_layers mw ! l)]\<rparr>, mapped + 1)
           | None \<Rightarrow> (mw, mapped))
      | None \<Rightarrow>
          if name = ''token_embd.weight'' then (mw\<lparr>mw_tok_embd := ptr, mw_embd_type := ty\<rparr>, mapped + 1)
          else if name = ''output_norm.weight'' then (mw\<lparr>mw_output_norm := ptr\<rparr>, mapped + 1)
          else if name = ''output.weight'' then (mw\<lparr>mw_output := ptr, mw_output_type := ty\<rparr>, mapped + 1)
          else (mw, mapped)))"

definition tie_output :: "model_weights \<Rightarrow> model_weights" where
  "tie_output mw =
     (if mw_output mw = 0 \<and> mw_tok_embd mw \<noteq> 0
      then mw\<lparr>mw_output := mw_tok_embd mw, mw_output_type := mw_embd_type mw\<rparr> else mw)"

text \<open>\<^verbatim>\<open>load_and_map_weights\<close>: success, the mapping, the weights and the registered region;
  \<^verbatim>\<open>None\<close> where the tensor table cannot be read without undefined behaviour.\<close>

definition load_and_map_weights ::
  "env \<Rightarrow> map_env \<Rightarrow> byte list option \<Rightarrow> model_config \<Rightarrow> model_weights \<Rightarrow> weight_region \<Rightarrow>
   (bool \<times> (int \<times> int) option \<times> model_weights \<times> weight_region) option"
where
  "load_and_map_weights e me file c mw0 r = do {
     (data_offset, tensors) \<leftarrow> parse_tensor_infos file;
     if data_offset < 0 then Some (False, None, mw0, r)
     else
       (case load_gguf_weights e me file r of
          (None, r) \<Rightarrow> Some (False, None, mw0, r)
        | (Some (blob, blob_size), r) \<Rightarrow>
            (let mw = mw0\<lparr>mw_n_layers := m_n_layers c,
                          mw_layers := replicate (nat (m_n_layers c)) layer_weights_zero\<rparr>;
                 (mw, mapped) = fold (map_tensor (m_n_layers c) (blob + data_offset)) tensors (mw, 0)
             in Some (mapped > 0, Some (blob, blob_size), tie_output mw, r)))
   }"

text \<open>\<^verbatim>\<open>map_weights\<close> allocates the structs and maps nothing; it reads the header but does not
  use it.\<close>

definition map_weights :: "model_config \<Rightarrow> model_weights" where
  "map_weights c = model_weights_empty\<lparr>mw_n_layers := m_n_layers c,
     mw_layers := replicate (nat (m_n_layers c)) layer_weights_zero\<rparr>"


section \<open>Configurations read back\<close>

text \<open>The metadata the configuration reader understands: 32-bit integers and floats, strings, and
  scalars of eight bytes, under keys of at most 255 characters.\<close>

fun config_value_ok :: "gguf_value \<Rightarrow> bool" where
  "config_value_ok (GScalar ty b) \<longleftrightarrow> ty \<in> {4, 6, 10, 11, 12}"
| "config_value_ok (GString b) \<longleftrightarrow> True"
| "config_value_ok _ \<longleftrightarrow> False"

definition config_kv_ok :: "gguf_kv \<Rightarrow> bool" where
  "config_kv_ok kv \<longleftrightarrow> kv_ok kv \<and> length (fst kv) \<le> 255 \<and> CHR 0x00 \<notin> set (fst kv) \<and> config_value_ok (snd kv)"

text \<open>What a metadata entry means for the configuration.\<close>

fun config_apply :: "string \<Rightarrow> gguf_value \<Rightarrow> model_config \<Rightarrow> model_config" where
  "config_apply key (GScalar ty b) c =
     (if ty = 4 then config_u32 key (u32_of b) c else if ty = 6 then config_f32 key (u32_of b) c else c)"
| "config_apply key (GString b) c =
     (if strstr key ''general.name'' \<and> length b < 256 then c\<lparr>m_name := c_str (str_of_bytes b)\<rparr>
      else if strstr key ''general.architecture'' then c\<lparr>m_rope_neox := str_of_bytes b \<in> set neox_architectures\<rparr>
      else c)"
| "config_apply key _ c = c"

definition config_of_metadata :: "gguf_kv list \<Rightarrow> model_config \<Rightarrow> model_config" where
  "config_of_metadata kvs c = fold (\<lambda>(key, v). config_apply key v) kvs c"

lemma rd_le32:
  assumes "drop p d = b @ r" "length b = 4"
  shows "rd32 d p = Some (u32_of b, p + 4)"
  using rd_at [OF assms(1), of 4] assms(2) by (simp add: rd32_def)

lemma of_nat_u64_less: "n < 2 ^ 64 \<Longrightarrow> k < 2 ^ 64 \<Longrightarrow> (of_nat n < (of_nat k :: u64)) = (n < k)"
  by (simp add: word_less_nat_alt unat_of_nat)

lemma read_config_kv_at:
  assumes ok: "config_kv_ok kv" and at: "drop p d = kv_bytes kv @ r"
  shows "read_config_kv d p c = Some (config_apply (fst kv) (snd kv) c, p + length (kv_bytes kv))"
proof -
  let ?k = "bytes_of_str (fst kv)"
  have a1: "drop p d = lp_bytes ?k @ (le32 (value_type (snd kv)) @ (value_bytes (snd kv) @ r))"
    using at by (simp add: kv_bytes_def)
  note a2 = lp_at(2) [OF a1] and a3 = lp_at(3) [OF a1]
  note a4 = drop_step(1) [OF a3]
  have kl: "length ?k \<le> 255" "value_ok (snd kv)" "config_value_ok (snd kv)"
    using ok by (auto simp: config_kv_ok_def kv_ok_def)
  have n: "unat (of_nat (length ?k) :: u64) = length ?k" using kl(1) by (simp add: unat_of_nat)
  have short: "\<not> (255 < (of_nat (length ?k) :: u64))"
    using kl(1) of_nat_u64_less [of 255 "length ?k"] by simp
  have key: "c_str (str_of_bytes ?k) = fst kv" using ok by (simp add: config_kv_ok_def c_str_no_nul)
  note base = lp_at(1) [OF a1] n short rd_at [OF a2, of "length ?k"] key rd32_at [OF a3]
  show ?thesis
  proof (cases "snd kv")
    case (GScalar ty b)
    have lb: "length b = gguf_scalar_size ty" using kl(2) GScalar by simp
    have a5: "drop (p + 8 + length ?k + 4) d = b @ r" using a4 GScalar by simp
    have v: "rd32 d (p + 8 + length ?k + 4) = Some (u32_of b, p + 8 + length ?k + 4 + 4)" if "ty = 4 \<or> ty = 6"
      using rd_le32 [OF a5] that lb by (auto simp: gguf_scalar_size_def)
    have "ty \<in> {4, 6, 10, 11, 12}" using kl(3) GScalar by simp
    then show ?thesis
      unfolding read_config_kv_def using base v GScalar lb
      by (auto simp: Let_def kv_bytes_def gguf_scalar_size_def)
  next
    case (GString b)
    have a5: "drop (p + 8 + length ?k + 4) d = lp_bytes b @ r" using a4 GString by simp
    note s = lp_at [OF a5]
    have lb: "length b < 2 ^ 63" using kl(2) GString by simp
    have nb: "unat (of_nat (length b) :: u64) = length b" using lb by (simp add: unat_of_nat)
    have lt: "((of_nat (length b) :: u64) < 256) = (length b < 256)"
      using lb of_nat_u64_less [of "length b" 256] by simp
    show ?thesis
      unfolding read_config_kv_def
      using base s(1) rd_at [OF s(2), of "length b"] nb lt seek_cur_small [OF lb, of "p + 8 + length ?k + 4 + 8"] GString
      by (auto simp: Let_def kv_bytes_def)
  qed (use kl(3) in auto)
qed

lemma read_config_kvs_at:
  assumes "list_all config_kv_ok kvs" "drop p d = concat (map kv_bytes kvs) @ r"
  shows "read_config_kvs (length kvs) d p c = Some (config_of_metadata kvs c)"
  using assms
proof (induction kvs arbitrary: p c)
  case (Cons kv kvs)
  have a: "drop p d = kv_bytes kv @ (concat (map kv_bytes kvs) @ r)" using Cons.prems(2) by simp
  show ?case
    using Cons.IH [OF _ drop_add_append [OF a]] read_config_kv_at [OF _ a] Cons.prems(1)
    by (simp add: config_of_metadata_def case_prod_beta)
qed (simp add: config_of_metadata_def)

lemma load_gguf_config_at:
  assumes kvs: "list_all config_kv_ok (take 256 kvs)" "list_all kv_ok kvs" "length kvs < 2 ^ 64"
    and tis: "list_all tensor_info_ok tis" "length tis < 2 ^ 64"
  shows "load_gguf_config path (Some (gguf_bytes version kvs tis @ data)) =
    (let c = config_defaults (config_of_metadata (take 256 kvs) (model_config_default\<lparr>m_name := path\<rparr>)) in
     Some (if m_vocab_size c = 0 \<and> m_hidden_dim c > 0 then
             (let c = vocab_from_tensors tis c
              in if m_vocab_size c = 0 then c\<lparr>m_vocab_size := 32000\<rparr> else c)
           else c))"
proof -
  let ?d = "gguf_bytes version kvs tis @ data"
  let ?K1 = "concat (map kv_bytes (take 256 kvs))" and ?K2 = "concat (map kv_bytes (drop 256 kvs))"
  let ?T = "concat (map tensor_info_bytes tis)"
  have split: "concat (map kv_bytes kvs) = ?K1 @ ?K2"
    by (metis append_take_drop_id concat_append map_append)
  have a0: "drop 0 ?d = le32 GGUF_MAGIC @ (le32 version @ (le64 (of_nat (length tis)) @
      (le64 (of_nat (length kvs)) @ (?K1 @ (?K2 @ ?T @ data)))))"
    by (simp add: gguf_bytes_def split)
  note a1 = drop_step(1) [OF a0]
  note a2 = drop_step(1) [OF a1]
  note a3 = drop_step(2) [OF a2]
  note a4 = drop_step(2) [OF a3]
  have n: "unat (of_nat (length kvs) :: u64) = length kvs" using kvs le64_of_nat_less by blast
  have len: "length (take 256 kvs) = min (length kvs) 256" by simp
  have rd: "read_config_kvs (min (length kvs) 256) ?d (0 + 4 + 4 + 8 + 8) c =
      Some (config_of_metadata (take 256 kvs) c)" for c
    using read_config_kvs_at [OF kvs(1) a4, of c] unfolding len .
  obtain off where off: "parse_tensor_infos (Some ?d) = Some (off, tis)" "0 \<le> off"
    using parse_tensor_infos_at [OF kvs(2,3) tis, of version data] by auto
  show ?thesis
    unfolding load_gguf_config_def
    using rd32_at [OF a0] rd32_at [OF a1] rd64_at [OF a2] rd64_at [OF a3] rd n off
    by (simp add: config_vocab_def Let_def)
qed


definition demo_config_kvs :: "gguf_kv list" where
  "demo_config_kvs = [(''qwen3.block_count'', GScalar 4 (le32 28)), (''qwen3.embedding_length'', GScalar 4 (le32 64)),
     (''qwen3.attention.head_count'', GScalar 4 (le32 4)), (''general.architecture'', GString (bytes_of_str ''qwen3''))]"


text \<open>Other scalars lose the reader: after a boolean, an 8- or 16-bit value or a signed 32-bit
  value, whatever its key, the configuration reader stands up to seven bytes inside the next entry,
  because it skips eight bytes for every type it does not know, while the tensor-table reader skips
  the same entry exactly.\<close>

theorem config_reader_skips_too_far:
  assumes ok: "kv_ok kv" and key: "length (fst kv) \<le> 255" and val: "snd kv = GScalar ty b"
    and ty: "ty \<in> {0, 1, 2, 3, 5, 7}" and at: "drop p d = kv_bytes kv @ r"
  shows "read_config_kv d p c = Some (c, p + length (kv_bytes kv) + (8 - gguf_scalar_size ty)) \<and>
    0 < 8 - gguf_scalar_size ty \<and>
    skip_kvs 1 d p = Some (p + length (kv_bytes kv))"
proof -
  let ?k = "bytes_of_str (fst kv)"
  have a1: "drop p d = lp_bytes ?k @ (le32 ty @ (b @ r))"
    using at val by (simp add: kv_bytes_def)
  note a2 = lp_at(2) [OF a1] and a3 = lp_at(3) [OF a1]
  have lb: "length b = gguf_scalar_size ty" using ok val by (simp add: kv_ok_def)
  have n: "unat (of_nat (length ?k) :: u64) = length ?k" using key by (simp add: unat_of_nat)
  have short: "\<not> (255 < (of_nat (length ?k) :: u64))"
    using key of_nat_u64_less [of 255 "length ?k"] by simp
  have "read_config_kv d p c = Some (c, p + 8 + length ?k + 4 + 8)"
    unfolding read_config_kv_def
    using lp_at(1) [OF a1] n short rd_at [OF a2, of "length ?k"] rd32_at [OF a3] ty
    by (auto simp: Let_def)
  moreover have "gguf_scalar_size ty \<le> 4" using ty by (auto simp: gguf_scalar_size_def)
  moreover have "skip_kvs (length [kv]) d p = Some (p + length (concat (map kv_bytes [kv])))"
    using ok at by (intro skip_kvs_at [of _ _ _ r]) simp_all
  ultimately show ?thesis using val lb by (simp add: kv_bytes_def)
qed

theorem config_reader_skips_too_far_witness:
  "let kv = (''q.flag'', GScalar 7 [1]); d = kv_bytes kv @ kv_bytes (''q.block_count'', GScalar 4 (le32 28))
   in read_config_kv d 0 model_config_default = Some (model_config_default, length (kv_bytes kv) + 7) \<and>
      skip_kvs 1 d 0 = Some (length (kv_bytes kv))"
  using config_reader_skips_too_far [of "(''q.flag'', GScalar 7 [1])" 7 "[1]" 0
      "kv_bytes (''q.flag'', GScalar 7 [1]) @ kv_bytes (''q.block_count'', GScalar 4 (le32 28))"
      "kv_bytes (''q.block_count'', GScalar 4 (le32 28))" model_config_default]
  by (simp add: kv_ok_def gguf_scalar_size_def Let_def)


section \<open>Tensors reach their slots\<close>

fun slot_suffix :: "weight_slot \<Rightarrow> string" where
  "slot_suffix S_wq = ''attn_q.weight''"
| "slot_suffix S_wk = ''attn_k.weight''"
| "slot_suffix S_wv = ''attn_v.weight''"
| "slot_suffix S_wo = ''attn_output.weight''"
| "slot_suffix S_gate = ''ffn_gate.weight''"
| "slot_suffix S_up = ''ffn_up.weight''"
| "slot_suffix S_down = ''ffn_down.weight''"
| "slot_suffix S_q_norm = ''attn_q_norm.weight''"
| "slot_suffix S_k_norm = ''attn_k_norm.weight''"
| "slot_suffix S_rms_attn = ''attn_norm.weight''"
| "slot_suffix S_rms_ffn = ''ffn_norm.weight''"

definition canonical_name :: "string \<Rightarrow> weight_slot \<Rightarrow> string" where
  "canonical_name ds sl = ''blk.'' @ ds @ ''.'' @ slot_suffix sl"

lemma strstr_skip:
  assumes "t \<noteq> []" "hd t \<notin> set pre"
  shows "strstr (pre @ s) t = strstr s t"
  using assms(2)
proof (induction pre)
  case (Cons c pre)
  have "\<not> starts_with t (c # pre @ s)"
    using Cons.prems assms(1) by (cases t) (auto simp: starts_with_def)
  then show ?case using Cons by (simp add: strstr_def)
qed simp

lemma layer_slot_canonical:
  assumes "list_all is_digit ds"
  shows "layer_slot (canonical_name ds sl) = Some sl"
proof -
  have no: "CHR ''a'' \<notin> set (''blk.'' @ ds @ ''.'')" "CHR ''f'' \<notin> set (''blk.'' @ ds @ ''.'')"
    using assms by (auto simp: list_all_iff is_digit_def)
  have skip: "strstr (canonical_name ds sl) t = strstr (slot_suffix sl) t"
    if "t \<noteq> []" "hd t = CHR ''a'' \<or> hd t = CHR ''f''" for t
    using strstr_skip [of t "''blk.'' @ ds @ ''.''" "slot_suffix sl"] that no
    by (auto simp: canonical_name_def)
  show ?thesis unfolding layer_slot_def
    by (simp only: skip list.distinct list.sel simp_thms not_False_eq_True)
       (cases sl; simp add: strstr_def starts_with_def)
qed

lemma scan_blk_canonical:
  assumes "ds \<noteq> []" "list_all is_digit ds" "digits_value ds < 2 ^ 31"
  shows "scan_blk (canonical_name ds sl) = Some (digits_value ds)"
proof -
  obtain d ds' where d: "ds = d # ds'" "is_digit d" using assms by (cases ds) auto
  have dot: "\<not> is_digit (CHR ''.'')" by (simp add: is_digit_def)
  have tw: "takeWhile is_digit (ds @ CHR ''.'' # slot_suffix sl) = ds"
    using assms(2) dot by (simp add: takeWhile_append2 list_all_iff)
  have v: "0 \<le> digits_value ds" using assms(2) by (rule digits_value_nonneg)
  then have "to_int32 (clamp_i64 (digits_value ds)) = digits_value ds"
    using assms(3) by (simp add: clamp_i64_def to_int32_id)
  then show ?thesis
    using d digit_chars [OF d(2)] tw
    by (simp add: scan_blk_def canonical_name_def starts_with_def Let_def)
qed

lemma get_set_slot: "get_slot sl (set_slot sl' ptr ty lw) = (if sl = sl' then ptr else get_slot sl lw)"
  by (cases sl; cases sl') simp_all

text \<open>The layer and slot a tensor goes to, if any.\<close>

definition tensor_target :: "int \<Rightarrow> tensor_info \<Rightarrow> (nat \<times> weight_slot) option" where
  "tensor_target n_layers ti = do {
     l \<leftarrow> blk_layer n_layers (ti_name ti);
     sl \<leftarrow> layer_slot (ti_name ti);
     Some (l, sl)
   }"

lemma map_tensor_slot:
  assumes "l < length (mw_layers mw)"
  shows "get_slot sl (mw_layers (fst (map_tensor n base ti (mw, k))) ! l) =
    (if tensor_target n ti = Some (l, sl) then base + uint (ti_offset ti) else get_slot sl (mw_layers mw ! l))"
proof (cases "blk_layer n (ti_name ti)")
  case (Some j)
  then show ?thesis
    using assms
    by (cases "layer_slot (ti_name ti)"; cases "j = l")
       (simp_all add: map_tensor_def tensor_target_def Let_def get_set_slot)
next
  case None
  then have "mw_layers (fst (map_tensor n base ti (mw, k))) = mw_layers mw"
    by (simp add: map_tensor_def Let_def)
  then show ?thesis using None by (simp add: tensor_target_def)
qed

lemma map_tensor_length: "length (mw_layers (fst (map_tensor n base ti s))) = length (mw_layers (fst s))"
  by (cases s) (auto simp: map_tensor_def Let_def split: option.splits)

lemma fold_map_tensor_length:
  "length (mw_layers (fst (fold (map_tensor n base) tis s))) = length (mw_layers (fst s))"
  by (induction tis arbitrary: s) (simp_all add: map_tensor_length)

lemma fold_map_tensor_keep:
  assumes "l < length (mw_layers (fst s))" "list_all (\<lambda>t. tensor_target n t \<noteq> Some (l, sl)) tis"
  shows "get_slot sl (mw_layers (fst (fold (map_tensor n base) tis s)) ! l) = get_slot sl (mw_layers (fst s) ! l)"
  using assms
proof (induction tis arbitrary: s)
  case (Cons t tis)
  then show ?case
    using map_tensor_slot [of l "fst s" sl n base t "snd s"] map_tensor_length [of n base t s] by simp
qed simp

lemma fold_map_tensor_mono: "snd s \<le> snd (fold (map_tensor n base) tis s)"
proof (induction tis arbitrary: s)
  case (Cons t tis)
  have "snd s \<le> snd (map_tensor n base t s)"
    by (cases s) (auto simp: map_tensor_def Let_def split: option.splits)
  then show ?case using Cons [of "map_tensor n base t s"] by simp
qed simp

lemma map_tensor_counts: "tensor_target n ti = Some x \<Longrightarrow> 0 < snd (map_tensor n base ti s)"
  by (cases s) (auto simp: map_tensor_def tensor_target_def Let_def bind_eq_Some_conv)

text \<open>(C28) Weights land where their names say: in a file whose table has the tensor
  \<^verbatim>\<open>blk.N.<slot>\<close> for a layer \<^verbatim>\<open>N\<close> of the model, and no later tensor for the same slot,
  loading leaves layer \<^verbatim>\<open>N\<close>'s pointer for that slot at the tensor's offset in the data section
  of the mapping; the eleven name patterns are tested in an order in which none hides another.\<close>

theorem tensors_reach_their_slots:
  assumes kvs: "list_all kv_ok kvs" "length kvs < 2 ^ 64"
    and tis: "list_all tensor_info_ok tis" "length tis < 2 ^ 64" "tis = ts1 @ ti # ts2"
    and name: "ti_name ti = canonical_name ds sl" "ds \<noteq> []" "list_all is_digit ds"
    and layer: "digits_value ds < m_n_layers c" "m_n_layers c < 2 ^ 31"
    and later: "list_all (\<lambda>t. tensor_target (m_n_layers c) t \<noteq> Some (nat (digits_value ds), sl)) ts2"
    and mmap: "me_mmap me = Some blob"
  shows "\<exists>off mw r'. load_and_map_weights e me (Some (gguf_bytes version kvs tis @ data)) c mw0 r =
      Some (True, Some (blob, int (length (gguf_bytes version kvs tis @ data))), mw, r') \<and>
    off mod 32 = 0 \<and> int (length (gguf_bytes version kvs tis)) \<le> off \<and>
    get_slot sl (mw_layers mw ! nat (digits_value ds)) = blob + off + uint (ti_offset ti)"
proof -
  let ?d = "gguf_bytes version kvs tis @ data" and ?n = "m_n_layers c" and ?N = "nat (digits_value ds)"
  define off where "off = (int (length (gguf_bytes version kvs tis)) + 31) div 32 * 32"
  have parse: "parse_tensor_infos (Some ?d) = Some (off, tis)"
    unfolding off_def by (rule parse_tensor_infos_at [OF kvs tis(1,2)])
  have offs: "0 \<le> off" "off mod 32 = 0" "int (length (gguf_bytes version kvs tis)) \<le> off"
    unfolding off_def by (simp, simp, linarith)
  obtain r' where gw: "load_gguf_weights e me (Some ?d) r = (Some (blob, int (length ?d)), r')"
    using mmap by (simp add: load_gguf_weights_def Let_def)
  let ?s0 = "(mw0\<lparr>mw_n_layers := ?n, mw_layers := replicate (nat ?n) layer_weights_zero\<rparr>, 0 :: nat)"
  let ?f = "map_tensor ?n (blob + off)"
  have v: "0 \<le> digits_value ds" using name(3) by (rule digits_value_nonneg)
  have tgt: "tensor_target ?n ti = Some (?N, sl)"
    using scan_blk_canonical [OF name(2,3)] layer_slot_canonical [OF name(3)] v layer
    by (simp add: tensor_target_def blk_layer_def name(1))
  have len: "?N < length (mw_layers (fst (fold ?f ts1 ?s0)))"
    using layer v by (simp add: fold_map_tensor_length)
  have reached: "get_slot sl (mw_layers (fst (fold ?f tis ?s0)) ! ?N) = blob + off + uint (ti_offset ti)"
    using fold_map_tensor_keep [of ?N "?f ti (fold ?f ts1 ?s0)" ?n sl ts2 "blob + off"] later len tgt
      map_tensor_slot [of ?N "fst (fold ?f ts1 ?s0)" sl ?n "blob + off" ti "snd (fold ?f ts1 ?s0)"]
    by (simp add: tis(3) map_tensor_length)
  have pos: "0 < snd (fold ?f tis ?s0)"
    using map_tensor_counts [OF tgt, of "blob + off" "fold ?f ts1 ?s0"]
      fold_map_tensor_mono [of "?f ti (fold ?f ts1 ?s0)" ?n "blob + off" ts2]
    by (simp add: tis(3))
  have "load_and_map_weights e me (Some ?d) c mw0 r =
      Some (True, Some (blob, int (length ?d)), tie_output (fst (fold ?f tis ?s0)), r')"
    using parse gw offs(1) pos
    by (simp add: load_and_map_weights_def case_prod_beta)
  moreover have "mw_layers (tie_output mw) = mw_layers mw" for mw by (simp add: tie_output_def)
  ultimately show ?thesis using reached offs(2,3) by auto
qed

theorem tensors_reach_their_slots_witness:
  "let ti = \<lparr>ti_name = ''blk.2.attn_k.weight'', ti_n_dims = 1, ti_shape = [32, 1, 1, 1], ti_type = 12, ti_offset = 64\<rparr>;
       c = model_config_default\<lparr>m_n_layers := 3\<rparr>; me = \<lparr>me_mmap = Some 4096, me_host_register = True, me_device_ptr = None\<rparr>
   in \<exists>off mw r'. load_and_map_weights (\<lambda>_. None) me (Some (gguf_bytes 3 demo_kvs [demo_tensor, ti] @ [])) c
          model_weights_empty weight_region_none =
        Some (True, Some (4096, int (length (gguf_bytes 3 demo_kvs [demo_tensor, ti] @ []))), mw, r') \<and>
      off mod 32 = 0 \<and> lw_wk (mw_layers mw ! 2) = 4096 + off + 64"
proof -
  let ?ti = "\<lparr>ti_name = ''blk.2.attn_k.weight'', ti_n_dims = 1, ti_shape = [32, 1, 1, 1], ti_type = 12, ti_offset = 64\<rparr> :: tensor_info"
  have ok: "tensor_info_ok ?ti" by (simp add: tensor_info_ok_def numeral_3_eq_3)
  have v: "digits_value ''2'' = 2" by (simp add: digits_value_def)
  have len: "length demo_kvs < 2 ^ 64" by (simp add: demo_kvs_def)
  have all: "list_all tensor_info_ok [demo_tensor, ?ti]" using demo_tensor_ok ok by simp
  have nm: "ti_name ?ti = canonical_name ''2'' S_wk" by (simp add: canonical_name_def)
  let ?c = "model_config_default\<lparr>m_n_layers := 3\<rparr>"
  let ?me = "\<lparr>me_mmap = Some 4096, me_host_register = True, me_device_ptr = None\<rparr> :: map_env"
  have tis: "[demo_tensor, ?ti] = [demo_tensor] @ ?ti # []" "length [demo_tensor, ?ti] < 2 ^ 64" by simp_all
  have dig: "''2'' \<noteq> []" "list_all is_digit ''2''" "digits_value ''2'' < m_n_layers ?c" "m_n_layers ?c < 2 ^ 31"
    by (simp_all add: v is_digit_def)
  have me: "me_mmap ?me = Some 4096" by simp
  have none: "list_all (\<lambda>t. tensor_target (m_n_layers ?c) t \<noteq> Some (nat (digits_value ''2''), S_wk)) []" by simp
  from tensors_reach_their_slots [OF demo_kvs_ok len all tis(2,1) nm dig none me]
  obtain off mw r' where "load_and_map_weights (\<lambda>_. None) ?me (Some (gguf_bytes 3 demo_kvs [demo_tensor, ?ti] @ [])) ?c
          model_weights_empty weight_region_none =
        Some (True, Some (4096, int (length (gguf_bytes 3 demo_kvs [demo_tensor, ?ti] @ []))), mw, r')"
      "off mod 32 = 0" "get_slot S_wk (mw_layers mw ! nat (digits_value ''2'')) = 4096 + off + uint (ti_offset ?ti)"
    by metis
  moreover from this(3) have "lw_wk (mw_layers mw ! 2) = 4096 + off + 64" by (simp add: v)
  ultimately show ?thesis unfolding Let_def by (intro exI [of _ off] exI [of _ mw] exI [of _ r']) simp
qed

end
