(* ===== verification/Bpe_Tokenizer.thy ===== *)
theory Bpe_Tokenizer
  imports C_Text
begin

unbundle bit_operations_syntax

text \<open>
  The byte-level BPE tokenizer of \<^verbatim>\<open>src/engine/tokenizer.cpp\<close>: the UTF-8 helpers, the
  GPT-2 byte alphabet, the pre-tokenizer, the merge loop, \<^verbatim>\<open>Tokenizer::encode\<close> and
  \<^verbatim>\<open>Tokenizer::decode\<close>. Reading the vocabulary from a model file is in
  \<^verbatim>\<open>Tokenizer_Load\<close>.

  Index loops over a string recurse on the part not yet consumed. Characters are bytes:
  \<^verbatim>\<open>of_char\<close> is the value of an \<^verbatim>\<open>unsigned char\<close>, \<^verbatim>\<open>char_of\<close> the cast to
  \<^verbatim>\<open>char\<close>. The outer loop of \<^verbatim>\<open>encode\<close> would not end on an empty special token, so it
  runs on fuel, one unit per character of the text; loaded tokenizers have no such token and the
  fuel is shown to be enough.
\<close>


section \<open>UTF-8\<close>

definition utf8_from_codepoint :: "nat \<Rightarrow> string" where
  "utf8_from_codepoint cp =
     (if cp \<le> 0x7F then [char_of cp]
      else if cp \<le> 0x7FF then
        [char_of (0xC0 OR drop_bit 6 cp), char_of (0x80 OR (cp AND 0x3F))]
      else if cp \<le> 0xFFFF then
        [char_of (0xE0 OR drop_bit 12 cp), char_of (0x80 OR (drop_bit 6 cp AND 0x3F)),
         char_of (0x80 OR (cp AND 0x3F))]
      else
        [char_of (0xF0 OR drop_bit 18 cp), char_of (0x80 OR (drop_bit 12 cp AND 0x3F)),
         char_of (0x80 OR (drop_bit 6 cp AND 0x3F)), char_of (0x80 OR (cp AND 0x3F))])"

definition utf8_len :: "char \<Rightarrow> nat" where
  "utf8_len ch =
     (let c = (of_char ch :: nat) in
      if c AND 0x80 = 0 then 1
      else if c AND 0xE0 = 0xC0 then 2
      else if c AND 0xF0 = 0xE0 then 3
      else if c AND 0xF8 = 0xF0 then 4
      else 1)"

lemma utf8_len_pos: "0 < utf8_len c"
  by (simp add: utf8_len_def Let_def)

text \<open>The length of the next symbol of a non-empty string, cut to one byte when the string ends
  inside it.\<close>

definition symbol_len :: "string \<Rightarrow> nat" where
  "symbol_len s = (let len = utf8_len (hd s) in if len > length s then 1 else len)"

lemma symbol_len_pos: "0 < symbol_len s"
  by (simp add: symbol_len_def Let_def utf8_len_pos)

function split_utf8_symbols :: "string \<Rightarrow> string list" where
  "split_utf8_symbols s =
     (if s = [] then []
      else take (symbol_len s) s # split_utf8_symbols (drop (symbol_len s) s))"
  by auto
termination by (relation "measure length") (auto simp: symbol_len_pos)

declare split_utf8_symbols.simps [simp del]


section \<open>The byte alphabet\<close>

text \<open>The tables built by \<^verbatim>\<open>byte_encoder\<close>: bytes, their code points and the next free one.\<close>

definition byte_table_init :: "nat list" where
  "byte_table_init = [33..<127] @ [0xA1..<0xAD] @ [0xAE..<0x100]"

definition byte_table_step :: "nat \<Rightarrow> nat list \<times> nat list \<times> nat \<Rightarrow> nat list \<times> nat list \<times> nat" where
  "byte_table_step b = (\<lambda>(bs, cs, n).
     if b \<notin> set bs then (bs @ [b], cs @ [256 + n], n + 1) else (bs, cs, n))"

definition byte_encoder :: "string list" where
  "byte_encoder =
     (let (bs, cs, n) = fold byte_table_step [0..<256] (byte_table_init, byte_table_init, 0)
      in fold (\<lambda>(b, cp) out. out[b := utf8_from_codepoint cp]) (zip bs cs) (replicate 256 []))"

definition byte_decoder :: "string \<rightharpoonup> char" where
  "byte_decoder = fold (\<lambda>i m. m(byte_encoder ! i \<mapsto> char_of i)) [0..<256] Map.empty"

definition encode_bytes_gpt2 :: "string \<Rightarrow> string" where
  "encode_bytes_gpt2 text = concat (map (\<lambda>c. byte_encoder ! of_char c) text)"


section \<open>The pre-tokenizer\<close>

definition is_c_alpha :: "char \<Rightarrow> bool" where
  "is_c_alpha c \<longleftrightarrow> (let n = (of_char c :: nat) in (65 \<le> n \<and> n \<le> 90) \<or> (97 \<le> n \<and> n \<le> 122))"

definition contractions :: "string list" where
  "contractions = [''s'', ''t'', ''re'', ''ve'', ''m'', ''ll'', ''d'']"

definition is_c_other :: "char \<Rightarrow> bool" where
  "is_c_other c \<longleftrightarrow> \<not> is_c_space c \<and> \<not> is_c_alpha c \<and> \<not> is_digit c"

text \<open>The length of the piece one iteration takes from the rest of the text.\<close>

definition contraction_at :: "string \<Rightarrow> string option" where
  "contraction_at s =
     (if hd s = CHR 0x27 \<and> 1 < length s
      then find (\<lambda>c. starts_with c (drop 1 s)) contractions else None)"

definition piece_len :: "string \<Rightarrow> nat" where
  "piece_len s =
     (case contraction_at s of
        Some c \<Rightarrow> length c + 1
      | None \<Rightarrow>
        (let i = (if hd s = CHR '' '' \<and> 1 < length s \<and> \<not> is_c_space (s ! 1) then 1 else 0);
             r = drop i s in
         i + (if r \<noteq> [] \<and> is_c_alpha (hd r) then length (takeWhile is_c_alpha r)
              else if r \<noteq> [] \<and> is_digit (hd r) then length (takeWhile is_digit r)
              else if r \<noteq> [] \<and> \<not> is_c_space (hd r) then length (takeWhile is_c_other r)
              else length (takeWhile is_c_space r))))"

lemma takeWhile_hd_pos: "r \<noteq> [] \<Longrightarrow> P (hd r) \<Longrightarrow> 0 < length (takeWhile P r)"
  by (cases r) auto

lemma piece_len_pos:
  assumes "s \<noteq> []"
  shows "0 < piece_len s"
proof (cases "contraction_at s")
  case None
  let ?i = "if hd s = CHR '' '' \<and> 1 < length s \<and> \<not> is_c_space (s ! 1) then 1 else 0"
  have r: "?i = 0 \<Longrightarrow> drop ?i s \<noteq> []" using assms by simp
  show ?thesis
  proof (cases "?i = 0")
    case True
    consider "is_c_alpha (hd s)" | "\<not> is_c_alpha (hd s)" "is_digit (hd s)"
      | "is_c_other (hd s)" | "\<not> is_c_alpha (hd s)" "\<not> is_digit (hd s)" "is_c_space (hd s)"
      by (auto simp: is_c_other_def)
    then show ?thesis
      using True assms None takeWhile_hd_pos [OF assms]
      by cases (auto simp: piece_len_def Let_def is_c_other_def split: if_splits)
  qed (use None assms in \<open>simp add: piece_len_def Let_def split: if_splits\<close>)
qed (simp add: piece_len_def)

function pretokenize_ascii :: "string \<Rightarrow> string list" where
  "pretokenize_ascii s =
     (if s = [] then [] else take (piece_len s) s # pretokenize_ascii (drop (piece_len s) s))"
  by auto
termination by (relation "measure length") (auto simp: piece_len_pos)

declare pretokenize_ascii.simps [simp del]


section \<open>Merging\<close>

definition bpe_key :: "string \<Rightarrow> string \<Rightarrow> string" where
  "bpe_key a b = a @ [CHR 0x0A] @ b"

definition INT_MAX :: int where "INT_MAX = 2 ^ 31 - 1"

text \<open>The scan for the best pair: the running best rank and index.\<close>

fun best_pair :: "(string \<rightharpoonup> int) \<Rightarrow> string list \<Rightarrow> nat \<Rightarrow> int \<Rightarrow> nat \<Rightarrow> int \<times> nat" where
  "best_pair ranks (a # b # syms) i best_rank best_idx =
     (case ranks (bpe_key a b) of
        Some r \<Rightarrow>
          if r < best_rank then best_pair ranks (b # syms) (Suc i) r i
          else best_pair ranks (b # syms) (Suc i) best_rank best_idx
      | None \<Rightarrow> best_pair ranks (b # syms) (Suc i) best_rank best_idx)"
| "best_pair ranks _ i best_rank best_idx = (best_rank, best_idx)"

definition merge_at :: "nat \<Rightarrow> string list \<Rightarrow> string list" where
  "merge_at i syms = take i syms @ (syms ! i @ syms ! Suc i) # drop (i + 2) syms"

definition best_idx_of :: "(string \<rightharpoonup> int) \<Rightarrow> string list \<Rightarrow> nat" where
  "best_idx_of ranks syms = snd (best_pair ranks syms 0 INT_MAX (length syms))"

lemma best_pair_range:
  "snd (best_pair ranks syms i br bi) = bi \<or>
   (i \<le> snd (best_pair ranks syms i br bi) \<and> snd (best_pair ranks syms i br bi) + 1 < i + length syms)"
proof (induction ranks syms i br bi rule: best_pair.induct)
  case (1 ranks a b syms i br bi)
  then show ?case by (auto split: option.splits)
qed auto

lemma best_idx_range: "best_idx_of ranks syms \<noteq> length syms \<Longrightarrow> Suc (best_idx_of ranks syms) < length syms"
  using best_pair_range [of ranks syms 0 INT_MAX "length syms"] by (auto simp: best_idx_of_def)

lemma length_merge_at: "Suc i < length syms \<Longrightarrow> length (merge_at i syms) = length syms - 1"
  by (simp add: merge_at_def)

function bpe_merge_loop :: "(string \<rightharpoonup> int) \<Rightarrow> string list \<Rightarrow> string list" where
  "bpe_merge_loop ranks syms =
     (if length syms > 1 then
        (let best_idx = best_idx_of ranks syms in
         if best_idx = length syms then syms else bpe_merge_loop ranks (merge_at best_idx syms))
      else syms)"
  by auto
termination
  by (relation "measure (\<lambda>(r, syms). length syms)") (auto dest!: best_idx_range simp: length_merge_at)

declare bpe_merge_loop.simps [simp del]


section \<open>The tokenizer\<close>

record tokenizer =
  vocab :: "string list"
  token_to_id :: "string \<rightharpoonup> int"
  special_tokens :: "(string \<times> int) list"
  bpe_ranks :: "string \<rightharpoonup> int"
  bpe_count :: nat
  byte_encode :: bool
  add_bos :: bool
  add_eos :: bool
  bos_id :: int
  eos_id :: int
  max_token_len :: int

text \<open>\<^verbatim>\<open>bpe_ranks_.empty()\<close> is that the number of keys, \<^verbatim>\<open>bpe_count\<close>, is zero.

  Without merges a piece is cut greedily into the longest vocabulary entries; a symbol that starts
  no entry is skipped.\<close>

fun longest_match :: "(string \<rightharpoonup> int) \<Rightarrow> string \<Rightarrow> nat \<Rightarrow> (int \<times> nat) option" where
  "longest_match t2i s 0 = None"
| "longest_match t2i s (Suc len) =
     (case t2i (take (Suc len) s) of Some i \<Rightarrow> Some (i, Suc len) | None \<Rightarrow> longest_match t2i s len)"

lemma longest_match_pos: "longest_match t2i s n = Some (i, len) \<Longrightarrow> 0 < len"
  by (induction t2i s n rule: longest_match.induct) (auto split: option.splits)

function greedy_ids :: "tokenizer \<Rightarrow> string \<Rightarrow> int list" where
  "greedy_ids t s =
     (if s = [] then []
      else
        (case longest_match (token_to_id t) s (nat (min (max_token_len t) (int (length s)))) of
           Some (best_id, best_len) \<Rightarrow>
             if best_id \<ge> 0 then best_id # greedy_ids t (drop best_len s)
             else greedy_ids t (drop (symbol_len s) s)
         | None \<Rightarrow> greedy_ids t (drop (symbol_len s) s)))"
  by auto
termination
  by (relation "measure (\<lambda>(t, s). length s)") (auto simp: symbol_len_pos dest: longest_match_pos)

declare greedy_ids.simps [simp del]

text \<open>A merged symbol outside the vocabulary falls back to its UTF-8 symbols, dropping the unknown
  ones.\<close>

function fallback_ids :: "tokenizer \<Rightarrow> string \<Rightarrow> int list" where
  "fallback_ids t s =
     (if s = [] then []
      else
        (case token_to_id t (take (symbol_len s) s) of Some i \<Rightarrow> [i] | None \<Rightarrow> []) @
        fallback_ids t (drop (symbol_len s) s))"
  by auto
termination by (relation "measure (\<lambda>(t, s). length s)") (auto simp: symbol_len_pos)

declare fallback_ids.simps [simp del]

definition symbol_ids :: "tokenizer \<Rightarrow> string \<Rightarrow> int list" where
  "symbol_ids t sy = (case token_to_id t sy of Some i \<Rightarrow> [i] | None \<Rightarrow> fallback_ids t sy)"

definition piece_ids :: "tokenizer \<Rightarrow> string \<Rightarrow> int list" where
  "piece_ids t raw_piece =
     (let piece = (if byte_encode t then encode_bytes_gpt2 raw_piece else raw_piece) in
      if bpe_count t = 0 then greedy_ids t piece
      else concat (map (symbol_ids t) (bpe_merge_loop (bpe_ranks t) (split_utf8_symbols piece))))"

definition encode_plain :: "tokenizer \<Rightarrow> string \<Rightarrow> int list" where
  "encode_plain t plain = concat (map (piece_ids t) (pretokenize_ascii plain))"

definition match_special :: "(string \<times> int) list \<Rightarrow> string \<Rightarrow> (string \<times> int) option" where
  "match_special sps s = find (\<lambda>sp. starts_with (fst sp) s) sps"

text \<open>Distance from the start of \<^verbatim>\<open>s\<close> to the first later position where a special token
  starts, or to the end.\<close>

fun scan_special :: "(string \<times> int) list \<Rightarrow> string \<Rightarrow> nat" where
  "scan_special sps [] = 0"
| "scan_special sps (c # s) = (if match_special sps (c # s) \<noteq> None then 0 else Suc (scan_special sps s))"

definition next_special :: "(string \<times> int) list \<Rightarrow> string \<Rightarrow> nat" where
  "next_special sps s = Suc (scan_special sps (tl s))"

fun encode_loop :: "nat \<Rightarrow> tokenizer \<Rightarrow> string \<Rightarrow> int list option" where
  "encode_loop fuel t [] = Some []"
| "encode_loop 0 t (c # s) = None"
| "encode_loop (Suc fuel) t (c # s) =
     (case match_special (special_tokens t) (c # s) of
        Some (tok, special_id) \<Rightarrow>
          if special_id \<ge> 0
          then map_option ((#) special_id) (encode_loop fuel t (drop (length tok) (c # s)))
          else
            (let n = next_special (special_tokens t) (c # s)
             in map_option ((@) (encode_plain t (take n (c # s)))) (encode_loop fuel t (drop n (c # s))))
      | None \<Rightarrow>
            (let n = next_special (special_tokens t) (c # s)
             in map_option ((@) (encode_plain t (take n (c # s)))) (encode_loop fuel t (drop n (c # s)))))"

definition encode :: "tokenizer \<Rightarrow> string \<Rightarrow> int list option" where
  "encode t text =
     map_option (\<lambda>ids. (if add_bos t then [bos_id t] else []) @ ids @ (if add_eos t then [eos_id t] else []))
       (encode_loop (length text) t text)"


section \<open>Decoding\<close>

definition hex_digit :: "char \<Rightarrow> int option" where
  "hex_digit c =
     (let n = of_char c in
      if 48 \<le> n \<and> n \<le> 57 then Some (n - 48)
      else if 65 \<le> n \<and> n \<le> 70 then Some (n - 55)
      else if 97 \<le> n \<and> n \<le> 102 then Some (n - 87) else None)"

text \<open>The conversion \<^verbatim>\<open>%02X\<close> of \<^verbatim>\<open>sscanf\<close>: white space, then at most two characters
  with an optional sign.\<close>

definition scan_hex2 :: "string \<Rightarrow> int option" where
  "scan_hex2 s =
     (let w = take 2 (dropWhile is_c_space s);
          (sgn, w) = (if w \<noteq> [] \<and> hd w = CHR ''-'' then (-1, tl w)
                      else if w \<noteq> [] \<and> hd w = CHR ''+'' then (1, tl w) else (1, w));
          ds = takeWhile (\<lambda>c. hex_digit c \<noteq> None) w in
      if ds = [] then None
      else Some (sgn * foldl (\<lambda>v c. 16 * v + the (hex_digit c)) 0 ds))"

definition byte_token :: "string \<Rightarrow> char option" where
  "byte_token tok =
     (if length tok = 6 \<and> tok ! 0 = CHR ''<'' \<and> tok ! 1 = CHR ''0'' \<and> tok ! 2 = CHR ''x''
      then map_option (\<lambda>v. char_of v) (scan_hex2 (drop 3 (c_str tok)))
      else None)"

function decode_symbols :: "string \<Rightarrow> string \<Rightarrow> string \<Rightarrow> bool \<Rightarrow> string" where
  "decode_symbols tok s out decoded_any =
     (if s = [] then out
      else
        (let cp = take (symbol_len s) s; rest = drop (symbol_len s) s in
         case byte_decoder cp of
           None \<Rightarrow> if \<not> decoded_any then tok else decode_symbols tok rest (out @ cp) decoded_any
         | Some c \<Rightarrow> decode_symbols tok rest (out @ [c]) True))"
  by auto
termination
  by (relation "measure (\<lambda>(tok, s, out, any). length s)") (auto simp: symbol_len_pos)

declare decode_symbols.simps [simp del]

definition decode_token :: "tokenizer \<Rightarrow> int \<Rightarrow> string" where
  "decode_token t token_id =
     (if token_id \<ge> 0 \<and> token_id < int (length (vocab t)) then
        (let tok = vocab t ! nat token_id in
         case byte_token tok of
           Some c \<Rightarrow> [c]
         | None \<Rightarrow> if byte_encode t then decode_symbols tok tok [] False else tok)
      else [])"

definition decode_ids :: "tokenizer \<Rightarrow> int list \<Rightarrow> string" where
  "decode_ids t ids =
     concat (map (decode_token t) (filter (\<lambda>i. i \<noteq> bos_id t \<and> i \<noteq> eos_id t) ids))"


section \<open>Splitting loses nothing\<close>

lemma concat_split_utf8: "concat (split_utf8_symbols s) = s"
  by (induction s rule: split_utf8_symbols.induct) (subst split_utf8_symbols.simps, simp)

lemma concat_pretokenize: "concat (pretokenize_ascii s) = s"
  by (induction s rule: pretokenize_ascii.induct) (subst pretokenize_ascii.simps, simp)

lemma pretokenize_nonempty: "p \<in> set (pretokenize_ascii s) \<Longrightarrow> p \<noteq> []"
proof (induction s rule: pretokenize_ascii.induct)
  case (1 s)
  then show ?case
    using piece_len_pos [of s] by (subst (asm) pretokenize_ascii.simps) (auto split: if_splits)
qed

text \<open>A string put together from complete UTF-8 symbols splits into them again.\<close>

definition utf8_symbol :: "string \<Rightarrow> bool" where
  "utf8_symbol s \<longleftrightarrow> s \<noteq> [] \<and> utf8_len (hd s) = length s"

lemma symbol_len_symbol: "utf8_symbol s \<Longrightarrow> symbol_len (s @ r) = length s"
  by (auto simp: utf8_symbol_def symbol_len_def Let_def hd_append)

lemma split_concat_symbols: "list_all utf8_symbol ss \<Longrightarrow> split_utf8_symbols (concat ss) = ss"
proof (induction ss)
  case (Cons s ss)
  then have "s \<noteq> []" "symbol_len (s @ concat ss) = length s" 
    by (auto simp: utf8_symbol_def symbol_len_symbol)
  then show ?case using Cons by (subst split_utf8_symbols.simps) simp
qed (simp add: split_utf8_symbols.simps)


section \<open>The merge loop computes the BPE normal form\<close>

text \<open>The rank of the pair at \<^verbatim>\<open>i\<close>, when it is a merge of the table with a rank the loop can
  pick.\<close>

definition pair_rank :: "(string \<rightharpoonup> int) \<Rightarrow> string list \<Rightarrow> nat \<Rightarrow> int option" where
  "pair_rank ranks syms i =
     (if Suc i < length syms then
        (case ranks (bpe_key (syms ! i) (syms ! Suc i)) of
           Some r \<Rightarrow> if r < INT_MAX then Some r else None | None \<Rightarrow> None)
      else None)"

text \<open>The textbook rule: merge the leftmost pair of lowest rank.\<close>

definition bpe_ref_step :: "(string \<rightharpoonup> int) \<Rightarrow> string list \<Rightarrow> string list \<Rightarrow> bool" where
  "bpe_ref_step ranks syms syms' \<longleftrightarrow>
     (\<exists>i r. pair_rank ranks syms i = Some r \<and>
        (\<forall>j r'. pair_rank ranks syms j = Some r' \<longrightarrow> r < r' \<or> (r = r' \<and> i \<le> j)) \<and>
        syms' = merge_at i syms)"

text \<open>What the scan has found after the first \<^verbatim>\<open>i\<close> pairs of \<^verbatim>\<open>all\<close>.\<close>

definition scan_inv :: "(string \<rightharpoonup> int) \<Rightarrow> string list \<Rightarrow> nat \<Rightarrow> int \<Rightarrow> nat \<Rightarrow> bool" where
  "scan_inv ranks all i br bi \<longleftrightarrow>
     (if bi = length all then br = INT_MAX \<and> (\<forall>j < i. pair_rank ranks all j = None)
      else bi < i \<and> pair_rank ranks all bi = Some br \<and>
        (\<forall>j < i. \<forall>r. pair_rank ranks all j = Some r \<longrightarrow> br < r \<or> (br = r \<and> bi \<le> j)))"

lemma best_pair_inv:
  assumes "scan_inv ranks all i br bi" "syms = drop i all" "br \<le> INT_MAX" "i \<le> length all"
    and "best_pair ranks syms i br bi = (br', bi')"
  shows "scan_inv ranks all (length all) br' bi'"
  using assms
proof (induction syms arbitrary: i br bi rule: induct_list012)
  case 1
  then have "length all = i" "br' = br" "bi' = bi" by auto
  then show ?case using 1(1) by simp
next
  case (2 a)
  have "length all = Suc i" using arg_cong [OF 2(2), of length] by simp
  moreover from this have "pair_rank ranks all i = None" by (simp add: pair_rank_def)
  moreover have "br' = br" "bi' = bi" using 2(5) by simp_all
  ultimately show ?case using 2(1) unfolding scan_inv_def by (auto simp: less_Suc_eq split: if_splits)
next
  case (3 a b syms)
  note inv = "3.prems"(1) and syms = "3.prems"(2) and mx = "3.prems"(3) and run = "3.prems"(5)
  have i: "Suc i < length all"
    using arg_cong [OF syms, of length] by simp
  have ab: "all ! i = a" "all ! Suc i = b"
    using syms by (metis nth_via_drop, metis Cons_nth_drop_Suc Suc_lessD i list.inject nth_via_drop)
  have tl: "b # syms = drop (Suc i) all" using syms by (metis drop_Suc list.sel(3) tl_drop)
  have pr: "pair_rank ranks all i =
      (case ranks (bpe_key a b) of Some r \<Rightarrow> if r < INT_MAX then Some r else None | None \<Rightarrow> None)"
    using i ab by (simp add: pair_rank_def)
  have no: "scan_inv ranks all (Suc i) br bi" if "\<And>r. ranks (bpe_key a b) = Some r \<Longrightarrow> \<not> r < br"
    using inv mx that pr unfolding scan_inv_def by (auto simp: less_Suc_eq split: option.splits if_splits)
  have yes: "scan_inv ranks all (Suc i) r i" if "ranks (bpe_key a b) = Some r" "r < br" for r
    using inv mx that pr i unfolding scan_inv_def
    by (auto simp: less_Suc_eq split: option.splits if_splits) (metis less_trans)
  note step = "3.IH"(2) [OF _ tl _ Suc_leI]
  show ?case
  proof (cases "\<exists>r. ranks (bpe_key a b) = Some r \<and> r < br")
    case True
    then obtain r where r: "ranks (bpe_key a b) = Some r" "r < br" by blast
    show ?thesis using step [OF yes [OF r]] mx run i r by simp
  next
    case False
    then have "scan_inv ranks all (Suc i) br bi" by (intro no) blast
    then show ?thesis using step mx run i False by (auto split: option.splits)
  qed
qed

lemma best_idx_spec:
  "if best_idx_of ranks syms = length syms then (\<forall>j. pair_rank ranks syms j = None)
   else bpe_ref_step ranks syms (merge_at (best_idx_of ranks syms) syms)"
proof -
  obtain br bi where bp: "best_pair ranks syms 0 INT_MAX (length syms) = (br, bi)" by fastforce
  have "scan_inv ranks syms 0 INT_MAX (length syms)" by (simp add: scan_inv_def)
  from best_pair_inv [OF this _ _ _ bp] have inv: "scan_inv ranks syms (length syms) br bi" by simp
  have big: "pair_rank ranks syms j = None" if "length syms \<le> j" for j using that by (simp add: pair_rank_def)
  show ?thesis
  proof (cases "bi = length syms")
    case True
    then have "pair_rank ranks syms j = None" for j
      using inv big [of j] by (cases "j < length syms") (auto simp: scan_inv_def)
    then show ?thesis using True bp by (simp add: best_idx_of_def)
  next
    case False
    then have "br < r' \<or> (br = r' \<and> bi \<le> j)" if "pair_rank ranks syms j = Some r'" for j r'
      using inv that big [of j] by (cases "j < length syms") (auto simp: scan_inv_def)
    moreover have "pair_rank ranks syms bi = Some br" "best_idx_of ranks syms = bi"
      using False inv bp by (simp_all add: scan_inv_def best_idx_of_def)
    ultimately show ?thesis using False unfolding bpe_ref_step_def by auto
  qed
qed

lemma bpe_ref_step_rank: "bpe_ref_step ranks syms syms' \<Longrightarrow> \<exists>j r. pair_rank ranks syms j = Some r"
  by (auto simp: bpe_ref_step_def)

lemma pair_rank_short: "\<not> 1 < length syms \<Longrightarrow> pair_rank ranks syms j = None"
  by (simp add: pair_rank_def)

lemma concat_merge_at: "Suc i < length syms \<Longrightarrow> concat (merge_at i syms) = concat syms"
proof -
  assume i: "Suc i < length syms"
  then have "syms = take i syms @ syms ! i # syms ! Suc i # drop (i + 2) syms"
    by (metis Cons_nth_drop_Suc Suc_lessD add_2_eq_Suc' append_take_drop_id)
  then have "concat syms = concat (take i syms @ syms ! i # syms ! Suc i # drop (i + 2) syms)" by simp
  then show ?thesis by (simp add: merge_at_def)
qed

lemma bpe_merge_loop_concat: "concat (bpe_merge_loop ranks syms) = concat syms"
proof (induction ranks syms rule: bpe_merge_loop.induct)
  case (1 ranks syms)
  then show ?case
    using best_idx_range [of ranks syms] concat_merge_at [of "best_idx_of ranks syms" syms]
    by (subst bpe_merge_loop.simps) (auto simp: Let_def)
qed

text \<open>(C11) The merge loop is BPE: from the initial symbols it applies the rule
  \<^emph>\<open>merge the leftmost pair of lowest rank\<close> until no pair of the table is left, it always
  ends, and the text the symbols spell is unchanged.\<close>

theorem bpe_merge_loop_normal_form:
  "(bpe_ref_step ranks)\<^sup>*\<^sup>* syms (bpe_merge_loop ranks syms) \<and>
   (\<forall>syms'. \<not> bpe_ref_step ranks (bpe_merge_loop ranks syms) syms') \<and>
   (\<forall>j. pair_rank ranks (bpe_merge_loop ranks syms) j = None) \<and>
   concat (bpe_merge_loop ranks syms) = concat syms"
proof (induction ranks syms rule: bpe_merge_loop.induct)
  case (1 ranks syms)
  let ?i = "best_idx_of ranks syms"
  show ?case
  proof (cases "length syms > 1 \<and> ?i \<noteq> length syms")
    case True
    then have step: "bpe_ref_step ranks syms (merge_at ?i syms)" using best_idx_spec [of ranks syms] by auto
    moreover have "bpe_merge_loop ranks syms = bpe_merge_loop ranks (merge_at ?i syms)"
      using True by (subst bpe_merge_loop.simps) (simp add: Let_def)
    ultimately show ?thesis using 1 [OF _ refl] True bpe_merge_loop_concat [of ranks syms]
      by (auto intro: converse_rtranclp_into_rtranclp)
  next
    case False
    then have "bpe_merge_loop ranks syms = syms" by (subst bpe_merge_loop.simps) (auto simp: Let_def)
    moreover have "\<forall>j. pair_rank ranks syms j = None"
      using False best_idx_spec [of ranks syms] pair_rank_short by (cases "length syms > 1") auto
    ultimately show ?thesis using bpe_ref_step_rank by fastforce
  qed
qed


section \<open>The byte alphabet is a prefix code of UTF-8 symbols\<close>

definition byte_cp :: "nat \<Rightarrow> nat" where
  "byte_cp b = (if b < 33 then 256 + b else if b < 127 then b else if b < 161 then 162 + b
     else if b = 173 then 323 else b)"

lemma byte_table_fold:
  "distinct xs \<Longrightarrow> fold byte_table_step xs (bs, cs, n) =
     (bs @ filter (\<lambda>b. b \<notin> set bs) xs,
      cs @ [256 + n..<256 + n + length (filter (\<lambda>b. b \<notin> set bs) xs)],
      n + length (filter (\<lambda>b. b \<notin> set bs) xs))"
proof (induction xs arbitrary: bs cs n)
  case (Cons b xs)
  have f: "filter (\<lambda>x. x \<noteq> b \<and> x \<notin> set bs) xs = filter (\<lambda>x. x \<notin> set bs) xs"
    using Cons.prems by (intro filter_cong) auto
  show ?case
    using Cons f by (auto simp: byte_table_step_def upt_conv_Cons add.assoc)
qed simp

definition byte_table_rest :: "nat list" where
  "byte_table_rest = [0..<33] @ [127..<161] @ [173]"

lemma upt_split: "i \<le> j \<Longrightarrow> j \<le> k \<Longrightarrow> [i..<k] = [i..<j] @ [j..<k]"
  by (metis le_add_diff_inverse upt_add_eq_append)

lemma byte_table_filter: "filter (\<lambda>b. b \<notin> set byte_table_init) [0..<256] = byte_table_rest"
proof -
  have "[0..<256] = [0..<33] @ [33..<127] @ [127..<161] @ [161..<173] @ [173..<174] @ [174..<256]"
    using upt_split [of 0 33 256] upt_split [of 33 127 256] upt_split [of 127 161 256]
      upt_split [of 161 173 256] upt_split [of 173 174 256]
    by (simp del: upt_rec_numeral)
  moreover have "filter (\<lambda>b. b \<notin> set byte_table_init) [0..<33] = [0..<33]"
      "filter (\<lambda>b. b \<notin> set byte_table_init) [127..<161] = [127..<161]"
      "filter (\<lambda>b. b \<notin> set byte_table_init) [33..<127] = []"
      "filter (\<lambda>b. b \<notin> set byte_table_init) [161..<173] = []"
      "filter (\<lambda>b. b \<notin> set byte_table_init) [174..<256] = []"
      "filter (\<lambda>b. b \<notin> set byte_table_init) [173..<174] = [173..<174]"
    by (auto simp: byte_table_init_def filter_id_conv filter_empty_conv simp del: upt_rec_numeral)
  ultimately show ?thesis by (simp add: byte_table_rest_def del: upt_rec_numeral) simp
qed

lemma map_byte_cp_init: "map byte_cp byte_table_init = byte_table_init"
  by (rule map_idI) (auto simp: byte_table_init_def byte_cp_def simp del: upt_rec_numeral)

lemma map_byte_cp_rest: "map byte_cp byte_table_rest = [256..<324]"
proof -
  have "map byte_cp [0..<33] = [256..<289]" "map byte_cp [127..<161] = [289..<323]"
    by (rule nth_equalityI; simp add: byte_cp_def del: upt_rec_numeral)+
  moreover have "[256..<324] = [256..<289] @ [289..<323] @ [323]" by simp
  ultimately show ?thesis by (simp add: byte_table_rest_def byte_cp_def del: upt_rec_numeral)
qed

lemma fold_update_nth:
  assumes "distinct (map fst ps)" "(b, cp) \<in> set ps" "b < length out"
  shows "fold (\<lambda>(b, cp) out. out[b := g cp]) ps out ! b = g cp"
  using assms
proof (induction ps arbitrary: out)
  case (Cons p ps)
  have keep: "fold (\<lambda>(b, cp) out. out[b := g cp]) qs out ! b = out ! b" if "b \<notin> fst ` set qs" for qs out
    using that by (induction qs arbitrary: out) auto
  show ?case
  proof (cases "p = (b, cp)")
    case True
    then show ?thesis using Cons.prems keep [of ps "out[b := g cp]"] by simp
  next
    case False
    then show ?thesis using Cons by (cases p) auto
  qed
qed simp

lemma byte_encoder_nth:
  assumes "b < 256"
  shows "byte_encoder ! b = utf8_from_codepoint (byte_cp b)"
proof -
  let ?bs = "byte_table_init @ byte_table_rest"
  have len: "length byte_table_rest = 68" by (simp add: byte_table_rest_def)
  have tab: "fold byte_table_step [0..<256] (byte_table_init, byte_table_init, 0) =
      (?bs, map byte_cp ?bs, 68)"
    by (simp add: byte_table_fold byte_table_filter len map_byte_cp_init map_byte_cp_rest)
  have "distinct ?bs" by (auto simp: byte_table_init_def byte_table_rest_def simp del: upt_rec_numeral)
  moreover have "b \<in> set ?bs"
    using assms by (auto simp: byte_table_init_def byte_table_rest_def simp del: upt_rec_numeral)
  then have "(b, byte_cp b) \<in> set (zip ?bs (map byte_cp ?bs))"
    by (auto simp: zip_map2 zip_same_conv_map)
  ultimately show ?thesis
    using assms fold_update_nth [of "zip ?bs (map byte_cp ?bs)" b "byte_cp b" "replicate 256 []" utf8_from_codepoint]
    unfolding byte_encoder_def tab by simp
qed

lemma or_192: "q < 8 \<Longrightarrow> 192 OR q = 192 + (q::nat)"
proof -
  assume "q < 8"
  then consider "q = 0" | "q = 1" | "q = 2" | "q = 3" | "q = 4" | "q = 5" | "q = 6" | "q = 7" by linarith
  then show ?thesis by cases simp_all
qed

lemma or_128: "r < 64 \<Longrightarrow> 128 OR r = 128 + (r::nat)"
proof -
  assume r: "r < 64"
  have "(128::nat) AND r = 0"
  proof (rule bit_eqI)
    fix n
    have "\<not> bit r n" if "n \<ge> 6"
    proof -
      have "(2::nat) ^ 6 \<le> 2 ^ n" using that by (intro power_increasing) auto
      then have "r div 2 ^ n = 0" using r by simp
      then show ?thesis by (simp add: bit_iff_odd)
    qed
    moreover have "bit (128::nat) n \<Longrightarrow> n = 7" using bit_exp_iff [of 7 n, where 'a = nat] by simp
    ultimately show "bit (128 AND r) n = bit 0 n" by (auto simp: bit_and_iff)
  qed
  then show ?thesis by (simp add: disjunctive_add_eq_or)
qed

lemma utf8_two_bytes:
  assumes "128 \<le> cp" "cp < 512"
  shows "utf8_from_codepoint cp = [char_of (192 + cp div 64), char_of (128 + cp mod 64)]"
proof -
  have "cp div 64 < 8" using assms(2) by simp
  moreover have "cp AND 63 = cp mod 64" using take_bit_eq_mask [of 6 cp] by (simp add: take_bit_eq_mod mask_eq_exp_minus_1)
  moreover have "drop_bit 6 cp = cp div 64" by (simp add: drop_bit_eq_div)
  ultimately show ?thesis using assms or_192 or_128 [of "cp mod 64"] by (simp add: utf8_from_codepoint_def)
qed

lemma byte_cp_range: "b < 256 \<Longrightarrow> (33 \<le> byte_cp b \<and> byte_cp b < 127 \<and> byte_cp b = b) \<or> (161 \<le> byte_cp b \<and> byte_cp b < 324)"
  by (auto simp: byte_cp_def)

lemma byte_cp_inj: "b < 256 \<Longrightarrow> b' < 256 \<Longrightarrow> byte_cp b = byte_cp b' \<Longrightarrow> b = b'"
  by (auto simp: byte_cp_def split: if_splits)

lemma utf8_len_ascii: "(of_char c :: nat) < 128 \<Longrightarrow> utf8_len c = 1"
proof -
  assume a: "(of_char c :: nat) < 128"
  then have "\<not> bit (of_char c :: nat) 7" by (simp add: bit_iff_odd)
  then have "(of_char c :: nat) AND 128 = 0" using and_exp_eq_0_iff_not_bit [of "of_char c :: nat" 7] by simp
  then show ?thesis by (simp add: utf8_len_def)
qed

lemma utf8_len_lead2: "192 \<le> n \<Longrightarrow> n < 200 \<Longrightarrow> utf8_len (char_of (n::nat)) = 2"
proof -
  assume "192 \<le> n" "n < 200"
  then consider "n = 192" | "n = 193" | "n = 194" | "n = 195" | "n = 196" | "n = 197" | "n = 198" | "n = 199" by linarith
  then show ?thesis by cases (simp_all add: utf8_len_def)
qed

text \<open>The symbol of a byte: one printable ASCII character or a two-byte sequence.\<close>

lemma byte_symbol_cases:
  assumes "b < 256"
  obtains (one) "33 \<le> b" "b < 127" "byte_encoder ! b = [char_of b]"
  | (two) "byte_encoder ! b = [char_of (192 + byte_cp b div 64), char_of (128 + byte_cp b mod 64)]"
      "161 \<le> byte_cp b" "byte_cp b < 324"
proof (cases "byte_cp b < 127")
  case True
  then have "33 \<le> b" "b < 127" "byte_cp b = b" using byte_cp_range [OF assms] by auto
  then show ?thesis using one byte_encoder_nth [OF assms] by (simp add: utf8_from_codepoint_def)
next
  case False
  then have "161 \<le> byte_cp b" "byte_cp b < 324" using byte_cp_range [OF assms] by auto
  then show ?thesis using two byte_encoder_nth [OF assms] utf8_two_bytes [of "byte_cp b"] by simp
qed

lemma byte_symbol: "b < 256 \<Longrightarrow> utf8_symbol (byte_encoder ! b)"
  by (erule byte_symbol_cases) (auto simp: utf8_symbol_def utf8_len_ascii utf8_len_lead2)

lemma byte_encoder_inj:
  assumes "b < 256" "b' < 256" "byte_encoder ! b = byte_encoder ! b'"
  shows "b = b'"
proof -
  have ch: "(char_of m = (char_of n :: char)) \<longleftrightarrow> m = n" if "m < 256" "n < 256" for m n :: nat
    using that by (metis mod_less of_char_of)
  show ?thesis
    using assms(1)
  proof (cases rule: byte_symbol_cases)
    case one
    from assms(2) show ?thesis
      by (cases rule: byte_symbol_cases) (use one assms(3) ch [of b b'] in auto)
  next
    case two
    from assms(2) show ?thesis
    proof (cases rule: byte_symbol_cases)
      case two': two
      have "byte_cp b div 64 = byte_cp b' div 64" "byte_cp b mod 64 = byte_cp b' mod 64"
        using two two' assms(3) ch [of "192 + byte_cp b div 64" "192 + byte_cp b' div 64"]
          ch [of "128 + byte_cp b mod 64" "128 + byte_cp b' mod 64"] by auto
      then have "byte_cp b = byte_cp b'" by (metis div_mult_mod_eq)
      then show ?thesis using byte_cp_inj assms by blast
    qed (use two assms(3) in auto)
  qed
qed

lemma byte_decoder_fold:
  assumes "distinct xs" "set xs \<subseteq> {0..<256}"
  shows "fold (\<lambda>i m. m(byte_encoder ! i \<mapsto> char_of i)) xs m0 s =
    (if s \<in> (\<lambda>i. byte_encoder ! i) ` set xs
     then Some (char_of (THE i. i \<in> set xs \<and> byte_encoder ! i = s)) else m0 s)"
  using assms
proof (induction xs arbitrary: m0)
  case (Cons x xs)
  have uniq: "(THE i. i \<in> set ys \<and> byte_encoder ! i = byte_encoder ! j) = j"
    if "j \<in> set ys" "set ys \<subseteq> {0..<256}" for j ys
    using that byte_encoder_inj by (intro the_equality) (auto simp: subset_iff)
  show ?case
  proof (cases "s \<in> (\<lambda>i. byte_encoder ! i) ` set xs")
    case True
    then obtain j where j: "j \<in> set xs" "s = byte_encoder ! j" by auto
    then show ?thesis using Cons uniq [of j xs] uniq [of j "x # xs"] by simp
  next
    case False
    then show ?thesis using Cons uniq [of x "x # xs"] by auto
  qed
qed simp

lemma byte_decoder_encoder: "byte_decoder (byte_encoder ! of_char c) = Some c"
proof -
  have c: "(of_char c :: nat) < 256" by simp
  have "(THE i. i \<in> set [0..<256] \<and> byte_encoder ! i = byte_encoder ! of_char c) = of_char c"
    using byte_encoder_inj c by (intro the_equality) auto
  then show ?thesis unfolding byte_decoder_def
    using byte_decoder_fold [of "[0..<256]" Map.empty "byte_encoder ! of_char c"] c by auto
qed

lemma byte_decoder_None: "(\<And>b. b < 256 \<Longrightarrow> byte_encoder ! b \<noteq> s) \<Longrightarrow> byte_decoder s = None"
proof -
  assume "\<And>b. b < 256 \<Longrightarrow> byte_encoder ! b \<noteq> s"
  then have "s \<notin> (\<lambda>i. byte_encoder ! i) ` set [0..<256]" by fastforce
  then show ?thesis
    unfolding byte_decoder_def using byte_decoder_fold [of "[0..<256]" Map.empty s] by auto
qed

lemma byte_encoder_printable:
  assumes "33 \<le> (of_char c :: nat)" "(of_char c :: nat) < 127"
  shows "byte_encoder ! of_char c = [c]"
proof -
  have "(of_char c :: nat) < 256" by simp
  then show ?thesis
  proof (cases rule: byte_symbol_cases)
    case two
    then show ?thesis using assms by (simp add: byte_cp_def)
  qed simp
qed

lemma byte_decoder_ascii:
  assumes "(of_char c :: nat) < 128"
  shows "byte_decoder [c] = None \<or> byte_decoder [c] = Some c"
proof (cases "byte_encoder ! of_char c = [c]")
  case True
  then show ?thesis using byte_decoder_encoder [of c] by simp
next
  case False
  have "byte_encoder ! b \<noteq> [c]" if "b < 256" for b
    using that
  proof (cases rule: byte_symbol_cases)
    case one
    then show ?thesis using False by (metis list.inject of_char_of mod_less that)
  qed simp
  then show ?thesis using byte_decoder_None by blast
qed


section \<open>Encoding loses no text\<close>

lemma encode_bytes_simps [simp]:
  "encode_bytes_gpt2 [] = []"
  "encode_bytes_gpt2 (c # u) = byte_encoder ! of_char c @ encode_bytes_gpt2 u"
  "encode_bytes_gpt2 (u @ v) = encode_bytes_gpt2 u @ encode_bytes_gpt2 v"
  by (simp_all add: encode_bytes_gpt2_def)

lemma byte_symbol_char: "utf8_symbol (byte_encoder ! of_char c)"
  by (rule byte_symbol) simp

lemma split_encode_bytes: "split_utf8_symbols (encode_bytes_gpt2 u) = map (\<lambda>c. byte_encoder ! of_char c) u"
  unfolding encode_bytes_gpt2_def
  by (rule split_concat_symbols) (auto simp: list_all_iff byte_symbol_char)

lemma symbol_step:
  assumes "utf8_symbol x"
  shows "x @ r \<noteq> []" "take (symbol_len (x @ r)) (x @ r) = x" "drop (symbol_len (x @ r)) (x @ r) = r"
  using assms by (auto simp: symbol_len_symbol utf8_symbol_def)

lemma decode_symbols_encode: "decode_symbols tok (encode_bytes_gpt2 u) out any = out @ u"
proof (induction u arbitrary: out any)
  case (Cons c u)
  show ?case
    using Cons symbol_step [OF byte_symbol_char [of c], of "encode_bytes_gpt2 u"]
    by (subst decode_symbols.simps) (simp add: Let_def byte_decoder_encoder)
qed (simp add: decode_symbols.simps)

lemma decode_symbols_ascii:
  assumes "list_all (\<lambda>c. (of_char c :: nat) < 128) r"
  shows "decode_symbols tok r out True = out @ r"
  using assms
proof (induction r arbitrary: out)
  case (Cons c r)
  have "utf8_symbol [c]" using Cons.prems by (simp add: utf8_symbol_def utf8_len_ascii)
  then show ?case
    using Cons symbol_step [of "[c]" r] byte_decoder_ascii [of c]
    by (subst decode_symbols.simps) (auto simp: Let_def)
qed (simp add: decode_symbols.simps)

text \<open>What the loader establishes, and what the vocabulary of a byte-level model has: one entry
  for every byte symbol, no entry of the form \<^verbatim>\<open><0xNN>\<close>, special tokens in ASCII.\<close>

definition special_ok :: "tokenizer \<Rightarrow> string \<times> int \<Rightarrow> bool" where
  "special_ok t = (\<lambda>(s, i). 0 \<le> i \<and> i < int (length (vocab t)) \<and> vocab t ! nat i = s \<and>
     s \<noteq> [] \<and> hd s = CHR ''<'' \<and> list_all (\<lambda>c. (of_char c :: nat) < 128) s)"

definition byte_complete :: "tokenizer \<Rightarrow> bool" where
  "byte_complete t \<longleftrightarrow> byte_encode t \<and> 0 < bpe_count t \<and>
     list_all (\<lambda>b. token_to_id t (byte_encoder ! b) \<noteq> None) [0..<256] \<and>
     list_all (\<lambda>v. byte_token v = None) (vocab t) \<and> list_all (special_ok t) (special_tokens t)"

definition ids_ok :: "tokenizer \<Rightarrow> bool" where
  "ids_ok t \<longleftrightarrow> (\<forall>s i. token_to_id t s = Some i \<longrightarrow> 0 \<le> i \<and> i < int (length (vocab t)) \<and> vocab t ! nat i = s)"

lemma decode_token_bytes:
  assumes "ids_ok t" "byte_complete t" "token_to_id t (encode_bytes_gpt2 u) = Some i"
  shows "decode_token t i = u"
proof -
  have i: "0 \<le> i" "i < int (length (vocab t))" "vocab t ! nat i = encode_bytes_gpt2 u"
    using assms by (auto simp: ids_ok_def)
  then have "encode_bytes_gpt2 u \<in> set (vocab t)" by (metis nat_less_iff nth_mem)
  then have "byte_token (encode_bytes_gpt2 u) = None"
    using assms(2) by (auto simp: byte_complete_def list_all_iff)
  then show ?thesis
    using assms(2) i by (simp add: decode_token_def Let_def decode_symbols_encode byte_complete_def)
qed

lemma decode_token_special:
  assumes "byte_complete t" "(s, i) \<in> set (special_tokens t)"
  shows "decode_token t i = s \<and> 0 \<le> i \<and> s \<noteq> []"
proof -
  have sp: "special_ok t (s, i)" using assms by (auto simp: byte_complete_def list_all_iff)
  then obtain r where s: "s = CHR ''<'' # r" "list_all (\<lambda>c. (of_char c :: nat) < 128) r"
    by (cases s) (auto simp: special_ok_def)
  have i: "0 \<le> i" "i < int (length (vocab t))" "vocab t ! nat i = s" using sp by (auto simp: special_ok_def)
  then have "s \<in> set (vocab t)" by (metis nat_less_iff nth_mem)
  then have nb: "byte_token s = None" using assms(1) by (auto simp: byte_complete_def list_all_iff)
  have lt: "byte_encoder ! of_char (CHR ''<'') = ''<''"
    by (rule byte_encoder_printable) simp_all
  then have "byte_decoder ''<'' = Some (CHR ''<'')" using byte_decoder_encoder [of "CHR ''<''"] by simp
  moreover have "utf8_symbol ''<''" using byte_symbol_char [of "CHR ''<''"] lt by simp
  ultimately have "decode_symbols s s [] False = s"
    using s decode_symbols_ascii [OF s(2), of s "''<''"] symbol_step [of "''<''" r]
    by (subst decode_symbols.simps) (simp add: Let_def)
  then show ?thesis
    using i nb assms(1) s by (simp add: decode_token_def Let_def byte_complete_def)
qed

lemma fallback_ids_bytes:
  assumes "ids_ok t" "byte_complete t"
  shows "concat (map (decode_token t) (fallback_ids t (encode_bytes_gpt2 u))) = u"
proof (induction u)
  case (Cons c u)
  obtain i where i: "token_to_id t (byte_encoder ! of_char c) = Some i"
    using assms(2) by (fastforce simp: byte_complete_def list_all_iff)
  then have "decode_token t i = [c]" using decode_token_bytes [OF assms, of "[c]"] by simp
  then show ?case
    using Cons i symbol_step [OF byte_symbol_char [of c], of "encode_bytes_gpt2 u"]
    by (subst fallback_ids.simps) simp
qed (simp add: fallback_ids.simps)

lemma symbol_ids_bytes:
  assumes "ids_ok t" "byte_complete t"
  shows "concat (map (decode_token t) (symbol_ids t (encode_bytes_gpt2 u))) = u"
  using decode_token_bytes [OF assms, of u] fallback_ids_bytes [OF assms, of u]
  by (auto simp: symbol_ids_def split: option.splits)

text \<open>Merging keeps any property of symbols that concatenation keeps.\<close>

lemma bpe_merge_loop_closed:
  assumes "\<And>a b. P a \<Longrightarrow> P b \<Longrightarrow> P (a @ b)" "list_all P syms"
  shows "list_all P (bpe_merge_loop ranks syms)"
  using assms(2)
proof (induction ranks syms rule: bpe_merge_loop.induct)
  case (1 ranks syms)
  let ?i = "best_idx_of ranks syms"
  have "list_all P (merge_at ?i syms)" if "?i \<noteq> length syms"
    using best_idx_range [OF that] 1(2) assms(1)
    by (auto simp: merge_at_def list_all_iff dest: in_set_takeD in_set_dropD)
  then show ?case using 1 by (subst bpe_merge_loop.simps) (auto simp: Let_def)
qed

lemma piece_ids_bytes:
  assumes "ids_ok t" "byte_complete t"
  shows "concat (map (decode_token t) (piece_ids t u)) = u"
proof -
  let ?syms = "bpe_merge_loop (bpe_ranks t) (split_utf8_symbols (encode_bytes_gpt2 u))"
  have "list_all (\<lambda>s. \<exists>v. s = encode_bytes_gpt2 v) (split_utf8_symbols (encode_bytes_gpt2 u))"
    unfolding split_encode_bytes list_all_iff
    by (auto intro!: exI [of _ "[_]"])
  then have "list_all (\<lambda>s. \<exists>v. s = encode_bytes_gpt2 v) ?syms"
    by (rule bpe_merge_loop_closed [rotated]) (metis encode_bytes_simps(3))
  then obtain vs where vs: "?syms = map encode_bytes_gpt2 vs"
    unfolding list_all_iff using ex_map_conv [of ?syms encode_bytes_gpt2] by blast
  have "encode_bytes_gpt2 (concat vs) = concat ?syms" unfolding vs
    by (induction vs) auto
  also have "\<dots> = encode_bytes_gpt2 u"
    using bpe_merge_loop_concat concat_split_utf8 by simp
  finally have "concat vs = u" using decode_symbols_encode by (metis append_Nil)
  moreover have "concat (map (decode_token t) (concat (map (symbol_ids t) (map encode_bytes_gpt2 ws)))) = concat ws" for ws
    by (induction ws) (auto simp: symbol_ids_bytes [OF assms])
  ultimately show ?thesis
    using assms(2) by (simp add: piece_ids_def Let_def vs byte_complete_def)
qed

lemma encode_plain_bytes:
  assumes "ids_ok t" "byte_complete t"
  shows "concat (map (decode_token t) (encode_plain t u)) = u"
proof -
  have "concat (map (decode_token t) (concat (map (piece_ids t) ps))) = concat ps" for ps
    by (induction ps) (auto simp: piece_ids_bytes [OF assms])
  then show ?thesis by (simp add: encode_plain_def concat_pretokenize)
qed

lemma match_special_Some:
  "match_special sps s = Some sp \<Longrightarrow> sp \<in> set sps \<and> starts_with (fst sp) s"
  by (auto simp: match_special_def find_Some_iff)

lemma encode_loop_lossless:
  assumes "ids_ok t" "byte_complete t" "length s \<le> fuel"
  shows "\<exists>ids. encode_loop fuel t s = Some ids \<and> concat (map (decode_token t) ids) = s"
  using assms
proof (induction fuel t s rule: encode_loop.induct)
  case (3 fuel t c s)
  let ?n = "next_special (special_tokens t) (c # s)"
  have n: "0 < ?n" by (simp add: next_special_def)
  have plain: "\<exists>ids. map_option ((@) (encode_plain t (take ?n (c # s)))) (encode_loop fuel t (drop ?n (c # s))) = Some ids \<and>
      concat (map (decode_token t) ids) = c # s"
    if ih: "\<exists>ids. encode_loop fuel t (drop ?n (c # s)) = Some ids \<and> concat (map (decode_token t) ids) = drop ?n (c # s)"
    using ih encode_plain_bytes [OF 3(4,5), of "take ?n (c # s)"]
    by (auto simp del: take_Suc_Cons)
  have short: "length (drop k (c # s)) \<le> fuel" if "0 < k" for k using 3(6) that by simp
  show ?case
  proof (cases "match_special (special_tokens t) (c # s)")
    case None
    then show ?thesis using plain [OF 3(1) [OF None refl 3(4,5) short [OF n]]] by (simp add: Let_def)
  next
    case (Some sp)
    obtain tok i where sp: "sp = (tok, i)" by fastforce
    have m: "(tok, i) \<in> set (special_tokens t)" "starts_with tok (c # s)"
      using match_special_Some [OF Some] sp by auto
    have d: "decode_token t i = tok" "0 \<le> i" "tok \<noteq> []" using decode_token_special [OF 3(5) m(1)] by auto
    have "\<exists>ids. encode_loop fuel t (drop (length tok) (c # s)) = Some ids \<and>
        concat (map (decode_token t) ids) = drop (length tok) (c # s)"
      using 3(2) [OF Some sp [symmetric] d(2) 3(4,5) short] d(3) by simp
    moreover have "tok @ drop (length tok) (c # s) = c # s"
      using m(2) unfolding starts_with_def by (metis append_take_drop_id)
    ultimately show ?thesis using Some sp d by auto
  qed
qed auto

text \<open>(C12) Tokenizing loses nothing: with a byte-complete vocabulary every text is encoded (the
  loop ends), and decoding the ids one by one, without the optional begin and end markers, gives
  the text back, whatever bytes it holds, special tokens included.\<close>

theorem encode_decode_lossless:
  assumes "ids_ok t" "byte_complete t"
  shows "\<exists>ids. encode t s =
      Some ((if add_bos t then [bos_id t] else []) @ ids @ (if add_eos t then [eos_id t] else [])) \<and>
    concat (map (decode_token t) ids) = s"
  using encode_loop_lossless [OF assms, of s "length s"] by (auto simp: encode_def)

text \<open>A smallest byte-complete tokenizer: the 256 byte symbols and one special token.\<close>

definition demo_tokenizer :: tokenizer where
  "demo_tokenizer = \<lparr>vocab = byte_encoder @ [''<|im_end|>''],
     token_to_id = (\<lambda>s. if s = ''<|im_end|>'' then Some 256
        else map_option (\<lambda>c. of_char c) (byte_decoder s)),
     special_tokens = [(''<|im_end|>'', 256)], bpe_ranks = [bpe_key ''a'' ''b'' \<mapsto> 0], bpe_count = 1,
     byte_encode = True, add_bos = False, add_eos = True, bos_id = 1, eos_id = 256, max_token_len = 10\<rparr>"

lemma length_byte_encoder: "length byte_encoder = 256"
proof -
  have "length (fold (\<lambda>(b, cp) out. out[b := utf8_from_codepoint cp]) ps out) = length out" for ps out
    by (induction ps arbitrary: out) auto
  then show ?thesis by (simp add: byte_encoder_def split: prod.splits)
qed

lemma byte_encoder_short: "x \<in> set byte_encoder \<Longrightarrow> length x \<le> 2"
proof -
  assume "x \<in> set byte_encoder"
  then obtain b where "b < 256" "x = byte_encoder ! b" by (metis in_set_conv_nth length_byte_encoder)
  then show ?thesis by (cases rule: byte_symbol_cases) auto
qed

lemma byte_decoder_Some:
  assumes "byte_decoder s = Some c"
  shows "byte_encoder ! of_char c = s"
proof (rule ccontr)
  assume ne: "byte_encoder ! of_char c \<noteq> s"
  have "byte_encoder ! b \<noteq> s" if "b < 256" for b
  proof
    assume s: "byte_encoder ! b = s"
    have "(of_char (char_of b :: char) :: nat) = b" using that by simp
    then have "byte_decoder s = Some (char_of b)" using byte_decoder_encoder [of "char_of b"] s by simp
    then show False using assms ne s \<open>of_char (char_of b :: char) = b\<close> by auto
  qed
  then show False using byte_decoder_None assms by force
qed

lemma demo_tokenizer_ok: "ids_ok demo_tokenizer \<and> byte_complete demo_tokenizer"
proof
  show "ids_ok demo_tokenizer" unfolding ids_ok_def
  proof (intro allI impI)
    fix s i assume a: "token_to_id demo_tokenizer s = Some i"
    show "0 \<le> i \<and> i < int (length (vocab demo_tokenizer)) \<and> vocab demo_tokenizer ! nat i = s"
    proof (cases "s = ''<|im_end|>''")
      case True
      then show ?thesis using a by (simp add: demo_tokenizer_def nth_append length_byte_encoder)
    next
      case False
      then obtain c where c: "byte_decoder s = Some c" "i = of_char c"
        using a by (auto simp: demo_tokenizer_def)
      define n where "n = (of_char c :: nat)"
      have n: "of_char c = int n" "n < 256" unfolding n_def by (simp_all add: of_nat_of_char)
      then show ?thesis
        using byte_decoder_Some [OF c(1)] c(2)
        by (simp add: demo_tokenizer_def nth_append length_byte_encoder n_def [symmetric])
    qed
  qed
next
  have "byte_token v = None" if "v \<in> set byte_encoder" for v
    using byte_encoder_short [OF that] by (auto simp: byte_token_def)
  moreover have "byte_decoder (byte_encoder ! b) \<noteq> None" if "b < 256" for b
    using byte_decoder_encoder [of "char_of b"] that by simp
  ultimately show "byte_complete demo_tokenizer"
    by (auto simp: byte_complete_def demo_tokenizer_def list_all_iff special_ok_def length_byte_encoder
        nth_append byte_token_def)
qed

theorem encode_decode_lossless_witness:
  "\<exists>ids. encode demo_tokenizer ''ab <|im_end|> c'' = Some (ids @ [256]) \<and>
     concat (map (decode_token demo_tokenizer) ids) = ''ab <|im_end|> c''"
  using encode_decode_lossless [of demo_tokenizer "''ab <|im_end|> c''"] demo_tokenizer_ok
  by (simp add: demo_tokenizer_def)

end
