(* ===== verification/Tokenizer_Load.thy ===== *)
theory Tokenizer_Load
  imports Bpe_Tokenizer Gguf_File
begin

text \<open>
  \<^verbatim>\<open>Tokenizer::load_from_gguf\<close> of \<^verbatim>\<open>src/engine/tokenizer.cpp\<close>: the scan of the metadata
  for the tokenizer's entries and the tables built from the vocabulary afterwards.

  As in \<^verbatim>\<open>Gguf_File\<close>, \<^verbatim>\<open>None\<close> stands for reading an uninitialised variable after the end
  of the file. \<^verbatim>\<open>std::sort\<close> of the special tokens is an argument; the results hold for every
  function that permutes its argument. \<^verbatim>\<open>sorted_by_len_\<close> is filled but never read and has no
  counterpart.
\<close>


section \<open>The metadata scan\<close>

definition tokenizer_init :: tokenizer where
  "tokenizer_init = \<lparr>vocab = [], token_to_id = Map.empty, special_tokens = [], bpe_ranks = Map.empty,
     bpe_count = 0, byte_encode = True, add_bos = True, add_eos = False, bos_id = 1, eos_id = 2,
     max_token_len = 0\<rparr>"

fun read_strings :: "nat \<Rightarrow> byte list \<Rightarrow> nat \<Rightarrow> (string list \<times> nat) option" where
  "read_strings 0 d p = Some ([], p)"
| "read_strings (Suc n) d p = do {
     (str_len, p) \<leftarrow> rd64 d p;
     (b, p) \<leftarrow> rd (unat str_len) d p;
     (ss, p) \<leftarrow> read_strings n d p;
     Some (str_of_bytes b # ss, p)
   }"

text \<open>One merge line \<^verbatim>\<open>left right\<close> with its number; \<^verbatim>\<open>bpe_count\<close> is the size of the
  map.\<close>

definition add_merge :: "nat \<times> string \<Rightarrow> (string \<rightharpoonup> int) \<times> nat \<Rightarrow> (string \<rightharpoonup> int) \<times> nat" where
  "add_merge = (\<lambda>(m, merge) (ranks, n).
     (case str_find '' '' merge of
        None \<Rightarrow> (ranks, n)
      | Some sp \<Rightarrow>
          (let key = bpe_key (take sp merge) (drop (sp + 1) merge)
           in (ranks(key \<mapsto> to_int32 (int m)), if ranks key = None then n + 1 else n))))"

definition set_merges :: "string list \<Rightarrow> tokenizer \<Rightarrow> tokenizer" where
  "set_merges ms t =
     (let (ranks, n) = fold add_merge (zip [0..<length ms] ms) (Map.empty, 0)
      in t\<lparr>bpe_ranks := ranks, bpe_count := n\<rparr>)"

text \<open>Skipping a value; array elements that are not strings count four bytes each.\<close>

definition skip_tok_value :: "byte list \<Rightarrow> u32 \<Rightarrow> nat \<Rightarrow> nat option" where
  "skip_tok_value d vtype p =
     (if vtype = 0 \<or> vtype = 1 \<or> vtype = 7 then Some (p + 1)
      else if vtype = 2 \<or> vtype = 3 then Some (p + 2)
      else if vtype = 4 \<or> vtype = 5 \<or> vtype = 6 then Some (p + 4)
      else if vtype = 8 then do { (slen, p) \<leftarrow> rd64 d p; Some (seek_cur slen p) }
      else if vtype = 9 then do {
        (atype, p) \<leftarrow> rd32 d p;
        (alen, p) \<leftarrow> rd64 d p;
        if atype = 8 then skip_strings (unat alen) d p else Some (p + 4 * unat alen)
      }
      else Some (p + 8))"

definition read_tok_kv :: "byte list \<Rightarrow> nat \<Rightarrow> tokenizer \<Rightarrow> (tokenizer \<times> nat) option" where
  "read_tok_kv d p t = do {
     (key_len, p) \<leftarrow> rd64 d p;
     if key_len > 1024 then Some (t, seek_cur key_len p + 4)
     else do {
       (kb, p) \<leftarrow> rd (unat key_len) d p;
       let key = c_str (str_of_bytes kb);
       (vtype, p) \<leftarrow> rd32 d p;
       if key = ''tokenizer.ggml.tokens'' \<and> vtype = 9 then do {
         (arr_type, p) \<leftarrow> rd32 d p;
         (arr_len, p) \<leftarrow> rd64 d p;
         (ss, p) \<leftarrow> read_strings (unat arr_len) d p;
         Some (t\<lparr>vocab := ss\<rparr>, p)
       }
       else if key = ''tokenizer.ggml.merges'' \<and> vtype = 9 then do {
         (arr_type, p) \<leftarrow> rd32 d p;
         (arr_len, p) \<leftarrow> rd64 d p;
         (ss, p) \<leftarrow> read_strings (unat arr_len) d p;
         Some (set_merges ss t, p)
       }
       else if key = ''tokenizer.ggml.model'' \<and> vtype = 8 then do {
         (str_len, p) \<leftarrow> rd64 d p;
         (b, p) \<leftarrow> rd (unat str_len) d p;
         Some (t\<lparr>byte_encode := (str_of_bytes b = ''gpt2'' \<or> str_of_bytes b = ''qwen2'')\<rparr>, p)
       }
       else if key = ''tokenizer.ggml.bos_token_id'' \<and> vtype = 4 then do {
         (v, p) \<leftarrow> rd32 d p; Some (t\<lparr>bos_id := to_int32 (uint v)\<rparr>, p)
       }
       else if key = ''tokenizer.ggml.eos_token_id'' \<and> vtype = 4 then do {
         (v, p) \<leftarrow> rd32 d p; Some (t\<lparr>eos_id := to_int32 (uint v)\<rparr>, p)
       }
       else if key = ''tokenizer.ggml.add_bos_token'' \<and> vtype = 7 then do {
         (b, p) \<leftarrow> rd 1 d p; Some (t\<lparr>add_bos := (b \<noteq> [0])\<rparr>, p)
       }
       else if key = ''tokenizer.ggml.add_eos_token'' \<and> vtype = 7 then do {
         (b, p) \<leftarrow> rd 1 d p; Some (t\<lparr>add_eos := (b \<noteq> [0])\<rparr>, p)
       }
       else map_option (\<lambda>p. (t, p)) (skip_tok_value d vtype p)
     }
   }"

fun read_tok_kvs :: "nat \<Rightarrow> byte list \<Rightarrow> nat \<Rightarrow> tokenizer \<Rightarrow> tokenizer option" where
  "read_tok_kvs 0 d p t = Some t"
| "read_tok_kvs (Suc n) d p t = do { (t, p) \<leftarrow> read_tok_kv d p t; read_tok_kvs n d p t }"


section \<open>The tables\<close>

definition is_special :: "string \<Rightarrow> bool" where
  "is_special tok \<longleftrightarrow> length tok \<ge> 5 \<and>
     ((starts_with ''<|'' tok \<and> drop (length tok - 2) tok = ''|>'') \<or> tok = ''<think>'' \<or> tok = ''</think>'')"

definition build_tables :: "((string \<times> int) list \<Rightarrow> (string \<times> int) list) \<Rightarrow> tokenizer \<Rightarrow> tokenizer" where
  "build_tables sort_by_length t =
     (let ids = map int [0..<length (vocab t)] in
      t\<lparr>token_to_id := fold (\<lambda>(tok, i) m. m(tok \<mapsto> i)) (zip (vocab t) ids) Map.empty,
        special_tokens := sort_by_length (filter (\<lambda>(tok, i). is_special tok) (zip (vocab t) ids)),
        max_token_len := fold (\<lambda>tok m. max m (int (length tok))) (vocab t) 0\<rparr>)"

definition load_from_gguf ::
  "((string \<times> int) list \<Rightarrow> (string \<times> int) list) \<Rightarrow> byte list option \<Rightarrow> tokenizer \<Rightarrow> (bool \<times> tokenizer) option"
where
  "load_from_gguf sort_by_length file t =
     (case file of
        None \<Rightarrow> Some (False, t)
      | Some d \<Rightarrow> do {
          (magic, p) \<leftarrow> rd32 d 0;
          (version, p) \<leftarrow> rd32 d p;
          (n_tensors, p) \<leftarrow> rd64 d p;
          (n_kv, p) \<leftarrow> rd64 d p;
          if magic \<noteq> 0x46554747 then Some (False, t)
          else do {
            t \<leftarrow> read_tok_kvs (unat n_kv) d p t;
            let t = build_tables sort_by_length t;
            Some (vocab t \<noteq> [], t)
          }
        })"


section \<open>What every loaded tokenizer guarantees\<close>

lemma fold_updates: "fold (\<lambda>(k, v) m. m(k \<mapsto> v)) ps m0 s =
    (case map_of (rev ps) s of Some v \<Rightarrow> Some v | None \<Rightarrow> m0 s)"
  by (induction ps arbitrary: m0) (auto simp: map_add_def map_of_append split: option.splits)

lemma zip_ids:
  "(tok, i) \<in> set (zip xs (map int [0..<length xs])) \<Longrightarrow> 0 \<le> i \<and> i < int (length xs) \<and> xs ! nat i = tok"
  by (auto simp: set_zip)

lemma build_tables_ids_ok: "ids_ok (build_tables srt t)"
proof -
  have "0 \<le> i \<and> i < int (length (vocab t)) \<and> vocab t ! nat i = s"
    if "token_to_id (build_tables srt t) s = Some i" for s i
  proof -
    have "map_of (rev (zip (vocab t) (map int [0..<length (vocab t)]))) s = Some i"
      using that by (simp add: build_tables_def Let_def fold_updates split: option.splits)
    then have "(s, i) \<in> set (zip (vocab t) (map int [0..<length (vocab t)]))" by (metis map_of_SomeD set_rev)
    then show ?thesis by (rule zip_ids)
  qed
  then show ?thesis by (auto simp: ids_ok_def build_tables_def Let_def)
qed

lemma build_tables_known: "tok \<in> set (vocab t) \<Longrightarrow> token_to_id (build_tables srt t) tok \<noteq> None"
proof -
  assume "tok \<in> set (vocab t)"
  then have "tok \<in> fst ` set (zip (vocab t) (map int [0..<length (vocab t)]))" by (metis list.set_map length_map length_upt map_fst_zip diff_zero)
  then have "map_of (rev (zip (vocab t) (map int [0..<length (vocab t)]))) tok \<noteq> None"
    by (metis map_of_eq_None_iff set_rev)
  then show ?thesis by (auto simp: build_tables_def Let_def fold_updates)
qed

text \<open>Special tokens carry the id of their spelling, and only spellings of at least five
  characters count.\<close>

lemma build_tables_special:
  assumes "set (srt (filter (\<lambda>(tok, i). is_special tok) (zip (vocab t) (map int [0..<length (vocab t)])))) =
      set (filter (\<lambda>(tok, i). is_special tok) (zip (vocab t) (map int [0..<length (vocab t)])))"
    and "(s, i) \<in> set (special_tokens (build_tables srt t))"
  shows "is_special s \<and> 0 \<le> i \<and> i < int (length (vocab t)) \<and> vocab t ! nat i = s"
proof -
  let ?F = "filter (\<lambda>(tok, i). is_special tok) (zip (vocab t) (map int [0..<length (vocab t)]))"
  have sp: "special_tokens (build_tables srt t) = srt ?F"
    unfolding build_tables_def Let_def by simp
  have "(s, i) \<in> set ?F" using assms(2) unfolding sp assms(1) .
  then have "(s, i) \<in> set (zip (vocab t) (map int [0..<length (vocab t)]))" "is_special s" by auto
  from zip_ids [OF this(1)] this(2) show ?thesis by (intro conjI) simp_all
qed

lemma is_special_nonempty: "is_special s \<Longrightarrow> s \<noteq> [] \<and> hd s = CHR ''<''"
  by (cases s) (auto simp: is_special_def starts_with_def)

lemma encode_loop_total:
  assumes "\<And>sp i. (sp, i) \<in> set (special_tokens t) \<Longrightarrow> sp \<noteq> []" "length s \<le> fuel"
  shows "encode_loop fuel t s \<noteq> None"
  using assms
proof (induction fuel t s rule: encode_loop.induct)
  case (3 fuel t c s)
  let ?n = "next_special (special_tokens t) (c # s)"
  have short: "length (drop k (c # s)) \<le> fuel" if "0 < k" for k using 3(5) that by simp
  have n: "0 < ?n" by (simp add: next_special_def)
  show ?case
  proof (cases "match_special (special_tokens t) (c # s)")
    case None
    then show ?thesis using 3(1) [OF None refl 3(4) short [OF n]] by (simp add: Let_def)
  next
    case (Some sp)
    obtain tok i where sp: "sp = (tok, i)" by fastforce
    have tok: "0 < length tok" using match_special_Some [OF Some] sp 3(4) by auto
    show ?thesis
    proof (cases "0 \<le> i")
      case True
      then show ?thesis using 3(2) [OF Some sp [symmetric] True 3(4) short [OF tok]] Some sp by simp
    next
      case False
      then show ?thesis
        using 3(3) [OF Some sp [symmetric] False refl 3(4) short [OF n]] Some sp by (simp add: Let_def)
    qed
  qed
qed auto

text \<open>Every id of an encoding is an index of the vocabulary.\<close>

definition vocab_ids :: "tokenizer \<Rightarrow> int list \<Rightarrow> bool" where
  "vocab_ids t ids \<longleftrightarrow> (\<forall>i \<in> set ids. 0 \<le> i \<and> i < int (length (vocab t)))"

definition tok_ok :: "tokenizer \<Rightarrow> bool" where
  "tok_ok t \<longleftrightarrow> ids_ok t \<and>
     (\<forall>(sp, i) \<in> set (special_tokens t). sp \<noteq> [] \<and> 0 \<le> i \<and> i < int (length (vocab t)) \<and> vocab t ! nat i = sp)"

lemma vocab_ids_append [simp]: "vocab_ids t (xs @ ys) \<longleftrightarrow> vocab_ids t xs \<and> vocab_ids t ys" "vocab_ids t []"
  "vocab_ids t (i # xs) \<longleftrightarrow> 0 \<le> i \<and> i < int (length (vocab t)) \<and> vocab_ids t xs"
  by (auto simp: vocab_ids_def)

lemma vocab_ids_concat: "(\<And>x. x \<in> set xs \<Longrightarrow> vocab_ids t (f x)) \<Longrightarrow> vocab_ids t (concat (map f xs))"
  by (induction xs) auto

lemma longest_match_id: "longest_match t2i s n = Some (i, len) \<Longrightarrow> \<exists>u. t2i u = Some i"
  by (induction t2i s n rule: longest_match.induct) (auto split: option.splits)

lemma ids_okD: "ids_ok t \<Longrightarrow> token_to_id t s = Some i \<Longrightarrow> 0 \<le> i \<and> i < int (length (vocab t))"
  by (simp add: ids_ok_def)

lemma greedy_ids_range: "ids_ok t \<Longrightarrow> vocab_ids t (greedy_ids t s)"
proof (induction t s rule: greedy_ids.induct)
  case (1 t s)
  show ?case
    using 1 by (subst greedy_ids.simps) (auto split: option.splits dest!: longest_match_id dest: ids_okD)
qed

lemma fallback_ids_range: "ids_ok t \<Longrightarrow> vocab_ids t (fallback_ids t s)"
proof (induction t s rule: fallback_ids.induct)
  case (1 t s)
  then show ?case by (subst fallback_ids.simps) (auto split: option.splits dest: ids_okD)
qed

lemma encode_plain_range: "ids_ok t \<Longrightarrow> vocab_ids t (encode_plain t s)"
  unfolding encode_plain_def piece_ids_def symbol_ids_def Let_def
  by (intro vocab_ids_concat) (auto split: option.splits dest: ids_okD intro!: vocab_ids_concat greedy_ids_range fallback_ids_range)

lemma encode_loop_range: "tok_ok t \<Longrightarrow> encode_loop fuel t s = Some ids \<Longrightarrow> vocab_ids t ids"
proof (induction fuel t s arbitrary: ids rule: encode_loop.induct)
  case (3 fuel t c s)
  have plain: "vocab_ids t (encode_plain t u)" for u using encode_plain_range 3(4) by (simp add: tok_ok_def)
  show ?case
  proof (cases "match_special (special_tokens t) (c # s)")
    case None
    then show ?thesis using 3(1) [OF None refl 3(4)] 3(5) plain by (auto simp: Let_def)
  next
    case (Some sp)
    obtain tok i where sp: "sp = (tok, i)" by fastforce
    have i: "0 \<le> i" "i < int (length (vocab t))" using match_special_Some [OF Some] sp 3(4) by (auto simp: tok_ok_def)
    then show ?thesis using 3(2) [OF Some sp [symmetric] i(1) 3(4)] 3(5) Some sp by auto
  qed
qed auto

lemma encode_typed:
  assumes "tok_ok t"
  shows "\<exists>ids. encode t s = Some ((if add_bos t then [bos_id t] else []) @ ids @ (if add_eos t then [eos_id t] else [])) \<and> vocab_ids t ids"
proof -
  obtain ids where "encode_loop (length s) t s = Some ids"
    using encode_loop_total [of t s "length s"] assms by (fastforce simp: tok_ok_def)
  then show ?thesis using encode_loop_range [OF assms] by (auto simp: encode_def)
qed

lemma build_tables_tok_ok:
  assumes perm: "\<And>xs. set (srt xs) = set xs"
  shows "tok_ok (build_tables srt t)"
proof -
  have "is_special sp \<and> 0 \<le> i \<and> i < int (length (vocab t)) \<and> vocab t ! nat i = sp"
    if "(sp, i) \<in> set (special_tokens (build_tables srt t))" for sp i
    using build_tables_special [of srt t sp i] perm that by simp
  moreover have "vocab (build_tables srt t) = vocab t" by (simp add: build_tables_def Let_def)
  ultimately show ?thesis using build_tables_ids_ok [of srt t] is_special_nonempty by (fastforce simp: tok_ok_def)
qed

lemma load_tok_ok:
  assumes load: "load_from_gguf srt file t0 = Some (True, t)" and perm: "\<And>xs. set (srt xs) = set xs"
  shows "tok_ok t"
proof -
  obtain t1 where "t = build_tables srt t1"
    using load by (auto simp: load_from_gguf_def Let_def bind_eq_Some_conv split: option.splits if_splits)
  then show ?thesis using build_tables_tok_ok [OF perm] by simp
qed

text \<open>(C34) Token ids are well typed: whatever bytes the model file holds, with a tokenizer that loads, the
  ids of the lookup table and of the special tokens index the vocabulary and spell the string looked
  up, encoding any text ends, and every id it gives between the optional begin and end markers is an
  index of the vocabulary.\<close>

theorem loaded_tokenizer_is_safe:
  assumes "load_from_gguf srt file t0 = Some (True, t)"
    and "\<And>xs. set (srt xs) = set xs"
  shows "ids_ok t \<and>
    (\<forall>(sp, i) \<in> set (special_tokens t). 0 \<le> i \<and> i < int (length (vocab t)) \<and> vocab t ! nat i = sp) \<and>
    (\<exists>ids. encode t s = Some ((if add_bos t then [bos_id t] else []) @ ids @ (if add_eos t then [eos_id t] else [])) \<and>
       (\<forall>i \<in> set ids. 0 \<le> i \<and> i < int (length (vocab t))))"
  using load_tok_ok [OF assms] encode_typed [OF load_tok_ok [OF assms], of s] unfolding tok_ok_def vocab_ids_def by auto


section \<open>The vocabulary read back\<close>

text \<open>The metadata the scan understands: every scalar and string, arrays of strings, and arrays
  of four-byte elements under other keys than the two arrays it reads.\<close>

fun tok_value_ok :: "string \<Rightarrow> gguf_value \<Rightarrow> bool" where
  "tok_value_ok key (GArray ty es) \<longleftrightarrow> gguf_scalar_size ty = 4 \<and>
     key \<noteq> ''tokenizer.ggml.tokens'' \<and> key \<noteq> ''tokenizer.ggml.merges''"
| "tok_value_ok key _ \<longleftrightarrow> True"

definition tok_kv_ok :: "gguf_kv \<Rightarrow> bool" where
  "tok_kv_ok kv \<longleftrightarrow> kv_ok kv \<and> length (fst kv) \<le> 1024 \<and> CHR 0x00 \<notin> set (fst kv) \<and> tok_value_ok (fst kv) (snd kv)"

fun tok_apply :: "string \<Rightarrow> gguf_value \<Rightarrow> tokenizer \<Rightarrow> tokenizer" where
  "tok_apply key (GStrArray ss) t =
     (if key = ''tokenizer.ggml.tokens'' then t\<lparr>vocab := map str_of_bytes ss\<rparr>
      else if key = ''tokenizer.ggml.merges'' then set_merges (map str_of_bytes ss) t else t)"
| "tok_apply key (GString b) t =
     (if key = ''tokenizer.ggml.model''
      then t\<lparr>byte_encode := (str_of_bytes b = ''gpt2'' \<or> str_of_bytes b = ''qwen2'')\<rparr> else t)"
| "tok_apply key (GScalar ty b) t =
     (if key = ''tokenizer.ggml.bos_token_id'' \<and> ty = 4 then t\<lparr>bos_id := to_int32 (uint (u32_of b))\<rparr>
      else if key = ''tokenizer.ggml.eos_token_id'' \<and> ty = 4 then t\<lparr>eos_id := to_int32 (uint (u32_of b))\<rparr>
      else if key = ''tokenizer.ggml.add_bos_token'' \<and> ty = 7 then t\<lparr>add_bos := (b \<noteq> [0])\<rparr>
      else if key = ''tokenizer.ggml.add_eos_token'' \<and> ty = 7 then t\<lparr>add_eos := (b \<noteq> [0])\<rparr>
      else t)"
| "tok_apply key (GArray ty es) t = t"

lemma read_strings_at:
  assumes "list_all (\<lambda>b. length b < 2 ^ 63) ss" "drop p d = concat (map lp_bytes ss) @ r"
  shows "read_strings (length ss) d p = Some (map str_of_bytes ss, p + length (concat (map lp_bytes ss)))"
  using assms
proof (induction ss arbitrary: p)
  case (Cons b ss)
  have a: "drop p d = lp_bytes b @ (concat (map lp_bytes ss) @ r)" using Cons.prems(2) by simp
  have n: "unat (of_nat (length b) :: u64) = length b" using Cons.prems(1) by (intro le64_of_nat_less) simp
  show ?case
    using Cons.IH [OF _ lp_at(3) [OF a]] Cons.prems(1) lp_at(1) [OF a] rd_at [OF lp_at(2) [OF a], of "length b"] n
    by simp
qed simp

lemma skip_tok_value_at:
  assumes ok: "value_ok v" "tok_value_ok key v" and at: "drop p d = value_bytes v @ r"
  shows "skip_tok_value d (value_type v) p = Some (p + length (value_bytes v))"
proof (cases v)
  case (GScalar ty b)
  then show ?thesis using ok by (auto simp: skip_tok_value_def gguf_scalar_size_def split: if_splits)
next
  case (GString b)
  then have "drop p d = lp_bytes b @ r" using at by simp
  from lp_at [OF this] show ?thesis
    using GString ok seek_cur_small [of "length b" "p + 8"] by (simp add: skip_tok_value_def)
next
  case (GArray ty es)
  have at1: "drop p d = le32 ty @ (le64 (of_nat (length es)) @ (concat es @ r))" using at GArray by simp
  note at2 = drop_step(1) [OF at1]
  have sz: "gguf_scalar_size ty = 4" "length (concat es) = length es * 4"
    using ok GArray length_concat_fixed [of 4 es] by auto
  have "unat (of_nat (length es) :: u64) = length es" using ok GArray by (intro le64_of_nat_less) simp
  moreover have "ty \<noteq> 8" using sz(1) by (auto simp: gguf_scalar_size_def)
  ultimately show ?thesis
    using GArray rd32_at [OF at1] rd64_at [OF at2] sz by (simp add: skip_tok_value_def)
next
  case (GStrArray ss)
  have at1: "drop p d = le32 8 @ (le64 (of_nat (length ss)) @ (concat (map lp_bytes ss) @ r))"
    using at GStrArray by simp
  note at2 = drop_step(1) [OF at1]
  note at3 = drop_step(2) [OF at2]
  have "unat (of_nat (length ss) :: u64) = length ss" using ok GStrArray by (intro le64_of_nat_less) simp
  then show ?thesis
    using GStrArray ok rd32_at [OF at1] rd64_at [OF at2] skip_strings_at [OF _ at3]
    by (simp add: skip_tok_value_def)
qed

lemma read_tok_kv_at:
  assumes ok: "tok_kv_ok kv" and at: "drop p d = kv_bytes kv @ r"
  shows "read_tok_kv d p t = Some (tok_apply (fst kv) (snd kv) t, p + length (kv_bytes kv))"
proof -
  let ?k = "bytes_of_str (fst kv)" and ?v = "snd kv"
  have a1: "drop p d = lp_bytes ?k @ (le32 (value_type ?v) @ (value_bytes ?v @ r))"
    using at by (simp add: kv_bytes_def)
  note a2 = lp_at(2) [OF a1] and a3 = lp_at(3) [OF a1]
  note a4 = drop_step(1) [OF a3]
  have kl: "length ?k \<le> 1024" "value_ok ?v" "tok_value_ok (fst kv) ?v"
    using ok by (auto simp: tok_kv_ok_def kv_ok_def)
  have n: "unat (of_nat (length ?k) :: u64) = length ?k" using kl(1) by (simp add: unat_of_nat)
  have short: "\<not> (1024 < (of_nat (length ?k) :: u64))"
    using kl(1) n by (simp add: word_less_nat_alt)
  have key: "c_str (str_of_bytes ?k) = fst kv" using ok by (simp add: tok_kv_ok_def c_str_no_nul)
  define q where "q = p + 8 + length ?k"
  have kb: "rd (length ?k) d (p + 8) = Some (?k, q)" using rd_at [OF a2, of "length ?k"] by (simp add: q_def)
  have vt: "rd32 d q = Some (value_type ?v, q + 4)" using rd32_at [OF a3] by (simp add: q_def)
  have a5: "drop (q + 4) d = value_bytes ?v @ r" using a4 by (simp add: q_def)
  have len: "p + length (kv_bytes kv) = q + 4 + length (value_bytes ?v)" by (simp add: q_def kv_bytes_def)
  note base = lp_at(1) [OF a1] n short kb key vt
  note skip = skip_tok_value_at [OF kl(2,3) a5]
  show ?thesis unfolding len
  proof (cases ?v)
    case (GScalar ty b)
    have b: "drop (q + 4) d = b @ r" "length b = gguf_scalar_size ty" using a5 kl(2) GScalar by simp_all
    have v4: "ty = 4 \<Longrightarrow> rd32 d (q + 4) = Some (u32_of b, q + 4 + length b)"
      using rd_at [OF b(1), of 4] b(2) by (simp add: rd32_def gguf_scalar_size_def)
    have v7: "ty = 7 \<Longrightarrow> rd 1 d (q + 4) = Some (b, q + 4 + length b)"
      using rd_at [OF b(1), of 1] b(2) by (simp add: gguf_scalar_size_def)
    have ne: "ty \<noteq> 8" "ty \<noteq> 9" using kl(2) GScalar by (auto simp: gguf_scalar_size_def)
    consider "ty = 4" | "ty = 7" | "ty \<noteq> 4" "ty \<noteq> 7" by blast
    then show "read_tok_kv d p t = Some (tok_apply (fst kv) ?v t, q + 4 + length (value_bytes ?v))"
      unfolding read_tok_kv_def using base skip v4 v7 GScalar ne by cases (simp_all add: Let_def)
  next
    case (GString b)
    have s: "drop (q + 4) d = lp_bytes b @ r" using a5 GString by simp
    have nb: "unat (of_nat (length b) :: u64) = length b"
      using kl(2) GString by (intro le64_of_nat_less) simp
    show "read_tok_kv d p t = Some (tok_apply (fst kv) ?v t, q + 4 + length (value_bytes ?v))"
      unfolding read_tok_kv_def
      using base skip lp_at(1) [OF s] rd_at [OF lp_at(2) [OF s], of "length b"] nb GString
      by (simp add: Let_def)
  next
    case (GArray ty es)
    then show "read_tok_kv d p t = Some (tok_apply (fst kv) ?v t, q + 4 + length (value_bytes ?v))"
      unfolding read_tok_kv_def using base skip kl(3) by (simp add: Let_def)
  next
    case (GStrArray ss)
    have at1: "drop (q + 4) d = le32 8 @ (le64 (of_nat (length ss)) @ (concat (map lp_bytes ss) @ r))"
      using a5 GStrArray by simp
    note at2 = drop_step(1) [OF at1]
    note at3 = drop_step(2) [OF at2]
    have ns: "unat (of_nat (length ss) :: u64) = length ss" using kl(2) GStrArray by (intro le64_of_nat_less) simp
    have ss: "read_strings (length ss) d (q + 4 + 4 + 8) =
        Some (map str_of_bytes ss, q + 4 + 4 + 8 + length (concat (map lp_bytes ss)))"
      using read_strings_at [OF _ at3] kl(2) GStrArray by simp
    show "read_tok_kv d p t = Some (tok_apply (fst kv) ?v t, q + 4 + length (value_bytes ?v))"
      unfolding read_tok_kv_def
      using base skip rd32_at [OF at1] rd64_at [OF at2] ss ns GStrArray by (simp add: Let_def)
  qed
qed

lemma read_tok_kvs_at:
  assumes "list_all tok_kv_ok kvs" "drop p d = concat (map kv_bytes kvs) @ r"
  shows "read_tok_kvs (length kvs) d p t = Some (fold (\<lambda>(key, v). tok_apply key v) kvs t)"
  using assms
proof (induction kvs arbitrary: p t)
  case (Cons kv kvs)
  have a: "drop p d = kv_bytes kv @ (concat (map kv_bytes kvs) @ r)" using Cons.prems(2) by simp
  show ?case
    using Cons.IH [OF _ drop_add_append [OF a]] read_tok_kv_at [OF _ a] Cons.prems(1)
    by (simp add: case_prod_beta)
qed simp

lemma load_metadata_at:
  assumes kvs: "list_all tok_kv_ok kvs" "length kvs < 2 ^ 64"
  shows "load_from_gguf srt (Some (gguf_bytes version kvs tis @ data)) t0 =
    (let t = build_tables srt (fold (\<lambda>(key, v). tok_apply key v) kvs t0) in Some (vocab t \<noteq> [], t))"
proof -
  let ?d = "gguf_bytes version kvs tis @ data"
  have a0: "drop 0 ?d = le32 GGUF_MAGIC @ (le32 version @ (le64 (of_nat (length tis)) @
      (le64 (of_nat (length kvs)) @ (concat (map kv_bytes kvs) @ (concat (map tensor_info_bytes tis) @ data)))))"
    by (simp add: gguf_bytes_def)
  note a1 = drop_step(1) [OF a0]
  note a2 = drop_step(1) [OF a1]
  note a3 = drop_step(2) [OF a2]
  note a4 = drop_step(2) [OF a3]
  have n: "unat (of_nat (length kvs) :: u64) = length kvs" using kvs le64_of_nat_less by blast
  show ?thesis unfolding load_from_gguf_def
    using rd32_at [OF a0] rd32_at [OF a1] rd64_at [OF a2] rd64_at [OF a3] read_tok_kvs_at [OF kvs(1) a4, of t0] n
    by (simp add: Let_def GGUF_MAGIC_def)
qed

text \<open>(C35) Loading a tokenizer from a file of supported metadata gives exactly what the entries say:
  the vocabulary, the merges in order, the model kind and the marker settings, and the tables built
  from them.\<close>

theorem load_from_gguf_reads_metadata:
  assumes kvs: "list_all tok_kv_ok kvs" "length kvs < 2 ^ 64"
  shows "load_from_gguf srt (Some (gguf_bytes version kvs tis @ data)) t0 =
    (let t = build_tables srt (fold (\<lambda>(key, v). tok_apply key v) kvs t0) in Some (vocab t \<noteq> [], t))"
  by (rule load_metadata_at [OF assms])

text \<open>A file with the 256 byte symbols, a merged token, a special token and one merge.\<close>

definition demo_tok_kvs :: "gguf_kv list" where
  "demo_tok_kvs = [(''tokenizer.ggml.model'', GString (bytes_of_str ''gpt2'')),
     (''tokenizer.ggml.tokens'', GStrArray (map bytes_of_str (byte_encoder @ [''ab'', ''<|im_end|>'']))),
     (''tokenizer.ggml.merges'', GStrArray [bytes_of_str ''a b'']),
     (''tokenizer.ggml.scores'', GArray 6 [[0, 0, 0, 0]]),
     (''tokenizer.ggml.add_bos_token'', GScalar 7 [0])]"

lemma demo_tok_kvs_ok: "list_all tok_kv_ok demo_tok_kvs"
proof -
  have "length x < 2 ^ 63" if "x \<in> set (byte_encoder @ [''ab'', ''<|im_end|>''])" for x
    using that byte_encoder_short [of x] by auto
  then show ?thesis
    by (simp add: demo_tok_kvs_def tok_kv_ok_def kv_ok_def gguf_scalar_size_def length_byte_encoder list_all_iff)
qed

lemma demo_tok_fold:
  "fold (\<lambda>(key, v). tok_apply key v) demo_tok_kvs tokenizer_init =
   tokenizer_init\<lparr>vocab := byte_encoder @ [''ab'', ''<|im_end|>''], byte_encode := True, add_bos := False,
     bpe_ranks := [bpe_key ''a'' ''b'' \<mapsto> 0], bpe_count := 1\<rparr>"
proof -
  have "map str_of_bytes (map bytes_of_str (byte_encoder @ [''ab'', ''<|im_end|>''])) = byte_encoder @ [''ab'', ''<|im_end|>'']"
    unfolding map_map by (rule map_idI) simp
  moreover have "set_merges [''a b''] t = t\<lparr>bpe_ranks := [bpe_key ''a'' ''b'' \<mapsto> 0], bpe_count := 1\<rparr>" for t
    by (simp add: set_merges_def add_merge_def starts_with_def to_int32_def)
  ultimately show ?thesis by (simp add: demo_tok_kvs_def tokenizer_init_def del: map_map map_append)
qed

theorem load_from_gguf_reads_metadata_witness:
  "\<exists>t. load_from_gguf (\<lambda>xs. xs) (Some (gguf_bytes 3 demo_tok_kvs [] @ [])) tokenizer_init = Some (True, t) \<and>
     vocab t = byte_encoder @ [''ab'', ''<|im_end|>''] \<and> byte_encode t \<and> \<not> add_bos t \<and>
     bpe_ranks t (bpe_key ''a'' ''b'') = Some 0"
  using load_from_gguf_reads_metadata [of demo_tok_kvs "\<lambda>xs. xs" 3 "[]" "[]" tokenizer_init] demo_tok_kvs_ok
  unfolding demo_tok_fold
  by (simp add: build_tables_def demo_tok_kvs_def Let_def)

theorem loaded_tokenizer_is_safe_witness:
  "\<exists>t. load_from_gguf (\<lambda>xs. xs) (Some (gguf_bytes 3 demo_tok_kvs [] @ [])) tokenizer_init = Some (True, t) \<and>
     encode t ''abc<|im_end|>'' \<noteq> None \<and> ids_ok t"
proof -
  have "length demo_tok_kvs < 2 ^ 64" by (simp add: demo_tok_kvs_def)
  then obtain t where t: "load_from_gguf (\<lambda>xs. xs) (Some (gguf_bytes 3 demo_tok_kvs [] @ [])) tokenizer_init = Some (True, t)"
    using load_metadata_at [OF demo_tok_kvs_ok, of "\<lambda>xs. xs" 3 "[]" "[]" tokenizer_init]
    by (simp add: demo_tok_fold build_tables_def Let_def)
  from loaded_tokenizer_is_safe [OF t, of "''abc<|im_end|>''"] t show ?thesis by blast
qed

end
