(* ===== verification/Scratch_Pool.thy ===== *)
theory Scratch_Pool
  imports Prelude
begin

text \<open>
  The scratch allocator of \<^verbatim>\<open>src/memory/pool.cpp\<close> (class \<^verbatim>\<open>ScratchPool\<close> of
  \<^verbatim>\<open>include/jllm_memory.h\<close>): one device allocation made at load time, handed out by a bump
  cursor that is reset at the start of every forward pass and rewound to a mark between the layers
  of a batched prefill.

  Addresses are integers and \<^verbatim>\<open>nullptr\<close> is 0. \<^verbatim>\<open>cudaMalloc\<close> is not part of the
  repository: its outcome (an address, or failure) is an argument of \<^verbatim>\<open>scratch_init\<close>.

  The locale \<^verbatim>\<open>arena\<close> is the contract the forward pass relies on (a request that fits gets
  a block and moves the cursor by the rounded size); it is interpreted on \<^verbatim>\<open>ScratchPool\<close>,
  and its lemma says when a whole sequence of requests succeeds.
\<close>

unbundle bit_operations_syntax


section \<open>The pool\<close>

record scratch_pool =
  sp_base :: int
  sp_capacity :: int
  sp_offset :: int

definition scratch_empty :: scratch_pool where
  "scratch_empty = \<lparr>sp_base = 0, sp_capacity = 0, sp_offset = 0\<rparr>"

definition scratch_init :: "int option \<Rightarrow> int \<Rightarrow> scratch_pool \<Rightarrow> bool \<times> scratch_pool" where
  "scratch_init malloc size_bytes p =
     (case malloc of
        None \<Rightarrow> (False, p)
      | Some a \<Rightarrow> (True, p\<lparr>sp_base := a, sp_capacity := size_bytes, sp_offset := 0\<rparr>))"

definition scratch_destroy :: "scratch_pool \<Rightarrow> scratch_pool" where
  "scratch_destroy p =
     (if sp_base p \<noteq> 0 then p\<lparr>sp_base := 0\<rparr> else p)\<lparr>sp_capacity := 0, sp_offset := 0\<rparr>"

text \<open>\<^verbatim>\<open>(size + 255) & ~255LL\<close>.\<close>

definition align256 :: "int \<Rightarrow> int" where
  "align256 sz = (sz + 255) AND NOT 255"

definition scratch_get :: "int \<Rightarrow> scratch_pool \<Rightarrow> int \<times> scratch_pool" where
  "scratch_get n p =
     (let sz = align256 n in
      if sp_offset p + sz > sp_capacity p then (0, p)
      else (sp_base p + sp_offset p, p\<lparr>sp_offset := sp_offset p + sz\<rparr>))"

definition scratch_reset :: "scratch_pool \<Rightarrow> scratch_pool" where
  "scratch_reset p = p\<lparr>sp_offset := 0\<rparr>"

definition scratch_mark :: "scratch_pool \<Rightarrow> int" where
  "scratch_mark p = sp_offset p"

definition scratch_rewind_to :: "int \<Rightarrow> scratch_pool \<Rightarrow> scratch_pool" where
  "scratch_rewind_to saved_offset p =
     (if saved_offset < 0 \<or> saved_offset > sp_capacity p then p
      else p\<lparr>sp_offset := saved_offset\<rparr>)"

definition scratch_used :: "scratch_pool \<Rightarrow> int" where
  "scratch_used p = sp_offset p"

definition scratch_capacity :: "scratch_pool \<Rightarrow> int" where
  "scratch_capacity p = sp_capacity p"

text \<open>A run of the pool between \<^verbatim>\<open>init\<close> and \<^verbatim>\<open>destroy\<close>: the calls the engine
  makes on it, and beside the pool the blocks it has handed out and not taken back. A block is its
  start address and the size the caller asked for.\<close>

datatype scratch_call = Get int | Reset | Rewind int

fun scratch_step ::
  "scratch_call \<Rightarrow> scratch_pool \<times> (int \<times> int) list \<Rightarrow> scratch_pool \<times> (int \<times> int) list"
where
  "scratch_step (Get n) (p, live) =
     (let (ptr, p') = scratch_get n p in
      (p', if ptr = 0 then live else live @ [(ptr, n)]))"
| "scratch_step Reset (p, live) = (scratch_reset p, [])"
| "scratch_step (Rewind m) (p, live) =
     (let p' = scratch_rewind_to m p in
      (p', filter (\<lambda>(a, n). a + n \<le> sp_base p' + sp_offset p') live))"

definition scratch_run ::
  "scratch_call list \<Rightarrow> scratch_pool \<Rightarrow> scratch_pool \<times> (int \<times> int) list"
where
  "scratch_run cs p = fold scratch_step cs (p, [])"

text \<open>What the engine relies on: every live block lies inside the device allocation, below the
  cursor, and no two of them share a byte.\<close>

definition blocks_ok :: "scratch_pool \<Rightarrow> (int \<times> int) list \<Rightarrow> bool" where
  "blocks_ok p live \<longleftrightarrow>
     0 \<le> sp_offset p \<and> sp_offset p \<le> sp_capacity p \<and>
     (\<forall>(a, n) \<in> set live. sp_base p \<le> a \<and> 0 \<le> n \<and> a + n \<le> sp_base p + sp_offset p) \<and>
     sorted_wrt (\<lambda>(a, n) (b, m). a + n \<le> b) live"


section \<open>Rounding\<close>

lemma align256_eq: "align256 sz = 256 * ((sz + 255) div 256)"
proof -
  have m: "(255 :: int) = mask 8" by (simp add: mask_eq_exp_minus_1)
  have "x AND NOT (255 :: int) = push_bit 8 (drop_bit 8 x)" for x
    unfolding m by (rule bit_eqI) (auto simp: bit_simps)
  then show ?thesis by (simp add: align256_def push_bit_eq_mult drop_bit_eq_div)
qed

lemma align256_bounds: "sz \<le> align256 sz \<and> align256 sz < sz + 256"
  unfolding align256_eq by linarith

lemma align256_nonneg: "0 \<le> sz \<Longrightarrow> 0 \<le> align256 sz"
  using align256_bounds [of sz] by linarith

lemma align256_dvd: "256 dvd align256 sz"
  by (simp add: align256_eq)


section \<open>The calls one by one\<close>

lemma scratch_get_ok:
  "sp_offset p + align256 n \<le> sp_capacity p \<Longrightarrow>
   scratch_get n p = (sp_base p + sp_offset p, p\<lparr>sp_offset := sp_offset p + align256 n\<rparr>)"
  by (simp add: scratch_get_def Let_def)

lemma scratch_get_exhausted:
  "sp_offset p + align256 n > sp_capacity p \<Longrightarrow> scratch_get n p = (0, p)"
  by (simp add: scratch_get_def Let_def)

lemma scratch_get_frame [simp]:
  "sp_base (snd (scratch_get n p)) = sp_base p" "sp_capacity (snd (scratch_get n p)) = sp_capacity p"
  by (simp_all add: scratch_get_def Let_def)

lemma scratch_rewind_frame [simp]:
  "sp_base (scratch_rewind_to m p) = sp_base p" "sp_capacity (scratch_rewind_to m p) = sp_capacity p"
  by (simp_all add: scratch_rewind_to_def)

lemma scratch_reset_frame [simp]:
  "sp_base (scratch_reset p) = sp_base p" "sp_capacity (scratch_reset p) = sp_capacity p"
  "sp_offset (scratch_reset p) = 0"
  by (simp_all add: scratch_reset_def)

text \<open>Rewinding to a mark taken earlier undoes everything allocated since.\<close>

lemma scratch_rewind_mark:
  assumes "0 \<le> sp_offset p" "sp_offset p \<le> sp_capacity p" "sp_base q = sp_base p" "sp_capacity q = sp_capacity p"
  shows "scratch_rewind_to (scratch_mark p) q = p"
  using assms by (simp add: scratch_rewind_to_def scratch_mark_def)


section \<open>Live blocks never overlap\<close>

lemma blocks_ok_init: "0 \<le> sp_capacity p \<Longrightarrow> sp_offset p = 0 \<Longrightarrow> blocks_ok p []"
  by (simp add: blocks_ok_def)

fun call_ok :: "scratch_call \<Rightarrow> bool" where
  "call_ok (Get n) = (0 \<le> n)"
| "call_ok _ = True"

lemma blocks_ok_get:
  assumes inv: "blocks_ok p live" and n: "0 \<le> n"
  shows "case scratch_step (Get n) (p, live) of (q, l) \<Rightarrow> blocks_ok q l"
proof (cases "sp_offset p + align256 n \<le> sp_capacity p")
  case True
  have "n \<le> align256 n" using align256_bounds [of n] by simp
  with True inv n show ?thesis
    by (force simp: scratch_get_ok blocks_ok_def sorted_wrt_append)
next
  case False
  with inv show ?thesis by (simp add: scratch_get_exhausted)
qed

lemma blocks_ok_rewind:
  assumes inv: "blocks_ok p live"
  shows "case scratch_step (Rewind m) (p, live) of (q, l) \<Rightarrow> blocks_ok q l"
proof -
  let ?q = "scratch_rewind_to m p"
  have q: "0 \<le> sp_offset ?q \<and> sp_offset ?q \<le> sp_capacity ?q"
    using inv by (auto simp: blocks_ok_def scratch_rewind_to_def)
  have "sorted_wrt (\<lambda>(a, n) (b, k). a + n \<le> b)
    (filter (\<lambda>(a, n). a + n \<le> sp_base ?q + sp_offset ?q) live)"
    using inv by (intro sorted_wrt_filter) (simp add: blocks_ok_def)
  with q inv show ?thesis by (auto simp: blocks_ok_def Let_def)
qed

lemma blocks_ok_step:
  assumes "blocks_ok p live" "call_ok c" "scratch_step c (p, live) = (q, l)"
  shows "blocks_ok q l"
proof (cases c)
  case (Get n)
  with assms blocks_ok_get [of p live n] show ?thesis by simp
next
  case Reset
  with assms show ?thesis by (auto simp: blocks_ok_def)
next
  case (Rewind m)
  with assms blocks_ok_rewind [of p live m] show ?thesis by simp
qed

lemma scratch_step_frame:
  "scratch_step c (p, live) = (q, l) \<Longrightarrow> sp_base q = sp_base p \<and> sp_capacity q = sp_capacity p"
  by (cases c) (auto simp: Let_def case_prod_unfold)

lemma scratch_fold_ok:
  "blocks_ok p live \<Longrightarrow> list_all call_ok cs \<Longrightarrow> fold scratch_step cs (p, live) = (q, l) \<Longrightarrow>
   blocks_ok q l \<and> sp_base q = sp_base p \<and> sp_capacity q = sp_capacity p"
proof (induction cs arbitrary: p live)
  case (Cons c cs)
  obtain p' live' where s: "scratch_step c (p, live) = (p', live')" by fastforce
  with Cons.prems have "blocks_ok p' live'" by (auto intro: blocks_ok_step)
  with Cons s scratch_step_frame [OF s] show ?case by auto
qed simp




section \<open>Sequences of allocations\<close>

text \<open>The contract of a bump arena, as its clients use it.\<close>

fun get_all :: "(int \<Rightarrow> 's \<Rightarrow> int \<times> 's) \<Rightarrow> int list \<Rightarrow> 's \<Rightarrow> int list \<times> 's" where
  "get_all get [] s = ([], s)"
| "get_all get (n # ns) s =
     (let (p, s') = get n s; (ps, s'') = get_all get ns s' in (p # ps, s''))"

locale arena =
  fixes get :: "int \<Rightarrow> 's \<Rightarrow> int \<times> 's"
    and used :: "'s \<Rightarrow> int" and room :: "'s \<Rightarrow> int" and live :: "'s \<Rightarrow> bool"
  assumes get_fits: "live s \<Longrightarrow> 0 \<le> n \<Longrightarrow> used s + align256 n \<le> room s \<Longrightarrow>
      fst (get n s) \<noteq> 0 \<and> used (snd (get n s)) = used s + align256 n \<and>
      room (snd (get n s)) = room s \<and> live (snd (get n s))"
begin

lemma get_all_fits:
  assumes "live s" "\<forall>n \<in> set ns. 0 \<le> n" "used s + sum_list (map align256 ns) \<le> room s"
  shows "0 \<notin> set (fst (get_all get ns s)) \<and>
    used (snd (get_all get ns s)) = used s + sum_list (map align256 ns) \<and>
    room (snd (get_all get ns s)) = room s \<and> live (snd (get_all get ns s))"
  using assms
proof (induction ns arbitrary: s)
  case (Cons n ns)
  have "0 \<le> sum_list (map align256 ns)"
    using Cons.prems(2) by (intro sum_list_nonneg) (auto simp: align256_nonneg)
  with Cons.prems have g: "fst (get n s) \<noteq> 0 \<and> used (snd (get n s)) = used s + align256 n \<and>
      room (snd (get n s)) = room s \<and> live (snd (get n s))"
    by (intro get_fits) auto
  with Cons.prems Cons.IH [of "snd (get n s)"] show ?case
    by (auto simp: Let_def case_prod_unfold)
qed simp

end

definition scratch_live :: "scratch_pool \<Rightarrow> bool" where
  "scratch_live p \<longleftrightarrow> 0 < sp_base p \<and> 0 \<le> sp_offset p \<and> sp_offset p \<le> sp_capacity p"

interpretation scratch: arena scratch_get scratch_used scratch_capacity scratch_live
proof
  fix p :: scratch_pool and n :: int
  assume "scratch_live p" "0 \<le> n" "scratch_used p + align256 n \<le> scratch_capacity p"
  then show "fst (scratch_get n p) \<noteq> 0 \<and> scratch_used (snd (scratch_get n p)) = scratch_used p + align256 n \<and>
      scratch_capacity (snd (scratch_get n p)) = scratch_capacity p \<and> scratch_live (snd (scratch_get n p))"
    using align256_nonneg [of n]
    by (simp add: scratch_get_ok scratch_live_def scratch_used_def scratch_capacity_def)
qed

lemma sum_align256_le:
  "sum_list (map align256 ns) \<le> sum_list ns + 255 * int (length ns)"
proof (induction ns)
  case (Cons n ns)
  then show ?case using align256_bounds [of n] by simp
qed simp

end
