(* ===== verification/KV_Cache_Pool.thy ===== *)
theory KV_Cache_Pool
  imports Prelude
begin

text \<open>
  The KV cache of \<^verbatim>\<open>src/memory/kv_cache.cpp\<close> (class \<^verbatim>\<open>KVCachePool\<close> of
  \<^verbatim>\<open>include/jllm_memory.h\<close>): a device pool of keys and values for the first
  \<^verbatim>\<open>max_context\<close> positions of every layer, an optional host pool for the positions after
  them, and the per-head scales of the INT8 format.

  A pool is the list of its bytes. Pointers into a pool are offsets tagged with the pool they point
  into (\<^verbatim>\<open>kv_loc\<close>). The CUDA calls are not part of the repository: whether the
  \<^verbatim>\<open>i\<close>-th copy or fill succeeds is an argument \<^verbatim>\<open>ok\<close> of the operations that
  issue them, and a copy that succeeds moves the bytes.

  Layout of one layer of the device pool: all keys, then all values, each position taking
  \<^verbatim>\<open>entry_bytes / 2\<close> bytes. Position \<^verbatim>\<open>p\<close> of layer \<^verbatim>\<open>l\<close> is therefore slot
  \<^verbatim>\<open>2 * l * max_context + p\<close> (key) and \<^verbatim>\<open>2 * l * max_context + max_context + p\<close>
  (value); the lemmas below reduce every address computation of the code to these slots. The locale
  \<^verbatim>\<open>kv_store\<close> is what the forward pass and the persistence code rely on: what was stored at
  a position is what is read back, and other positions keep their contents.
\<close>


section \<open>Configuration and state\<close>

record kv_config =
  n_layers :: int
  n_kv_heads :: int
  head_dim :: int
  max_context :: int
  overflow_context :: int
  kv_type_bytes :: int

record kv_pool =
  kv_cfg :: kv_config
  gpu_pool :: "byte list option"
  cpu_pool :: "byte list option"
  kv_scales :: "u32 list option"
  used_tokens :: int
  gpu_tokens :: int

datatype kv_loc = Gpu int | Cpu int

definition kv_pool_empty :: kv_pool where
  "kv_pool_empty = \<lparr>kv_cfg = \<lparr>n_layers = 0, n_kv_heads = 0, head_dim = 0, max_context = 0,
     overflow_context = 0, kv_type_bytes = 0\<rparr>, gpu_pool = None, cpu_pool = None,
     kv_scales = None, used_tokens = 0, gpu_tokens = 0\<rparr>"

definition entry_bytes :: "kv_config \<Rightarrow> int" where
  "entry_bytes c = 2 * n_kv_heads c * head_dim c * kv_type_bytes c"

definition kv_max_tokens :: "kv_config \<Rightarrow> int" where
  "kv_max_tokens c = max_context c + overflow_context c"

definition is_fast_position :: "kv_config \<Rightarrow> int \<Rightarrow> bool" where
  "is_fast_position c pos \<longleftrightarrow> pos < max_context c"

definition gpu_pool_bytes :: "kv_config \<Rightarrow> int" where
  "gpu_pool_bytes c = n_layers c * max_context c * entry_bytes c"

definition packed_used_bytes :: "kv_config \<Rightarrow> int \<Rightarrow> int" where
  "packed_used_bytes c used = (if used \<le> 0 then 0 else n_layers c * used * entry_bytes c)"

definition kv_scales_bytes :: "kv_config \<Rightarrow> int" where
  "kv_scales_bytes c =
     (if kv_type_bytes c \<noteq> 1 then 0
      else 2 * n_layers c * max_context c * n_kv_heads c * 4)"

definition used_bytes :: "kv_pool \<Rightarrow> int" where
  "used_bytes p = used_tokens p * entry_bytes (kv_cfg p) * n_layers (kv_cfg p)"

definition capacity_bytes :: "kv_config \<Rightarrow> int" where
  "capacity_bytes c = (max_context c + overflow_context c) * entry_bytes c * n_layers c"


section \<open>Operations\<close>

text \<open>Outcomes of the four allocations of \<^verbatim>\<open>init\<close>: the device pool, clearing it, the
  overflow pool, the scales. A failed scale allocation is tolerated, a failed overflow allocation
  disables the overflow region.\<close>

record kv_init_env =
  gpu_malloc_ok :: bool
  gpu_memset_ok :: bool
  cpu_malloc_ok :: bool
  scales_malloc_ok :: bool

definition kv_init :: "kv_init_env \<Rightarrow> kv_config \<Rightarrow> kv_pool \<Rightarrow> bool \<times> kv_pool" where
  "kv_init e cfg p0 =
     (let p = p0\<lparr>kv_cfg := cfg\<rparr>;
          fast_bytes = n_layers cfg * entry_bytes cfg * max_context cfg;
          overflow_bytes = n_layers cfg * entry_bytes cfg * overflow_context cfg in
      if \<not> gpu_malloc_ok e then (False, p)
      else if \<not> gpu_memset_ok e then (False, p\<lparr>gpu_pool := None\<rparr>)
      else
        let p = p\<lparr>gpu_pool := Some (replicate (nat fast_bytes) 0)\<rparr>;
            p = (if overflow_context cfg > 0 \<and> overflow_bytes > 0 then
                   (if \<not> cpu_malloc_ok e
                    then p\<lparr>cpu_pool := None, kv_cfg := (kv_cfg p)\<lparr>overflow_context := 0\<rparr>\<rparr>
                    else p\<lparr>cpu_pool := Some (replicate (nat overflow_bytes) 0)\<rparr>)
                 else p);
            p = (if kv_type_bytes cfg = 1 then
                   (if \<not> scales_malloc_ok e then p\<lparr>kv_scales := None\<rparr>
                    else p\<lparr>kv_scales := Some (replicate (nat (kv_scales_bytes (kv_cfg p)) div 4) 0)\<rparr>)
                 else p)
        in (True, p\<lparr>used_tokens := 0, gpu_tokens := 0\<rparr>))"

definition kv_destroy :: "kv_pool \<Rightarrow> kv_pool" where
  "kv_destroy p =
     p\<lparr>gpu_pool := None, cpu_pool := None, kv_scales := None, used_tokens := 0, gpu_tokens := 0\<rparr>"

definition key_ptr :: "kv_config \<Rightarrow> int \<Rightarrow> int \<Rightarrow> kv_loc" where
  "key_ptr c layer pos =
     (let eb = entry_bytes c sdiv 2 in
      if pos < max_context c then
        (let layer_stride = max_context c * entry_bytes c
         in Gpu (layer * layer_stride + pos * eb))
      else
        (let overflow_pos = pos - max_context c;
             layer_stride = overflow_context c * entry_bytes c
         in Cpu (layer * layer_stride + overflow_pos * eb)))"

definition val_ptr :: "kv_config \<Rightarrow> int \<Rightarrow> int \<Rightarrow> kv_loc" where
  "val_ptr c layer pos =
     (let eb = entry_bytes c sdiv 2 in
      if pos < max_context c then
        (let layer_stride = max_context c * entry_bytes c;
             key_offset = max_context c * eb
         in Gpu (layer * layer_stride + key_offset + pos * eb))
      else
        (let overflow_pos = pos - max_context c;
             layer_stride = overflow_context c * entry_bytes c;
             key_offset = overflow_context c * eb
         in Cpu (layer * layer_stride + key_offset + overflow_pos * eb)))"

definition kv_clear :: "kv_pool \<Rightarrow> kv_pool" where
  "kv_clear p = p\<lparr>used_tokens := 0, gpu_tokens := 0\<rparr>"

text \<open>\<^verbatim>\<open>evict\<close>: per layer, copy the first \<^verbatim>\<open>n_tokens * eb\<close> bytes of the layer's
  device slab to the layer's host slab and move the bytes behind them to the front.\<close>

definition evict_layer :: "kv_config \<Rightarrow> int \<Rightarrow> int \<Rightarrow> nat \<Rightarrow> byte list \<times> byte list \<Rightarrow> byte list \<times> byte list" where
  "evict_layer c gpu_toks n_tokens l = (\<lambda>(gpu, cpu).
     (let eb = entry_bytes c;
          src = int l * max_context c * eb;
          dst = int l * overflow_context c * eb;
          cpu' = blit cpu (nat dst) (slice (nat src) (nat (n_tokens * eb)) gpu);
          remaining = gpu_toks - n_tokens;
          gpu' = (if remaining > 0
                  then blit gpu (nat src) (slice (nat (src + n_tokens * eb)) (nat (remaining * eb)) gpu)
                  else gpu)
      in (gpu', cpu')))"

definition kv_evict :: "int \<Rightarrow> kv_pool \<Rightarrow> kv_pool" where
  "kv_evict n_tokens p =
     (case (cpu_pool p, gpu_pool p) of
        (Some cpu, Some gpu) \<Rightarrow>
          if n_tokens \<le> 0 then p
          else
            (let (gpu', cpu') =
               fold (evict_layer (kv_cfg p) (gpu_tokens p) n_tokens) [0..<nat (n_layers (kv_cfg p))] (gpu, cpu)
             in p\<lparr>gpu_pool := Some gpu', cpu_pool := Some cpu', gpu_tokens := gpu_tokens p - n_tokens\<rparr>)
      | _ \<Rightarrow> p)"

text \<open>\<^verbatim>\<open>gather_used_to_host\<close>: the copies of layer \<^verbatim>\<open>l\<close> are calls
  \<^verbatim>\<open>2 * l\<close> and \<^verbatim>\<open>2 * l + 1\<close>; the first failure stops the loop.\<close>

fun gather_layers ::
  "(nat \<Rightarrow> bool) \<Rightarrow> kv_config \<Rightarrow> int \<Rightarrow> byte list \<Rightarrow> nat list \<Rightarrow> byte list \<Rightarrow> bool \<times> byte list"
where
  "gather_layers ok c used gpu [] d = (True, d)"
| "gather_layers ok c used gpu (l # ls) d =
     (let eb = entry_bytes c;
          half_eb = eb sdiv 2;
          layer_in_stride = max_context c * eb;
          layer_out_stride = used * eb;
          key_used_bytes = used * half_eb;
          src_keys = int l * layer_in_stride;
          src_vals = src_keys + max_context c * half_eb;
          dst_keys = int l * layer_out_stride;
          dst_vals = dst_keys + key_used_bytes in
      if \<not> ok (2 * l) then (False, d)
      else
        let d = blit d (nat dst_keys) (slice (nat src_keys) (nat key_used_bytes) gpu) in
        if \<not> ok (2 * l + 1) then (False, d)
        else
          let d = blit d (nat dst_vals) (slice (nat src_vals) (nat key_used_bytes) gpu) in
          gather_layers ok c used gpu ls d)"

definition gather_used_to_host ::
  "(nat \<Rightarrow> bool) \<Rightarrow> kv_pool \<Rightarrow> int \<Rightarrow> byte list \<Rightarrow> bool \<times> byte list"
where
  "gather_used_to_host ok p used dst =
     (case gpu_pool p of
        None \<Rightarrow> (False, dst)
      | Some gpu \<Rightarrow>
          if used \<le> 0 then (False, dst)
          else if used > max_context (kv_cfg p) then (False, dst)
          else gather_layers ok (kv_cfg p) used gpu [0..<nat (n_layers (kv_cfg p))] dst)"

text \<open>\<^verbatim>\<open>scatter_from_host\<close>: the copies and fills of layer \<^verbatim>\<open>l\<close> are calls
  \<^verbatim>\<open>4 * l\<close> to \<^verbatim>\<open>4 * l + 3\<close>.\<close>

fun scatter_layers ::
  "(nat \<Rightarrow> bool) \<Rightarrow> kv_config \<Rightarrow> int \<Rightarrow> bool \<Rightarrow> byte list \<Rightarrow> nat list \<Rightarrow> byte list \<Rightarrow> bool \<times> byte list"
where
  "scatter_layers ok c used zero_remaining s [] g = (True, g)"
| "scatter_layers ok c used zero_remaining s (l # ls) g =
     (let eb = entry_bytes c;
          half_eb = eb sdiv 2;
          layer_out_stride = max_context c * eb;
          layer_in_stride = used * eb;
          key_used_bytes = used * half_eb;
          key_unused_bytes = (max_context c - used) * half_eb;
          dst_keys = int l * layer_out_stride;
          dst_vals = dst_keys + max_context c * half_eb;
          src_keys = int l * layer_in_stride;
          src_vals = src_keys + key_used_bytes in
      if \<not> ok (4 * l) then (False, g)
      else
        let g = blit g (nat dst_keys) (slice (nat src_keys) (nat key_used_bytes) s) in
        if \<not> ok (4 * l + 1) then (False, g)
        else
          let g = blit g (nat dst_vals) (slice (nat src_vals) (nat key_used_bytes) s) in
          if zero_remaining \<and> key_unused_bytes > 0 then
            (if \<not> ok (4 * l + 2) then (False, g)
             else
               let g = zero_fill g (nat (dst_keys + key_used_bytes)) (nat key_unused_bytes) in
               if \<not> ok (4 * l + 3) then (False, g)
               else
                 let g = zero_fill g (nat (dst_vals + key_used_bytes)) (nat key_unused_bytes) in
                 scatter_layers ok c used zero_remaining s ls g)
          else scatter_layers ok c used zero_remaining s ls g)"

definition scatter_from_host ::
  "(nat \<Rightarrow> bool) \<Rightarrow> byte list \<Rightarrow> int \<Rightarrow> bool \<Rightarrow> kv_pool \<Rightarrow> bool \<times> kv_pool"
where
  "scatter_from_host ok src used zero_remaining p =
     (case gpu_pool p of
        None \<Rightarrow> (False, p)
      | Some gpu \<Rightarrow>
          if used \<le> 0 then (False, p)
          else if used > max_context (kv_cfg p) then (False, p)
          else
            (let (done, gpu') =
               scatter_layers ok (kv_cfg p) used zero_remaining src [0..<nat (n_layers (kv_cfg p))] gpu;
               p = p\<lparr>gpu_pool := Some gpu'\<rparr>
             in if \<not> done then (False, p)
                else (True, p\<lparr>used_tokens := used, gpu_tokens := used\<rparr>)))"

text \<open>\<^verbatim>\<open>kv_scale_ptr\<close>: an index into the scale array, \<^verbatim>\<open>None\<close> for
  \<^verbatim>\<open>nullptr\<close>.\<close>

definition kv_scale_ptr :: "kv_pool \<Rightarrow> int \<Rightarrow> int \<Rightarrow> bool \<Rightarrow> int option" where
  "kv_scale_ptr p layer pos is_value =
     (let c = kv_cfg p in
      if kv_scales p = None then None
      else if kv_type_bytes c \<noteq> 1 then None
      else if layer < 0 \<or> layer \<ge> n_layers c then None
      else if pos < 0 \<or> pos \<ge> max_context c then None
      else
        (let per_kv_region = max_context c * n_kv_heads c;
             per_layer = 2 * per_kv_region;
             per_pos = n_kv_heads c
         in Some (layer * per_layer + (if is_value then per_kv_region else 0) + pos * per_pos)))"


section \<open>Slots\<close>

text \<open>A buffer of \<^verbatim>\<open>h\<close>-byte slots: \<^verbatim>\<open>slot_at h b s\<close> is slot \<^verbatim>\<open>s\<close>;
  in a table with \<^verbatim>\<open>m\<close> columns, row \<^verbatim>\<open>r\<close> column \<^verbatim>\<open>i\<close> is slot
  \<^verbatim>\<open>r * m + i\<close>. The keys of layer \<^verbatim>\<open>l\<close> are row \<^verbatim>\<open>2 * l\<close>, its values row
  \<^verbatim>\<open>2 * l + 1\<close>; the device pool has \<^verbatim>\<open>max_context\<close> columns, a packed buffer has as
  many columns as tokens.\<close>

definition slot_at :: "nat \<Rightarrow> byte list \<Rightarrow> nat \<Rightarrow> byte list" where
  "slot_at h b s = slice (s * h) h b"

definition slot :: "nat \<Rightarrow> nat \<Rightarrow> nat \<Rightarrow> nat" where
  "slot m r i = r * m + i"

definition kv_half :: "kv_config \<Rightarrow> nat" where
  "kv_half c = nat (n_kv_heads c * head_dim c * kv_type_bytes c)"

definition kv_cols :: "kv_config \<Rightarrow> nat" where
  "kv_cols c = nat (max_context c)"

definition kv_rows :: "kv_config \<Rightarrow> nat" where
  "kv_rows c = 2 * nat (n_layers c)"

definition kv_cfg_ok :: "kv_config \<Rightarrow> bool" where
  "kv_cfg_ok c \<longleftrightarrow> 0 < n_layers c \<and> 0 < n_kv_heads c \<and> 0 < head_dim c \<and> 0 < max_context c \<and>
     0 \<le> overflow_context c \<and> (kv_type_bytes c = 1 \<or> kv_type_bytes c = 2)"

definition kv_pool_ok :: "kv_pool \<Rightarrow> bool" where
  "kv_pool_ok p \<longleftrightarrow> kv_cfg_ok (kv_cfg p) \<and>
     (case gpu_pool p of None \<Rightarrow> False
      | Some g \<Rightarrow> length g = kv_rows (kv_cfg p) * kv_cols (kv_cfg p) * kv_half (kv_cfg p))"

lemma kv_half_pos: "kv_cfg_ok c \<Longrightarrow> 0 < kv_half c"
  by (auto simp: kv_cfg_ok_def kv_half_def)

lemma kv_cols_pos: "kv_cfg_ok c \<Longrightarrow> 0 < kv_cols c"
  by (auto simp: kv_cfg_ok_def kv_cols_def)

lemma kv_half_int: "kv_cfg_ok c \<Longrightarrow> n_kv_heads c * head_dim c * kv_type_bytes c = int (kv_half c)"
  by (auto simp: kv_cfg_ok_def kv_half_def)

lemma entry_bytes_half [layout_simps]: "kv_cfg_ok c \<Longrightarrow> entry_bytes c = 2 * int (kv_half c)"
  using kv_half_int [of c] by (simp add: entry_bytes_def algebra_simps)

lemma twice_sdiv_2 [layout_simps]: "(2 * int h) sdiv 2 = int h" "(int h * 2) sdiv 2 = int h"
  by (simp_all add: signed_divide_int_def sgn_if)

lemma half_entry_bytes: "kv_cfg_ok c \<Longrightarrow> entry_bytes c sdiv 2 = int (kv_half c)"
  by (simp add: layout_simps)

lemma max_context_cols [layout_simps]: "kv_cfg_ok c \<Longrightarrow> max_context c = int (kv_cols c)"
  by (simp add: kv_cfg_ok_def kv_cols_def)

lemma n_layers_rows [layout_simps]: "kv_cfg_ok c \<Longrightarrow> 2 * n_layers c = int (kv_rows c)"
  by (simp add: kv_cfg_ok_def kv_rows_def)

lemma nat_offset [layout_simps]:
  "nat (int l * (int m * (2 * int h))) = slot m (2 * l) 0 * h"
  "nat (int l * (int m * (2 * int h)) + int m' * int h) = (slot m (2 * l) 0 + m') * h"
  "nat (int m * int h) = m * h"
proof -
  have e: "int l * (int m * (2 * int h)) = int (slot m (2 * l) 0 * h)"
    by (simp add: slot_def)
  show "nat (int l * (int m * (2 * int h))) = slot m (2 * l) 0 * h"
    unfolding e by (rule nat_int)
  have "int l * (int m * (2 * int h)) + int m' * int h = int ((slot m (2 * l) 0 + m') * h)"
    unfolding e by (simp add: algebra_simps)
  then show "nat (int l * (int m * (2 * int h)) + int m' * int h) = (slot m (2 * l) 0 + m') * h"
    by (metis nat_int)
  show "nat (int m * int h) = m * h" by (metis nat_int of_nat_mult)
qed

lemma nat_int_mult [simp]: "nat (int a * int b) = a * b"
  by (rule nat_offset(3))

lemma slot_next_row: "slot m (2 * l) 0 + m = slot m (2 * l + 1) 0"
  by (simp add: slot_def)

lemma slot_row_unique:
  assumes "i < m"
  shows "slot m r' 0 \<le> slot m r i \<and> slot m r i < slot m r' 0 + m \<longleftrightarrow> r = r'"
proof
  assume h: "slot m r' 0 \<le> slot m r i \<and> slot m r i < slot m r' 0 + m"
  with assms have "r' * m \<le> r * m + i" "r * m + i < (r' + 1) * m"
    by (auto simp: slot_def algebra_simps)
  with assms have "r' * m < (r + 1) * m" "r * m < (r' + 1) * m"
    by (auto simp: algebra_simps)
  then have "r' < r + 1 \<and> r < r' + 1" by (metis mult_less_cancel2)
  then show "r = r'" by linarith
qed (use assms in \<open>auto simp: slot_def\<close>)

lemma slot_inj: "i < m \<Longrightarrow> j < m \<Longrightarrow> slot m r i = slot m q j \<Longrightarrow> r = q \<and> i = j"
  using slot_row_unique [of i m q r] by (auto simp: slot_def)

lemma slot_bound: "r < R \<Longrightarrow> i < m \<Longrightarrow> slot m r i < R * m"
proof -
  assume "r < R" "i < m"
  then have "slot m r i < (r + 1) * m" by (simp add: slot_def)
  also have "\<dots> \<le> R * m" using \<open>r < R\<close> by (intro mult_le_mono1) simp
  finally show ?thesis .
qed

lemma slot_row_end: "r < R \<Longrightarrow> slot m r 0 + m \<le> R * m"
proof -
  assume "r < R"
  then have "(r + 1) * m \<le> R * m" by (intro mult_le_mono1) simp
  then show ?thesis by (simp add: slot_def)
qed

lemma mult_slots_le: "s + n \<le> S \<Longrightarrow> s * h + n * h \<le> S * (h :: nat)"
  using mult_le_mono1 [of "s + n" S h] by (simp add: algebra_simps)

lemma slot_slices_ordered:
  assumes "s < (t :: nat)"
  shows "s * h + h \<le> t * h"
  using assms mult_le_mono1 [of "Suc s" t h] by simp

lemma slot_at_blit:
  assumes d: "length d = D * h" and g: "length g = G * h"
    and b: "d0 + n \<le> D" "s0 + n \<le> G" and s: "s < D"
  shows "slot_at h (blit d (d0 * h) (slice (s0 * h) (n * h) g)) s =
     (if d0 \<le> s \<and> s < d0 + n then slot_at h g (s0 + (s - d0)) else slot_at h d s)"
proof -
  let ?src = "slice (s0 * h) (n * h) g"
  have ls: "length ?src = n * h"
    using g b mult_slots_le [of s0 n G h] by (intro length_slice) simp
  have bd: "d0 * h + length ?src \<le> length d"
    using d b mult_slots_le [of d0 n D h] ls by simp
  have sd: "s * h + h \<le> length d"
    using d s mult_slots_le [of s 1 D h] by simp
  consider (in_range) "d0 \<le> s" "s < d0 + n" | (before) "s < d0" | (after) "d0 + n \<le> s" by linarith
  then show ?thesis
  proof cases
    case in_range
    have "(s - d0) * h + h \<le> n * h"
      using in_range mult_slots_le [of "s - d0" 1 n h] by simp
    moreover have "s * h + h \<le> d0 * h + n * h"
      using in_range slot_slices_ordered [of s "d0 + n" h] by (simp add: algebra_simps)
    moreover have "d0 * h \<le> s * h" using in_range by simp
    moreover have "(s0 + s - d0) * h = s0 * h + (s - d0) * h"
      using in_range by (simp flip: add_mult_distrib)
    ultimately show ?thesis
      using in_range g b bd ls mult_slots_le [of s0 n G h]
      by (simp add: slot_at_def slice_blit_inner slice_slice diff_mult_distrib[symmetric] add_mult_distrib)
  next
    case before
    then show ?thesis using bd sd slot_slices_ordered [of s d0 h]
      by (simp add: slot_at_def slice_blit_disjoint)
  next
    case after
    then have "(d0 + n) * h \<le> s * h" by simp
    with after show ?thesis using bd sd ls
      by (simp add: slot_at_def slice_blit_disjoint algebra_simps)
  qed
qed

lemma length_blit_slots:
  assumes "length d = D * h" "length g = G * h" "d0 + n \<le> D" "s0 + n \<le> G"
  shows "length (blit d (d0 * h) (slice (s0 * h) (n * h) g)) = D * h"
  using assms mult_slots_le [of d0 n D h] mult_slots_le [of s0 n G h]
  by (simp add: length_blit length_slice)

lemma slot_at_replicate: "s < n \<Longrightarrow> slot_at h (replicate (n * h) 0) s = replicate h 0"
  using mult_slots_le [of s 1 n h] by (simp add: slot_at_def slice_def min_def)

lemma slot_at_zero_fill:
  assumes d: "length d = D * h" and b: "d0 + n \<le> D" and s: "s < D"
  shows "slot_at h (zero_fill d (d0 * h) (n * h)) s =
     (if d0 \<le> s \<and> s < d0 + n then replicate h 0 else slot_at h d s)"
proof -
  have "slice (0 * h) (n * h) (replicate (n * h) (0 :: byte)) = replicate (n * h) 0"
    by (simp add: slice_def)
  then have "slot_at h (zero_fill d (d0 * h) (n * h)) s =
      (if d0 \<le> s \<and> s < d0 + n then slot_at h (replicate (n * h) 0) (0 + (s - d0)) else slot_at h d s)"
    using slot_at_blit [OF d _ b, of "replicate (n * h) 0" n 0 s] s by (simp add: zero_fill_def)
  then show ?thesis by (auto simp: slot_at_replicate)
qed

lemma length_zero_fill_slots:
  "length d = D * h \<Longrightarrow> d0 + n \<le> D \<Longrightarrow> length (zero_fill d (d0 * h) (n * h)) = D * h"
  using mult_slots_le [of d0 n D h] by (simp add: length_zero_fill)


section \<open>Pointers\<close>

lemma key_ptr_slot:
  assumes "kv_cfg_ok c" "p < kv_cols c"
  shows "key_ptr c (int l) (int p) = Gpu (int (slot (kv_cols c) (2 * l) p * kv_half c))"
  using assms by (simp add: key_ptr_def Let_def layout_simps slot_def algebra_simps)

lemma val_ptr_slot:
  assumes "kv_cfg_ok c" "p < kv_cols c"
  shows "val_ptr c (int l) (int p) = Gpu (int (slot (kv_cols c) (2 * l + 1) p * kv_half c))"
  using assms by (simp add: val_ptr_def Let_def layout_simps slot_def algebra_simps)

lemma gpu_pool_bytes_slots:
  "kv_cfg_ok c \<Longrightarrow> gpu_pool_bytes c = int (kv_rows c * kv_cols c * kv_half c)"
  using n_layers_rows [of c] by (simp add: gpu_pool_bytes_def layout_simps algebra_simps)




section \<open>Gather and scatter\<close>

lemma gather_layers_Cons:
  assumes "kv_cfg_ok c"
  shows "gather_layers ok c (int u) g (l # ls) d =
    (if \<not> ok (2 * l) then (False, d)
     else let d = blit d (slot u (2 * l) 0 * kv_half c)
                    (slice (slot (kv_cols c) (2 * l) 0 * kv_half c) (u * kv_half c) g)
          in if \<not> ok (2 * l + 1) then (False, d)
             else let d = blit d (slot u (2 * l + 1) 0 * kv_half c)
                            (slice (slot (kv_cols c) (2 * l + 1) 0 * kv_half c) (u * kv_half c) g)
                  in gather_layers ok c (int u) g ls d)"
  using assms
  by (simp only: gather_layers.simps layout_simps slot_next_row Let_def)

lemma gather_layers_rows:
  assumes ok: "kv_cfg_ok c" and g: "length g = kv_rows c * kv_cols c * kv_half c"
    and u: "u \<le> kv_cols c" and all: "\<forall>i. oks i"
  shows "distinct ls \<Longrightarrow> set ls \<subseteq> {..<nat (n_layers c)} \<Longrightarrow> length d = kv_rows c * u * kv_half c \<Longrightarrow>
    \<exists>d'. gather_layers oks c (int u) g ls d = (True, d') \<and> length d' = kv_rows c * u * kv_half c \<and>
      (\<forall>r < kv_rows c. \<forall>i < u. slot_at (kv_half c) d' (slot u r i) =
         (if r div 2 \<in> set ls then slot_at (kv_half c) g (slot (kv_cols c) r i)
          else slot_at (kv_half c) d (slot u r i)))"
proof (induction ls arbitrary: d)
  case (Cons l ls)
  let ?h = "kv_half c" and ?m = "kv_cols c" and ?R = "kv_rows c"
  define cp where "cp = (\<lambda>r d. blit d (slot u r 0 * ?h) (slice (slot ?m r 0 * ?h) (u * ?h) g))"
  have row: "length (cp r e) = ?R * u * ?h \<and>
      (\<forall>q < ?R. \<forall>i < u. slot_at ?h (cp r e) (slot u q i) =
         (if q = r then slot_at ?h g (slot ?m q i) else slot_at ?h e (slot u q i)))"
    if e: "length e = ?R * u * ?h" and r: "r < ?R" for r e
  proof -
    have b: "slot u r 0 + u \<le> ?R * u" "slot ?m r 0 + u \<le> ?R * ?m"
      using slot_row_end [OF r, of u] slot_row_end [OF r, of ?m] u by auto
    show ?thesis unfolding cp_def
      using slot_at_blit [OF e g b] length_blit_slots [OF e g b] slot_row_unique [of _ u r] slot_bound
      by (auto simp: slot_def)
  qed
  have r: "2 * l < ?R" "2 * l + 1 < ?R" using Cons.prems(2) by (auto simp: kv_rows_def)
  let ?d = "cp (2 * l + 1) (cp (2 * l) d)"
  have one: "length ?d = ?R * u * ?h \<and>
      (\<forall>q < ?R. \<forall>i < u. slot_at ?h ?d (slot u q i) =
         (if q div 2 = l then slot_at ?h g (slot ?m q i) else slot_at ?h d (slot u q i)))"
    using row [OF Cons.prems(3) r(1)] row [OF _ r(2), of "cp (2 * l) d"] by auto
  then obtain d' where d': "gather_layers oks c (int u) g ls ?d = (True, d')"
      "length d' = ?R * u * ?h"
      "\<forall>r < ?R. \<forall>i < u. slot_at ?h d' (slot u r i) =
         (if r div 2 \<in> set ls then slot_at ?h g (slot ?m r i) else slot_at ?h ?d (slot u r i))"
    using Cons.IH [of ?d] Cons.prems by auto
  have "gather_layers oks c (int u) g (l # ls) d = (True, d')"
    using d'(1) all by (simp only: gather_layers_Cons [OF ok]) (simp add: cp_def Let_def)
  with d' one show ?case by auto
qed simp

lemma scatter_layers_Cons:
  assumes "kv_cfg_ok c" "u \<le> kv_cols c"
  shows "scatter_layers ok c (int u) z s (l # ls) g =
    (let h = kv_half c; m = kv_cols c in
     if \<not> ok (4 * l) then (False, g)
     else let g = blit g (slot m (2 * l) 0 * h) (slice (slot u (2 * l) 0 * h) (u * h) s) in
     if \<not> ok (4 * l + 1) then (False, g)
     else let g = blit g (slot m (2 * l + 1) 0 * h) (slice (slot u (2 * l + 1) 0 * h) (u * h) s) in
     if z \<and> u < m then
       (if \<not> ok (4 * l + 2) then (False, g)
        else let g = zero_fill g ((slot m (2 * l) 0 + u) * h) ((m - u) * h) in
        if \<not> ok (4 * l + 3) then (False, g)
        else let g = zero_fill g ((slot m (2 * l + 1) 0 + u) * h) ((m - u) * h) in
             scatter_layers ok c (int u) z s ls g)
     else scatter_layers ok c (int u) z s ls g)"
proof -
  let ?h = "kv_half c" and ?m = "kv_cols c"
  have sub: "(int ?m - int u) * int ?h = int ((?m - u) * ?h)"
    using assms(2) by (simp add: of_nat_diff)
  have v: "nat (int l * (int ?m * (2 * int ?h)) + int ?m * int ?h + int u * int ?h) =
      (slot ?m (2 * l + 1) 0 + u) * ?h"
  proof -
    have "int l * (int ?m * (2 * int ?h)) + int ?m * int ?h + int u * int ?h =
        int ((slot ?m (2 * l + 1) 0 + u) * ?h)" by (simp add: slot_def algebra_simps)
    then show ?thesis by (metis nat_int)
  qed
  have pos: "0 < int ((?m - u) * ?h) \<longleftrightarrow> u < ?m"
    using kv_half_pos [OF assms(1)] by (simp only: of_nat_0_less_iff) simp
  show ?thesis
    using assms(1)
    by (simp only: scatter_layers.simps layout_simps sub v pos slot_next_row Let_def nat_int)
qed

lemma scatter_layers_rows:
  assumes ok: "kv_cfg_ok c" and s: "length s = kv_rows c * u * kv_half c"
    and u: "u \<le> kv_cols c" and all: "\<forall>i. oks i"
  shows "distinct ls \<Longrightarrow> set ls \<subseteq> {..<nat (n_layers c)} \<Longrightarrow>
    length g = kv_rows c * kv_cols c * kv_half c \<Longrightarrow>
    \<exists>g'. scatter_layers oks c (int u) z s ls g = (True, g') \<and>
      length g' = kv_rows c * kv_cols c * kv_half c \<and>
      (\<forall>r < kv_rows c. \<forall>i < kv_cols c. slot_at (kv_half c) g' (slot (kv_cols c) r i) =
         (if r div 2 \<in> set ls \<and> i < u then slot_at (kv_half c) s (slot u r i)
          else if r div 2 \<in> set ls \<and> z then replicate (kv_half c) 0
          else slot_at (kv_half c) g (slot (kv_cols c) r i)))"
proof (induction ls arbitrary: g)
  case (Cons l ls)
  let ?h = "kv_half c" and ?m = "kv_cols c" and ?R = "kv_rows c"
  define cp where "cp = (\<lambda>r g. blit g (slot ?m r 0 * ?h) (slice (slot u r 0 * ?h) (u * ?h) s))"
  define zf where "zf = (\<lambda>r (g :: byte list). zero_fill g ((slot ?m r 0 + u) * ?h) ((?m - u) * ?h))"
  have copy: "length (cp r e) = ?R * ?m * ?h \<and>
      (\<forall>q < ?R. \<forall>i < ?m. slot_at ?h (cp r e) (slot ?m q i) =
         (if q = r \<and> i < u then slot_at ?h s (slot u q i) else slot_at ?h e (slot ?m q i)))"
    if e: "length e = ?R * ?m * ?h" and r: "r < ?R" for r e
  proof -
    have b: "slot ?m r 0 + u \<le> ?R * ?m" "slot u r 0 + u \<le> ?R * u"
      using slot_row_end [OF r, of u] slot_row_end [OF r, of ?m] u by auto
    have "slot ?m r 0 \<le> slot ?m q i \<and> slot ?m q i < slot ?m r 0 + u \<longleftrightarrow> q = r \<and> i < u"
      if "i < ?m" for q i
      using slot_row_unique [OF that, of r q] u by (auto simp: slot_def)
    then show ?thesis unfolding cp_def
      using slot_at_blit [OF e s b] length_blit_slots [OF e s b] slot_bound
      by (auto simp: slot_def)
  qed
  have zero: "length (zf r e) = ?R * ?m * ?h \<and>
      (\<forall>q < ?R. \<forall>i < ?m. slot_at ?h (zf r e) (slot ?m q i) =
         (if q = r \<and> \<not> i < u then replicate ?h 0 else slot_at ?h e (slot ?m q i)))"
    if e: "length e = ?R * ?m * ?h" and r: "r < ?R" for r e
  proof -
    have b: "(slot ?m r 0 + u) + (?m - u) \<le> ?R * ?m"
      using slot_row_end [OF r, of ?m] u by auto
    have "slot ?m r 0 + u \<le> slot ?m q i \<and> slot ?m q i < slot ?m r 0 + u + (?m - u) \<longleftrightarrow>
        q = r \<and> \<not> i < u" if "i < ?m" for q i
      using slot_row_unique [OF that, of r q] u that by (auto simp: slot_def)
    then show ?thesis unfolding zf_def
      using slot_at_zero_fill [OF e b] length_zero_fill_slots [OF e b] slot_bound by auto
  qed
  have r: "2 * l < ?R" "2 * l + 1 < ?R" using Cons.prems(2) by (auto simp: kv_rows_def)
  let ?c = "cp (2 * l + 1) (cp (2 * l) g)"
  let ?g = "if z \<and> u < ?m then zf (2 * l + 1) (zf (2 * l) ?c) else ?c"
  have c: "length ?c = ?R * ?m * ?h"
      "\<forall>q < ?R. \<forall>i < ?m. slot_at ?h ?c (slot ?m q i) =
         (if q div 2 = l \<and> i < u then slot_at ?h s (slot u q i) else slot_at ?h g (slot ?m q i))"
    using copy [OF Cons.prems(3) r(1)] copy [OF _ r(2), of "cp (2 * l) g"] by auto
  have zz: "length (zf (2 * l + 1) (zf (2 * l) ?c)) = ?R * ?m * ?h"
      "\<forall>q < ?R. \<forall>i < ?m. slot_at ?h (zf (2 * l + 1) (zf (2 * l) ?c)) (slot ?m q i) =
         (if q div 2 = l \<and> \<not> i < u then replicate ?h 0 else slot_at ?h ?c (slot ?m q i))"
    using zero [OF c(1) r(1)] zero [OF _ r(2), of "zf (2 * l) ?c"] by auto
  have one: "length ?g = ?R * ?m * ?h"
      "\<forall>q < ?R. \<forall>i < ?m. slot_at ?h ?g (slot ?m q i) =
         (if q div 2 = l \<and> i < u then slot_at ?h s (slot u q i)
          else if q div 2 = l \<and> z then replicate ?h 0 else slot_at ?h g (slot ?m q i))"
    using c zz u by auto
  then obtain g' where g': "scatter_layers oks c (int u) z s ls ?g = (True, g')"
      "length g' = ?R * ?m * ?h"
      "\<forall>r < ?R. \<forall>i < ?m. slot_at ?h g' (slot ?m r i) =
         (if r div 2 \<in> set ls \<and> i < u then slot_at ?h s (slot u r i)
          else if r div 2 \<in> set ls \<and> z then replicate ?h 0 else slot_at ?h ?g (slot ?m r i))"
    using Cons.IH [of ?g] Cons.prems by auto
  have "scatter_layers oks c (int u) z s (l # ls) g = (True, g')"
  proof (cases "z \<and> u < ?m")
    case True
    with g'(1) all show ?thesis
      unfolding scatter_layers_Cons [OF ok u] by (simp add: cp_def zf_def Let_def)
  next
    case False
    with g'(1) all show ?thesis
      unfolding scatter_layers_Cons [OF ok u] by (auto simp: cp_def Let_def)
  qed
  moreover have "slot_at ?h g' (slot ?m r i) =
      (if r div 2 \<in> set (l # ls) \<and> i < u then slot_at ?h s (slot u r i)
       else if r div 2 \<in> set (l # ls) \<and> z then replicate ?h 0
       else slot_at ?h g (slot ?m r i))" if "r < ?R" "i < ?m" for r i
    unfolding g'(3) [rule_format, OF that] one(2) [rule_format, OF that] by auto
  ultimately show ?case using g'(2) by blast
qed simp


section \<open>Reading and writing through the pointers\<close>

text \<open>The bytes a pointer returned by \<^verbatim>\<open>key_ptr\<close>/\<^verbatim>\<open>val_ptr\<close> leads to, and the
  stores the attention block makes through them (\<^verbatim>\<open>rope_inplace_store_kv_fp16\<close> for a fast
  position, \<^verbatim>\<open>cudaMemcpyAsync\<close> for an overflow position, \<^verbatim>\<open>fp16_to_int8\<close> in
  INT8 mode: each writes one row of \<^verbatim>\<open>KV_DIM\<close> elements at each of the two pointers).\<close>

definition loc_bytes :: "kv_pool \<Rightarrow> kv_loc \<Rightarrow> nat \<Rightarrow> byte list" where
  "loc_bytes p a n =
     (case a of
        Gpu off \<Rightarrow> (case gpu_pool p of None \<Rightarrow> [] | Some g \<Rightarrow> slice (nat off) n g)
      | Cpu off \<Rightarrow> (case cpu_pool p of None \<Rightarrow> [] | Some g \<Rightarrow> slice (nat off) n g))"

definition loc_write :: "kv_loc \<Rightarrow> byte list \<Rightarrow> kv_pool \<Rightarrow> kv_pool" where
  "loc_write a bs p =
     (case a of
        Gpu off \<Rightarrow> p\<lparr>gpu_pool := map_option (\<lambda>g. blit g (nat off) bs) (gpu_pool p)\<rparr>
      | Cpu off \<Rightarrow> p\<lparr>cpu_pool := map_option (\<lambda>g. blit g (nat off) bs) (cpu_pool p)\<rparr>)"

definition kv_fetch :: "kv_pool \<Rightarrow> nat \<Rightarrow> nat \<Rightarrow> byte list \<times> byte list" where
  "kv_fetch p layer pos =
     (let c = kv_cfg p; n = nat (entry_bytes c sdiv 2) in
      (loc_bytes p (key_ptr c (int layer) (int pos)) n,
       loc_bytes p (val_ptr c (int layer) (int pos)) n))"

definition kv_put :: "kv_pool \<Rightarrow> nat \<Rightarrow> nat \<Rightarrow> byte list \<times> byte list \<Rightarrow> kv_pool" where
  "kv_put p layer pos e =
     (let c = kv_cfg p in
      loc_write (val_ptr c (int layer) (int pos)) (snd e)
        (loc_write (key_ptr c (int layer) (int pos)) (fst e) p))"

text \<open>The contract of a KV store: what a forward pass may assume about the cache.\<close>

locale kv_store =
  fixes put :: "'s \<Rightarrow> nat \<Rightarrow> nat \<Rightarrow> 'e \<Rightarrow> 's"
    and fetch :: "'s \<Rightarrow> nat \<Rightarrow> nat \<Rightarrow> 'e"
    and valid :: "'s \<Rightarrow> bool" and entry :: "'e \<Rightarrow> bool"
    and layers :: nat and ctx :: nat
  assumes put_valid: "valid s \<Longrightarrow> entry e \<Longrightarrow> l < layers \<Longrightarrow> i < ctx \<Longrightarrow> valid (put s l i e)"
    and fetch_put_same: "valid s \<Longrightarrow> entry e \<Longrightarrow> l < layers \<Longrightarrow> i < ctx \<Longrightarrow> fetch (put s l i e) l i = e"
    and fetch_put_other: "valid s \<Longrightarrow> entry e \<Longrightarrow> l < layers \<Longrightarrow> i < ctx \<Longrightarrow> l' < layers \<Longrightarrow> i' < ctx \<Longrightarrow>
      (l', i') \<noteq> (l, i) \<Longrightarrow> fetch (put s l i e) l' i' = fetch s l' i'"

definition kv_entry_ok :: "kv_config \<Rightarrow> byte list \<times> byte list \<Rightarrow> bool" where
  "kv_entry_ok c e \<longleftrightarrow> length (fst e) = kv_half c \<and> length (snd e) = kv_half c"

definition kv_pool_at :: "kv_config \<Rightarrow> kv_pool \<Rightarrow> bool" where
  "kv_pool_at c p \<longleftrightarrow> kv_pool_ok p \<and> kv_cfg p = c"

lemma kv_pool_atE:
  assumes "kv_pool_at c p"
  obtains g where "kv_cfg_ok c" "gpu_pool p = Some g" "kv_cfg p = c"
    "length g = kv_rows c * kv_cols c * kv_half c"
  using assms by (auto simp: kv_pool_at_def kv_pool_ok_def split: option.splits)

lemma kv_fetch_slots:
  assumes "kv_pool_ok p" "gpu_pool p = Some g" "kv_cfg p = c" "i < kv_cols c"
  shows "kv_fetch p l i = (slot_at (kv_half c) g (slot (kv_cols c) (2 * l) i),
                           slot_at (kv_half c) g (slot (kv_cols c) (2 * l + 1) i))"
proof -
  have ok: "kv_cfg_ok c" using assms by (simp add: kv_pool_ok_def)
  show ?thesis unfolding kv_fetch_def Let_def assms(3)
    by (simp only: half_entry_bytes [OF ok] nat_int loc_bytes_def key_ptr_slot [OF ok assms(4)]
        val_ptr_slot [OF ok assms(4)] kv_loc.case option.case assms(2) slot_at_def)
qed

text \<open>The bytes after a store, slot by slot.\<close>

lemma kv_put_slots:
  assumes at: "kv_pool_at c p" and e: "kv_entry_ok c e" and l: "l < nat (n_layers c)" and i: "i < kv_cols c"
    and g: "gpu_pool p = Some g"
  shows "\<exists>g'. kv_put p l i e = p\<lparr>gpu_pool := Some g'\<rparr> \<and> length g' = length g \<and>
    (\<forall>s < kv_rows c * kv_cols c. slot_at (kv_half c) g' s =
       (if s = slot (kv_cols c) (2 * l) i then fst e
        else if s = slot (kv_cols c) (2 * l + 1) i then snd e
        else slot_at (kv_half c) g s))"
proof -
  let ?h = "kv_half c" and ?m = "kv_cols c" and ?S = "kv_rows c * kv_cols c"
  from at g have ok: "kv_cfg_ok c" and c: "kv_cfg p = c" and len: "length g = ?S * ?h"
    by (auto elim: kv_pool_atE)
  have r: "2 * l < kv_rows c" "2 * l + 1 < kv_rows c" using l by (auto simp: kv_rows_def)
  have b: "slot ?m (2 * l) i + 1 \<le> ?S" "slot ?m (2 * l + 1) i + 1 \<le> ?S"
    using slot_bound [OF r(1) i] slot_bound [OF r(2) i] by auto
  have wr: "length (blit b (t * ?h) bs) = ?S * ?h \<and>
      (\<forall>s < ?S. slot_at ?h (blit b (t * ?h) bs) s = (if s = t then bs else slot_at ?h b s))"
    if "length b = ?S * ?h" "length bs = ?h" "t + 1 \<le> ?S" for b bs t
  proof -
    have "slice (0 * ?h) (1 * ?h) bs = bs" using that(2) by (simp add: slice_def)
    moreover have "slot_at ?h bs 0 = bs" using that(2) by (simp add: slot_at_def slice_def)
    ultimately show ?thesis
      using slot_at_blit [OF that(1) _ that(3), of bs 1 0] length_blit_slots [OF that(1) _ that(3), of bs 1 0] that(2)
      by auto
  qed
  let ?g1 = "blit g (slot ?m (2 * l) i * ?h) (fst e)"
  let ?g2 = "blit ?g1 (slot ?m (2 * l + 1) i * ?h) (snd e)"
  have e12: "length (fst e) = ?h" "length (snd e) = ?h" using e by (simp_all add: kv_entry_ok_def)
  note w1 = wr [OF len e12(1) b(1)]
  note w2 = wr [OF conjunct1 [OF w1] e12(2) b(2)]
  have ne: "slot ?m (2 * l) i \<noteq> slot ?m (2 * l + 1) i" using i by (auto simp: slot_def)
  have "kv_put p l i e = p\<lparr>gpu_pool := Some ?g2\<rparr>"
    unfolding kv_put_def Let_def c
    by (simp only: key_ptr_slot [OF ok i] val_ptr_slot [OF ok i] loc_write_def kv_loc.case nat_int g)
       (simp add: g)
  moreover have "length ?g2 = length g" using w2 len by simp
  ultimately show ?thesis using w1 w2 ne by (intro exI [of _ ?g2]) auto
qed

interpretation kv: kv_store kv_put kv_fetch "kv_pool_at c" "kv_entry_ok c" "nat (n_layers c)" "kv_cols c"
  for c
proof
  fix p l i l' i' and e :: "byte list \<times> byte list"
  assume a: "kv_pool_at c p" "kv_entry_ok c e" "l < nat (n_layers c)" "i < kv_cols c"
  let ?m = "kv_cols c"
  from a(1) obtain g where g: "gpu_pool p = Some g" "kv_cfg p = c" "kv_pool_ok p"
      and len: "length g = kv_rows c * ?m * kv_half c"
    by (auto simp: kv_pool_at_def kv_pool_ok_def split: option.splits)
  obtain g' where p': "kv_put p l i e = p\<lparr>gpu_pool := Some g'\<rparr>" and len': "length g' = length g"
    and sl: "\<forall>s < kv_rows c * ?m. slot_at (kv_half c) g' s =
       (if s = slot ?m (2 * l) i then fst e else if s = slot ?m (2 * l + 1) i then snd e
        else slot_at (kv_half c) g s)"
    using kv_put_slots [OF a g(1)] by blast
  from p' len' g len show v: "kv_pool_at c (kv_put p l i e)"
    by (simp add: kv_pool_at_def kv_pool_ok_def)
  have fetch': "kv_fetch (kv_put p l i e) k j = (slot_at (kv_half c) g' (slot ?m (2 * k) j),
      slot_at (kv_half c) g' (slot ?m (2 * k + 1) j))" if "j < ?m" for k j
    using v that p' by (intro kv_fetch_slots) (auto simp: kv_pool_at_def)
  have bd: "slot ?m (2 * k) j < kv_rows c * ?m" "slot ?m (2 * k + 1) j < kv_rows c * ?m"
    if "k < nat (n_layers c)" "j < ?m" for k j
    using that by (auto intro!: slot_bound simp: kv_rows_def)
  have ne: "slot ?m (2 * l) i \<noteq> slot ?m (2 * l + 1) i" using a(4) by (auto simp: slot_def)
  show "kv_fetch (kv_put p l i e) l i = e"
    using fetch' [OF a(4)] sl bd [OF a(3,4)] ne by simp
  assume b: "l' < nat (n_layers c)" "i' < ?m" "(l', i') \<noteq> (l, i)"
  have "slot ?m (2 * l' + x) i' \<noteq> slot ?m (2 * l + y) i" if "x < 2" "y < 2" for x y
  proof
    assume "slot ?m (2 * l' + x) i' = slot ?m (2 * l + y) i"
    then have "2 * l' + x = 2 * l + y \<and> i' = i" using b(2) a(4) by (intro slot_inj) auto
    with that b(3) show False by auto
  qed
  note sep = this
  have "slot ?m (2 * l') i' \<noteq> slot ?m (2 * l) i" "slot ?m (2 * l') i' \<noteq> slot ?m (2 * l + 1) i"
    "slot ?m (2 * l' + 1) i' \<noteq> slot ?m (2 * l) i" "slot ?m (2 * l' + 1) i' \<noteq> slot ?m (2 * l + 1) i"
    using sep [of 0 0] sep [of 0 1] sep [of 1 0] sep [of 1 1] by simp_all
  then show "kv_fetch (kv_put p l i e) l' i' = kv_fetch p l' i'"
    using fetch' [OF b(2)] sl bd [OF b(1,2)] kv_fetch_slots [OF g(3,1,2) b(2), of l'] by simp
qed


section \<open>Persisting a prefix: gather, packed layout, scatter\<close>

text \<open>Position \<^verbatim>\<open>i\<close> of layer \<^verbatim>\<open>l\<close> in a packed buffer of \<^verbatim>\<open>u\<close> tokens.\<close>

definition packed_at :: "kv_config \<Rightarrow> nat \<Rightarrow> byte list \<Rightarrow> nat \<Rightarrow> nat \<Rightarrow> byte list \<times> byte list" where
  "packed_at c u d l i = (slot_at (kv_half c) d (slot u (2 * l) i), slot_at (kv_half c) d (slot u (2 * l + 1) i))"

lemma packed_used_bytes_slots:
  "kv_cfg_ok c \<Longrightarrow> 0 < u \<Longrightarrow> packed_used_bytes c (int u) = int (kv_rows c * u * kv_half c)"
  using n_layers_rows [of c] by (simp add: packed_used_bytes_def layout_simps algebra_simps)

lemma layer_row_div: "(2 * l) div 2 = (l::nat)" "(2 * l + 1) div 2 = (l::nat)"
  by simp_all

lemma layers_upt: "set [0..<n] \<subseteq> {..<n}"
  by auto

lemma gather_packed:
  assumes at: "kv_pool_at c p" and u: "0 < u" "u \<le> kv_cols c" and all: "\<forall>i. oks i"
    and d: "length d = nat (packed_used_bytes c (int u))"
  shows "\<exists>d'. gather_used_to_host oks p (int u) d = (True, d') \<and> length d' = length d \<and>
    (\<forall>l < nat (n_layers c). \<forall>i < u. packed_at c u d' l i = kv_fetch p l i)"
proof -
  from at obtain g where ok: "kv_cfg_ok c" and g: "gpu_pool p = Some g" and c: "kv_cfg p = c"
      and len: "length g = kv_rows c * kv_cols c * kv_half c" by (rule kv_pool_atE)
  from at have pok: "kv_pool_ok p" by (simp add: kv_pool_at_def)
  have d': "length d = kv_rows c * u * kv_half c" using d by (simp only: packed_used_bytes_slots [OF ok u(1)] nat_int)
  obtain e where e: "gather_layers oks c (int u) g [0..<nat (n_layers c)] d = (True, e)"
      "length e = kv_rows c * u * kv_half c"
      "\<forall>r < kv_rows c. \<forall>i < u. slot_at (kv_half c) e (slot u r i) =
         (if r div 2 \<in> set [0..<nat (n_layers c)] then slot_at (kv_half c) g (slot (kv_cols c) r i)
          else slot_at (kv_half c) d (slot u r i))"
    using gather_layers_rows [OF ok len u(2) all distinct_upt layers_upt d'] by blast
  have "gather_used_to_host oks p (int u) d = (True, e)"
    using e(1) u g c max_context_cols [OF ok] by (simp add: gather_used_to_host_def)
  moreover have "packed_at c u e l i = kv_fetch p l i" if l: "l < nat (n_layers c)" and i: "i < u" for l i
  proof -
    have "2 * l < kv_rows c" "2 * l + 1 < kv_rows c" using l by (auto simp: kv_rows_def)
    moreover have "i < kv_cols c" using i u by simp
    ultimately show ?thesis
      using e(3) [rule_format, of "2 * l" i] e(3) [rule_format, of "2 * l + 1" i] l i
        kv_fetch_slots [OF pok g c, of i l]
      by (simp add: packed_at_def)
  qed
  ultimately show ?thesis using e(2) d' by auto
qed

lemma scatter_packed:
  assumes at: "kv_pool_at c p" and u: "0 < u" "u \<le> kv_cols c" and all: "\<forall>i. oks i"
    and s: "length s = nat (packed_used_bytes c (int u))"
  shows "\<exists>p'. scatter_from_host oks s (int u) z p = (True, p') \<and> kv_pool_at c p' \<and>
    used_tokens p' = int u \<and> gpu_tokens p' = int u \<and>
    (\<forall>l < nat (n_layers c). \<forall>i < kv_cols c. kv_fetch p' l i =
       (if i < u then packed_at c u s l i
        else if z then (replicate (kv_half c) 0, replicate (kv_half c) 0) else kv_fetch p l i))"
proof -
  from at obtain g where ok: "kv_cfg_ok c" and g: "gpu_pool p = Some g" and c: "kv_cfg p = c"
      and len: "length g = kv_rows c * kv_cols c * kv_half c" by (rule kv_pool_atE)
  from at have pok: "kv_pool_ok p" by (simp add: kv_pool_at_def)
  have s': "length s = kv_rows c * u * kv_half c" using s by (simp only: packed_used_bytes_slots [OF ok u(1)] nat_int)
  obtain g' where e: "scatter_layers oks c (int u) z s [0..<nat (n_layers c)] g = (True, g')"
      "length g' = kv_rows c * kv_cols c * kv_half c"
      "\<forall>r < kv_rows c. \<forall>i < kv_cols c. slot_at (kv_half c) g' (slot (kv_cols c) r i) =
         (if r div 2 \<in> set [0..<nat (n_layers c)] \<and> i < u then slot_at (kv_half c) s (slot u r i)
          else if r div 2 \<in> set [0..<nat (n_layers c)] \<and> z then replicate (kv_half c) 0
          else slot_at (kv_half c) g (slot (kv_cols c) r i))"
    using scatter_layers_rows [OF ok s' u(2) all distinct_upt layers_upt len, of z] by blast
  let ?p' = "p\<lparr>gpu_pool := Some g', used_tokens := int u, gpu_tokens := int u\<rparr>"
  have sc: "scatter_from_host oks s (int u) z p = (True, ?p')"
    using e(1) u g c max_context_cols [OF ok] by (simp add: scatter_from_host_def)
  have at': "kv_pool_at c ?p'" using e(2) pok c by (simp add: kv_pool_at_def kv_pool_ok_def)
  moreover have "kv_fetch ?p' l i = (if i < u then packed_at c u s l i
        else if z then (replicate (kv_half c) 0, replicate (kv_half c) 0) else kv_fetch p l i)"
    if l: "l < nat (n_layers c)" and i: "i < kv_cols c" for l i
  proof -
    have f: "kv_fetch ?p' l i = (slot_at (kv_half c) g' (slot (kv_cols c) (2 * l) i),
        slot_at (kv_half c) g' (slot (kv_cols c) (2 * l + 1) i))"
      using at' i by (intro kv_fetch_slots) (auto simp: kv_pool_at_def)
    have "2 * l < kv_rows c" "2 * l + 1 < kv_rows c" using l by (auto simp: kv_rows_def)
    then show ?thesis
      using e(3) [rule_format, of "2 * l" i] e(3) [rule_format, of "2 * l + 1" i] l i
        kv_fetch_slots [OF pok g c i, of l]
      unfolding f by (simp add: packed_at_def)
  qed
  ultimately show ?thesis using sc by auto
qed

text \<open>(C8) Saving and restoring: the first \<^verbatim>\<open>u\<close> positions gathered from one pool and
  scattered into another pool of the same shape read back exactly as they were, and with
  \<^verbatim>\<open>zero_remaining\<close> nothing of the second pool's earlier contents is left behind them.\<close>

theorem gather_scatter_roundtrip:
  assumes "kv_pool_at c p" and "kv_pool_at c q" and "0 < u" and "int u \<le> max_context c"
    and "\<forall>i. ok1 i" and "\<forall>i. ok2 i" and "length d = nat (packed_used_bytes c (int u))"
  shows "\<exists>d' q'. gather_used_to_host ok1 p (int u) d = (True, d') \<and>
    scatter_from_host ok2 d' (int u) True q = (True, q') \<and> used_tokens q' = int u \<and>
    (\<forall>l < nat (n_layers c). \<forall>i < nat (max_context c). kv_fetch q' l i =
       (if i < u then kv_fetch p l i else (replicate (kv_half c) 0, replicate (kv_half c) 0)))"
proof -
  have u: "u \<le> kv_cols c" using assms(4) by (simp add: kv_cols_def)
  obtain d' where d': "gather_used_to_host ok1 p (int u) d = (True, d')" "length d' = length d"
      "\<forall>l < nat (n_layers c). \<forall>i < u. packed_at c u d' l i = kv_fetch p l i"
    using gather_packed [OF assms(1,3) u assms(5,7)] by blast
  obtain q' where "scatter_from_host ok2 d' (int u) True q = (True, q')" "used_tokens q' = int u"
      "\<forall>l < nat (n_layers c). \<forall>i < kv_cols c. kv_fetch q' l i =
       (if i < u then packed_at c u d' l i
        else if True then (replicate (kv_half c) 0, replicate (kv_half c) 0) else kv_fetch q l i)"
    using scatter_packed [OF assms(2,3) u assms(6), of d' True] d'(2) assms(7) by auto
  with d' show ?thesis by (intro exI [of _ d'] exI [of _ q']) (auto simp: kv_cols_def)
qed

theorem gather_scatter_roundtrip_witness:
  "let c = \<lparr>n_layers = 1, n_kv_heads = 1, head_dim = 1, max_context = 2, overflow_context = 0, kv_type_bytes = 1\<rparr>;
       p = \<lparr>kv_cfg = c, gpu_pool = Some [1, 2, 3, 4], cpu_pool = None, kv_scales = None, used_tokens = 0, gpu_tokens = 0\<rparr>;
       q = p\<lparr>gpu_pool := Some [9, 9, 9, 9]\<rparr>
   in \<exists>d' q'. gather_used_to_host (\<lambda>_. True) p 1 [0, 0] = (True, d') \<and>
        scatter_from_host (\<lambda>_. True) d' 1 True q = (True, q') \<and>
        kv_fetch q' 0 0 = kv_fetch p 0 0 \<and> kv_fetch q' 0 1 = ([0], [0]) \<and> kv_fetch p 0 0 = ([1], [3])"
proof -
  let ?c = "\<lparr>n_layers = 1, n_kv_heads = 1, head_dim = 1, max_context = 2, overflow_context = 0, kv_type_bytes = 1\<rparr> :: kv_config"
  let ?p = "\<lparr>kv_cfg = ?c, gpu_pool = Some [1, 2, 3, 4], cpu_pool = None, kv_scales = None, used_tokens = 0, gpu_tokens = 0\<rparr> :: kv_pool"
  let ?q = "?p\<lparr>gpu_pool := Some [9, 9, 9, 9]\<rparr>"
  have h: "kv_half ?c = 1" by (simp add: kv_half_def)
  have at: "kv_pool_at ?c ?p" "kv_pool_at ?c ?q"
    by (simp_all add: kv_pool_at_def kv_pool_ok_def kv_cfg_ok_def kv_rows_def kv_cols_def h)
  have pk: "length [0, 0 :: byte] = nat (packed_used_bytes ?c (int 1))"
    by (simp add: packed_used_bytes_def entry_bytes_def)
  obtain d' q' where r: "gather_used_to_host (\<lambda>_. True) ?p (int 1) [0, 0] = (True, d')"
    "scatter_from_host (\<lambda>_. True) d' (int 1) True ?q = (True, q')"
    "\<forall>l < nat (n_layers ?c). \<forall>i < nat (max_context ?c). kv_fetch q' l i =
       (if i < 1 then kv_fetch ?p l i else (replicate (kv_half ?c) 0, replicate (kv_half ?c) 0))"
    using gather_scatter_roundtrip [OF at, of 1 "\<lambda>_. True" "\<lambda>_. True" "[0, 0]"] pk by auto
  have "kv_fetch q' 0 0 = kv_fetch ?p 0 0" using r(3) [rule_format, of 0 0] by simp
  moreover have "kv_fetch q' 0 1 = ([0], [0])" using r(3) [rule_format, of 0 1] h by simp
  moreover have "kv_fetch ?p 0 0 = ([1], [3])"
    by (simp add: kv_fetch_def key_ptr_def val_ptr_def entry_bytes_def loc_bytes_def slice_def)
  ultimately show ?thesis using r(1,2) unfolding Let_def by auto
qed


section \<open>Initialisation\<close>

lemma kv_init_ok:
  assumes "kv_init e cfg p0 = (True, p)" and "kv_cfg_ok cfg"
  shows "kv_pool_at (kv_cfg p) p \<and> used_tokens p = 0 \<and>
    (kv_cfg p = cfg \<or> kv_cfg p = cfg\<lparr>overflow_context := 0\<rparr>) \<and>
    (\<forall>l < nat (n_layers cfg). \<forall>i < kv_cols cfg.
       kv_fetch p l i = (replicate (kv_half cfg) 0, replicate (kv_half cfg) 0))"
proof -
  let ?S = "kv_rows cfg * kv_cols cfg"
  have fb: "nat (n_layers cfg * entry_bytes cfg * max_context cfg) = ?S * kv_half cfg"
    using gpu_pool_bytes_slots [OF assms(2)]
    by (metis gpu_pool_bytes_def mult.assoc mult.commute nat_int)
  have g: "gpu_pool p = Some (replicate (?S * kv_half cfg) 0)" and u: "used_tokens p = 0"
      and c: "kv_cfg p = cfg \<or> kv_cfg p = cfg\<lparr>overflow_context := 0\<rparr>"
    using assms(1) by (auto simp: kv_init_def Let_def fb split: if_splits)
  have dims: "kv_rows (kv_cfg p) = kv_rows cfg" "kv_cols (kv_cfg p) = kv_cols cfg"
      "kv_half (kv_cfg p) = kv_half cfg" "kv_cfg_ok (kv_cfg p)"
    using c assms(2) by (auto simp: kv_rows_def kv_cols_def kv_half_def kv_cfg_ok_def)
  then have at: "kv_pool_at (kv_cfg p) p" using g by (simp add: kv_pool_at_def kv_pool_ok_def)
  have "kv_fetch p l i = (replicate (kv_half cfg) 0, replicate (kv_half cfg) 0)"
    if "l < nat (n_layers cfg)" "i < kv_cols cfg" for l i
  proof -
    have "slot (kv_cols cfg) (2 * l) i < ?S" "slot (kv_cols cfg) (2 * l + 1) i < ?S"
      using that by (auto intro!: slot_bound simp: kv_rows_def)
    then show ?thesis
      using kv_fetch_slots [of p _ "kv_cfg p" i l] at g dims that
      by (simp add: kv_pool_at_def slot_at_replicate)
  qed
  with at u c show ?thesis by blast
qed


section \<open>What attention reads\<close>

text \<open>The attention kernels are given \<^verbatim>\<open>key_ptr(layer, 0)\<close>, \<^verbatim>\<open>val_ptr(layer, 0)\<close>
  and a sequence length, and read that many consecutive rows.\<close>

definition attn_keys :: "kv_pool \<Rightarrow> nat \<Rightarrow> nat \<Rightarrow> byte list" where
  "attn_keys p layer seq_len =
     loc_bytes p (key_ptr (kv_cfg p) (int layer) 0) (seq_len * nat (entry_bytes (kv_cfg p) sdiv 2))"

definition attn_vals :: "kv_pool \<Rightarrow> nat \<Rightarrow> nat \<Rightarrow> byte list" where
  "attn_vals p layer seq_len =
     loc_bytes p (val_ptr (kv_cfg p) (int layer) 0) (seq_len * nat (entry_bytes (kv_cfg p) sdiv 2))"

lemma slice_rows:
  "(s + n) * h \<le> length b \<Longrightarrow> slice (s * h) (n * h) b = concat (map (\<lambda>i. slot_at h b (s + i)) [0..<n])"
proof (induction n)
  case (Suc n)
  have le: "(s + n) * h \<le> length b" using Suc.prems by (simp add: algebra_simps)
  have "slice (s * h) (Suc n * h) b = slice (s * h) (n * h) b @ slice (s * h + n * h) h b"
    unfolding slice_def mult_Suc add.commute [of h] take_add by (simp add: add.commute)
  then show ?case using Suc.IH [OF le] by (simp add: slot_at_def algebra_simps)
qed simp

lemma attn_reads_slots:
  assumes at: "kv_pool_at c p" and l: "l < nat (n_layers c)" and n: "n \<le> kv_cols c"
    and g: "gpu_pool p = Some g"
  shows "attn_keys p l n = concat (map (\<lambda>i. slot_at (kv_half c) g (slot (kv_cols c) (2 * l) 0 + i)) [0..<n])"
    and "attn_vals p l n = concat (map (\<lambda>i. slot_at (kv_half c) g (slot (kv_cols c) (2 * l + 1) 0 + i)) [0..<n])"
proof -
  from at g have ok: "kv_cfg_ok c" and c: "kv_cfg p = c"
      and len: "length g = kv_rows c * kv_cols c * kv_half c" by (auto elim: kv_pool_atE)
  have "2 * l < kv_rows c" "2 * l + 1 < kv_rows c" using l by (auto simp: kv_rows_def)
  then have b: "(slot (kv_cols c) r 0 + n) * kv_half c \<le> length g" if "r = 2 * l \<or> r = 2 * l + 1" for r
    using slot_row_end [of r "kv_rows c" "kv_cols c"] n that
    unfolding len by (intro mult_le_mono1) auto
  show "attn_keys p l n = concat (map (\<lambda>i. slot_at (kv_half c) g (slot (kv_cols c) (2 * l) 0 + i)) [0..<n])"
    using key_ptr_slot [OF ok kv_cols_pos [OF ok], of l] slice_rows [OF b, of "2 * l"]
    by (simp add: attn_keys_def c half_entry_bytes [OF ok] loc_bytes_def g)
  show "attn_vals p l n = concat (map (\<lambda>i. slot_at (kv_half c) g (slot (kv_cols c) (2 * l + 1) 0 + i)) [0..<n])"
    using val_ptr_slot [OF ok kv_cols_pos [OF ok], of l] slice_rows [OF b, of "2 * l + 1"]
    by (simp add: attn_vals_def c half_entry_bytes [OF ok] loc_bytes_def g)
qed

lemma attn_reads_fetch:
  assumes "kv_pool_at c p" and "l < nat (n_layers c)" and "n \<le> nat (max_context c)"
  shows "attn_keys p l n = concat (map (\<lambda>i. fst (kv_fetch p l i)) [0..<n]) \<and>
         attn_vals p l n = concat (map (\<lambda>i. snd (kv_fetch p l i)) [0..<n])"
proof -
  from assms(1) obtain g where g: "gpu_pool p = Some g" "kv_cfg p = c" "kv_pool_ok p"
    by (auto simp: kv_pool_at_def kv_pool_ok_def split: option.splits)
  have n: "n \<le> kv_cols c" using assms(3) by (simp add: kv_cols_def)
  have f: "kv_fetch p l i = (slot_at (kv_half c) g (slot (kv_cols c) (2 * l) 0 + i),
      slot_at (kv_half c) g (slot (kv_cols c) (2 * l + 1) 0 + i))" if "i < n" for i
    using kv_fetch_slots [OF g(3,1,2), of i l] that n by (simp add: slot_def)
  have m: "map (\<lambda>i. fst (kv_fetch p l i)) [0..<n] =
      map (\<lambda>i. slot_at (kv_half c) g (slot (kv_cols c) (2 * l) 0 + i)) [0..<n]"
    "map (\<lambda>i. snd (kv_fetch p l i)) [0..<n] =
      map (\<lambda>i. slot_at (kv_half c) g (slot (kv_cols c) (2 * l + 1) 0 + i)) [0..<n]"
    using f by auto
  show ?thesis by (simp only: attn_reads_slots [OF assms(1,2) n g(1)] m)
qed

text \<open>(C25) As long as the sequence fits the fast pool, the two contiguous ranges the attention
  kernels read are exactly the stored keys and the stored values of positions 0 to
  \<^verbatim>\<open>seq_len - 1\<close>, in order.\<close>

theorem attention_reads_stored_entries:
  assumes "kv_pool_at c p" and "l < nat (n_layers c)" and "n \<le> nat (max_context c)"
  shows "attn_keys p l n = concat (map (\<lambda>i. fst (kv_fetch p l i)) [0..<n]) \<and>
         attn_vals p l n = concat (map (\<lambda>i. snd (kv_fetch p l i)) [0..<n])"
  using attn_reads_fetch [OF assms] .

theorem attention_reads_stored_entries_witness:
  "let c = \<lparr>n_layers = 1, n_kv_heads = 1, head_dim = 1, max_context = 2, overflow_context = 0, kv_type_bytes = 1\<rparr>;
       p = \<lparr>kv_cfg = c, gpu_pool = Some [1, 2, 3, 4], cpu_pool = None, kv_scales = None, used_tokens = 0, gpu_tokens = 0\<rparr>
   in attn_keys p 0 2 = [1, 2] \<and> attn_vals p 0 2 = [3, 4] \<and>
      attn_keys p 0 2 = concat (map (\<lambda>i. fst (kv_fetch p 0 i)) [0..<2])"
proof -
  let ?c = "\<lparr>n_layers = 1, n_kv_heads = 1, head_dim = 1, max_context = 2, overflow_context = 0, kv_type_bytes = 1\<rparr> :: kv_config"
  let ?p = "\<lparr>kv_cfg = ?c, gpu_pool = Some [1, 2, 3, 4], cpu_pool = None, kv_scales = None, used_tokens = 0, gpu_tokens = 0\<rparr> :: kv_pool"
  have at: "kv_pool_at ?c ?p"
    by (simp add: kv_pool_at_def kv_pool_ok_def kv_cfg_ok_def kv_rows_def kv_cols_def kv_half_def)
  show ?thesis unfolding Let_def
    using attention_reads_stored_entries [OF at, of 0 2]
    by (simp add: attn_keys_def attn_vals_def key_ptr_def val_ptr_def entry_bytes_def loc_bytes_def slice_def)
qed

text \<open>Past the fast pool the two layouts disagree: when a sequence is one token longer than
  \<^verbatim>\<open>max_context\<close> (possible with \<^verbatim>\<open>JLLM_KV_OVERFLOW\<close>), the row attention takes for the
  key of the overflow position is the value of position 0, while \<^verbatim>\<open>key_ptr\<close> placed that key in
  the host pool.\<close>

theorem attention_overflow_reads_value_as_key:
  assumes "kv_pool_at c p" and "l < nat (n_layers c)"
  shows "key_ptr c (int l) (max_context c) = Cpu (int l * (overflow_context c * entry_bytes c)) \<and>
    attn_keys p l (nat (max_context c) + 1) = attn_keys p l (nat (max_context c)) @ snd (kv_fetch p l 0)"
proof -
  from assms(1) obtain g where ok: "kv_cfg_ok c" and g: "gpu_pool p = Some g" "kv_cfg p = c" "kv_pool_ok p"
      and len: "length g = kv_rows c * kv_cols c * kv_half c"
    by (auto simp: kv_pool_at_def kv_pool_ok_def split: option.splits)
  let ?m = "kv_cols c" and ?h = "kv_half c"
  have "2 * l + 1 < kv_rows c" using assms(2) by (auto simp: kv_rows_def)
  then have "slot ?m (2 * l + 1) 0 < kv_rows c * ?m" by (rule slot_bound) (rule kv_cols_pos [OF ok])
  then have le: "(slot ?m (2 * l) 0 + (?m + 1)) * ?h \<le> length g"
    unfolding len by (intro mult_le_mono1) (simp add: slot_def)
  have read: "attn_keys p l n = slice (slot ?m (2 * l) 0 * ?h) (n * ?h) g" for n
    using key_ptr_slot [OF ok kv_cols_pos [OF ok], of l]
    by (simp add: attn_keys_def g half_entry_bytes [OF ok] loc_bytes_def)
  have "attn_keys p l (?m + 1) =
      slice (slot ?m (2 * l) 0 * ?h) (?m * ?h) g @ slot_at ?h g (slot ?m (2 * l) 0 + ?m)"
    unfolding read slice_rows [OF le]
    using slice_rows [of "slot ?m (2 * l) 0" ?m ?h g] le by (simp add: algebra_simps)
  also have "slot_at ?h g (slot ?m (2 * l) 0 + ?m) = snd (kv_fetch p l 0)"
    using kv_fetch_slots [OF g(3,1,2) kv_cols_pos [OF ok], of l] by (simp add: slot_next_row)
  finally have "attn_keys p l (?m + 1) = attn_keys p l ?m @ snd (kv_fetch p l 0)"
    by (simp add: read)
  then show ?thesis by (simp add: kv_cols_def key_ptr_def)
qed

theorem attention_overflow_reads_value_as_key_witness:
  "let c = \<lparr>n_layers = 1, n_kv_heads = 1, head_dim = 1, max_context = 2, overflow_context = 1, kv_type_bytes = 1\<rparr>;
       p = \<lparr>kv_cfg = c, gpu_pool = Some [1, 2, 3, 4], cpu_pool = Some [5, 6], kv_scales = None, used_tokens = 0, gpu_tokens = 0\<rparr>
   in attn_keys p 0 3 = [1, 2, 3] \<and> fst (kv_fetch p 0 2) = [5] \<and>
      attn_keys p 0 3 = attn_keys p 0 2 @ snd (kv_fetch p 0 0)"
proof -
  let ?c = "\<lparr>n_layers = 1, n_kv_heads = 1, head_dim = 1, max_context = 2, overflow_context = 1, kv_type_bytes = 1\<rparr> :: kv_config"
  let ?p = "\<lparr>kv_cfg = ?c, gpu_pool = Some [1, 2, 3, 4], cpu_pool = Some [5, 6], kv_scales = None, used_tokens = 0, gpu_tokens = 0\<rparr> :: kv_pool"
  have at: "kv_pool_at ?c ?p"
    by (simp add: kv_pool_at_def kv_pool_ok_def kv_cfg_ok_def kv_rows_def kv_cols_def kv_half_def)
  show ?thesis unfolding Let_def
    using attention_overflow_reads_value_as_key [OF at, of 0]
    by (simp add: attn_keys_def kv_fetch_def key_ptr_def val_ptr_def entry_bytes_def loc_bytes_def slice_def)
qed


section \<open>Eviction\<close>

text \<open>\<^verbatim>\<open>evict\<close> moves whole entries as if each position's key and value were adjacent,
  but the pool stores all keys of a layer before its values. On a layer of two positions, evicting
  the oldest one overwrites the keys with the values: position 0 then reads value 0 as its key, and
  the value of the evicted position does not reach the overflow pool.\<close>

theorem evict_mixes_keys_and_values:
  "let c = \<lparr>n_layers = 1, n_kv_heads = 1, head_dim = 1, max_context = 2, overflow_context = 2, kv_type_bytes = 1\<rparr>;
       p = \<lparr>kv_cfg = c, gpu_pool = Some [k0, k1, v0, v1], cpu_pool = Some [0, 0, 0, 0], kv_scales = None,
            used_tokens = 2, gpu_tokens = 2\<rparr>;
       q = kv_evict 1 p
   in kv_fetch p 0 0 = ([k0], [v0]) \<and> kv_fetch p 0 1 = ([k1], [v1]) \<and>
      kv_fetch q 0 0 = ([v0], [v0]) \<and> kv_fetch q 0 2 = ([k0], [0]) \<and> gpu_tokens q = 1"
  by (simp add: kv_evict_def evict_layer_def kv_fetch_def key_ptr_def val_ptr_def entry_bytes_def
      loc_bytes_def slice_def blit_def Let_def numeral_2_eq_2)


section \<open>INT8 scales\<close>

text \<open>Every (layer, position, key-or-value) of the fast pool owns a row of
  \<^verbatim>\<open>n_kv_heads\<close> scales: the row lies inside the scale array and rows of different coordinates do
  not overlap; outside the fast pool there is none.\<close>

theorem kv_scale_rows_disjoint:
  assumes ok: "kv_cfg_ok (kv_cfg p)" and s1: "kv_scale_ptr p l1 p1 v1 = Some o1"
    and s2: "kv_scale_ptr p l2 p2 v2 = Some o2" and ne: "(l1, p1, v1) \<noteq> (l2, p2, v2)"
  shows "0 \<le> o1 \<and> (o1 + n_kv_heads (kv_cfg p)) * 4 \<le> kv_scales_bytes (kv_cfg p) \<and>
    (o1 + n_kv_heads (kv_cfg p) \<le> o2 \<or> o2 + n_kv_heads (kv_cfg p) \<le> o1)"
proof -
  let ?c = "kv_cfg p" and ?m = "kv_cols (kv_cfg p)"
  define H where "H = nat (n_kv_heads ?c)"
  have H: "n_kv_heads ?c = int H" "0 < H" using ok by (auto simp: kv_cfg_ok_def H_def)
  have row: "\<exists>l i. ly = int l \<and> ps = int i \<and> l < nat (n_layers ?c) \<and> i < ?m \<and>
      o' = int (slot ?m (2 * l + (if v then 1 else 0)) i * H)"
    if "kv_scale_ptr p ly ps v = Some o'" for ly ps v o'
    using that H max_context_cols [OF ok]
    by (intro exI [of _ "nat ly"] exI [of _ "nat ps"])
       (auto simp: kv_scale_ptr_def Let_def slot_def algebra_simps split: if_splits)
  obtain a i where a: "l1 = int a" "p1 = int i" "a < nat (n_layers ?c)" "i < ?m"
      "o1 = int (slot ?m (2 * a + (if v1 then 1 else 0)) i * H)" using row [OF s1] by blast
  obtain b j where b: "l2 = int b" "p2 = int j" "b < nat (n_layers ?c)" "j < ?m"
      "o2 = int (slot ?m (2 * b + (if v2 then 1 else 0)) j * H)" using row [OF s2] by blast
  let ?s1 = "slot ?m (2 * a + (if v1 then 1 else 0)) i" and ?s2 = "slot ?m (2 * b + (if v2 then 1 else 0)) j"
  have "?s1 \<noteq> ?s2"
  proof
    assume "?s1 = ?s2"
    then have "2 * a + (if v1 then 1 else 0) = 2 * b + (if v2 then 1 else 0 :: nat) \<and> i = j"
      using a(4) b(4) by (rule slot_inj [rotated 2])
    then have "a = b \<and> v1 = v2 \<and> i = j"
      by (cases v1; cases v2) (simp_all, presburger+)
    then show False using ne a(1,2) b(1,2) by simp
  qed
  then have sep: "?s1 * H + H \<le> ?s2 * H \<or> ?s2 * H + H \<le> ?s1 * H"
    using slot_slices_ordered by (meson linorder_neqE_nat)
  have "?s1 < kv_rows ?c * ?m" using a by (intro slot_bound) (auto simp: kv_rows_def)
  then have in_range: "?s1 * H + H \<le> kv_rows ?c * ?m * H" by (rule slot_slices_ordered)
  have "kv_type_bytes ?c = 1" using s1 by (auto simp: kv_scale_ptr_def Let_def split: if_splits)
  then have "kv_scales_bytes ?c = int (kv_rows ?c * ?m * H) * 4"
    using H n_layers_rows [OF ok] max_context_cols [OF ok] by (simp add: kv_scales_bytes_def)
  then show ?thesis using sep in_range unfolding a(5) b(5) H(1)
    by (metis (no_types, lifting) mult_le_cancel_right_pos of_nat_0_le_iff of_nat_add of_nat_le_iff zero_less_numeral)
qed

theorem kv_scale_rows_disjoint_witness:
  "let c = \<lparr>n_layers = 2, n_kv_heads = 3, head_dim = 4, max_context = 5, overflow_context = 0, kv_type_bytes = 1\<rparr>;
       p = kv_pool_empty\<lparr>kv_cfg := c, kv_scales := Some (replicate 60 0)\<rparr>
   in kv_scale_ptr p 1 4 False = Some 42 \<and> kv_scale_ptr p 1 0 True = Some 45 \<and>
      (42 + 3 \<le> (45::int) \<or> 45 + 3 \<le> (42::int)) \<and> kv_scale_ptr p 1 5 True = None"
proof -
  let ?c = "\<lparr>n_layers = 2, n_kv_heads = 3, head_dim = 4, max_context = 5, overflow_context = 0, kv_type_bytes = 1\<rparr> :: kv_config"
  let ?p = "kv_pool_empty\<lparr>kv_cfg := ?c, kv_scales := Some (replicate 60 0)\<rparr>"
  have s: "kv_scale_ptr ?p 1 4 False = Some 42" "kv_scale_ptr ?p 1 0 True = Some 45"
    by (simp_all add: kv_scale_ptr_def)
  show ?thesis unfolding Let_def
    using kv_scale_rows_disjoint [OF _ s] s by (simp add: kv_cfg_ok_def kv_scale_ptr_def)
qed

end
