(* ===== verification/Gpu_Kernels.thy ===== *)
theory Gpu_Kernels
  imports Prelude "HOL-Library.Multiset"
begin

text \<open>
  The CUDA kernels written in this repository: \<^verbatim>\<open>rope.cu\<close>, \<^verbatim>\<open>convert.cu\<close>,
  \<^verbatim>\<open>fused_norm.cu\<close> and \<^verbatim>\<open>vec_add\<close> of \<^verbatim>\<open>decode.cu\<close>. A half and a float are their
  bit patterns; the arithmetic of the hardware and of the CUDA math library is the record
  \<^verbatim>\<open>fpu\<close>, an argument of every kernel, so that the theorems hold for every rounding mode and
  every implementation of \<^verbatim>\<open>expf\<close>, \<^verbatim>\<open>powf\<close>, \<^verbatim>\<open>cosf\<close> and \<^verbatim>\<open>sinf\<close>.

  A kernel is the body of one thread, folded over a schedule: a list with the thread numbers of
  the grid. The theorems say that the result does not depend on the schedule and that the fused
  kernels compute what the separate ones do.
\<close>

unbundle bit_operations_syntax

type_synonym half = "16 word"
type_synonym f32 = "32 word"

record fpu =
  h2f :: "half \<Rightarrow> f32"
  f2h :: "f32 \<Rightarrow> half"
  f_add :: "f32 \<Rightarrow> f32 \<Rightarrow> f32"
  f_sub :: "f32 \<Rightarrow> f32 \<Rightarrow> f32"
  f_mul :: "f32 \<Rightarrow> f32 \<Rightarrow> f32"
  f_div :: "f32 \<Rightarrow> f32 \<Rightarrow> f32"
  f_neg :: "f32 \<Rightarrow> f32"
  f_abs :: "f32 \<Rightarrow> f32"
  f_max :: "f32 \<Rightarrow> f32 \<Rightarrow> f32"
  f_exp :: "f32 \<Rightarrow> f32"
  f_pow :: "f32 \<Rightarrow> f32 \<Rightarrow> f32"
  f_cos :: "f32 \<Rightarrow> f32"
  f_sin :: "f32 \<Rightarrow> f32"
  f_rsqrt :: "f32 \<Rightarrow> f32"
  f_sqrt :: "f32 \<Rightarrow> f32"
  f_pos :: "f32 \<Rightarrow> bool"
  f_of_int :: "int \<Rightarrow> f32"
  f_ldexp :: "f32 \<Rightarrow> int \<Rightarrow> f32"
  f_rn :: "f32 \<Rightarrow> int"

definition f32_one :: f32 where "f32_one = 0x3F800000"
definition f32_two :: f32 where "f32_two = 0x40000000"
definition f32_127 :: f32 where "f32_127 = 0x42FE0000"

definition BLOCK_SIZE :: nat where "BLOCK_SIZE = 128"

text \<open>Number of threads of a launch that has one thread per element.\<close>

definition grid_threads :: "nat \<Rightarrow> nat \<Rightarrow> nat" where
  "grid_threads n block = (n + block - 1) div block * block"

text \<open>The indices a thread visits: \<^verbatim>\<open>for (int i = tid; i < n; i += stride)\<close>.\<close>

function strided :: "nat \<Rightarrow> nat \<Rightarrow> nat \<Rightarrow> nat list" where
  "strided i stride n = (if i < n \<and> 0 < stride then i # strided (i + stride) stride n else [])"
  by auto
termination by (relation "measure (\<lambda>(i, stride, n). n - i)") auto

declare strided.simps [simp del]


section \<open>Rotary position embedding\<close>

record rope_args =
  ra_n_heads :: nat
  ra_n_kv_heads :: nat
  ra_head_dim :: nat
  ra_position :: int
  ra_theta :: f32
  ra_neox :: bool

definition rope_cos_sin :: "fpu \<Rightarrow> rope_args \<Rightarrow> nat \<Rightarrow> f32 \<times> f32" where
  "rope_cos_sin fp r pair_idx =
     (let freq = f_div fp f32_one (f_pow fp (ra_theta r)
            (f_div fp (f_mul fp f32_two (f_of_int fp (int pair_idx))) (f_of_int fp (int (ra_head_dim r)))));
          angle = f_mul fp (f_of_int fp (ra_position r)) freq
      in (f_cos fp angle, f_sin fp angle))"

definition rope_idx :: "rope_args \<Rightarrow> nat \<Rightarrow> nat \<times> nat" where
  "rope_idx r pair_idx =
     (if ra_neox r then (pair_idx, pair_idx + ra_head_dim r div 2) else (pair_idx * 2, pair_idx * 2 + 1))"

definition rope_rotate :: "fpu \<Rightarrow> f32 \<times> f32 \<Rightarrow> half \<Rightarrow> half \<Rightarrow> half \<times> half" where
  "rope_rotate fp cs a b =
     (let v0 = h2f fp a; v1 = h2f fp b in
      (f2h fp (f_sub fp (f_mul fp v0 (fst cs)) (f_mul fp v1 (snd cs))),
       f2h fp (f_add fp (f_mul fp v0 (snd cs)) (f_mul fp v1 (fst cs)))))"

text \<open>The two element indices of pair \<^verbatim>\<open>t\<close> of a buffer of heads, and the values a thread puts
  there.\<close>

definition rope_lo :: "rope_args \<Rightarrow> nat \<Rightarrow> nat" where
  "rope_lo r t = t div (ra_head_dim r div 2) * ra_head_dim r + fst (rope_idx r (t mod (ra_head_dim r div 2)))"

definition rope_hi :: "rope_args \<Rightarrow> nat \<Rightarrow> nat" where
  "rope_hi r t = t div (ra_head_dim r div 2) * ra_head_dim r + snd (rope_idx r (t mod (ra_head_dim r div 2)))"

definition rope_pair :: "fpu \<Rightarrow> rope_args \<Rightarrow> nat \<Rightarrow> half list \<Rightarrow> half \<times> half" where
  "rope_pair fp r t v =
     rope_rotate fp (rope_cos_sin fp r (t mod (ra_head_dim r div 2))) (v ! rope_lo r t) (v ! rope_hi r t)"

definition rope_store :: "rope_args \<Rightarrow> nat \<Rightarrow> half \<times> half \<Rightarrow> half list \<Rightarrow> half list" where
  "rope_store r t w v = v[rope_lo r t := fst w, rope_hi r t := snd w]"

definition q_pairs :: "rope_args \<Rightarrow> nat" where
  "q_pairs r = ra_n_heads r * (ra_head_dim r div 2)"

definition total_pairs :: "rope_args \<Rightarrow> nat" where
  "total_pairs r = (ra_n_heads r + ra_n_kv_heads r) * (ra_head_dim r div 2)"

definition kv_dim :: "rope_args \<Rightarrow> nat" where
  "kv_dim r = ra_n_kv_heads r * ra_head_dim r"

definition rope_thread :: "fpu \<Rightarrow> rope_args \<Rightarrow> nat \<Rightarrow> half list \<times> half list \<Rightarrow> half list \<times> half list" where
  "rope_thread fp r tid s =
     (case s of (q, k) \<Rightarrow>
        if total_pairs r \<le> tid then (q, k)
        else if tid < q_pairs r then (rope_store r tid (rope_pair fp r tid q) q, k)
        else (let t = tid - q_pairs r in (q, rope_store r t (rope_pair fp r t k) k)))"

definition rope_kernel :: "fpu \<Rightarrow> rope_args \<Rightarrow> nat list \<Rightarrow> half list \<Rightarrow> half list \<Rightarrow> half list \<times> half list" where
  "rope_kernel fp r schedule q k = fold (rope_thread fp r) schedule (q, k)"

definition rope_inplace :: "fpu \<Rightarrow> rope_args \<Rightarrow> half list \<Rightarrow> half list \<Rightarrow> half list \<times> half list" where
  "rope_inplace fp r q k = rope_kernel fp r [0..<grid_threads (total_pairs r) BLOCK_SIZE] q k"

definition rope_store_thread ::
  "fpu \<Rightarrow> rope_args \<Rightarrow> half list \<Rightarrow> nat \<Rightarrow> (half list \<times> half list) \<times> (half list \<times> half list) \<Rightarrow>
   (half list \<times> half list) \<times> (half list \<times> half list)"
where
  "rope_store_thread fp r v tid s =
     (case s of ((q, k), (kd, vd)) \<Rightarrow>
        let ((q, k), kd) =
              (if tid < total_pairs r then
                 (if tid < q_pairs r then ((rope_store r tid (rope_pair fp r tid q) q, k), kd)
                  else (let t = tid - q_pairs r; w = rope_pair fp r t k
                        in ((q, rope_store r t w k), rope_store r t w kd)))
               else ((q, k), kd));
            vd = (if tid < kv_dim r then vd[tid := v ! tid] else vd)
        in ((q, k), (kd, vd)))"

definition rope_store_kernel ::
  "fpu \<Rightarrow> rope_args \<Rightarrow> nat list \<Rightarrow> half list \<Rightarrow> half list \<Rightarrow> half list \<Rightarrow> half list \<Rightarrow> half list \<Rightarrow>
   (half list \<times> half list) \<times> (half list \<times> half list)"
where
  "rope_store_kernel fp r schedule q k v kd vd = fold (rope_store_thread fp r v) schedule ((q, k), (kd, vd))"

definition rope_inplace_store_kv_fp16 ::
  "fpu \<Rightarrow> rope_args \<Rightarrow> half list \<Rightarrow> half list \<Rightarrow> half list \<Rightarrow> half list \<Rightarrow> half list \<Rightarrow>
   (half list \<times> half list) \<times> (half list \<times> half list)"
where
  "rope_inplace_store_kv_fp16 fp r q k v kd vd =
     (let n = (if total_pairs r > kv_dim r then total_pairs r else kv_dim r)
      in rope_store_kernel fp r [0..<grid_threads n BLOCK_SIZE] q k v kd vd)"


section \<open>Elementwise kernels\<close>

text \<open>One thread per element: thread \<^verbatim>\<open>i\<close> computes element \<^verbatim>\<open>i\<close> if there is one.\<close>

definition elementwise :: "(nat \<Rightarrow> half) \<Rightarrow> nat \<Rightarrow> nat list \<Rightarrow> half list \<Rightarrow> half list" where
  "elementwise f n schedule out = fold (\<lambda>i out. if i < n then out[i := f i] else out) schedule out"

definition vec_add :: "fpu \<Rightarrow> half list \<Rightarrow> half list \<Rightarrow> half list \<Rightarrow> nat \<Rightarrow> half list" where
  "vec_add fp out a b n =
     elementwise (\<lambda>i. f2h fp (f_add fp (h2f fp (a ! i)) (h2f fp (b ! i)))) n [0..<grid_threads n 128] out"

definition silu_mul :: "fpu \<Rightarrow> half \<Rightarrow> half \<Rightarrow> half" where
  "silu_mul fp gate up =
     (let g = h2f fp gate; u = h2f fp up;
          silu = f_div fp g (f_add fp f32_one (f_exp fp (f_neg fp g)))
      in f2h fp (f_mul fp silu u))"

definition fused_swiglu :: "fpu \<Rightarrow> half list \<Rightarrow> half list \<Rightarrow> half list \<Rightarrow> nat \<Rightarrow> nat \<Rightarrow> half list" where
  "fused_swiglu fp out gate up rows dim =
     (let n = rows * dim
      in elementwise (\<lambda>i. silu_mul fp (gate ! i) (up ! i)) n [0..<grid_threads n BLOCK_SIZE] out)"


section \<open>Reductions inside a block\<close>

text \<open>The butterfly of \<^verbatim>\<open>__shfl_xor_sync\<close> over the 32 lanes of a warp.\<close>

definition warp_reduce :: "('a \<Rightarrow> 'a \<Rightarrow> 'a) \<Rightarrow> 'a list \<Rightarrow> 'a list" where
  "warp_reduce f lanes =
     fold (\<lambda>off l. map (\<lambda>i. f (l ! i) (l ! (i XOR off))) [0..<32]) [16, 8, 4, 2, 1] lanes"

text \<open>The value lane 0 of warp \<^verbatim>\<open>w\<close> holds after the butterfly, for the per-thread values \<^verbatim>\<open>part\<close>.\<close>

definition warp_value :: "('a \<Rightarrow> 'a \<Rightarrow> 'a) \<Rightarrow> (nat \<Rightarrow> 'a) \<Rightarrow> nat \<Rightarrow> 'a" where
  "warp_value f part w = warp_reduce f (map part [32 * w..<32 * w + 32]) ! 0"


section \<open>RMSNorm\<close>

datatype norm_weight = Norm_F32 "f32 list" | Norm_F16 "half list"

fun norm_at :: "fpu \<Rightarrow> norm_weight \<Rightarrow> nat \<Rightarrow> f32" where
  "norm_at fp (Norm_F32 w) i = w ! i"
| "norm_at fp (Norm_F16 w) i = h2f fp (w ! i)"

definition fast_norm_enabled :: "env \<Rightarrow> bool" where
  "fast_norm_enabled e = env_opt_out e ''JLLM_FAST_NORM''"

definition rms_val :: "fpu \<Rightarrow> half list \<Rightarrow> half list option \<Rightarrow> nat \<Rightarrow> f32" where
  "rms_val fp x residual i =
     (case residual of None \<Rightarrow> h2f fp (x ! i) | Some r \<Rightarrow> f_add fp (h2f fp (x ! i)) (h2f fp (r ! i)))"

definition rms_sum_sq :: "fpu \<Rightarrow> half list \<Rightarrow> half list option \<Rightarrow> nat \<Rightarrow> nat list \<Rightarrow> f32" where
  "rms_sum_sq fp x residual offset is =
     fold (\<lambda>i acc. let val = rms_val fp x residual (offset + i) in f_add fp acc (f_mul fp val val)) is 0"

definition rms_rrms :: "fpu \<Rightarrow> half list \<Rightarrow> half list option \<Rightarrow> nat \<Rightarrow> nat \<Rightarrow> f32 \<Rightarrow> f32" where
  "rms_rrms fp x residual offset dim eps =
     (let stride = 128;
          part = (\<lambda>tid. rms_sum_sq fp x residual offset (strided tid stride dim));
          tot = foldl (f_add fp) 0 (map (warp_value (f_add fp) part) [0..<(stride + 31) div 32])
      in f_rsqrt fp (f_add fp (f_div fp tot (f_of_int fp (int dim))) eps))"

text \<open>The row a block of the CUDA kernel writes, and the row the CPU reference writes.\<close>

definition rms_row_gpu :: "fpu \<Rightarrow> half list \<Rightarrow> half list option \<Rightarrow> norm_weight \<Rightarrow> nat \<Rightarrow> f32 \<Rightarrow> nat \<Rightarrow> half list" where
  "rms_row_gpu fp x residual weight dim eps row =
     (let offset = row * dim; rrms = rms_rrms fp x residual offset dim eps
      in map (\<lambda>i. f2h fp (f_mul fp (f_mul fp (rms_val fp x residual (offset + i)) rrms) (norm_at fp weight i))) [0..<dim])"

definition rms_row_cpu :: "fpu \<Rightarrow> half list \<Rightarrow> half list option \<Rightarrow> norm_weight \<Rightarrow> nat \<Rightarrow> f32 \<Rightarrow> nat \<Rightarrow> half list" where
  "rms_row_cpu fp x residual weight dim eps row =
     (let offset = row * dim;
          sum_sq = rms_sum_sq fp x residual offset [0..<dim];
          rrms = f_div fp f32_one (f_sqrt fp (f_add fp (f_div fp sum_sq (f_of_int fp (int dim))) eps))
      in map (\<lambda>i. f2h fp (f_mul fp (f_mul fp (rms_val fp x residual (offset + i)) rrms) (norm_at fp weight i))) [0..<dim])"

definition fused_rmsnorm_residual ::
  "fpu \<Rightarrow> env \<Rightarrow> bool \<Rightarrow> half list \<Rightarrow> half list \<Rightarrow> half list option \<Rightarrow> norm_weight \<Rightarrow> nat \<Rightarrow> nat \<Rightarrow> f32 \<Rightarrow> half list"
where
  "fused_rmsnorm_residual fp e launch_ok output x residual weight rows dim eps =
     (let row = (if fast_norm_enabled e \<and> launch_ok then rms_row_gpu fp x residual weight dim eps
                 else rms_row_cpu fp x residual weight dim eps)
      in fold (\<lambda>r out. blit out (r * dim) (row r)) [0..<rows] output)"


section \<open>FP16 to INT8\<close>

definition i8_local_max :: "fpu \<Rightarrow> half list \<Rightarrow> nat \<Rightarrow> nat \<Rightarrow> nat \<Rightarrow> nat \<Rightarrow> f32" where
  "i8_local_max fp src offset cols stride tid =
     fold (\<lambda>c m. f_max fp m (f_abs fp (h2f fp (src ! (offset + c))))) (strided tid stride cols) 0"

text \<open>\<^verbatim>\<open>atomicMax\<close> on the integer view of the shared float; \<^verbatim>\<open>warps\<close> is the order in which
  the warps reach it.\<close>

definition atomic_max :: "f32 \<Rightarrow> f32 \<Rightarrow> f32" where
  "atomic_max m v = (if sint m < sint v then v else m)"

definition i8_row_max :: "fpu \<Rightarrow> half list \<Rightarrow> nat \<Rightarrow> nat \<Rightarrow> nat list \<Rightarrow> f32" where
  "i8_row_max fp src offset cols warps =
     fold (\<lambda>w m. atomic_max m (warp_value (f_max fp) (i8_local_max fp src offset cols BLOCK_SIZE) w)) warps 0"

definition i8_quant :: "fpu \<Rightarrow> f32 \<Rightarrow> half \<Rightarrow> int" where
  "i8_quant fp inv_scale h = max (- 127) (min 127 (f_rn fp (f_mul fp (h2f fp h) inv_scale)))"

definition i8_row :: "fpu \<Rightarrow> half list \<Rightarrow> nat \<Rightarrow> nat list \<Rightarrow> nat \<Rightarrow> byte list \<times> f32" where
  "i8_row fp src cols warps row =
     (let offset = row * cols; row_max = i8_row_max fp src offset cols warps;
          scale = f_div fp row_max f32_127;
          inv_scale = (if f_pos fp scale then f_div fp f32_127 row_max else 0)
      in (map (\<lambda>c. of_int (i8_quant fp inv_scale (src ! (offset + c)))) [0..<cols], scale))"

text \<open>\<^verbatim>\<open>scale_out\<close> is \<^verbatim>\<open>None\<close> for \<^verbatim>\<open>nullptr\<close>.\<close>

definition fp16_to_int8 ::
  "fpu \<Rightarrow> byte list \<Rightarrow> f32 list option \<Rightarrow> half list \<Rightarrow> nat \<Rightarrow> nat \<Rightarrow> byte list \<times> f32 list option"
where
  "fp16_to_int8 fp dst scale_out src rows cols =
     fold (\<lambda>row (d, sc). case i8_row fp src cols [0..<BLOCK_SIZE div 32] row of (qs, scale) \<Rightarrow>
             (blit d (row * cols) qs, map_option (\<lambda>s. s[row := scale]) sc))
       [0..<rows] (dst, scale_out)"


subsection \<open>Threads that own a pair of elements\<close>

text \<open>Threads that each read and write their own two elements of a buffer, and write the same two
  values to a second buffer: the outcome is independent of the order they run in.\<close>

definition pair_step ::
  "('t \<Rightarrow> nat) \<Rightarrow> ('t \<Rightarrow> nat) \<Rightarrow> ('t \<Rightarrow> 'a \<Rightarrow> 'a \<Rightarrow> 'a \<times> 'a) \<Rightarrow> 't \<Rightarrow> 'a list \<times> 'a list \<Rightarrow> 'a list \<times> 'a list"
where
  "pair_step lo hi g t s =
     (let w = g t (fst s ! lo t) (fst s ! hi t)
      in ((fst s)[lo t := fst w, hi t := snd w], (snd s)[lo t := fst w, hi t := snd w]))"

definition own_pairs :: "('t \<Rightarrow> nat) \<Rightarrow> ('t \<Rightarrow> nat) \<Rightarrow> nat \<Rightarrow> 't set \<Rightarrow> bool" where
  "own_pairs lo hi n T \<longleftrightarrow>
     (\<forall>t \<in> T. lo t < n \<and> hi t < n \<and> lo t \<noteq> hi t) \<and>
     (\<forall>s \<in> T. \<forall>t \<in> T. s \<noteq> t \<longrightarrow> {lo s, hi s} \<inter> {lo t, hi t} = {})"

lemma own_pairs_mono: "own_pairs lo hi n T \<Longrightarrow> S \<subseteq> T \<Longrightarrow> own_pairs lo hi n S"
  by (auto simp: own_pairs_def)

lemma fold_pair_steps:
  assumes "own_pairs lo hi n (set ts)" "distinct ts" "length v = n" "length d = n"
    and "fold (pair_step lo hi g) ts (v, d) = (v', d')"
  shows "length v' = n \<and> length d' = n \<and>
    (\<forall>t \<in> set ts. (v' ! lo t, v' ! hi t) = g t (v ! lo t) (v ! hi t) \<and>
                  (d' ! lo t, d' ! hi t) = g t (v ! lo t) (v ! hi t)) \<and>
    (\<forall>j. j \<notin> lo ` set ts \<union> hi ` set ts \<longrightarrow> v' ! j = v ! j \<and> d' ! j = d ! j)"
  using assms
proof (induction ts arbitrary: v d)
  case (Cons t ts)
  define w where "w = g t (v ! lo t) (v ! hi t)"
  define v1 where "v1 = v[lo t := fst w, hi t := snd w]"
  define d1 where "d1 = d[lo t := fst w, hi t := snd w]"
  have run: "fold (pair_step lo hi g) ts (v1, d1) = (v', d')"
  proof -
    have "pair_step lo hi g t (v, d) = (v1, d1)" by (simp add: pair_step_def Let_def w_def v1_def d1_def)
    then show ?thesis using Cons.prems(5) by simp
  qed
  have own: "own_pairs lo hi n (set ts)" using Cons.prems(1) by (rule own_pairs_mono) auto
  have IH: "length v' = n \<and> length d' = n \<and>
    (\<forall>s \<in> set ts. (v' ! lo s, v' ! hi s) = g s (v1 ! lo s) (v1 ! hi s) \<and>
                  (d' ! lo s, d' ! hi s) = g s (v1 ! lo s) (v1 ! hi s)) \<and>
    (\<forall>j. j \<notin> lo ` set ts \<union> hi ` set ts \<longrightarrow> v' ! j = v1 ! j \<and> d' ! j = d1 ! j)"
    using Cons.prems(2-4) own run by (intro Cons.IH) (auto simp: v1_def d1_def)
  have t: "lo t < n" "hi t < n" "lo t \<noteq> hi t" using Cons.prems(1) by (auto simp: own_pairs_def)
  have sep: "lo s \<noteq> lo t" "lo s \<noteq> hi t" "hi s \<noteq> lo t" "hi s \<noteq> hi t" if "s \<in> set ts" for s
    using Cons.prems(1,2) that by (auto simp: own_pairs_def)
  have mine: "v1 ! lo t = fst w" "v1 ! hi t = snd w" "d1 ! lo t = fst w" "d1 ! hi t = snd w"
    using t Cons.prems(3,4) by (simp_all add: v1_def d1_def)
  have others: "v1 ! j = v ! j" "d1 ! j = d ! j" if "j \<noteq> lo t" "j \<noteq> hi t" for j
    using that by (simp_all add: v1_def d1_def)
  have "lo t \<notin> lo ` set ts \<union> hi ` set ts" "hi t \<notin> lo ` set ts \<union> hi ` set ts" using sep by force+
  then show ?case using IH mine others sep by (auto simp: w_def)
qed simp

lemma fold_pair_fst: "fst (fold (pair_step lo hi g) ts (v, d)) =
  fold (\<lambda>t v. v[lo t := fst (g t (v ! lo t) (v ! hi t)), hi t := snd (g t (v ! lo t) (v ! hi t))]) ts v"
  by (induction ts arbitrary: v d) (simp_all add: pair_step_def Let_def)


subsection \<open>The index maps\<close>

lemma head_index:
  assumes "x < (d::nat)" "y < d" shows "h * d + x = h' * d + y \<longleftrightarrow> h = h' \<and> x = y"
proof
  assume e: "h * d + x = h' * d + y"
  then have "(h * d + x) div d = (h' * d + y) div d" "(h * d + x) mod d = (h' * d + y) mod d" by simp_all
  then show "h = h' \<and> x = y" using assms by simp
qed simp

lemma rope_idx_bounds:
  assumes "p < ra_head_dim r div 2"
  shows "fst (rope_idx r p) < ra_head_dim r" "snd (rope_idx r p) < ra_head_dim r"
    "fst (rope_idx r p) < 2 * (ra_head_dim r div 2)" "snd (rope_idx r p) < 2 * (ra_head_dim r div 2)"
    "fst (rope_idx r p) \<noteq> snd (rope_idx r p)"
  using assms by (auto simp: rope_idx_def)

lemma rope_idx_inj:
  assumes "p < ra_head_dim r div 2" "p' < ra_head_dim r div 2"
    and "{fst (rope_idx r p), snd (rope_idx r p)} \<inter> {fst (rope_idx r p'), snd (rope_idx r p')} \<noteq> {}"
  shows "p = p'"
proof (cases "ra_neox r")
  case False
  have "p * 2 \<noteq> p' * 2 + 1" "p' * 2 \<noteq> p * 2 + 1" by presburger+
  then show ?thesis using assms False by (auto simp: rope_idx_def)
qed (use assms in \<open>auto simp: rope_idx_def\<close>)

lemma rope_own_pairs: "own_pairs (rope_lo r) (rope_hi r) (n * ra_head_dim r) {..<n * (ra_head_dim r div 2)}"
proof -
  let ?d = "ra_head_dim r" and ?h = "ra_head_dim r div 2"
  have pos: "0 < ?h \<and> t div ?h < n \<and> t mod ?h < ?h" if "t < n * ?h" for t
    using that by (cases "?h = 0") (auto simp: less_mult_imp_div_less)
  have bound: "t div ?h * ?d + x < n * ?d" if "t < n * ?h" "x < ?d" for t x
  proof -
    have "Suc (t div ?h) \<le> n" using pos [OF that(1)] by simp
    then have "Suc (t div ?h) * ?d \<le> n * ?d" by (rule mult_le_mono1)
    then show ?thesis using that(2) by simp
  qed
  have "{rope_lo r s, rope_hi r s} \<inter> {rope_lo r t, rope_hi r t} = {}"
    if st: "s < n * ?h" "t < n * ?h" "s \<noteq> t" for s t
  proof (rule ccontr)
    let ?i = "\<lambda>t. {fst (rope_idx r (t mod ?h)), snd (rope_idx r (t mod ?h))}"
    have ms: "s mod ?h < ?h" "t mod ?h < ?h" using pos st by blast+
    assume "\<not> ?thesis"
    then obtain x y where xy: "x \<in> ?i s" "y \<in> ?i t" "s div ?h * ?d + x = t div ?h * ?d + y"
      unfolding rope_lo_def rope_hi_def by blast
    have "x < ?d" "y < ?d" using xy(1,2) rope_idx_bounds(1,2) [OF ms(1)] rope_idx_bounds(1,2) [OF ms(2)] by blast+
    with xy(3) have e: "s div ?h = t div ?h" "x = y" by (simp_all only: head_index)
    then have "s mod ?h = t mod ?h" using rope_idx_inj [OF ms] xy(1,2) by blast
    then show False using e st(3) by (metis div_mult_mod_eq)
  qed
  moreover have "rope_lo r t < n * ?d \<and> rope_hi r t < n * ?d \<and> rope_lo r t \<noteq> rope_hi r t" if "t < n * ?h" for t
  proof -
    have m: "t mod ?h < ?h" using pos [OF that] by blast
    note i = rope_idx_bounds [OF m]
    show ?thesis unfolding rope_lo_def rope_hi_def
      using bound [OF that i(1)] bound [OF that i(2)] i(5) by (simp only: head_index [OF i(1,2)]) simp
  qed
  ultimately show ?thesis unfolding own_pairs_def by blast
qed


subsection \<open>The reference rotation and the kernels\<close>

text \<open>Element \<^verbatim>\<open>j\<close> of a rotated buffer of heads, by the formula in the header of
  \<^verbatim>\<open>rope.cu\<close>. Dimensions past the last pair (an odd head size) are not rotated.\<close>

definition rope_ref_at :: "fpu \<Rightarrow> rope_args \<Rightarrow> half list \<Rightarrow> nat \<Rightarrow> half" where
  "rope_ref_at fp r v j =
     (let d = ra_head_dim r; hd2 = d div 2; base = j div d * d; i = j mod d;
          p = (if ra_neox r then i mod hd2 else i div 2);
          w = rope_rotate fp (rope_cos_sin fp r p) (v ! (base + fst (rope_idx r p))) (v ! (base + snd (rope_idx r p)))
      in if 2 * hd2 \<le> i then v ! j
         else if (if ra_neox r then hd2 \<le> i else odd i) then snd w else fst w)"

definition rope_ref :: "fpu \<Rightarrow> rope_args \<Rightarrow> half list \<Rightarrow> half list" where
  "rope_ref fp r v = map (rope_ref_at fp r v) [0..<length v]"

text \<open>Every rotated element belongs to exactly one pair.\<close>

lemma rope_index_pair:
  assumes "j < n * ra_head_dim r" "j mod ra_head_dim r < 2 * (ra_head_dim r div 2)"
  obtains t where "t < n * (ra_head_dim r div 2)"
    "j = rope_lo r t \<and> rope_ref_at fp r v j = fst (rope_pair fp r t v) \<or>
     j = rope_hi r t \<and> rope_ref_at fp r v j = snd (rope_pair fp r t v)"
proof -
  let ?d = "ra_head_dim r" and ?h = "ra_head_dim r div 2"
  define i where "i = j mod ?d"
  define p where "p = (if ra_neox r then i mod ?h else i div 2)"
  define t where "t = j div ?d * ?h + p"
  have h: "0 < ?h" "0 < ?d" using assms(2) by (cases "?h = 0"; simp)+
  have i: "i < 2 * ?h" using assms(2) by (simp add: i_def)
  have p: "p < ?h" using i h unfolding p_def by auto
  have td: "t div ?h = j div ?d" "t mod ?h = p" using p h by (simp_all add: t_def)
  have "j div ?d < n" using assms(1) by (simp add: less_mult_imp_div_less)
  then have "Suc (j div ?d) * ?h \<le> n * ?h" by (intro mult_le_mono1) simp
  then have tn: "t < n * ?h" using p by (simp add: t_def)
  have j: "j = j div ?d * ?d + i" by (simp add: i_def)
  have pair: "rope_pair fp r t v = rope_rotate fp (rope_cos_sin fp r p)
      (v ! (j div ?d * ?d + fst (rope_idx r p))) (v ! (j div ?d * ?d + snd (rope_idx r p)))"
    by (simp add: rope_pair_def rope_lo_def rope_hi_def td)
  have ref: "rope_ref_at fp r v j = (if (if ra_neox r then ?h \<le> i else odd i)
      then snd (rope_pair fp r t v) else fst (rope_pair fp r t v))"
    using i unfolding rope_ref_at_def Let_def pair i_def p_def by simp
  have idx: "i = (if (if ra_neox r then ?h \<le> i else odd i) then snd (rope_idx r p) else fst (rope_idx r p))"
  proof (cases "ra_neox r")
    case True
    have "i mod ?h = (if ?h \<le> i then i - ?h else i)" using i by (simp add: le_mod_geq)
    then show ?thesis using True by (simp add: rope_idx_def p_def)
  next
    case False
    have "i = (if odd i then i div 2 * 2 + 1 else i div 2 * 2)" by presburger
    then show ?thesis using False by (simp only: rope_idx_def p_def if_False fst_conv snd_conv)
  qed
  show thesis
  proof (rule that [OF tn])
    show "j = rope_lo r t \<and> rope_ref_at fp r v j = fst (rope_pair fp r t v) \<or>
     j = rope_hi r t \<and> rope_ref_at fp r v j = snd (rope_pair fp r t v)"
      using idx ref j by (simp only: rope_lo_def rope_hi_def td) metis
  qed
qed

lemma rope_tasks:
  assumes ts: "distinct ts" "set ts = {..<n * (ra_head_dim r div 2)}"
    and len: "length v = n * ra_head_dim r" "length d = n * ra_head_dim r"
  shows "fold (pair_step (rope_lo r) (rope_hi r) (\<lambda>t a b. rope_rotate fp (rope_cos_sin fp r (t mod (ra_head_dim r div 2))) a b)) ts (v, d) =
    (rope_ref fp r v, map (\<lambda>j. if j mod ra_head_dim r < 2 * (ra_head_dim r div 2) then rope_ref_at fp r v j else d ! j) [0..<length d])"
proof -
  let ?d = "ra_head_dim r" and ?h = "ra_head_dim r div 2"
  let ?g = "\<lambda>t a b. rope_rotate fp (rope_cos_sin fp r (t mod ?h)) a b"
  obtain v' d' where run: "fold (pair_step (rope_lo r) (rope_hi r) ?g) ts (v, d) = (v', d')" by fastforce
  have own: "own_pairs (rope_lo r) (rope_hi r) (n * ?d) (set ts)" unfolding ts(2) by (rule rope_own_pairs)
  note res = fold_pair_steps [OF own ts(1) len run]
  have pr: "?g t (v ! rope_lo r t) (v ! rope_hi r t) = rope_pair fp r t v" for t by (simp add: rope_pair_def)
  have el: "v' ! j = rope_ref_at fp r v j \<and> d' ! j = (if j mod ?d < 2 * ?h then rope_ref_at fp r v j else d ! j)"
    if j: "j < n * ?d" for j
  proof (cases "j mod ?d < 2 * ?h")
    case True
    obtain t where t: "t < n * ?h"
      "j = rope_lo r t \<and> rope_ref_at fp r v j = fst (rope_pair fp r t v) \<or>
       j = rope_hi r t \<and> rope_ref_at fp r v j = snd (rope_pair fp r t v)"
      by (rule rope_index_pair [OF j True])
    have mem: "t \<in> set ts" using t(1) ts(2) by simp
    have "(v' ! rope_lo r t, v' ! rope_hi r t) = rope_pair fp r t v \<and>
        (d' ! rope_lo r t, d' ! rope_hi r t) = rope_pair fp r t v"
      using res mem unfolding pr by blast
    then have "v' ! rope_lo r t = fst (rope_pair fp r t v)" "v' ! rope_hi r t = snd (rope_pair fp r t v)"
      "d' ! rope_lo r t = fst (rope_pair fp r t v)" "d' ! rope_hi r t = snd (rope_pair fp r t v)"
      by (simp_all add: prod_eq_iff)
    then show ?thesis using t(2) True by auto
  next
    case False
    have "j \<noteq> rope_lo r t \<and> j \<noteq> rope_hi r t" if "t \<in> set ts" for t
    proof -
      have "0 < ?h" using that ts(2) by (cases "?h = 0") auto
      then have m: "t mod ?h < ?h" by simp
      note i = rope_idx_bounds [OF m]
      have "rope_lo r t mod ?d = fst (rope_idx r (t mod ?h))" "rope_hi r t mod ?d = snd (rope_idx r (t mod ?h))"
        using i(1,2) by (simp_all add: rope_lo_def rope_hi_def)
      then show ?thesis using False i(3,4) by metis
    qed
    then have "v' ! j = v ! j \<and> d' ! j = d ! j" using res by blast
    then show ?thesis using False by (simp add: rope_ref_at_def Let_def)
  qed
  have "v' = rope_ref fp r v" using res len el by (intro nth_equalityI) (auto simp: rope_ref_def)
  moreover have "d' = map (\<lambda>j. if j mod ?d < 2 * ?h then rope_ref_at fp r v j else d ! j) [0..<length d]"
    using res len el by (intro nth_equalityI) auto
  ultimately show ?thesis using run by simp
qed

text \<open>A schedule splits into the threads of Q and the threads of K.\<close>

lemma schedule_tasks:
  assumes "mset schedule = mset [0..<m]" "total_pairs r \<le> m"
  shows "distinct (filter (\<lambda>t. t < q_pairs r) schedule)"
    "set (filter (\<lambda>t. t < q_pairs r) schedule) = {..<ra_n_heads r * (ra_head_dim r div 2)}"
    "distinct (map (\<lambda>t. t - q_pairs r) (filter (\<lambda>t. q_pairs r \<le> t \<and> t < total_pairs r) schedule))"
    "set (map (\<lambda>t. t - q_pairs r) (filter (\<lambda>t. q_pairs r \<le> t \<and> t < total_pairs r) schedule)) =
      {..<ra_n_kv_heads r * (ra_head_dim r div 2)}"
proof -
  have d: "distinct schedule" using mset_eq_imp_distinct_iff [OF assms(1)] by simp
  have s: "set schedule = {..<m}" using mset_eq_setD [OF assms(1)] by (simp add: atLeast0LessThan)
  have tp: "total_pairs r = q_pairs r + ra_n_kv_heads r * (ra_head_dim r div 2)"
    by (simp add: total_pairs_def q_pairs_def add_mult_distrib)
  show "distinct (filter (\<lambda>t. t < q_pairs r) schedule)" using d by simp
  show "set (filter (\<lambda>t. t < q_pairs r) schedule) = {..<ra_n_heads r * (ra_head_dim r div 2)}"
  proof -
    have "set (filter (\<lambda>t. t < q_pairs r) schedule) = {t. t < m \<and> t < q_pairs r}" using s by auto
    also have "\<dots> = {..<q_pairs r}" using assms(2) tp by auto
    finally show ?thesis by (simp add: q_pairs_def)
  qed
  show "distinct (map (\<lambda>t. t - q_pairs r) (filter (\<lambda>t. q_pairs r \<le> t \<and> t < total_pairs r) schedule))"
    using d by (auto simp: distinct_map inj_on_def)
  have "(\<lambda>t. t - q_pairs r) ` {t \<in> {..<m}. q_pairs r \<le> t \<and> t < total_pairs r} =
      {..<ra_n_kv_heads r * (ra_head_dim r div 2)}" (is "?f ` ?A = ?B")
  proof
    show "?f ` ?A \<subseteq> ?B" using tp by auto
    show "?B \<subseteq> ?f ` ?A"
    proof
      fix x assume "x \<in> ?B"
      then have "x + q_pairs r \<in> ?A" using assms(2) tp by auto
      then show "x \<in> ?f ` ?A" by (metis (no_types, lifting) add_diff_cancel_right' image_eqI)
    qed
  qed
  then show "set (map (\<lambda>t. t - q_pairs r) (filter (\<lambda>t. q_pairs r \<le> t \<and> t < total_pairs r) schedule)) =
      {..<ra_n_kv_heads r * (ra_head_dim r div 2)}" using s by simp
qed


lemma grid_covers: "0 < block \<Longrightarrow> n \<le> grid_threads n block"
proof -
  assume b: "0 < block"
  have "(n + block - 1) mod block \<le> block - 1" using b by (simp add: Suc_leI less_Suc_eq_le [symmetric])
  moreover have "(n + block - 1) div block * block + (n + block - 1) mod block = n + block - 1" by simp
  ultimately show ?thesis unfolding grid_threads_def using b by linarith
qed

lemma grid_covers_block [simp]: "n \<le> grid_threads n BLOCK_SIZE"
  by (rule grid_covers) (simp add: BLOCK_SIZE_def)

definition rope_task :: "fpu \<Rightarrow> rope_args \<Rightarrow> nat \<Rightarrow> half \<Rightarrow> half \<Rightarrow> half \<times> half" where
  "rope_task fp r t a b = rope_rotate fp (rope_cos_sin fp r (t mod (ra_head_dim r div 2))) a b"

lemma rope_task_pair: "rope_task fp r t (v ! rope_lo r t) (v ! rope_hi r t) = rope_pair fp r t v"
  by (simp add: rope_task_def rope_pair_def)

lemma rope_store_step: "rope_store r t (rope_pair fp r t v) v =
  v[rope_lo r t := fst (rope_task fp r t (v ! rope_lo r t) (v ! rope_hi r t)),
    rope_hi r t := snd (rope_task fp r t (v ! rope_lo r t) (v ! rope_hi r t))]"
  by (simp add: rope_store_def rope_task_pair)

lemma rope_pair_step: "pair_step (rope_lo r) (rope_hi r) (rope_task fp r) t (v, d) =
  (rope_store r t (rope_pair fp r t v) v, rope_store r t (rope_pair fp r t v) d)"
  by (simp add: pair_step_def rope_store_def rope_task_pair Let_def)

lemmas rope_tasks' = rope_tasks [folded rope_task_def, unfolded eta_contract_eq]

lemma rope_tasks_fst:
  assumes "distinct ts" "set ts = {..<n * (ra_head_dim r div 2)}" "length v = n * ra_head_dim r"
  shows "fold (\<lambda>t v. rope_store r t (rope_pair fp r t v) v) ts v = rope_ref fp r v"
proof -
  have "fold (\<lambda>t v. rope_store r t (rope_pair fp r t v) v) ts v =
      fst (fold (pair_step (rope_lo r) (rope_hi r) (rope_task fp r)) ts (v, v))"
    unfolding fold_pair_fst rope_store_step ..
  then show ?thesis using rope_tasks' [OF assms assms(3), of fp] by simp
qed

lemma rope_kernel_split:
  "fold (rope_thread fp r) schedule (q, k) =
     (fold (\<lambda>t v. rope_store r t (rope_pair fp r t v) v) (filter (\<lambda>t. t < q_pairs r) schedule) q,
      fold (\<lambda>t v. rope_store r t (rope_pair fp r t v) v)
        (map (\<lambda>t. t - q_pairs r) (filter (\<lambda>t. q_pairs r \<le> t \<and> t < total_pairs r) schedule)) k)"
proof -
  have "q_pairs r \<le> total_pairs r" by (simp add: q_pairs_def total_pairs_def)
  then show ?thesis
    by (induction schedule arbitrary: q k) (simp_all add: rope_thread_def Let_def)
qed

lemma rope_store_kernel_split:
  "fold (rope_store_thread fp r v) schedule ((q, k), (kd, vd)) =
     (let kk = fold (pair_step (rope_lo r) (rope_hi r) (rope_task fp r))
                 (map (\<lambda>t. t - q_pairs r) (filter (\<lambda>t. q_pairs r \<le> t \<and> t < total_pairs r) schedule)) (k, kd)
      in ((fold (\<lambda>t v. rope_store r t (rope_pair fp r t v) v) (filter (\<lambda>t. t < q_pairs r) schedule) q, fst kk),
          (snd kk, fold (\<lambda>t d. d[t := v ! t]) (filter (\<lambda>t. t < kv_dim r) schedule) vd)))"
proof -
  have "q_pairs r \<le> total_pairs r" by (simp add: q_pairs_def total_pairs_def)
  then show ?thesis
    by (induction schedule arbitrary: q k kd vd)
       (simp_all add: rope_store_thread_def rope_pair_step Let_def)
qed

lemma fold_copy:
  "length d = length v \<Longrightarrow> fold (\<lambda>t d. d[t := v ! t]) ts d = map (\<lambda>j. if j \<in> set ts then v ! j else d ! j) [0..<length v]"
proof (induction ts arbitrary: d)
  case Nil
  then have "map ((!) d) [0..<length v] = d" by (metis map_nth)
  then show ?case by simp
next
  case (Cons t ts)
  then show ?case by (auto simp: nth_list_update intro!: map_cong)
qed

lemma rope_ref_even:
  assumes "even (ra_head_dim r)" "length d = n * ra_head_dim r" "length v = length d"
  shows "map (\<lambda>j. if j mod ra_head_dim r < 2 * (ra_head_dim r div 2) then rope_ref_at fp r v j else d ! j) [0..<length d] =
    rope_ref fp r v"
  unfolding rope_ref_def assms(3)
proof (rule map_cong [OF refl])
  fix j assume "j \<in> set [0..<length d]"
  then have "0 < ra_head_dim r" using assms(2) by (cases "ra_head_dim r = 0") auto
  then show "(if j mod ra_head_dim r < 2 * (ra_head_dim r div 2) then rope_ref_at fp r v j else d ! j) = rope_ref_at fp r v j"
    using assms(1) by simp
qed

lemma rope_kernel_ref:
  assumes "mset schedule = mset [0..<m]" "total_pairs r \<le> m"
    "length q = ra_n_heads r * ra_head_dim r" "length k = ra_n_kv_heads r * ra_head_dim r"
  shows "rope_kernel fp r schedule q k = (rope_ref fp r q, rope_ref fp r k)"
  unfolding rope_kernel_def rope_kernel_split
  using schedule_tasks [OF assms(1,2)] assms(3,4) by (simp only: rope_tasks_fst)

lemmas rope_inplace_ref = rope_kernel_ref [OF refl grid_covers_block, folded rope_inplace_def]

text \<open>The rotary embedding kernel has no data race: in whatever order the threads of the grid
  run, the buffers of Q and K come out rotated element by element as the reference formula says.\<close>

theorem rope_kernel_any_schedule:
  assumes "mset schedule = mset [0..<grid_threads (total_pairs r) BLOCK_SIZE]"
    and "length q = ra_n_heads r * ra_head_dim r" and "length k = ra_n_kv_heads r * ra_head_dim r"
  shows "rope_kernel fp r schedule q k = (rope_ref fp r q, rope_ref fp r k) \<and>
    rope_kernel fp r schedule q k = rope_inplace fp r q k"
  using rope_kernel_ref [OF assms(1) grid_covers_block assms(2,3), of fp] rope_inplace_ref [OF assms(2,3), of fp]
  by simp

lemma rope_store_kernel_ref:
  assumes "mset schedule = mset [0..<grid_threads (max (total_pairs r) (kv_dim r)) BLOCK_SIZE]"
    and "even (ra_head_dim r)"
    and "length q = ra_n_heads r * ra_head_dim r" and "length k = kv_dim r" and "length v = kv_dim r"
    and "length kd = kv_dim r" and "length vd = kv_dim r"
  shows "rope_store_kernel fp r schedule q k v kd vd =
    (rope_inplace fp r q k, (snd (rope_inplace fp r q k), v))"
proof -
  let ?m = "grid_threads (max (total_pairs r) (kv_dim r)) BLOCK_SIZE"
  have m: "total_pairs r \<le> ?m" "kv_dim r \<le> ?m"
    using grid_covers_block [of "max (total_pairs r) (kv_dim r)"] by linarith+
  note len = assms(4-6) [unfolded kv_dim_def]
  note inp = rope_inplace_ref [OF assms(3) len(1)]
  note t = schedule_tasks [OF assms(1) m(1)]
  have kk: "fold (pair_step (rope_lo r) (rope_hi r) (rope_task fp r))
      (map (\<lambda>t. t - q_pairs r) (filter (\<lambda>t. q_pairs r \<le> t \<and> t < total_pairs r) schedule)) (k, kd) =
      (rope_ref fp r k, rope_ref fp r k)"
    unfolding rope_tasks' [OF t(3,4) len(1,3)] using rope_ref_even [OF assms(2) len(3)] len by simp
  have "set (filter (\<lambda>t. t < kv_dim r) schedule) = {..<kv_dim r}"
  proof -
    have "set schedule = {..<?m}" using mset_eq_setD [OF assms(1)] by (simp add: atLeast0LessThan)
    then show ?thesis using order.strict_trans2 [OF _ m(2)] unfolding set_filter by blast
  qed
  then have "fold (\<lambda>t d. d[t := v ! t]) (filter (\<lambda>t. t < kv_dim r) schedule) vd =
      map (\<lambda>j. if j \<in> {..<kv_dim r} then v ! j else vd ! j) [0..<length v]"
    using assms(5,7) fold_copy [of vd v] by simp
  also have "\<dots> = v" using assms(5) by (intro nth_equalityI) auto
  finally have vv: "fold (\<lambda>t d. d[t := v ! t]) (filter (\<lambda>t. t < kv_dim r) schedule) vd = v" .
  show ?thesis unfolding rope_store_kernel_def rope_store_kernel_split Let_def kk vv inp
    using rope_tasks_fst [OF t(1,2) assms(3)] by simp
qed

text \<open>(C29) The fused kernel of the FP16 path does what the unfused calls do: for an even head size, in
  any schedule, it rotates Q and K as \<^verbatim>\<open>rope_inplace\<close> does and leaves in the cache exactly the
  rotated K and the unrotated V, whatever the cache held before.\<close>

theorem rope_fused_store_equiv:
  assumes "mset schedule = mset [0..<grid_threads (max (total_pairs r) (kv_dim r)) BLOCK_SIZE]"
    and "even (ra_head_dim r)"
    and "length q = ra_n_heads r * ra_head_dim r" and "length k = kv_dim r" and "length v = kv_dim r"
    and "length kd = kv_dim r" and "length vd = kv_dim r"
  shows "rope_store_kernel fp r schedule q k v kd vd =
    (rope_inplace fp r q k, (snd (rope_inplace fp r q k), v))"
  by (rule rope_store_kernel_ref [OF assms])

lemma rope_inplace_store_ref:
  assumes "even (ra_head_dim r)" "length q = ra_n_heads r * ra_head_dim r" "length k = kv_dim r" "length v = kv_dim r"
    "length kd = kv_dim r" "length vd = kv_dim r"
  shows "rope_inplace_store_kv_fp16 fp r q k v kd vd =
    ((rope_ref fp r q, rope_ref fp r k), (rope_ref fp r k, v))"
proof -
  have "(if total_pairs r > kv_dim r then total_pairs r else kv_dim r) = max (total_pairs r) (kv_dim r)" by simp
  then show ?thesis unfolding rope_inplace_store_kv_fp16_def Let_def
    using rope_store_kernel_ref [OF refl assms] rope_inplace_ref [OF assms(2) assms(3) [unfolded kv_dim_def]] by simp
qed

text \<open>A toy arithmetic for evaluating the kernels: a float is a half's bit pattern, sums and products
  are those of words, and a rotation by any angle is the quarter turn.\<close>

definition demo_fpu :: fpu where
  "demo_fpu = \<lparr>h2f = ucast, f2h = ucast, f_add = (+), f_sub = (-), f_mul = (*), f_div = (\<lambda>a b. a),
     f_neg = uminus, f_abs = (\<lambda>a. a), f_max = max, f_exp = (\<lambda>a. a), f_pow = (\<lambda>a b. a), f_cos = (\<lambda>_. 0),
     f_sin = (\<lambda>_. 1), f_rsqrt = (\<lambda>a. a), f_sqrt = (\<lambda>a. a), f_pos = (\<lambda>a. a \<noteq> 0), f_of_int = of_int, f_ldexp = (\<lambda>a e. a), f_rn = uint\<rparr>"

definition demo_rope :: rope_args where
  "demo_rope = \<lparr>ra_n_heads = 1, ra_n_kv_heads = 1, ra_head_dim = 4, ra_position = 7, ra_theta = 0, ra_neox = True\<rparr>"

lemma demo_rope_dims:
  "ra_n_heads demo_rope * ra_head_dim demo_rope = 4" "ra_n_kv_heads demo_rope * ra_head_dim demo_rope = 4"
  "kv_dim demo_rope = 4" "even (ra_head_dim demo_rope)"
  "grid_threads (total_pairs demo_rope) BLOCK_SIZE = 128"
  "grid_threads (max (total_pairs demo_rope) 4) BLOCK_SIZE = 128"
  by (simp_all add: demo_rope_def kv_dim_def grid_threads_def total_pairs_def BLOCK_SIZE_def)

theorem rope_kernel_any_schedule_witness:
  "rope_kernel demo_fpu demo_rope (rev [0..<128]) [1, 2, 3, 4] [5, 6, 7, 8] =
     rope_inplace demo_fpu demo_rope [1, 2, 3, 4] [5, 6, 7, 8]"
  using rope_kernel_any_schedule [of "rev [0..<128]" demo_rope "[1, 2, 3, 4]" "[5, 6, 7, 8]" demo_fpu]
    rope_inplace_ref [of "[1, 2, 3, 4]" demo_rope "[5, 6, 7, 8]" demo_fpu]
  by (simp add: demo_rope_dims)

lemma demo_rope_ref:
  "rope_ref demo_fpu demo_rope [5, 6, 7, 8] = [- 7, - 8, 5, 6]"
  by (simp add: rope_ref_def rope_ref_at_def rope_idx_def rope_rotate_def rope_cos_sin_def demo_rope_def demo_fpu_def
      upt_rec_numeral Let_def)

theorem rope_fused_store_equiv_witness:
  "rope_store_kernel demo_fpu demo_rope (rev [0..<128]) [1, 2, 3, 4] [5, 6, 7, 8] [9, 10, 11, 12]
     [0, 0, 0, 0] [0, 0, 0, 0] =
     (rope_inplace demo_fpu demo_rope [1, 2, 3, 4] [5, 6, 7, 8], ([- 7, - 8, 5, 6], [9, 10, 11, 12]))"
  using rope_fused_store_equiv [of "rev [0..<128]" demo_rope "[1, 2, 3, 4]" "[5, 6, 7, 8]" "[9, 10, 11, 12]"
      "[0, 0, 0, 0]" "[0, 0, 0, 0]" demo_fpu]
    rope_inplace_ref [of "[1, 2, 3, 4]" demo_rope "[5, 6, 7, 8]" demo_fpu] demo_rope_ref
  by (simp add: demo_rope_dims)



section \<open>Elementwise kernels and RMSNorm, row by row\<close>

lemma fold_write_distinct:
  assumes "distinct is" "length out = n"
  shows "fold (\<lambda>i out. if i < n then out[i := f i] else out) is out =
    map (\<lambda>j. if j \<in> set is then f j else out ! j) [0..<n]"
  using assms
proof (induction "is" arbitrary: out)
  case Nil
  then have "map ((!) out) [0..<n] = out" by (metis map_nth)
  then show ?case by simp
next
  case (Cons i xs)
  have "map (\<lambda>j. if j \<in> set xs then f j else out[i := f i] ! j) [0..<n] =
      map (\<lambda>j. if j \<in> set (i # xs) then f j else out ! j) [0..<n]" if "i < n"
    using that Cons.prems by (auto simp: nth_list_update intro!: map_cong)
  moreover have "map (\<lambda>j. if j \<in> set xs then f j else out ! j) [0..<n] =
      map (\<lambda>j. if j \<in> set (i # xs) then f j else out ! j) [0..<n]" if "\<not> i < n"
    using that by (auto intro!: map_cong)
  ultimately show ?case using Cons by simp
qed

lemma elementwise_any_schedule:
  assumes "mset schedule = mset [0..<m]" "n \<le> m" "length out = n"
  shows "elementwise f n schedule out = map f [0..<n]"
proof -
  have d: "distinct schedule" using mset_eq_imp_distinct_iff [OF assms(1)] by simp
  have s: "set schedule = {..<m}" using mset_eq_setD [OF assms(1)] by (simp add: atLeast0LessThan)
  show ?thesis unfolding elementwise_def fold_write_distinct [OF d assms(3)] using s assms(2) by (auto intro!: map_cong)
qed

lemma vec_add_map:
  "length out = n \<Longrightarrow> vec_add fp out a b n = map (\<lambda>i. f2h fp (f_add fp (h2f fp (a ! i)) (h2f fp (b ! i)))) [0..<n]"
  unfolding vec_add_def by (intro elementwise_any_schedule [OF refl] grid_covers) simp_all

lemma fused_swiglu_map:
  "length out = rows * dim \<Longrightarrow> fused_swiglu fp out gate up rows dim = map (\<lambda>i. silu_mul fp (gate ! i) (up ! i)) [0..<rows * dim]"
  unfolding fused_swiglu_def Let_def by (intro elementwise_any_schedule [OF refl]) simp_all

text \<open>Writing one row per block.\<close>

lemma fold_blit_rows:
  assumes "length out = n * d" "\<And>r. r < n \<Longrightarrow> length (row r) = d" "m \<le> n"
  shows "fold (\<lambda>r out. blit out (r * d) (row r)) [0..<m] out = concat (map row [0..<m]) @ drop (m * d) out"
  using assms(3)
proof (induction m)
  case (Suc m)
  have len: "length (concat (map row [0..<m])) = m * d"
  proof -
    have "sum_list (map length (map row [0..<m])) = sum_list (map (\<lambda>_. d) [0..<m])"
      using Suc.prems assms(2) by (intro arg_cong [where f = sum_list]) auto
    then show ?thesis by (simp add: length_concat sum_list_triv)
  qed
  have r: "length (row m) = d" using Suc.prems assms(2) by simp
  show ?case using Suc len r by (simp add: blit_def add.commute)
qed simp

lemma length_concat_rows:
  "(\<And>r. r < n \<Longrightarrow> length (row r) = d) \<Longrightarrow> length (concat (map row [0..<n])) = n * d"
proof (induction n)
  case (Suc n)
  have "length (concat (map row [0..<n])) = n * d" using Suc by simp
  then show ?case using Suc.prems [of n] by simp
qed simp

lemma slice_concat_rows:
  assumes "\<And>r. r < n \<Longrightarrow> length (row r) = d" "i < n"
  shows "slice (i * d) d (concat (map row [0..<n])) = row i"
proof -
  have "[0..<n] = [0..<i] @ i # [Suc i..<n]" 
    using assms(2) upt_add_eq_append [of 0 i "n - i"] upt_conv_Cons [of i n] by simp
  then have "concat (map row [0..<n]) = concat (map row [0..<i]) @ row i @ concat (map row [Suc i..<n])" by simp
  moreover have "length (concat (map row [0..<i])) = i * d" using assms by (intro length_concat_rows) auto
  ultimately show ?thesis using assms by (simp add: slice_def)
qed

lemma length_rms_rows [simp]:
  "length (rms_row_gpu fp x res w d eps r) = d" "length (rms_row_cpu fp x res w d eps r) = d"
  by (simp_all add: rms_row_gpu_def rms_row_cpu_def Let_def)

lemma strided_bound: "j \<in> set (strided i st n) \<Longrightarrow> j < n"
proof (induction i st n rule: strided.induct)
  case (1 i st n)
  then show ?case using strided.simps [of i st n] by (auto split: if_splits)
qed

lemma rms_val_slice:
  "i < d \<Longrightarrow> rms_val fp (slice off d x) None i = rms_val fp x None (off + i)" if "off + d \<le> length x"
  using that by (simp add: rms_val_def nth_slice)

lemma rms_sum_sq_slice:
  assumes "off + d \<le> length x" "\<And>i. i \<in> set is \<Longrightarrow> i < d"
  shows "rms_sum_sq fp (slice off d x) None 0 is = rms_sum_sq fp x None off is"
  unfolding rms_sum_sq_def using assms by (intro fold_cong refl) (simp add: rms_val_slice)

lemma rms_row_slice:
  assumes "(r + 1) * d \<le> length x"
  shows "rms_row_gpu fp (slice (r * d) d x) None w d eps 0 = rms_row_gpu fp x None w d eps r"
    and "rms_row_cpu fp (slice (r * d) d x) None w d eps 0 = rms_row_cpu fp x None w d eps r"
proof -
  have le: "r * d + d \<le> length x" using assms by (simp add: add.commute)
  have ss: "rms_sum_sq fp (slice (r * d) d x) None 0 (strided t st d) = rms_sum_sq fp x None (r * d) (strided t st d)" for t st
    using le by (rule rms_sum_sq_slice) (rule strided_bound)
  have sc: "rms_sum_sq fp (slice (r * d) d x) None 0 [0..<d] = rms_sum_sq fp x None (r * d) [0..<d]"
    using le by (rule rms_sum_sq_slice) simp
  show "rms_row_gpu fp (slice (r * d) d x) None w d eps 0 = rms_row_gpu fp x None w d eps r"
    unfolding rms_row_gpu_def rms_rrms_def Let_def using le by (simp add: ss rms_val_slice)
  show "rms_row_cpu fp (slice (r * d) d x) None w d eps 0 = rms_row_cpu fp x None w d eps r"
    unfolding rms_row_cpu_def Let_def using le by (simp add: sc rms_val_slice)
qed

lemma fused_rmsnorm_rows:
  assumes "length out = n * d" "length x = n * d"
  shows "fused_rmsnorm_residual fp e ok out x None w n d eps =
    concat (map (\<lambda>r. fused_rmsnorm_residual fp e ok (replicate d 0) (slice (r * d) d x) None w 1 d eps) [0..<n])"
proof -
  define row where "row = (if fast_norm_enabled e \<and> ok then rms_row_gpu fp x None w d eps else rms_row_cpu fp x None w d eps)"
  have len: "length (row r) = d" for r by (simp add: row_def)
  have "fused_rmsnorm_residual fp e ok out x None w n d eps = concat (map row [0..<n])"
    unfolding fused_rmsnorm_residual_def Let_def row_def [symmetric]
    using fold_blit_rows [OF assms(1) len, of n] assms(1) by simp
  moreover have "fused_rmsnorm_residual fp e ok (replicate d 0) (slice (r * d) d x) None w 1 d eps = row r" if "r < n" for r
  proof -
    have "(r + 1) * d \<le> length x" using that unfolding assms(2) by (intro mult_le_mono1) simp
    note s = rms_row_slice [OF this]
    show ?thesis by (simp add: fused_rmsnorm_residual_def Let_def row_def s [simplified] blit_def)
  qed
  ultimately show ?thesis by (auto intro!: arg_cong [where f = concat] map_cong)
qed

text \<open>RMSNorm treats every row alone: what a batched call over \<^verbatim>\<open>n\<close> rows leaves in row
  \<^verbatim>\<open>r\<close> is what a one-row call on that row computes, in the CUDA kernel with its strided partial
  sums and warp butterflies as well as in the CPU fallback, and whatever the output buffer held.\<close>

theorem rmsnorm_rows_independent:
  assumes "length out = n * d" and "length x = n * d" and "r < n" and "length out1 = d"
  shows "slice (r * d) d (fused_rmsnorm_residual fp e ok out x None w n d eps) =
    fused_rmsnorm_residual fp e ok out1 (slice (r * d) d x) None w 1 d eps"
proof -
  let ?one = "\<lambda>o' r. fused_rmsnorm_residual fp e ok o' (slice (r * d) d x) None w 1 d eps"
  have any: "?one o' r = ?one (replicate d 0) r" if "length o' = d" for o' r
    using that by (simp add: fused_rmsnorm_residual_def blit_def)
  have len: "length (?one (replicate d 0) r) = d" for r
    by (simp add: fused_rmsnorm_residual_def blit_def)
  show ?thesis unfolding fused_rmsnorm_rows [OF assms(1,2)] any [OF assms(4)]
    by (rule slice_concat_rows [OF len assms(3)])
qed

theorem rmsnorm_rows_independent_witness:
  "slice 2 2 (fused_rmsnorm_residual demo_fpu Map.empty True [0, 0, 0, 0] [1, 2, 3, 4] None (Norm_F32 [1, 1]) 2 2 0) =
     fused_rmsnorm_residual demo_fpu Map.empty True [7, 7] [3, 4] None (Norm_F32 [1, 1]) 1 2 0"
  using rmsnorm_rows_independent [of "[0, 0, 0, 0]" 2 2 "[1, 2, 3, 4]" 1 "[7, 7]"] by (simp add: slice_def)


section \<open>The INT8 scale\<close>

lemma xor_power_add:
  fixes i :: nat
  assumes "i < 2 ^ k"
  shows "i XOR 2 ^ k = i + 2 ^ k"
proof -
  have "\<not> bit i k" using assms by (simp add: bit_nat_def)
  then have "i AND 2 ^ k = 0" 
    by (intro bit_eqI) (auto simp: bit_and_iff bit_exp_iff)
  then show ?thesis by (simp add: disjunctive_xor_eq_or disjunctive_add_eq_or)
qed

definition butterfly :: "nat \<Rightarrow> 'a::linorder list \<Rightarrow> 'a list" where
  "butterfly off l = map (\<lambda>i. max (l ! i) (l ! (i XOR off))) [0..<32]"

lemma mod_twice:
  fixes i j m :: nat
  assumes "i < m"
  shows "j mod m = i \<longleftrightarrow> j mod (2 * m) = i \<or> j mod (2 * m) = i + m"
proof -
  have "j div m mod 2 = 0 \<or> j div m mod 2 = 1" by presburger
  then have "j mod (2 * m) = j mod m \<or> j mod (2 * m) = m + j mod m"
    using mod_mult2_eq [of j m 2] by (auto simp: mult.commute)
  moreover have "j mod m < m" using assms by simp
  ultimately show ?thesis using assms by linarith
qed

definition lanes_cover :: "'a::linorder list \<Rightarrow> 'a \<Rightarrow> nat \<Rightarrow> 'a list \<Rightarrow> bool" where
  "lanes_cover l c m s \<longleftrightarrow> (\<forall>i < m. s ! i \<le> c \<longleftrightarrow> (\<forall>j < 32. j mod m = i \<longrightarrow> l ! j \<le> c))"

lemma butterfly_step:
  assumes inv: "lanes_cover l c (2 * 2 ^ k) s" and k: "2 * 2 ^ k \<le> (32 :: nat)"
  shows "lanes_cover l c (2 ^ k) (butterfly (2 ^ k) s)"
  unfolding lanes_cover_def
proof (intro allI impI)
  fix i :: nat assume i: "i < 2 ^ k"
  then have "i < 32" using k by linarith
  then have "butterfly (2 ^ k) s ! i = max (s ! i) (s ! (i + 2 ^ k))"
    using i by (simp add: butterfly_def xor_power_add del: upt_rec_numeral)
  moreover have "i < 2 * 2 ^ k" "i + 2 ^ k < 2 * 2 ^ k" using i by simp_all
  ultimately show "butterfly (2 ^ k) s ! i \<le> c \<longleftrightarrow> (\<forall>j < 32. j mod 2 ^ k = i \<longrightarrow> l ! j \<le> c)"
    using inv mod_twice [OF i] unfolding lanes_cover_def by auto
qed

lemma warp_reduce_bound:
  fixes l :: "'a::linorder list"
  assumes "length l = 32"
  shows "warp_reduce max l ! 0 \<le> c \<longleftrightarrow> (\<forall>x \<in> set l. x \<le> c)"
proof -
  have "lanes_cover l c 32 l" by (auto simp: lanes_cover_def)
  then have "lanes_cover l c 16 (butterfly 16 l)" using butterfly_step [of l c 4] by simp
  then have "lanes_cover l c 8 (butterfly 8 (butterfly 16 l))" using butterfly_step [of l c 3] by simp
  then have "lanes_cover l c 4 (butterfly 4 (butterfly 8 (butterfly 16 l)))" using butterfly_step [of l c 2] by simp
  then have "lanes_cover l c 2 (butterfly 2 (butterfly 4 (butterfly 8 (butterfly 16 l))))"
    using butterfly_step [of l c 1] by simp
  then have "lanes_cover l c 1 (butterfly 1 (butterfly 2 (butterfly 4 (butterfly 8 (butterfly 16 l)))))"
    using butterfly_step [of l c 0] by simp
  moreover have "warp_reduce max l = butterfly 1 (butterfly 2 (butterfly 4 (butterfly 8 (butterfly 16 l))))"
    unfolding warp_reduce_def butterfly_def [symmetric] by (simp only: fold_simps)
  ultimately show ?thesis using assms by (simp add: lanes_cover_def all_set_conv_all_nth)
qed


text \<open>Reductions with \<^verbatim>\<open>fmaxf\<close> agree with reductions with the order of the bit patterns, on
  values where the two agree.\<close>

lemma xor_less_32: "i < 32 \<Longrightarrow> k < 32 \<Longrightarrow> (i XOR k :: nat) < 32"
  using take_bit_nat_eq_self_iff [of 5 "i XOR k"] take_bit_nat_eq_self_iff [of 5 i] take_bit_nat_eq_self_iff [of 5 k]
  by (simp add: take_bit_xor)

lemma warp_reduce_cong:
  assumes len: "length l = 32" and P: "\<forall>x \<in> set l. P x"
    and fg: "\<And>a b. P a \<Longrightarrow> P b \<Longrightarrow> f a b = g a b \<and> P (g a b)"
  shows "warp_reduce f l = warp_reduce g l"
proof -
  have step: "\<forall>off \<in> set offs. off < 32 \<Longrightarrow> length l = 32 \<Longrightarrow> \<forall>x \<in> set l. P x \<Longrightarrow>
      fold (\<lambda>off l. map (\<lambda>i. f (l ! i) (l ! (i XOR off))) [0..<32]) offs l =
      fold (\<lambda>off l. map (\<lambda>i. g (l ! i) (l ! (i XOR off))) [0..<32]) offs l" for offs
  proof (induction offs arbitrary: l)
    case (Cons off offs)
    have P: "P (l ! i)" "P (l ! (i XOR off))" if "i < 32" for i
      using Cons.prems that xor_less_32 [OF that] by auto
    have eq: "map (\<lambda>i. f (l ! i) (l ! (i XOR off))) [0..<32] = map (\<lambda>i. g (l ! i) (l ! (i XOR off))) [0..<32]"
      using fg P by (intro map_cong refl) simp
    have "\<forall>x \<in> set (map (\<lambda>i. g (l ! i) (l ! (i XOR off))) [0..<32]). P x"
      using fg P by (auto simp del: upt_rec_numeral)
    with Cons.IH [of "map (\<lambda>i. g (l ! i) (l ! (i XOR off))) [0..<32]"] Cons.prems(1) show ?case
      unfolding fold_simps o_apply eq by simp
  qed simp
  show ?thesis unfolding warp_reduce_def by (rule step [OF _ len P]) simp
qed

lemma strided_set: "0 < st \<Longrightarrow> set (strided i st n) = {j. i \<le> j \<and> j < n \<and> (j - i) mod st = 0}"
proof (induction i st n rule: strided.induct)
  case (1 i st n)
  show ?case
  proof (cases "i < n")
    case True
    then have "set (strided i st n) = insert i {j. i + st \<le> j \<and> j < n \<and> (j - (i + st)) mod st = 0}"
      using 1 strided.simps [of i st n] by simp
    also have "\<dots> = {j. i \<le> j \<and> j < n \<and> (j - i) mod st = 0}" (is "?A = ?B")
    proof
      show "?A \<subseteq> ?B" using True by (auto simp: le_mod_geq)
      show "?B \<subseteq> ?A"
      proof
        fix j assume j: "j \<in> ?B"
        show "j \<in> ?A"
        proof (cases "j < i + st")
          case True
          then have "j - i < st" using j by auto
          then show ?thesis using j by auto
        next
          case False
          then show ?thesis using j by (auto simp: le_mod_geq)
        qed
      qed
    qed
    finally show ?thesis .
  next
    case False
    then show ?thesis using strided.simps [of i st n] by auto
  qed
qed

definition finite_abs :: "f32 \<Rightarrow> bool" where
  "finite_abs a \<longleftrightarrow> a \<le> 0x7F800000"

lemma finite_abs_max: "finite_abs a \<Longrightarrow> finite_abs b \<Longrightarrow> finite_abs (max a b)"
  by (simp add: finite_abs_def max_def)

lemma finite_abs_0 [simp]: "finite_abs 0"
  by (simp add: finite_abs_def)

lemma atomic_max_eq: "finite_abs a \<Longrightarrow> finite_abs b \<Longrightarrow> atomic_max a b = max a b"
proof -
  have s: "sint x = uint x" if "finite_abs x" for x
  proof -
    have "uint x \<le> 0x7F800000" using that by (simp add: finite_abs_def word_le_def)
    moreover have "- (2 ^ 31) \<le> uint x" using order.trans [OF _ uint_ge_0, of "- (2 ^ 31)" x] by simp
    ultimately have "signed_take_bit 31 (uint x) = uint x" by (intro signed_take_bit_int_eq_self) simp_all
    then show ?thesis by (simp add: sint_uint)
  qed
  assume "finite_abs a" "finite_abs b"
  then show ?thesis by (auto simp: atomic_max_def s max_def word_le_def word_uint_eq_iff)
qed

lemma fold_max_cong:
  assumes "\<And>c. c \<in> set cs \<Longrightarrow> P (v c)" "\<And>a b. P a \<Longrightarrow> P b \<Longrightarrow> f a b = max a b \<and> P (max a b)" "P z"
  shows "fold (\<lambda>c m. f m (v c)) cs z = fold (\<lambda>c m. max m (v c)) cs z \<and> P (fold (\<lambda>c m. max m (v c)) cs z)"
  using assms by (induction cs arbitrary: z) auto

lemma fold_max_bound: "fold (\<lambda>c m. max m (v c)) cs z \<le> b \<longleftrightarrow> z \<le> b \<and> (\<forall>c \<in> set cs. v c \<le> (b :: 'a::linorder))"
  by (induction cs arbitrary: z) auto


lemma row_max_bound:
  assumes ieee: "\<And>a b. finite_abs a \<Longrightarrow> finite_abs b \<Longrightarrow> f_max fp a b = max a b"
    and vals: "\<And>c. c < cols \<Longrightarrow> finite_abs (f_abs fp (h2f fp (src ! (off + c))))"
    and warps: "mset warps = mset [0..<BLOCK_SIZE div 32]"
  shows "i8_row_max fp src off cols warps \<le> b \<longleftrightarrow> (\<forall>c < cols. f_abs fp (h2f fp (src ! (off + c))) \<le> b)"
proof -
  let ?v = "\<lambda>c. f_abs fp (h2f fp (src ! (off + c)))"
  have fg: "f_max fp a b = max a b \<and> finite_abs (max a b)" if "finite_abs a" "finite_abs b" for a b
    using that ieee finite_abs_max by blast
  define loc where "loc = (\<lambda>t. fold (\<lambda>c m. max m (?v c)) (strided t BLOCK_SIZE cols) 0)"
  have loc: "i8_local_max fp src off cols BLOCK_SIZE t = loc t \<and> finite_abs (loc t)" for t
    unfolding i8_local_max_def loc_def using strided_bound vals by (intro fold_max_cong fg) auto
  define wv where "wv = (\<lambda>w. warp_value max loc w)"
  have wv_bound: "wv w \<le> b \<longleftrightarrow> (\<forall>t. 32 * w \<le> t \<and> t < 32 * w + 32 \<longrightarrow> loc t \<le> b)" for w b
    unfolding wv_def warp_value_def by (subst warp_reduce_bound) auto
  have wv: "warp_value (f_max fp) (i8_local_max fp src off cols BLOCK_SIZE) w = wv w" for w
    unfolding warp_value_def wv_def using loc fg
    by (subst warp_reduce_cong [where P = finite_abs and g = max]) (auto cong: map_cong)
  have fin: "finite_abs (wv w)" for w
    using wv_bound [of w "0x7F800000"] loc by (auto simp: finite_abs_def)
  have "i8_row_max fp src off cols warps = fold (\<lambda>w m. max m (wv w)) warps 0"
    unfolding i8_row_max_def wv using fin atomic_max_eq finite_abs_max
    by (intro conjunct1 [OF fold_max_cong [where P = finite_abs]]) auto
  then have "i8_row_max fp src off cols warps \<le> b \<longleftrightarrow> (\<forall>w \<in> set warps. wv w \<le> b)" by (simp add: fold_max_bound)
  also have "set warps = {..<4}" using mset_eq_setD [OF warps] by (simp add: BLOCK_SIZE_def atLeast0LessThan)
  also have "(\<forall>w \<in> {..<4}. wv w \<le> b) \<longleftrightarrow> (\<forall>t < 128. loc t \<le> b)"
  proof
    assume a: "\<forall>w \<in> {..<4}. wv w \<le> b"
    show "\<forall>t < 128. loc t \<le> b"
    proof (intro allI impI)
      fix t :: nat assume "t < 128"
      then have "t div 32 \<in> {..<4}" "32 * (t div 32) \<le> t \<and> t < 32 * (t div 32) + 32" by auto
      then show "loc t \<le> b" using a wv_bound by blast
    qed
  qed (auto simp: wv_bound)
  also have "\<dots> \<longleftrightarrow> (\<forall>c < cols. ?v c \<le> b)"
  proof
    assume a: "\<forall>t < 128. loc t \<le> b"
    show "\<forall>c < cols. ?v c \<le> b"
    proof (intro allI impI)
      fix c assume "c < cols"
      then have "c \<in> set (strided (c mod 128) BLOCK_SIZE cols)"
        by (simp add: strided_set BLOCK_SIZE_def minus_mod_eq_mult_div)
      moreover have "loc (c mod 128) \<le> b" using a by simp
      ultimately show "?v c \<le> b" by (simp add: loc_def fold_max_bound)
    qed
  next
    assume "\<forall>c < cols. ?v c \<le> b"
    then show "\<forall>t < 128. loc t \<le> b" by (auto simp: loc_def fold_max_bound dest: strided_bound)
  qed
  finally show ?thesis .
qed

text \<open>(C30) INT8 quantisation of a row: whatever order the warps of the block reach the shared maximum
  in, the scale is computed from the largest absolute value of the row (with \<^verbatim>\<open>fmaxf\<close> and the
  integer view of non-negative, non-NaN floats as IEEE 754 defines them), and every stored byte, read
  back as \<^verbatim>\<open>int8_t\<close>, is the clamped rounded quotient, never outside [-127, 127].\<close>

theorem int8_row_absmax:
  assumes ieee: "\<And>a b. a \<le> 0x7F800000 \<Longrightarrow> b \<le> 0x7F800000 \<Longrightarrow> f_max fp a b = max a b"
    and vals: "\<And>c. c < cols \<Longrightarrow> f_abs fp (h2f fp (src ! (row * cols + c))) \<le> 0x7F800000"
    and warps: "mset warps = mset [0..<BLOCK_SIZE div 32]"
    and peak: "peak = Max (insert 0 ((\<lambda>c. f_abs fp (h2f fp (src ! (row * cols + c)))) ` {..<cols}))"
    and r: "i8_row fp src cols warps row = (qs, scale)"
  shows "scale = f_div fp peak f32_127 \<and> length qs = cols \<and>
    (\<forall>c < cols. sint (qs ! c) = i8_quant fp (if f_pos fp scale then f_div fp f32_127 peak else 0) (src ! (row * cols + c)) \<and>
       - 127 \<le> sint (qs ! c) \<and> sint (qs ! c) \<le> 127)"
proof -
  let ?m = "i8_row_max fp src (row * cols) cols warps"
  have bound: "?m \<le> b \<longleftrightarrow> (\<forall>c < cols. f_abs fp (h2f fp (src ! (row * cols + c))) \<le> b)" for b
    using row_max_bound [OF _ _ warps] ieee vals by (simp add: finite_abs_def)
  have "?m \<le> b \<longleftrightarrow> peak \<le> b" for b unfolding bound peak by auto
  then have m: "?m = peak" by (meson order.antisym order.refl)
  have rng: "sint (of_int (i8_quant fp s h) :: byte) = i8_quant fp s h \<and> - 127 \<le> i8_quant fp s h \<and> i8_quant fp s h \<le> 127" for s h
  proof -
    have "- 127 \<le> i8_quant fp s h" "i8_quant fp s h \<le> 127" by (simp_all add: i8_quant_def)
    then show ?thesis by (simp add: signed_of_int signed_take_bit_int_eq_self)
  qed
  have "scale = f_div fp peak f32_127"
    and qs: "qs = map (\<lambda>c. of_int (i8_quant fp (if f_pos fp scale then f_div fp f32_127 peak else 0) (src ! (row * cols + c)))) [0..<cols]"
    using r unfolding i8_row_def Let_def m by auto
  then show ?thesis using rng by simp
qed


theorem int8_row_absmax_witness:
  "i8_row demo_fpu [3, 5] 2 [3, 1, 0, 2] 0 = ([127, 127], 5) \<and>
   sint (127 :: byte) = i8_quant demo_fpu f32_127 (5 :: half)"
proof -
  obtain qs sc where r: "i8_row demo_fpu [3, 5] 2 [3, 1, 0, 2] 0 = (qs, sc)" by fastforce
  have "[0..<BLOCK_SIZE div 32] = [0, 1, 2, 3]" by (simp add: BLOCK_SIZE_def upt_rec)
  then have w: "mset [3, 1, 0, 2] = mset [0..<BLOCK_SIZE div 32]" by simp
  have v: "f_abs demo_fpu (h2f demo_fpu ([3, 5] ! (0 * 2 + c))) \<le> 0x7F800000" if "c < 2" for c
    using that by (auto simp: demo_fpu_def less_2_cases_iff)
  have m: "f_max demo_fpu a b = max a b" for a b by (simp add: demo_fpu_def)
  have t: "5 = Max (insert 0 ((\<lambda>c. f_abs demo_fpu (h2f demo_fpu ([3, 5] ! (0 * 2 + c)))) ` {..<2}))"
  proof -
    have "{..<2 :: nat} = {0, 1}" by auto
    then show ?thesis by (simp add: demo_fpu_def max_def)
  qed
  have q: "i8_quant demo_fpu f32_127 3 = 127" "i8_quant demo_fpu f32_127 5 = 127"
    by (simp_all add: i8_quant_def demo_fpu_def f32_127_def)
  from int8_row_absmax [OF m v w t r] have sc: "sc = 5" and len: "length qs = 2" and qs: "\<forall>c < 2. sint (qs ! c) = 127"
    using q by (auto simp: demo_fpu_def less_2_cases_iff)
  have "x = 127" if "sint x = 127" for x :: byte using arg_cong [OF that, of "word_of_int :: int \<Rightarrow> byte"] by simp
  then have "qs = [127, 127]" using len qs by (auto simp: list_eq_iff_nth_eq less_2_cases_iff)
  then show ?thesis using r sc q by simp
qed

end
