(* ===== verification/Infer_Bridge.thy ===== *)
theory Infer_Bridge
  imports Gguf_Model Gpu_Kernels
begin

text \<open>
  The bridge into reflex-infer: \<^verbatim>\<open>gemv_q4.cu\<close> and \<^verbatim>\<open>attention.cu\<close>. The library
  itself is not part of the repository: its entry points are the fields of the record
  \<^verbatim>\<open>infer\<close>, each returning \<^verbatim>\<open>None\<close> for a status other than \<^verbatim>\<open>Success\<close>. A wrapper
  fills in the argument structure, resolves the device address of the weights and, when the library
  reports a failure, leaves the output buffer as it was.

  \<^verbatim>\<open>infer_contract\<close> collects what \<^verbatim>\<open>jllm_kernels.h\<close> documents about these calls.
\<close>

section \<open>The library and the device\<close>

record attn_args =
  aa_q :: "half list"
  aa_keys :: "byte list"
  aa_vals :: "byte list"
  aa_n_heads :: nat
  aa_n_kv_heads :: nat
  aa_head_dim :: nat
  aa_scale :: f32
  aa_kv_int8 :: bool
  aa_k_scales :: "f32 list option"
  aa_v_scales :: "f32 list option"

text \<open>A weight matrix as the library sees it: host address, device address (0 for none), GGML type
  and number of output rows.\<close>

record wref =
  wf_weights :: int
  wf_device :: int
  wf_type :: int
  wf_rows :: nat

record infer =
  rf_gemv_quant :: "wref \<Rightarrow> half list \<Rightarrow> nat \<Rightarrow> half list option"
  rf_gemv_quant_add :: "wref \<Rightarrow> half list \<Rightarrow> half list \<Rightarrow> nat \<Rightarrow> half list option"
  rf_gemv_quant_pair :: "wref \<Rightarrow> wref \<Rightarrow> half list \<Rightarrow> nat \<Rightarrow> (half list \<times> half list) option"
  rf_gemv_quant_triple :: "wref \<Rightarrow> wref \<Rightarrow> wref \<Rightarrow> half list \<Rightarrow> nat \<Rightarrow> (half list \<times> half list \<times> half list) option"
  rf_gemm_quant_batched :: "wref \<Rightarrow> half list \<Rightarrow> nat \<Rightarrow> nat \<Rightarrow> half list option"
  rf_gemv_quant_f32 :: "wref \<Rightarrow> half list \<Rightarrow> nat \<Rightarrow> f32 list option"
  rf_dequant_embedding_row :: "wref \<Rightarrow> int \<Rightarrow> nat \<Rightarrow> half list option"
  rf_attention_decode :: "attn_args \<Rightarrow> nat \<Rightarrow> half list option"
  rf_attention_prefill_batched :: "attn_args \<Rightarrow> nat \<Rightarrow> nat \<Rightarrow> half list option"

text \<open>What stays fixed while the engine runs: the arithmetic, the library, the environment, which
  addresses are device or managed memory (\<^verbatim>\<open>cudaPointerGetAttributes\<close>), the mapped weight
  region, whether kernel launches succeed, the norm tensors behind their addresses, the bytes of the
  weight file behind an address (read by the CPU embedding path), and what a scratch buffer and the
  stack array of the embedding path happen to contain before they are written.\<close>

record device =
  d_fp :: fpu
  d_inf :: infer
  d_env :: env
  d_ptr :: "int \<Rightarrow> bool"
  d_region :: weight_region
  d_launch_ok :: bool
  d_norm :: "int \<Rightarrow> bool \<Rightarrow> norm_weight"
  d_bytes :: "int \<Rightarrow> byte list"
  d_junk :: "int \<Rightarrow> nat \<Rightarrow> half list"
  d_stack :: "f32 list"


section \<open>The wrappers\<close>

definition resolve_weight_device_ptr :: "device \<Rightarrow> int \<Rightarrow> int" where
  "resolve_weight_device_ptr d W =
     (let mapped = resolve_mapped_weight_device_ptr (d_region d) W
      in if mapped \<noteq> 0 then mapped else if d_ptr d W then W else 0)"

definition wref_of :: "device \<Rightarrow> int \<Rightarrow> int \<Rightarrow> nat \<Rightarrow> wref" where
  "wref_of d W ggml_type M =
     \<lparr>wf_weights = W, wf_device = resolve_weight_device_ptr d W, wf_type = ggml_type, wf_rows = M\<rparr>"

definition gemv_quant :: "device \<Rightarrow> half list \<Rightarrow> int \<Rightarrow> int \<Rightarrow> half list \<Rightarrow> nat \<Rightarrow> nat \<Rightarrow> half list" where
  "gemv_quant d y W ty x M K =
     (case rf_gemv_quant (d_inf d) (wref_of d W ty M) x K of Some r \<Rightarrow> r | None \<Rightarrow> y)"

text \<open>\<^verbatim>\<open>gemv_q4\<close> ignores its scales and group size.\<close>

definition gemv_q4 :: "device \<Rightarrow> half list \<Rightarrow> int \<Rightarrow> half list \<Rightarrow> nat \<Rightarrow> nat \<Rightarrow> half list" where
  "gemv_q4 d y W x M K = gemv_quant d y W 12 x M K"

definition gemv_quant_add :: "device \<Rightarrow> half list \<Rightarrow> int \<Rightarrow> int \<Rightarrow> half list \<Rightarrow> half list \<Rightarrow> nat \<Rightarrow> nat \<Rightarrow> half list" where
  "gemv_quant_add d y W ty x residual M K =
     (case rf_gemv_quant_add (d_inf d) (wref_of d W ty M) x residual K of Some r \<Rightarrow> r | None \<Rightarrow> y)"

definition gemv_quant_pair ::
  "device \<Rightarrow> half list \<Rightarrow> int \<Rightarrow> int \<Rightarrow> nat \<Rightarrow> half list \<Rightarrow> int \<Rightarrow> int \<Rightarrow> nat \<Rightarrow> half list \<Rightarrow> nat \<Rightarrow> half list \<times> half list"
where
  "gemv_quant_pair d y0 W0 ty0 M0 y1 W1 ty1 M1 x K =
     (case rf_gemv_quant_pair (d_inf d) (wref_of d W0 ty0 M0) (wref_of d W1 ty1 M1) x K of
        Some r \<Rightarrow> r | None \<Rightarrow> (y0, y1))"

definition gemv_quant_triple ::
  "device \<Rightarrow> half list \<Rightarrow> int \<Rightarrow> int \<Rightarrow> nat \<Rightarrow> half list \<Rightarrow> int \<Rightarrow> int \<Rightarrow> nat \<Rightarrow> half list \<Rightarrow> int \<Rightarrow> int \<Rightarrow> nat \<Rightarrow>
   half list \<Rightarrow> nat \<Rightarrow> half list \<times> half list \<times> half list"
where
  "gemv_quant_triple d y0 W0 ty0 M0 y1 W1 ty1 M1 y2 W2 ty2 M2 x K =
     (case rf_gemv_quant_triple (d_inf d) (wref_of d W0 ty0 M0) (wref_of d W1 ty1 M1) (wref_of d W2 ty2 M2) x K of
        Some r \<Rightarrow> r | None \<Rightarrow> (y0, y1, y2))"

definition gemm_quant_batched :: "device \<Rightarrow> half list \<Rightarrow> int \<Rightarrow> int \<Rightarrow> half list \<Rightarrow> nat \<Rightarrow> nat \<Rightarrow> nat \<Rightarrow> half list" where
  "gemm_quant_batched d y W ty x M N K =
     (case rf_gemm_quant_batched (d_inf d) (wref_of d W ty M) x N K of Some r \<Rightarrow> r | None \<Rightarrow> y)"

definition gemv_quant_f32 :: "device \<Rightarrow> f32 list \<Rightarrow> int \<Rightarrow> int \<Rightarrow> half list \<Rightarrow> nat \<Rightarrow> nat \<Rightarrow> f32 list" where
  "gemv_quant_f32 d y W ty x M K =
     (case rf_gemv_quant_f32 (d_inf d) (wref_of d W ty M) x K of Some r \<Rightarrow> r | None \<Rightarrow> y)"

definition dequant_embedding_row :: "device \<Rightarrow> half list \<Rightarrow> int \<Rightarrow> int \<Rightarrow> int \<Rightarrow> nat \<Rightarrow> bool \<times> half list" where
  "dequant_embedding_row d dst W ty token_id hidden_dim =
     (case rf_dequant_embedding_row (d_inf d) (wref_of d W ty 0) token_id hidden_dim of
        Some r \<Rightarrow> (True, r) | None \<Rightarrow> (False, dst))"

definition flash_attention_decode :: "device \<Rightarrow> half list \<Rightarrow> attn_args \<Rightarrow> nat \<Rightarrow> half list" where
  "flash_attention_decode d output a seq_len =
     (case rf_attention_decode (d_inf d) a seq_len of Some r \<Rightarrow> r | None \<Rightarrow> output)"

definition flash_attention_prefill_batched :: "device \<Rightarrow> half list \<Rightarrow> attn_args \<Rightarrow> nat \<Rightarrow> nat \<Rightarrow> half list" where
  "flash_attention_prefill_batched d output a N start_pos =
     (case rf_attention_prefill_batched (d_inf d) a N start_pos of Some r \<Rightarrow> r | None \<Rightarrow> output)"


section \<open>The documented behaviour\<close>

text \<open>The comments of \<^verbatim>\<open>jllm_kernels.h\<close>: \<^verbatim>\<open>gemv_quant\<close> computes some product \<^verbatim>\<open>G\<close> of
  the matrix and the vector; the combined dispatchers do so \<^emph>\<open>without changing math\<close>;
  \<^verbatim>\<open>gemv_quant_add\<close> is \<^verbatim>\<open>y = W*x + residual\<close>, rounded as \<^verbatim>\<open>vec_add\<close> rounds;
  \<^verbatim>\<open>gemm_quant_batched\<close> computes every row of its batch as \<^verbatim>\<open>gemv_quant\<close> would;
  attention is a function \<^verbatim>\<open>A\<close> of the query and of the first \<^verbatim>\<open>seq_len\<close> rows of the cache,
  and batched attention gives query \<^verbatim>\<open>i\<close> a sequence of \<^verbatim>\<open>start_pos + i + 1\<close> rows.\<close>

definition add_rows :: "fpu \<Rightarrow> half list \<Rightarrow> half list \<Rightarrow> half list" where
  "add_rows fp a b = map (\<lambda>i. f2h fp (f_add fp (h2f fp (a ! i)) (h2f fp (b ! i)))) [0..<length a]"

definition row_bytes :: "attn_args \<Rightarrow> nat" where
  "row_bytes a = aa_n_kv_heads a * aa_head_dim a * (if aa_kv_int8 a then 1 else 2)"

definition attn_row :: "attn_args \<Rightarrow> nat \<Rightarrow> nat \<Rightarrow> attn_args" where
  "attn_row a i n =
     a\<lparr>aa_q := slice (i * (aa_n_heads a * aa_head_dim a)) (aa_n_heads a * aa_head_dim a) (aa_q a),
       aa_keys := take (n * row_bytes a) (aa_keys a), aa_vals := take (n * row_bytes a) (aa_vals a),
       aa_k_scales := map_option (take (n * aa_n_kv_heads a)) (aa_k_scales a),
       aa_v_scales := map_option (take (n * aa_n_kv_heads a)) (aa_v_scales a)\<rparr>"

definition infer_contract ::
  "fpu \<Rightarrow> infer \<Rightarrow> (wref \<Rightarrow> half list \<Rightarrow> nat \<Rightarrow> half list) \<Rightarrow> (attn_args \<Rightarrow> nat \<Rightarrow> half list) \<Rightarrow> bool"
where
  "infer_contract fp rf G A \<longleftrightarrow>
     (\<forall>w x K. length (G w x K) = wf_rows w) \<and>
     (\<forall>a n. length (A a n) = aa_n_heads a * aa_head_dim a) \<and>
     (\<forall>w x K. rf_gemv_quant rf w x K = Some (G w x K)) \<and>
     (\<forall>w x r K. length r = wf_rows w \<longrightarrow> rf_gemv_quant_add rf w x r K = Some (add_rows fp r (G w x K))) \<and>
     (\<forall>v w x K. rf_gemv_quant_pair rf v w x K = Some (G v x K, G w x K)) \<and>
     (\<forall>u v w x K. rf_gemv_quant_triple rf u v w x K = Some (G u x K, G v x K, G w x K)) \<and>
     (\<forall>w x N K. length x = N * K \<longrightarrow>
        rf_gemm_quant_batched rf w x N K = Some (concat (map (\<lambda>i. G w (slice (i * K) K x) K) [0..<N]))) \<and>
     (\<forall>a n. rf_attention_decode rf a n = Some (A a n)) \<and>
     (\<forall>a N s. length (aa_q a) = N * (aa_n_heads a * aa_head_dim a) \<longrightarrow>
        rf_attention_prefill_batched rf a N s = Some (concat (map (\<lambda>i. A (attn_row a i (s + i + 1)) (s + i + 1)) [0..<N])))"

text \<open>A library that satisfies it exists for every product and every attention function of the right
  shape.\<close>

definition infer_of :: "fpu \<Rightarrow> (wref \<Rightarrow> half list \<Rightarrow> nat \<Rightarrow> half list) \<Rightarrow> (attn_args \<Rightarrow> nat \<Rightarrow> half list) \<Rightarrow> infer" where
  "infer_of fp G A =
     \<lparr>rf_gemv_quant = (\<lambda>w x K. Some (G w x K)),
      rf_gemv_quant_add = (\<lambda>w x r K. Some (add_rows fp r (G w x K))),
      rf_gemv_quant_pair = (\<lambda>v w x K. Some (G v x K, G w x K)),
      rf_gemv_quant_triple = (\<lambda>u v w x K. Some (G u x K, G v x K, G w x K)),
      rf_gemm_quant_batched = (\<lambda>w x N K. Some (concat (map (\<lambda>i. G w (slice (i * K) K x) K) [0..<N]))),
      rf_gemv_quant_f32 = (\<lambda>w x K. Some (replicate (wf_rows w) 0)),
      rf_dequant_embedding_row = (\<lambda>w t n. Some (replicate n (of_int t))),
      rf_attention_decode = (\<lambda>a n. Some (A a n)),
      rf_attention_prefill_batched = (\<lambda>a N s. Some (concat (map (\<lambda>i. A (attn_row a i (s + i + 1)) (s + i + 1)) [0..<N])))\<rparr>"

lemma infer_of_contract:
  "\<forall>w x K. length (G w x K) = wf_rows w \<Longrightarrow> \<forall>a n. length (A a n) = aa_n_heads a * aa_head_dim a \<Longrightarrow>
   infer_contract fp (infer_of fp G A) G A"
  by (simp add: infer_contract_def infer_of_def)

text \<open>The wrappers under the contract.\<close>

lemma bridge_eqs:
  assumes "infer_contract (d_fp d) (d_inf d) G A"
  shows "gemv_quant d y W ty x M K = G (wref_of d W ty M) x K"
    and "length r = M \<Longrightarrow> gemv_quant_add d y W ty x r M K = add_rows (d_fp d) r (G (wref_of d W ty M) x K)"
    and "gemv_quant_pair d y0 W ty M y1 W1 ty1 M1 x K = (G (wref_of d W ty M) x K, G (wref_of d W1 ty1 M1) x K)"
    and "gemv_quant_triple d y0 W ty M y1 W1 ty1 M1 y2 W2 ty2 M2 x K =
      (G (wref_of d W ty M) x K, G (wref_of d W1 ty1 M1) x K, G (wref_of d W2 ty2 M2) x K)"
    and "length x = N * K \<Longrightarrow> gemm_quant_batched d y W ty x M N K =
      concat (map (\<lambda>i. G (wref_of d W ty M) (slice (i * K) K x) K) [0..<N])"
    and "flash_attention_decode d y a n = A a n"
    and "length (aa_q a) = N * (aa_n_heads a * aa_head_dim a) \<Longrightarrow>
      flash_attention_prefill_batched d y a N s = concat (map (\<lambda>i. A (attn_row a i (s + i + 1)) (s + i + 1)) [0..<N])"
    and "length (G (wref_of d W ty M) x K) = M"
    and "length (A a n) = aa_n_heads a * aa_head_dim a"
  using assms
  by (simp_all add: infer_contract_def gemv_quant_def gemv_quant_add_def gemv_quant_pair_def gemv_quant_triple_def
      gemm_quant_batched_def flash_attention_decode_def flash_attention_prefill_batched_def wref_of_def)

end
