(* ===== verification/Embedding.thy ===== *)
theory Embedding
  imports Infer_Bridge
begin

text \<open>
  The embedding lookup of \<^verbatim>\<open>decode.cu\<close>: one row of the token embedding, dequantised on the GPU
  by the library or on the CPU from the Q4_K, Q6_K, F32 or F16 blocks of the weight file. The bytes of
  the tensor are \<^verbatim>\<open>d_bytes\<close> of its address.

  The CPU routines are nested loops over blocks, groups and lanes that scatter their results; the
  theorems say which element of which block every output element is, that none is missed, and that the
  12 scale bytes of a Q4_K block hold its 8 six-bit scales and 8 six-bit minima without loss.
\<close>

section \<open>Bytes and halves\<close>

definition halves_bytes :: "half list \<Rightarrow> byte list" where
  "halves_bytes hs = concat (map (\<lambda>h. nat_to_le 2 (unat h)) hs)"

fun halves_of :: "byte list \<Rightarrow> half list" where
  "halves_of (a # b # bs) = of_nat (le_to_nat [a, b]) # halves_of bs"
| "halves_of bs = []"

definition f32_nan :: f32 where "f32_nan = 0x7FC00000"
definition f32_infinity :: f32 where "f32_infinity = 0x7F800000"


section \<open>Dequantisation on the CPU\<close>

definition fp16_to_float :: "fpu \<Rightarrow> half \<Rightarrow> f32" where
  "fp16_to_float fp h =
     (let sgn_bit = drop_bit 15 h AND 1;
          ex = drop_bit 10 h AND 0x1F;
          mant = h AND 0x3FF;
          result = (if ex = 0 then f_ldexp fp (f_of_int fp (uint mant)) (- 24)
                    else if ex = 31 then (if mant \<noteq> 0 then f32_nan else f32_infinity)
                    else f_ldexp fp (f_of_int fp (uint mant + 1024)) (uint ex - 25))
      in if sgn_bit \<noteq> 0 then f_neg fp result else result)"

definition get_scale_min_k4_cpu :: "nat \<Rightarrow> byte list \<Rightarrow> byte \<times> byte" where
  "get_scale_min_k4_cpu j q =
     (if j < 4 then (q ! j AND 63, q ! (j + 4) AND 63)
      else ((q ! (j + 4) AND 0xF) OR push_bit 4 (drop_bit 6 (q ! (j - 4))),
            drop_bit 4 (q ! (j + 4)) OR push_bit 4 (drop_bit 6 (q ! j))))"

text \<open>\<^verbatim>\<open>embd_block_q4_K\<close> and \<^verbatim>\<open>embd_block_q6_K\<close>: 144 and 210 bytes.\<close>

record embd_block_q4_K =
  q4_d_raw :: half
  q4_dmin_raw :: half
  q4_scales :: "byte list"
  q4_qs :: "byte list"

definition block_q4_K :: "byte list \<Rightarrow> nat \<Rightarrow> embd_block_q4_K" where
  "block_q4_K data off =
     \<lparr>q4_d_raw = of_nat (le_to_nat (slice off 2 data)), q4_dmin_raw = of_nat (le_to_nat (slice (off + 2) 2 data)),
      q4_scales = slice (off + 4) 12 data, q4_qs = slice (off + 16) 128 data\<rparr>"

record embd_block_q6_K =
  q6_ql :: "byte list"
  q6_qh :: "byte list"
  q6_scales :: "byte list"
  q6_d_raw :: half

definition block_q6_K :: "byte list \<Rightarrow> nat \<Rightarrow> embd_block_q6_K" where
  "block_q6_K data off =
     \<lparr>q6_ql = slice off 128 data, q6_qh = slice (off + 128) 64 data, q6_scales = slice (off + 192) 16 data,
      q6_d_raw = of_nat (le_to_nat (slice (off + 208) 2 data))\<rparr>"

text \<open>The body of the loop over \<^verbatim>\<open>il\<close>.\<close>

definition q4k_group :: "fpu \<Rightarrow> embd_block_q4_K \<Rightarrow> nat \<Rightarrow> nat \<Rightarrow> f32 list \<Rightarrow> f32 list" where
  "q4k_group fp blk b il out =
     (let dall = fp16_to_float fp (q4_d_raw blk);
          dmin = fp16_to_float fp (q4_dmin_raw blk);
          is = 2 * il;
          (sc1, m1) = get_scale_min_k4_cpu (is + 0) (q4_scales blk);
          (sc2, m2) = get_scale_min_k4_cpu (is + 1) (q4_scales blk);
          d1 = f_mul fp dall (f_of_int fp (uint sc1));
          dm1 = f_mul fp dmin (f_of_int fp (uint m1));
          d2 = f_mul fp dall (f_of_int fp (uint sc2));
          dm2 = f_mul fp dmin (f_of_int fp (uint m2));
          q = (\<lambda>l. q4_qs blk ! (32 * il + l));
          out_base = b * 256 + 64 * il
      in fold (\<lambda>l out. out[out_base + l := f_sub fp (f_mul fp d1 (f_of_int fp (uint (q l AND 0xF)))) dm1,
                           out_base + l + 32 := f_sub fp (f_mul fp d2 (f_of_int fp (uint (drop_bit 4 (q l))))) dm2])
           [0..<32] out)"

definition dequant_q4k_row :: "fpu \<Rightarrow> f32 list \<Rightarrow> byte list \<Rightarrow> nat \<Rightarrow> nat \<Rightarrow> f32 list" where
  "dequant_q4k_row fp out data token_id hidden_dim =
     (let blocks_per_row = hidden_dim div 256; block_bytes = 144;
          row_data = token_id * blocks_per_row * block_bytes
      in fold (\<lambda>b out. let blk = block_q4_K data (row_data + b * block_bytes)
                        in fold (q4k_group fp blk b) [0..<4] out) [0..<blocks_per_row] out)"

text \<open>One lane of one half of a Q6_K block: \<^verbatim>\<open>y\<close>, \<^verbatim>\<open>ql\<close>, \<^verbatim>\<open>qh\<close> and
  \<^verbatim>\<open>sc\<close> have advanced by \<^verbatim>\<open>h\<close> times 128, 64, 32 and 8.\<close>

definition q6k_quant :: "byte \<Rightarrow> byte \<Rightarrow> nat \<Rightarrow> int" where
  "q6k_quant low high sh = uint (low OR push_bit 4 (drop_bit sh high AND 3)) - 32"

definition q6k_lane :: "fpu \<Rightarrow> embd_block_q6_K \<Rightarrow> nat \<Rightarrow> nat \<Rightarrow> nat \<Rightarrow> f32 list \<Rightarrow> f32 list" where
  "q6k_lane fp blk b h l out =
     (let d = fp16_to_float fp (q6_d_raw blk);
          y = b * 256 + h * 128;
          ql = (\<lambda>i. q6_ql blk ! (h * 64 + i));
          qh = (\<lambda>i. q6_qh blk ! (h * 32 + i));
          sc = (\<lambda>i. f_of_int fp (sint (q6_scales blk ! (h * 8 + i))));
          is = l div 16;
          q1 = q6k_quant (ql l AND 0xF) (qh l) 0;
          q2 = q6k_quant (ql (l + 32) AND 0xF) (qh l) 2;
          q3 = q6k_quant (drop_bit 4 (ql l)) (qh l) 4;
          q4 = q6k_quant (drop_bit 4 (ql (l + 32))) (qh l) 6
      in out[y + l := f_mul fp (f_mul fp d (sc is)) (f_of_int fp q1),
             y + l + 32 := f_mul fp (f_mul fp d (sc (is + 2))) (f_of_int fp q2),
             y + l + 64 := f_mul fp (f_mul fp d (sc (is + 4))) (f_of_int fp q3),
             y + l + 96 := f_mul fp (f_mul fp d (sc (is + 6))) (f_of_int fp q4)])"

definition dequant_q6k_row :: "fpu \<Rightarrow> f32 list \<Rightarrow> byte list \<Rightarrow> nat \<Rightarrow> nat \<Rightarrow> f32 list" where
  "dequant_q6k_row fp out data token_id hidden_dim =
     (let blocks_per_row = hidden_dim div 256; block_bytes = 210;
          row_data = token_id * blocks_per_row * block_bytes
      in fold (\<lambda>b out. let blk = block_q6_K data (row_data + b * block_bytes)
                        in fold (\<lambda>h. fold (q6k_lane fp blk b h) [0..<32]) [0..<2] out) [0..<blocks_per_row] out)"

definition fast_embedding_enabled :: "env \<Rightarrow> bool" where
  "fast_embedding_enabled e = env_opt_out e ''JLLM_FAST_EMBD''"

text \<open>\<^verbatim>\<open>h_row\<close> and \<^verbatim>\<open>h_fp16\<close> have 8192 elements: a larger \<^verbatim>\<open>hidden_dim\<close> overruns
  them, and a negative token id reads in front of the tensor; both are \<^verbatim>\<open>None\<close>. \<^verbatim>\<open>h_row\<close>
  is what the uninitialised stack array holds.\<close>

definition dequant_embedding :: "device \<Rightarrow> half list \<Rightarrow> int \<Rightarrow> int \<Rightarrow> nat \<Rightarrow> int \<Rightarrow> half list option" where
  "dequant_embedding d dst embd_data token_id hidden_dim embd_type =
     (let fp = d_fp d; h_row = d_stack d; n = hidden_dim; t = nat token_id;
          gpu = dequant_embedding_row d dst embd_data embd_type token_id n in
      if fast_embedding_enabled (d_env d) \<and> (embd_type = 12 \<or> embd_type = 14) \<and> fst gpu then Some (snd gpu)
      else if 8192 < hidden_dim \<or> token_id < 0 then None
      else Some (
        if embd_type = 12 then map (f2h fp) (take n (dequant_q4k_row fp h_row (d_bytes d embd_data) t n))
        else if embd_type = 14 then map (f2h fp) (take n (dequant_q6k_row fp h_row (d_bytes d embd_data) t n))
        else if embd_type = 0 then
          map (\<lambda>i. f2h fp (u32_of (slice (4 * (t * n + i)) 4 (d_bytes d embd_data)))) [0..<n]
        else if embd_type = 1 then
          map (\<lambda>i. of_nat (le_to_nat (slice (2 * (t * n + i)) 2 (d_bytes d embd_data)))) [0..<n]
        else replicate n 0))"


section \<open>Which element is which\<close>

text \<open>A step that writes, wherever it writes, the value of a fixed function \<^verbatim>\<open>f\<close>.\<close>

definition writes_ref :: "(nat \<Rightarrow> 'a) \<Rightarrow> nat set \<Rightarrow> 'a list \<Rightarrow> 'a list \<Rightarrow> bool" where
  "writes_ref f S out out' \<longleftrightarrow>
     length out' = length out \<and> (\<forall>j < length out. out' ! j = (if j \<in> S then f j else out ! j))"

lemma writes_ref_refl: "writes_ref f {} out out"
  by (simp add: writes_ref_def)

lemma writes_ref_trans: "writes_ref f S a b \<Longrightarrow> writes_ref f T b c \<Longrightarrow> writes_ref f (S \<union> T) a c"
  by (auto simp: writes_ref_def)

lemma writes_ref_update: "writes_ref f S a b \<Longrightarrow> v = f j \<Longrightarrow> writes_ref f (insert j S) a (b[j := v])"
  by (cases "j < length b") (auto simp: writes_ref_def nth_list_update split: if_splits)

lemma writes_ref_fold:
  assumes "\<And>x o'. x \<in> set xs \<Longrightarrow> writes_ref f (S x) o' (step x o')"
  shows "writes_ref f (\<Union>x \<in> set xs. S x) out (fold step xs out)"
  using assms
proof (induction xs arbitrary: out)
  case (Cons x xs)
  have "writes_ref f (S x) out (step x out)" using Cons.prems by simp
  moreover have "writes_ref f (\<Union>x \<in> set xs. S x) (step x out) (fold step xs (step x out))"
    by (rule Cons.IH) (use Cons.prems in simp)
  ultimately show ?case using writes_ref_trans by fastforce
qed (simp add: writes_ref_refl)

lemma writes_ref_all:
  assumes "writes_ref f {..<n} out out'" "length out = n"
  shows "out' = map f [0..<n]"
  using assms by (auto simp: writes_ref_def intro!: nth_equalityI)

text \<open>The reference for element \<^verbatim>\<open>i\<close> of a row.\<close>

definition q4k_elem :: "fpu \<Rightarrow> (nat \<Rightarrow> embd_block_q4_K) \<Rightarrow> nat \<Rightarrow> f32" where
  "q4k_elem fp blk i =
     (let b = blk (i div 256); sub = i mod 256 div 32;
          (sc, m) = get_scale_min_k4_cpu sub (q4_scales b);
          q = q4_qs b ! (32 * (sub div 2) + i mod 32)
      in f_sub fp (f_mul fp (f_mul fp (fp16_to_float fp (q4_d_raw b)) (f_of_int fp (uint sc)))
                            (f_of_int fp (uint (if even sub then q AND 0xF else drop_bit 4 q))))
                  (f_mul fp (fp16_to_float fp (q4_dmin_raw b)) (f_of_int fp (uint m))))"

text \<open>Element \<^verbatim>\<open>l\<close> of group \<^verbatim>\<open>s\<close> of block \<^verbatim>\<open>b\<close>.\<close>

lemma sub_index:
  fixes b s l :: nat
  assumes "s < 8" "l < 32"
  shows "(b * 256 + (32 * s + l)) div 256 = b" "(b * 256 + (32 * s + l)) mod 256 div 32 = s"
    "(b * 256 + (32 * s + l)) mod 32 = l"
proof -
  have r: "32 * s + l < 256" using assms by simp
  show "(b * 256 + (32 * s + l)) div 256 = b" using r by simp
  have m: "(b * 256 + (32 * s + l)) mod 256 = 32 * s + l" using r by simp
  show "(b * 256 + (32 * s + l)) mod 256 div 32 = s" unfolding m using assms(2) by simp
  have "b * 256 + (32 * s + l) = l + 32 * (8 * b + s)" by simp
  then show "(b * 256 + (32 * s + l)) mod 32 = l" using assms(2) by (simp only: mod_mult_self2) simp
qed

lemma index_split: "(j :: nat) = j div 256 * 256 + (32 * (j mod 256 div 32) + j mod 32)"
proof -
  have "j mod 256 mod 32 = j mod 32" by (rule mod_mod_cancel) simp
  then have "32 * (j mod 256 div 32) + j mod 32 = j mod 256"
    using div_mult_mod_eq [of "j mod 256" 32] by (simp add: mult.commute)
  then show ?thesis by (simp only: div_mult_mod_eq)
qed

lemma index_bound: "b < k \<Longrightarrow> s < 8 \<Longrightarrow> l < 32 \<Longrightarrow> b * 256 + (32 * s + l) < k * (256 :: nat)"
  using mult_le_mono1 [of "b + 1" k 256] by simp

lemma blocks_cover:
  "(\<Union>b \<in> set [0..<k]. \<Union>s \<in> set [0..<8]. \<Union>l \<in> set [0..<32]. {b * 256 + (32 * s + l)}) = {..<k * (256 :: nat)}"
proof (intro set_eqI iffI)
  fix j assume j: "j \<in> {..<k * (256 :: nat)}"
  have "j div 256 < k" using j by (simp add: less_mult_imp_div_less)
  then show "j \<in> (\<Union>b \<in> set [0..<k]. \<Union>s \<in> set [0..<8]. \<Union>l \<in> set [0..<32]. {b * 256 + (32 * s + l)})"
    using index_split [of j]
    by (intro UN_I [of "j div 256"] UN_I [of "j mod 256 div 32"] UN_I [of "j mod 32"])
       (simp_all add: less_mult_imp_div_less)
next
  fix j assume "j \<in> (\<Union>b \<in> set [0..<k]. \<Union>s \<in> set [0..<8]. \<Union>l \<in> set [0..<32]. {b * 256 + (32 * s + l)})"
  then obtain b s l where "b < k" "s < 8" "l < 32" "j = b * 256 + (32 * s + l)" by auto
  then show "j \<in> {..<k * 256}" using index_bound by blast
qed

lemma writes_ref_mono_set: "writes_ref f S a b \<Longrightarrow> S = T \<Longrightarrow> writes_ref f T a b"
  by simp

lemma q4k_group_writes:
  assumes "il < 4"
  shows "writes_ref (q4k_elem fp blk) (\<Union>l \<in> set [0..<32]. {b * 256 + (32 * (2 * il + 1) + l), b * 256 + (32 * (2 * il) + l)})
    out (q4k_group fp (blk b) b il out)"
proof -
  have idx: "b * 256 + 64 * il + l = b * 256 + (32 * (2 * il) + l)"
    "b * 256 + (32 * (2 * il) + l) + 32 = b * 256 + (32 * (2 * il + 1) + l)" for l by simp_all
  have s: "2 * il < 8" "2 * il + 1 < 8" using assms by simp_all
  show ?thesis
    unfolding q4k_group_def Let_def split_beta idx
    by (rule writes_ref_fold, intro writes_ref_update writes_ref_refl)
       (simp_all only: q4k_elem_def sub_index [OF s(1)] sub_index [OF s(2)] split_beta Let_def set_upt atLeastLessThan_iff, simp_all)
qed

lemma dequant_q4k_row_writes:
  "writes_ref (q4k_elem fp (\<lambda>b. block_q4_K data (token_id * (n div 256) * 144 + b * 144)))
     {..<n div 256 * 256} out (dequant_q4k_row fp out data token_id n)"
proof -
  have 8: "(\<Union>s \<in> set [0..<8]. P s) = (\<Union>il \<in> set [0..<4]. P (2 * il + 1) \<union> P (2 * il))" for P :: "nat \<Rightarrow> nat set"
  proof (intro set_eqI iffI)
    fix x assume "x \<in> (\<Union>s \<in> set [0..<8]. P s)"
    then obtain s where s: "s < 8" "x \<in> P s" by auto
    then have "x \<in> P (2 * (s div 2) + 1) \<union> P (2 * (s div 2))" by (cases "even s") auto
    moreover have "s div 2 \<in> set [0..<4]" using s(1) by auto
    ultimately show "x \<in> (\<Union>il \<in> set [0..<4]. P (2 * il + 1) \<union> P (2 * il))" by blast
  next
    fix x assume "x \<in> (\<Union>il \<in> set [0..<4]. P (2 * il + 1) \<union> P (2 * il))"
    then obtain il where il: "il < 4" "x \<in> P (2 * il + 1) \<or> x \<in> P (2 * il)" by auto
    then have "2 * il + 1 \<in> set [0..<8]" "2 * il \<in> set [0..<8]" by auto
    then show "x \<in> (\<Union>s \<in> set [0..<8]. P s)" using il(2) by blast
  qed
  have pair: "(\<Union>l \<in> A. {f l, g l}) = (\<Union>l \<in> A. {f l}) \<union> (\<Union>l \<in> A. {g l})" for A :: "nat set" and f g :: "nat \<Rightarrow> nat"
    by blast
  show ?thesis
    unfolding dequant_q4k_row_def Let_def blocks_cover [symmetric] 8
    by (intro writes_ref_fold, unfold pair [symmetric], rule q4k_group_writes) simp
qed

definition q6k_elem :: "fpu \<Rightarrow> (nat \<Rightarrow> embd_block_q6_K) \<Rightarrow> nat \<Rightarrow> f32" where
  "q6k_elem fp blk i =
     (let b = blk (i div 256); s = i mod 256 div 32; l = i mod 32; h = s div 4; k = s mod 4;
          raw = q6_ql b ! (h * 64 + (l + 32 * (k mod 2)));
          q = q6k_quant (if k < 2 then raw AND 0xF else drop_bit 4 raw) (q6_qh b ! (h * 32 + l)) (2 * k)
      in f_mul fp (f_mul fp (fp16_to_float fp (q6_d_raw b)) (f_of_int fp (sint (q6_scales b ! (h * 8 + (l div 16 + 2 * k))))))
           (f_of_int fp q))"

lemma q6k_lane_writes:
  assumes "h < 2" "l < 32"
  shows "writes_ref (q6k_elem fp blk)
    {b * 256 + (32 * (4 * h + 3) + l), b * 256 + (32 * (4 * h + 2) + l), b * 256 + (32 * (4 * h + 1) + l), b * 256 + (32 * (4 * h) + l)}
    out (q6k_lane fp (blk b) b h l out)"
proof -
  have idx: "b * 256 + h * 128 + l = b * 256 + (32 * (4 * h) + l)"
    "b * 256 + (32 * (4 * h) + l) + 32 = b * 256 + (32 * (4 * h + 1) + l)"
    "b * 256 + (32 * (4 * h) + l) + 64 = b * 256 + (32 * (4 * h + 2) + l)"
    "b * 256 + (32 * (4 * h) + l) + 96 = b * 256 + (32 * (4 * h + 3) + l)" by simp_all
  have s: "4 * h < 8" "4 * h + 1 < 8" "4 * h + 2 < 8" "4 * h + 3 < 8" using assms by simp_all
  note at = sub_index [OF s(1) assms(2), of b] sub_index [OF s(2) assms(2), of b]
    sub_index [OF s(3) assms(2), of b] sub_index [OF s(4) assms(2), of b]
  have hk: "4 * h div 4 = h" "4 * h mod 4 = 0" "(4 * h + 1) div 4 = h" "(4 * h + 1) mod 4 = 1"
    "(4 * h + 2) div 4 = h" "(4 * h + 2) mod 4 = 2" "(4 * h + 3) div 4 = h" "(4 * h + 3) mod 4 = 3" by presburger+
  show ?thesis
    unfolding q6k_lane_def Let_def idx
    by (intro writes_ref_update writes_ref_refl) (simp_all only: q6k_elem_def at hk Let_def, simp_all)
qed

lemma dequant_q6k_row_writes:
  "writes_ref (q6k_elem fp (\<lambda>b. block_q6_K data (token_id * (n div 256) * 210 + b * 210)))
     {..<n div 256 * 256} out (dequant_q6k_row fp out data token_id n)"
proof -
  have 8: "(\<Union>s \<in> set [0..<8]. P s) = (\<Union>h \<in> set [0..<2]. P (4 * h + 3) \<union> P (4 * h + 2) \<union> P (4 * h + 1) \<union> P (4 * h))"
    for P :: "nat \<Rightarrow> nat set"
  proof (intro set_eqI iffI)
    fix x assume "x \<in> (\<Union>s \<in> set [0..<8]. P s)"
    then obtain s where s: "s < 8" "x \<in> P s" by auto
    have "s = 4 * (s div 4) + s mod 4" "s mod 4 < 4" by simp_all
    then have "s = 4 * (s div 4) + 3 \<or> s = 4 * (s div 4) + 2 \<or> s = 4 * (s div 4) + 1 \<or> s = 4 * (s div 4)" by linarith
    then have "x \<in> P (4 * (s div 4) + 3) \<union> P (4 * (s div 4) + 2) \<union> P (4 * (s div 4) + 1) \<union> P (4 * (s div 4))"
      using s(2) by force
    moreover have "s div 4 \<in> set [0..<2]" using s(1) by auto
    ultimately show "x \<in> (\<Union>h \<in> set [0..<2]. P (4 * h + 3) \<union> P (4 * h + 2) \<union> P (4 * h + 1) \<union> P (4 * h))" by blast
  next
    fix x assume "x \<in> (\<Union>h \<in> set [0..<2]. P (4 * h + 3) \<union> P (4 * h + 2) \<union> P (4 * h + 1) \<union> P (4 * h))"
    then obtain h where h: "h < 2" "x \<in> P (4 * h + 3) \<union> P (4 * h + 2) \<union> P (4 * h + 1) \<union> P (4 * h)" by auto
    then have "4 * h + 3 \<in> set [0..<8]" "4 * h + 2 \<in> set [0..<8]" "4 * h + 1 \<in> set [0..<8]" "4 * h \<in> set [0..<8]" by auto
    then show "x \<in> (\<Union>s \<in> set [0..<8]. P s)" using h(2) by blast
  qed
  have quad: "(\<Union>l \<in> A. {f l, g l, f' l, g' l}) =
      (\<Union>l \<in> A. {f l}) \<union> (\<Union>l \<in> A. {g l}) \<union> (\<Union>l \<in> A. {f' l}) \<union> (\<Union>l \<in> A. {g' l})"
    for A :: "nat set" and f g f' g' :: "nat \<Rightarrow> nat" by blast
  show ?thesis
    unfolding dequant_q6k_row_def Let_def blocks_cover [symmetric] 8
    by (intro writes_ref_fold, unfold quad [symmetric], intro writes_ref_fold, rule q6k_lane_writes) simp_all
qed

text \<open>(C31) The CPU dequantisation of an embedding row is the documented block format, element by
  element: with a hidden size that is a multiple of 256 (and fits the stack buffer), output element
  \<^verbatim>\<open>i\<close> of token \<^verbatim>\<open>t\<close> is computed from block \<^verbatim>\<open>i div 256\<close> of the token's row, its
  six-bit scale, and its own quant, for Q4_K and for Q6_K; nothing of the uninitialised stack buffer is
  left in the result.\<close>

theorem cpu_embedding_is_block_format:
  assumes "\<not> fst (dequant_embedding_row d dst W ty (int t) n) \<or> \<not> fast_embedding_enabled (d_env d)"
    and "length (d_stack d) = 8192" and "n \<le> 8192" and "256 dvd n" and "ty = 12 \<or> ty = 14"
  shows "dequant_embedding d dst W (int t) n ty =
      Some (map (\<lambda>i. f2h (d_fp d)
        (if ty = 12 then q4k_elem (d_fp d) (\<lambda>b. block_q4_K (d_bytes d W) (t * (n div 256) * 144 + b * 144)) i
         else q6k_elem (d_fp d) (\<lambda>b. block_q6_K (d_bytes d W) (t * (n div 256) * 210 + b * 210)) i)) [0..<n])"
proof -
  have n: "n div 256 * 256 = n" using assms(4) by (rule dvd_div_mult_self)
  have take_ref: "take n out = map f [0..<n]" if "writes_ref f {..<n} (d_stack d) out" for f and out :: "f32 list"
    using that assms(2,3) by (auto simp: writes_ref_def intro!: nth_equalityI)
  have cpu: "\<not> (fast_embedding_enabled (d_env d) \<and> (ty = 12 \<or> ty = 14) \<and> fst (dequant_embedding_row d dst W ty (int t) n))"
    "\<not> (8192 < n \<or> int t < 0)" using assms(1,3) by auto
  note refs = take_ref [OF dequant_q4k_row_writes [of _ _ _ n, unfolded n]]
    take_ref [OF dequant_q6k_row_writes [of _ _ _ n, unfolded n]]
  show ?thesis
    unfolding dequant_embedding_def Let_def if_not_P [OF cpu(1)] if_not_P [OF cpu(2)] nat_int
    using assms(5) by (auto simp: refs)
qed


section \<open>The packed scales\<close>

text \<open>The layout of the 12 scale bytes as the K-quant format defines it.\<close>

definition pack_scale_min :: "(nat \<Rightarrow> byte) \<Rightarrow> (nat \<Rightarrow> byte) \<Rightarrow> byte list" where
  "pack_scale_min sc m =
     map (\<lambda>j. sc j OR push_bit 6 (drop_bit 4 (sc (j + 4)))) [0..<4] @
     map (\<lambda>j. m j OR push_bit 6 (drop_bit 4 (m (j + 4)))) [0..<4] @
     map (\<lambda>j. (sc (j + 4) AND 0xF) OR push_bit 4 (m (j + 4))) [0..<4]"

lemma nibble_masks: "(63 :: byte) = mask 6" "(0xF :: byte) = mask 4"
  by (simp_all add: mask_eq_exp_minus_1)

lemma less_64_bits:
  assumes "(w :: byte) < 64" "bit w n"
  shows "n < 6"
proof -
  have "take_bit 6 w = w" using assms(1)
    by (simp add: word_less_nat_alt unsigned_take_bit_eq word_unat_eq_iff take_bit_nat_eq_self_iff)
  then show ?thesis using assms(2) bit_take_bit_iff [of 6 w n] by simp
qed

lemma byte_bits: "bit (w :: byte) n \<Longrightarrow> n < 8"
  using bit_imp_le_length [of w n] by simp

lemma byte_eqI: "(\<And>n. n < 8 \<Longrightarrow> bit (v :: byte) n = bit w n) \<Longrightarrow> v = w"
  by (rule bit_word_eqI) simp

lemma all_less_8: "(\<forall>n < 8. P n) \<longleftrightarrow> P 0 \<and> P 1 \<and> P 2 \<and> P 3 \<and> P 4 \<and> P 5 \<and> P 6 \<and> P (7 :: nat)"
  by (simp add: eval_nat_numeral All_less_Suc) blast

lemma byte_eq_bits: "(v :: byte) = w \<longleftrightarrow> (\<forall>n < 8. bit v n = bit w n)"
  using byte_eqI by blast

lemma pack_low: "a < 64 \<Longrightarrow> (a OR push_bit 6 (drop_bit 4 b)) AND 63 = (a :: byte)"
  unfolding byte_eq_bits all_less_8 nibble_masks by (auto simp: bit_simps dest: less_64_bits)

lemma pack_high: "a < 64 \<Longrightarrow> b < 64 \<Longrightarrow> drop_bit 6 (a OR push_bit 6 (drop_bit 4 b)) = drop_bit 4 (b :: byte)"
  unfolding byte_eq_bits all_less_8 by (auto simp: bit_simps dest: less_64_bits)

lemma join_nibbles: "((x AND 0xF) OR push_bit 4 y) AND 0xF = (x :: byte) AND 0xF"
  "drop_bit 4 ((x AND 0xF) OR push_bit 4 y) = (y :: byte) AND 0xF"
  "(x AND 0xF) OR push_bit 4 (drop_bit 4 x) = x"
  "(x AND 63) OR push_bit 6 (drop_bit 6 x) = x"
  "drop_bit 6 x AND 0xF = drop_bit 6 x"
  "(x AND 0xF) OR push_bit 4 (drop_bit 4 x OR push_bit 4 z) = x"
  "drop_bit 4 (drop_bit 4 y OR push_bit 4 (drop_bit 6 x)) = drop_bit 6 x"
  unfolding byte_eq_bits all_less_8 nibble_masks by (auto simp: bit_simps dest: byte_bits)

lemma drop_4_of_6: "(w :: byte) < 64 \<Longrightarrow> drop_bit 4 w AND 0xF = drop_bit 4 w"
  unfolding byte_eq_bits all_less_8 nibble_masks by (auto simp: bit_simps dest: less_64_bits)

lemma unpack_range: "fst (get_scale_min_k4_cpu j q) < 64 \<and> snd (get_scale_min_k4_cpu j q) < 64"
proof -
  have m: "w < 64" if "take_bit 6 w = w" for w :: byte
    using that by (simp add: word_less_nat_alt unsigned_take_bit_eq word_unat_eq_iff take_bit_nat_eq_self_iff)
  have b: "take_bit 6 (x AND 63) = x AND 63" "take_bit 6 ((x AND 0xF) OR push_bit 4 (drop_bit 6 y)) = (x AND 0xF) OR push_bit 4 (drop_bit 6 y)"
    "take_bit 6 (drop_bit 4 x OR push_bit 4 (drop_bit 6 y)) = drop_bit 4 x OR push_bit 4 (drop_bit 6 y)" for x y :: byte
    unfolding byte_eq_bits all_less_8 nibble_masks by (auto simp: bit_simps dest: byte_bits)
  show ?thesis unfolding get_scale_min_k4_cpu_def by (auto intro!: m b)
qed

lemma pack_nth:
  "j < 4 \<Longrightarrow> pack_scale_min sc m ! j = sc j OR push_bit 6 (drop_bit 4 (sc (j + 4)))"
  "j < 4 \<Longrightarrow> pack_scale_min sc m ! (j + 4) = m j OR push_bit 6 (drop_bit 4 (m (j + 4)))"
  "j < 4 \<Longrightarrow> pack_scale_min sc m ! (j + 8) = (sc (j + 4) AND 0xF) OR push_bit 4 (m (j + 4))"
  by (simp_all add: pack_scale_min_def nth_append del: upt_rec_numeral)

text \<open>The 12 scale bytes of a Q4_K block hold exactly 8 six-bit scales and 8 six-bit minima:
  what \<^verbatim>\<open>get_scale_min_k4_cpu\<close> returns is always below 64, reading a packed block gives every
  scale and minimum back, and every 12 bytes are the packing of what is read from them.\<close>

theorem q4k_scales_roundtrip:
  assumes "\<forall>j < 8. sc j < 64 \<and> m j < 64" and "length q = 12" and "j < 8"
  shows "get_scale_min_k4_cpu j (pack_scale_min sc m) = (sc j, m j) \<and>
    fst (get_scale_min_k4_cpu j q) < 64 \<and> snd (get_scale_min_k4_cpu j q) < 64 \<and>
    pack_scale_min (\<lambda>j. fst (get_scale_min_k4_cpu j q)) (\<lambda>j. snd (get_scale_min_k4_cpu j q)) = q"
proof -
  have ok: "sc i < 64" "m i < 64" if "i < 8" for i using assms(1) that by auto
  have "get_scale_min_k4_cpu j (pack_scale_min sc m) = (sc j, m j)"
  proof (cases "j < 4")
    case True
    then show ?thesis using ok by (simp add: get_scale_min_k4_cpu_def pack_nth pack_low)
  next
    case False
    define i where "i = j - 4"
    have j: "j = i + 4" and i: "i < 4" "i < 8" "i + 4 < 8" using False assms(3) by (auto simp: i_def)
    have q8: "pack_scale_min sc m ! (i + 4 + 4) = (sc (i + 4) AND 0xF) OR push_bit 4 (m (i + 4))"
      using pack_nth(3) [OF i(1), of sc m] by (simp only: add.assoc numeral_plus_numeral num.simps semiring_norm)
    show ?thesis unfolding j get_scale_min_k4_cpu_def
      by (simp only: diff_add_inverse2 q8 pack_nth [OF i(1)] pack_high [OF ok(1) [OF i(2)] ok(1) [OF i(3)]]
          pack_high [OF ok(2) [OF i(2)] ok(2) [OF i(3)]] join_nibbles) simp
  qed
  moreover have "pack_scale_min (\<lambda>j. fst (get_scale_min_k4_cpu j q)) (\<lambda>j. snd (get_scale_min_k4_cpu j q)) = q" (is "?p = q")
  proof (rule nth_equalityI)
    show "length ?p = length q" using assms(2) by (simp add: pack_scale_min_def)
    fix i assume "i < length ?p"
    then have "i < 12" by (simp add: pack_scale_min_def)
    then consider "i < 4" | "i - 4 < 4" "i = (i - 4) + 4" | "i - 8 < 4" "i = (i - 8) + 8" by linarith
    then consider "i < 4" | k where "k < 4" "i = k + 4" | k where "k < 4" "i = k + 8" by cases blast+
    then show "?p ! i = q ! i"
    proof cases
      case 1
      then show ?thesis by (simp only: pack_nth(1) [OF 1] get_scale_min_k4_cpu_def if_True if_False fst_conv
            not_add_less2 diff_add_inverse2 join_nibbles)
    next
      case (2 k)
      then show ?thesis by (simp only: pack_nth(2) [OF 2(1)] get_scale_min_k4_cpu_def if_True if_False snd_conv
            not_add_less2 diff_add_inverse2 join_nibbles)
    next
      case (3 k)
      then have "q ! (k + 8) = q ! (k + 4 + 4)" by (simp add: add.commute)
      then show ?thesis by (simp only: pack_nth(3) [OF 3(1)] 3(2) get_scale_min_k4_cpu_def if_False fst_conv snd_conv
            not_add_less2) (simp only: join_nibbles)
    qed
  qed
  ultimately show ?thesis using unpack_range by simp
qed

theorem q4k_scales_roundtrip_witness:
  "get_scale_min_k4_cpu 5 (pack_scale_min (\<lambda>j. of_nat (7 * j)) (\<lambda>j. 63)) = (35, 63)"
proof -
  have "(of_nat (7 * j) :: byte) < 64" if "j < 8" for j :: nat
  proof -
    have "unat (of_nat (7 * j) :: byte) = 7 * j" using that unat_of_nat [of "7 * j", where 'a = 8] by (simp del: of_nat_mult)
    then show ?thesis using that by (simp add: word_less_nat_alt)
  qed
  then show ?thesis
    using q4k_scales_roundtrip [of "\<lambda>j. of_nat (7 * j)" "\<lambda>j. 63" "replicate 12 0" 5] by simp
qed

text \<open>A tiny device: the library fails to dequantise, so that the CPU path runs.\<close>

definition cpu_device :: "(int \<Rightarrow> byte list) \<Rightarrow> device" where
  "cpu_device mem = \<lparr>d_fp = demo_fpu, d_inf = (infer_of demo_fpu (\<lambda>w x K. replicate (wf_rows w) 0)
       (\<lambda>a n. replicate (aa_n_heads a * aa_head_dim a) 0))\<lparr>rf_dequant_embedding_row := (\<lambda>w t n. None)\<rparr>,
     d_env = Map.empty, d_ptr = (\<lambda>_. False), d_region = weight_region_none, d_launch_ok = True,
     d_norm = (\<lambda>_ _. Norm_F32 []), d_bytes = mem, d_junk = (\<lambda>_ n. replicate n 0), d_stack = replicate 8192 9\<rparr>"

theorem cpu_embedding_is_block_format_witness:
  "\<exists>r. dequant_embedding (cpu_device (\<lambda>_. replicate 144 1)) [] 4096 (int 0) 256 12 = Some r \<and> length r = 256"
proof -
  have "\<not> fst (dequant_embedding_row (cpu_device (\<lambda>_. replicate 144 1)) [] 4096 12 (int 0) 256)"
    by (simp add: dequant_embedding_row_def cpu_device_def)
  then show ?thesis
    using cpu_embedding_is_block_format [of "cpu_device (\<lambda>_. replicate 144 1)" "[]" 4096 12 0 256] by (simp add: cpu_device_def)
qed

end
