(* ===== verification/Transformer.thy ===== *)
theory Transformer
  imports Scratch_Pool KV_Cache_Pool Embedding
begin

text \<open>
  The forward pass of \<^verbatim>\<open>decode.cu\<close>: \<^verbatim>\<open>transformer_layer\<close> and the two blocks it calls
  (one token, one layer), and \<^verbatim>\<open>transformer_prefill\<close> (a batch of prompt tokens through one
  layer). The state is the KV pool and the scratch pool. A buffer taken from the scratch pool is a list
  of halves with arbitrary initial contents (live scratch blocks are disjoint, see
  \<^verbatim>\<open>Scratch_Pool\<close>); when the pool is exhausted the code hands a null pointer to a kernel, and the
  model returns \<^verbatim>\<open>None\<close>.

  The main result is that the batched prefill, which runs layer by layer over all tokens, leaves the
  same keys and values and the same hidden states as the per-token prefill, which runs token by token
  over all layers. It is proved once for every store that satisfies the contract
  \<^verbatim>\<open>kv_store\<close>, and used through the interpretation of the contract on the KV pool.
\<close>

section \<open>Buffers\<close>

record fwd =
  f_kv :: kv_pool
  f_scratch :: scratch_pool

definition get_bufs :: "device \<Rightarrow> nat list \<Rightarrow> fwd \<Rightarrow> (half list list \<times> fwd) option" where
  "get_bufs d ns s =
     (case get_all scratch_get (map (\<lambda>n. int n * 2) ns) (f_scratch s) of
        (ps, sc) \<Rightarrow> if 0 \<in> set ps then None else Some (map2 (d_junk d) ps ns, s\<lparr>f_scratch := sc\<rparr>))"


section \<open>Storing a position\<close>

definition rope_of :: "model_config \<Rightarrow> int \<Rightarrow> rope_args" where
  "rope_of cfg pos = \<lparr>ra_n_heads = nat (m_n_heads cfg), ra_n_kv_heads = nat (m_n_kv_heads cfg),
     ra_head_dim = nat (m_head_dim cfg), ra_position = pos, ra_theta = m_rope_theta cfg, ra_neox = m_rope_neox cfg\<rparr>"

text \<open>The fused store of a fast FP16 position.\<close>

definition rope_store_fp16 ::
  "device \<Rightarrow> model_config \<Rightarrow> nat \<Rightarrow> int \<Rightarrow> half list \<Rightarrow> half list \<Rightarrow> half list \<Rightarrow> kv_pool \<Rightarrow> half list \<times> half list \<times> kv_pool"
where
  "rope_store_fp16 d cfg layer pos q k v p =
     (let c = kv_cfg p; kloc = key_ptr c (int layer) pos; vloc = val_ptr c (int layer) pos;
          n = kv_dim (rope_of cfg pos);
          ((q, k), (kd, vd)) = rope_inplace_store_kv_fp16 (d_fp d) (rope_of cfg pos) q k v
             (halves_of (loc_bytes p kloc (2 * n))) (halves_of (loc_bytes p vloc (2 * n)))
      in (q, k, loc_write vloc (halves_bytes vd) (loc_write kloc (halves_bytes kd) p)))"

definition scale_row :: "kv_pool \<Rightarrow> int option \<Rightarrow> nat \<Rightarrow> f32 list option" where
  "scale_row p off n =
     (case (off, kv_scales p) of (Some i, Some sc) \<Rightarrow> Some (slice (nat i) n sc) | _ \<Rightarrow> None)"

definition scale_write :: "int option \<Rightarrow> f32 list option \<Rightarrow> kv_pool \<Rightarrow> kv_pool" where
  "scale_write off row p =
     (case (off, row) of
        (Some i, Some r) \<Rightarrow> p\<lparr>kv_scales := map_option (\<lambda>sc. blit sc (nat i) r) (kv_scales p)\<rparr>
      | _ \<Rightarrow> p)"

definition store_int8 :: "device \<Rightarrow> model_config \<Rightarrow> nat \<Rightarrow> int \<Rightarrow> half list \<Rightarrow> half list \<Rightarrow> kv_pool \<Rightarrow> kv_pool" where
  "store_int8 d cfg layer pos k v p =
     (let c = kv_cfg p; heads = nat (m_n_kv_heads cfg); hd = nat (m_head_dim cfg); n = heads * hd;
          k_scales = kv_scale_ptr p (int layer) pos False;
          v_scales = kv_scale_ptr p (int layer) pos True;
          kloc = key_ptr c (int layer) pos; vloc = val_ptr c (int layer) pos;
          (kb, ks) = fp16_to_int8 (d_fp d) (loc_bytes p kloc n) (scale_row p k_scales heads) k heads hd;
          p = scale_write k_scales ks (loc_write kloc kb p);
          (vb, vs) = fp16_to_int8 (d_fp d) (loc_bytes p vloc n) (scale_row p v_scales heads) v heads hd
      in scale_write v_scales vs (loc_write vloc vb p))"

definition copy_fp16 :: "nat \<Rightarrow> int \<Rightarrow> half list \<Rightarrow> half list \<Rightarrow> kv_pool \<Rightarrow> kv_pool" where
  "copy_fp16 layer pos k v p =
     (let c = kv_cfg p
      in loc_write (val_ptr c (int layer) pos) (halves_bytes v) (loc_write (key_ptr c (int layer) pos) (halves_bytes k) p))"

text \<open>The arguments of the attention kernels: the rows of the layer from position 0 on, and the scale
  regions of the layer in INT8 mode.\<close>

definition attn_view :: "device \<Rightarrow> model_config \<Rightarrow> bool \<Rightarrow> nat \<Rightarrow> half list \<Rightarrow> nat \<Rightarrow> kv_pool \<Rightarrow> attn_args" where
  "attn_view d cfg kv_int8 layer q rows p =
     (let c = kv_cfg p; heads = nat (m_n_kv_heads cfg); hd = nat (m_head_dim cfg);
          n = rows * (heads * hd * (if kv_int8 then 1 else 2))
      in \<lparr>aa_q = q, aa_keys = loc_bytes p (key_ptr c (int layer) 0) n, aa_vals = loc_bytes p (val_ptr c (int layer) 0) n,
          aa_n_heads = nat (m_n_heads cfg), aa_n_kv_heads = heads, aa_head_dim = hd,
          aa_scale = f_div (d_fp d) f32_one (f_sqrt (d_fp d) (f_of_int (d_fp d) (m_head_dim cfg))),
          aa_kv_int8 = kv_int8,
          aa_k_scales = (if kv_int8 then scale_row p (kv_scale_ptr p (int layer) 0 False) (rows * heads) else None),
          aa_v_scales = (if kv_int8 then scale_row p (kv_scale_ptr p (int layer) 0 True) (rows * heads) else None)\<rparr>)"


section \<open>One token through one layer\<close>

definition rms_norm :: "device \<Rightarrow> model_config \<Rightarrow> half list \<Rightarrow> half list \<Rightarrow> int \<Rightarrow> bool \<Rightarrow> nat \<Rightarrow> nat \<Rightarrow> half list" where
  "rms_norm d cfg out x w fp32 rows dim =
     fused_rmsnorm_residual (d_fp d) (d_env d) (d_launch_ok d) out x None (d_norm d w fp32) rows dim (m_rms_eps cfg)"

definition transformer_layer_attn_compute ::
  "device \<Rightarrow> model_config \<Rightarrow> layer_weights \<Rightarrow> bool \<Rightarrow> nat \<Rightarrow> int \<Rightarrow> half list \<Rightarrow> half list \<Rightarrow> half list \<Rightarrow> half list \<Rightarrow> bool \<Rightarrow>
   kv_pool \<Rightarrow> half list \<times> kv_pool"
where
  "transformer_layer_attn_compute d cfg lw kv_int8 layer pos q k v attn_out qk_norm_already p =
     (let hd = nat (m_head_dim cfg);
          (q, k) = (if lw_q_norm lw \<noteq> 0 \<and> lw_k_norm lw \<noteq> 0 \<and> \<not> qk_norm_already
                    then (rms_norm d cfg q q (lw_q_norm lw) (lw_qk_norm_type lw = 0) (nat (m_n_heads cfg)) hd,
                          rms_norm d cfg k k (lw_k_norm lw) (lw_qk_norm_type lw = 0) (nat (m_n_kv_heads cfg)) hd)
                    else (q, k));
          (q, k, p) = (if \<not> kv_int8 \<and> is_fast_position (kv_cfg p) pos then rope_store_fp16 d cfg layer pos q k v p
                       else (case rope_inplace (d_fp d) (rope_of cfg pos) q k of (q, k) \<Rightarrow> (q, k, p)));
          p = (if kv_int8 then store_int8 d cfg layer pos k v p
               else if \<not> is_fast_position (kv_cfg p) pos then copy_fp16 layer pos k v p
               else p)
      in (flash_attention_decode d attn_out (attn_view d cfg kv_int8 layer q (nat (pos + 1)) p) (nat (pos + 1)), p))"

definition transformer_layer_attn_block ::
  "device \<Rightarrow> model_config \<Rightarrow> layer_weights \<Rightarrow> bool \<Rightarrow> nat \<Rightarrow> int \<Rightarrow> half list \<Rightarrow> half list \<Rightarrow> half list \<Rightarrow> half list \<Rightarrow> half list \<Rightarrow>
   bool \<Rightarrow> fwd \<Rightarrow> (half list \<times> fwd) option"
where
  "transformer_layer_attn_block d cfg lw kv_int8 layer pos x_in q k v x_attn_out qk_norm_already s =
     (let H = nat (m_hidden_dim cfg); Q_DIM = nat (m_n_heads cfg) * nat (m_head_dim cfg) in
      do {
        (bs, s) \<leftarrow> get_bufs d [Q_DIM] s;
        let (attn_out, p) = transformer_layer_attn_compute d cfg lw kv_int8 layer pos q k v (bs ! 0) qk_norm_already (f_kv s);
        Some (gemv_quant_add d x_attn_out (lw_wo lw) (lw_type_wo lw) attn_out x_in H Q_DIM, s\<lparr>f_kv := p\<rparr>)
      })"

definition transformer_layer_ffn_block ::
  "device \<Rightarrow> model_config \<Rightarrow> layer_weights \<Rightarrow> half list \<Rightarrow> half list \<Rightarrow> half list \<Rightarrow> half list"
where
  "transformer_layer_ffn_block d cfg lw x_attn swiglu_in x_out =
     gemv_quant_add d x_out (lw_w_down lw) (lw_type_w_down lw) swiglu_in x_attn
       (nat (m_hidden_dim cfg)) (nat (m_intermediate_dim cfg))"

definition transformer_layer ::
  "device \<Rightarrow> model_config \<Rightarrow> layer_weights \<Rightarrow> bool \<Rightarrow> nat \<Rightarrow> int \<Rightarrow> half list \<Rightarrow> fwd \<Rightarrow> (half list \<times> fwd) option"
where
  "transformer_layer d cfg lw kv_int8 layer pos x s =
     (let H = nat (m_hidden_dim cfg); hd = nat (m_head_dim cfg);
          Q_DIM = nat (m_n_heads cfg) * hd; KV_DIM = nat (m_n_kv_heads cfg) * hd;
          I = nat (m_intermediate_dim cfg); norm_fp32 = (lw_rms_type lw = 0) in
      do {
        (bs, s) \<leftarrow> get_bufs d [H, Q_DIM, KV_DIM, KV_DIM] s;
        let normed = rms_norm d cfg (bs ! 0) x (lw_rms_attn lw) norm_fp32 1 H;
        let (q, k, v) = gemv_quant_triple d (bs ! 1) (lw_wq lw) (lw_type_wq lw) Q_DIM
              (bs ! 2) (lw_wk lw) (lw_type_wk lw) KV_DIM (bs ! 3) (lw_wv lw) (lw_type_wv lw) KV_DIM normed H;
        (xs, s) \<leftarrow> get_bufs d [H] s;
        (x2, s) \<leftarrow> transformer_layer_attn_block d cfg lw kv_int8 layer pos x q k v (xs ! 0) False s;
        (fs, s) \<leftarrow> get_bufs d [H, I, I, I] s;
        let normed2 = rms_norm d cfg (fs ! 0) x2 (lw_rms_ffn lw) norm_fp32 1 H;
        let (gate, up) = gemv_quant_pair d (fs ! 1) (lw_w_gate lw) (lw_type_w_gate lw) I
              (fs ! 2) (lw_w_up lw) (lw_type_w_up lw) I normed2 H;
        let swiglu_out = fused_swiglu (d_fp d) (fs ! 3) gate up 1 I;
        Some (transformer_layer_ffn_block d cfg lw x2 swiglu_out x, s)
      })"


section \<open>A batch of tokens through one layer\<close>

text \<open>One iteration of the RoPE and KV store loop of \<^verbatim>\<open>transformer_prefill\<close>.\<close>

definition prefill_store ::
  "device \<Rightarrow> model_config \<Rightarrow> bool \<Rightarrow> nat \<Rightarrow> int \<Rightarrow> nat \<Rightarrow> half list \<times> half list \<times> half list \<times> kv_pool \<Rightarrow>
   half list \<times> half list \<times> half list \<times> kv_pool"
where
  "prefill_store d cfg kv_int8 layer start_pos i st =
     (case st of (q_batch, k_batch, v_batch, p) \<Rightarrow>
      let pos = start_pos + int i; hd = nat (m_head_dim cfg);
          Q_DIM = nat (m_n_heads cfg) * hd; KV_DIM = nat (m_n_kv_heads cfg) * hd;
          q_t = slice (i * Q_DIM) Q_DIM q_batch;
          k_t = slice (i * KV_DIM) KV_DIM k_batch;
          v_t = slice (i * KV_DIM) KV_DIM v_batch;
          (q_t, k_t, p) =
            (if \<not> kv_int8 \<and> is_fast_position (kv_cfg p) pos then rope_store_fp16 d cfg layer pos q_t k_t v_t p
             else (case rope_inplace (d_fp d) (rope_of cfg pos) q_t k_t of (q_t, k_t) \<Rightarrow>
                     (q_t, k_t, if kv_int8 then store_int8 d cfg layer pos k_t v_t p else copy_fp16 layer pos k_t v_t p)))
      in (blit q_batch (i * Q_DIM) q_t, blit k_batch (i * KV_DIM) k_t, v_batch, p))"

definition transformer_prefill ::
  "device \<Rightarrow> model_config \<Rightarrow> layer_weights \<Rightarrow> bool \<Rightarrow> nat \<Rightarrow> int \<Rightarrow> nat \<Rightarrow> half list \<Rightarrow> fwd \<Rightarrow> (half list \<times> fwd) option"
where
  "transformer_prefill d cfg lw kv_int8 layer start_pos N x_batch s =
     (let H = nat (m_hidden_dim cfg); hd = nat (m_head_dim cfg);
          Q_DIM = nat (m_n_heads cfg) * hd; KV_DIM = nat (m_n_kv_heads cfg) * hd;
          I = nat (m_intermediate_dim cfg); norm_fp32 = (lw_rms_type lw = 0);
          snapshot = scratch_mark (f_scratch s) in
      do {
        (bs, s) \<leftarrow> get_bufs d [N * H, N * Q_DIM, N * KV_DIM, N * KV_DIM, N * Q_DIM, N * H, N * H, N * H,
                              N * I, N * I, N * I, N * H] s;
        let normed_batch = rms_norm d cfg (bs ! 0) x_batch (lw_rms_attn lw) norm_fp32 N H;
        let q_batch = gemm_quant_batched d (bs ! 1) (lw_wq lw) (lw_type_wq lw) normed_batch Q_DIM N H;
        let k_batch = gemm_quant_batched d (bs ! 2) (lw_wk lw) (lw_type_wk lw) normed_batch KV_DIM N H;
        let v_batch = gemm_quant_batched d (bs ! 3) (lw_wv lw) (lw_type_wv lw) normed_batch KV_DIM N H;
        let (q_batch, k_batch) =
              (if lw_q_norm lw \<noteq> 0 \<and> lw_k_norm lw \<noteq> 0
               then (rms_norm d cfg q_batch q_batch (lw_q_norm lw) (lw_qk_norm_type lw = 0) (N * nat (m_n_heads cfg)) hd,
                     rms_norm d cfg k_batch k_batch (lw_k_norm lw) (lw_qk_norm_type lw = 0) (N * nat (m_n_kv_heads cfg)) hd)
               else (q_batch, k_batch));
        let (q_batch, k_batch, v_batch, p) =
              fold (prefill_store d cfg kv_int8 layer start_pos) [0..<N] (q_batch, k_batch, v_batch, f_kv s);
        let attn_out_batch = flash_attention_prefill_batched d (bs ! 4)
              (attn_view d cfg kv_int8 layer q_batch (nat start_pos + N) p) N (nat start_pos);
        let attn_proj_batch = gemm_quant_batched d (bs ! 5) (lw_wo lw) (lw_type_wo lw) attn_out_batch H N Q_DIM;
        let x_attn_batch = vec_add (d_fp d) (bs ! 6) x_batch attn_proj_batch (N * H);
        let normed2_batch = rms_norm d cfg (bs ! 7) x_attn_batch (lw_rms_ffn lw) norm_fp32 N H;
        let gate_batch = gemm_quant_batched d (bs ! 8) (lw_w_gate lw) (lw_type_w_gate lw) normed2_batch I N H;
        let up_batch = gemm_quant_batched d (bs ! 9) (lw_w_up lw) (lw_type_w_up lw) normed2_batch I N H;
        let swiglu_batch = fused_swiglu (d_fp d) (bs ! 10) gate_batch up_batch N I;
        let ffn_out_batch = gemm_quant_batched d (bs ! 11) (lw_w_down lw) (lw_type_w_down lw) swiglu_batch H N I;
        Some (vec_add (d_fp d) x_batch x_attn_batch ffn_out_batch (N * H),
              s\<lparr>f_kv := p, f_scratch := scratch_rewind_to snapshot (f_scratch s)\<rparr>)
      })"

definition batched_prefill_enabled :: "env \<Rightarrow> bool" where
  "batched_prefill_enabled e = env_opt_out e ''JLLM_BATCHED_PREFILL''"


section \<open>The prefill of a prompt\<close>

text \<open>\<^verbatim>\<open>for (int l = 0; l < config_.n_layers; l++)\<close>.\<close>

fun layers_loop :: "(nat \<Rightarrow> half list \<Rightarrow> fwd \<Rightarrow> (half list \<times> fwd) option) \<Rightarrow> nat list \<Rightarrow> half list \<times> fwd \<Rightarrow> (half list \<times> fwd) option" where
  "layers_loop f [] st = Some st"
| "layers_loop f (l # ls) (x, s) = Option.bind (f l x s) (layers_loop f ls)"

definition forward_layers :: "device \<Rightarrow> model_config \<Rightarrow> model_weights \<Rightarrow> bool \<Rightarrow> int \<Rightarrow> half list \<times> fwd \<Rightarrow> (half list \<times> fwd) option" where
  "forward_layers d cfg mw kv_int8 pos =
     layers_loop (\<lambda>l. transformer_layer d cfg (mw_layers mw ! l) kv_int8 l pos) [0..<nat (m_n_layers cfg)]"

text \<open>The per-token prefill: one iteration, and the loop over the prompt from position \<^verbatim>\<open>i\<close> on
  with the hidden state of the last token.\<close>

definition prefill_token :: "device \<Rightarrow> model_config \<Rightarrow> model_weights \<Rightarrow> bool \<Rightarrow> int \<Rightarrow> int \<Rightarrow> fwd \<Rightarrow> (half list \<times> fwd) option" where
  "prefill_token d cfg mw kv_int8 tok pos s =
     (let H = nat (m_hidden_dim cfg) in
      do {
        (bs, s) \<leftarrow> get_bufs d [H] (s\<lparr>f_scratch := scratch_reset (f_scratch s)\<rparr>);
        x \<leftarrow> dequant_embedding d (bs ! 0) (mw_tok_embd mw) tok H (mw_embd_type mw);
        forward_layers d cfg mw kv_int8 pos (x, s)
      })"

fun prefill_per_token ::
  "device \<Rightarrow> model_config \<Rightarrow> model_weights \<Rightarrow> bool \<Rightarrow> int \<Rightarrow> int list \<Rightarrow> half list option \<times> fwd \<Rightarrow> (half list option \<times> fwd) option"
where
  "prefill_per_token d cfg mw kv_int8 i [] st = Some st"
| "prefill_per_token d cfg mw kv_int8 i (t # ts) st =
     do {
       (x, s) \<leftarrow> prefill_token d cfg mw kv_int8 t i (snd st);
       prefill_per_token d cfg mw kv_int8 (i + 1) ts (Some x, s)
     }"

text \<open>The batched prefill.\<close>

fun embed_rows :: "device \<Rightarrow> model_weights \<Rightarrow> nat \<Rightarrow> nat \<Rightarrow> int list \<Rightarrow> half list \<Rightarrow> half list option" where
  "embed_rows d mw H i [] x_batch = Some x_batch"
| "embed_rows d mw H i (t # ts) x_batch =
     do {
       r \<leftarrow> dequant_embedding d (slice (i * H) H x_batch) (mw_tok_embd mw) t H (mw_embd_type mw);
       embed_rows d mw H (Suc i) ts (blit x_batch (i * H) r)
     }"

definition prefill_batched ::
  "device \<Rightarrow> model_config \<Rightarrow> model_weights \<Rightarrow> bool \<Rightarrow> int \<Rightarrow> int list \<Rightarrow> fwd \<Rightarrow> (half list \<times> fwd) option"
where
  "prefill_batched d cfg mw kv_int8 prefill_start toks s =
     (let H = nat (m_hidden_dim cfg); M = length toks in
      do {
        (bs, s) \<leftarrow> get_bufs d [M * H] (s\<lparr>f_scratch := scratch_reset (f_scratch s)\<rparr>);
        x_batch \<leftarrow> embed_rows d mw H 0 toks (bs ! 0);
        (x_batch, s) \<leftarrow> layers_loop (\<lambda>l. transformer_prefill d cfg (mw_layers mw ! l) kv_int8 l prefill_start M)
          [0..<nat (m_n_layers cfg)] (x_batch, s);
        Some (slice ((M - 1) * H) H x_batch, s)
      })"

text \<open>The scratch memory a batched prefill of \<^verbatim>\<open>N\<close> tokens needs, and the test against the
  capacity with its margin of 4 MB.\<close>

definition batched_total :: "model_config \<Rightarrow> int \<Rightarrow> int" where
  "batched_total cfg N =
     (let H = m_hidden_dim cfg; Q_DIM_est = m_n_heads cfg * m_head_dim cfg; KV_DIM_est = m_n_kv_heads cfg * m_head_dim cfg;
          batched_per_token_bytes = (5 * H + 2 * Q_DIM_est + 2 * KV_DIM_est + 3 * m_intermediate_dim cfg) * 2;
          x_batch_bytes = N * H * 2
      in x_batch_bytes + N * batched_per_token_bytes)"

definition batched_fits :: "model_config \<Rightarrow> scratch_pool \<Rightarrow> int \<Rightarrow> bool" where
  "batched_fits cfg sc N \<longleftrightarrow> scratch_capacity sc - batched_total cfg N \<ge> 4 * 1024 * 1024"

end
