(* ===== verification/Loop_Interchange.thy ===== *)
theory Loop_Interchange
  imports KV_Cache_Pool
begin

text \<open>
  The two orders of a prefill over an abstract KV store. A token's pass through a layer writes one
  entry, computed from the hidden state, and then computes the next hidden state from the entries of
  the layer up to its own position. Running token by token over all layers and running layer by layer
  over all tokens give the same entries and the same hidden states: both compute the doubly indexed
  family \<^verbatim>\<open>hid\<close>.
\<close>

text \<open>One token in one layer; all layers for one token; all tokens.\<close>

definition tok_step ::
  "('s \<Rightarrow> nat \<Rightarrow> nat \<Rightarrow> 'e \<Rightarrow> 's) \<Rightarrow> ('s \<Rightarrow> nat \<Rightarrow> nat \<Rightarrow> 'e) \<Rightarrow> (nat \<Rightarrow> nat \<Rightarrow> 'x \<Rightarrow> 'e) \<Rightarrow>
   (nat \<Rightarrow> nat \<Rightarrow> 'x \<Rightarrow> 'e list \<Rightarrow> 'x) \<Rightarrow> nat \<Rightarrow> nat \<Rightarrow> 'x \<times> 's \<Rightarrow> 'x \<times> 's"
where
  "tok_step put fetch ent res i l st =
     (let s' = put (snd st) l i (ent l i (fst st))
      in (res l i (fst st) (map (fetch s' l) [0..<Suc i]), s'))"

fun token_major ::
  "('s \<Rightarrow> nat \<Rightarrow> nat \<Rightarrow> 'e \<Rightarrow> 's) \<Rightarrow> ('s \<Rightarrow> nat \<Rightarrow> nat \<Rightarrow> 'e) \<Rightarrow> (nat \<Rightarrow> nat \<Rightarrow> 'x \<Rightarrow> 'e) \<Rightarrow>
   (nat \<Rightarrow> nat \<Rightarrow> 'x \<Rightarrow> 'e list \<Rightarrow> 'x) \<Rightarrow> nat \<Rightarrow> nat \<Rightarrow> 'x list \<Rightarrow> 's \<Rightarrow> 'x list \<times> 's"
where
  "token_major put fetch ent res L i [] s = ([], s)"
| "token_major put fetch ent res L i (x # xs) s =
     (let (x', s') = fold (tok_step put fetch ent res i) [0..<L] (x, s);
          (xs', s'') = token_major put fetch ent res L (Suc i) xs s'
      in (x' # xs', s''))"

text \<open>All tokens in one layer.\<close>

definition layer_store ::
  "('s \<Rightarrow> nat \<Rightarrow> nat \<Rightarrow> 'e \<Rightarrow> 's) \<Rightarrow> (nat \<Rightarrow> nat \<Rightarrow> 'x \<Rightarrow> 'e) \<Rightarrow> nat \<Rightarrow> nat \<Rightarrow> 'x list \<Rightarrow> 's \<Rightarrow> 's"
where
  "layer_store put ent start l xs s =
     fold (\<lambda>k s. put s l (start + k) (ent l (start + k) (xs ! k))) [0..<length xs] s"

definition layer_step ::
  "('s \<Rightarrow> nat \<Rightarrow> nat \<Rightarrow> 'e \<Rightarrow> 's) \<Rightarrow> ('s \<Rightarrow> nat \<Rightarrow> nat \<Rightarrow> 'e) \<Rightarrow> (nat \<Rightarrow> nat \<Rightarrow> 'x \<Rightarrow> 'e) \<Rightarrow>
   (nat \<Rightarrow> nat \<Rightarrow> 'x \<Rightarrow> 'e list \<Rightarrow> 'x) \<Rightarrow> nat \<Rightarrow> nat \<Rightarrow> 'x list \<times> 's \<Rightarrow> 'x list \<times> 's"
where
  "layer_step put fetch ent res start l st =
     (let s' = layer_store put ent start l (fst st) (snd st)
      in (map (\<lambda>k. res l (start + k) (fst st ! k) (map (fetch s' l) [0..<Suc (start + k)])) [0..<length (fst st)], s'))"

text \<open>The hidden state of token \<^verbatim>\<open>i\<close> before layer \<^verbatim>\<open>l\<close>; \<^verbatim>\<open>old\<close> are the entries of
  the positions before \<^verbatim>\<open>start\<close>.\<close>

primrec hid ::
  "(nat \<Rightarrow> nat \<Rightarrow> 'x \<Rightarrow> 'e) \<Rightarrow> (nat \<Rightarrow> nat \<Rightarrow> 'x \<Rightarrow> 'e list \<Rightarrow> 'x) \<Rightarrow> (nat \<Rightarrow> nat \<Rightarrow> 'e) \<Rightarrow> nat \<Rightarrow> (nat \<Rightarrow> 'x) \<Rightarrow>
   nat \<Rightarrow> nat \<Rightarrow> 'x"
where
  "hid ent res old start emb 0 i = emb i"
| "hid ent res old start emb (Suc l) i =
     res l i (hid ent res old start emb l i)
       (map (\<lambda>j. if j < start then old l j else ent l j (hid ent res old start emb l j)) [0..<Suc i])"

definition hid_entry ::
  "(nat \<Rightarrow> nat \<Rightarrow> 'x \<Rightarrow> 'e) \<Rightarrow> (nat \<Rightarrow> nat \<Rightarrow> 'x \<Rightarrow> 'e list \<Rightarrow> 'x) \<Rightarrow> (nat \<Rightarrow> nat \<Rightarrow> 'e) \<Rightarrow> nat \<Rightarrow> (nat \<Rightarrow> 'x) \<Rightarrow>
   nat \<Rightarrow> nat \<Rightarrow> 'e"
where
  "hid_entry ent res old start emb l j =
     (if j < start then old l j else ent l j (hid ent res old start emb l j))"

lemma hid_Suc: "hid ent res old start emb (Suc l) i =
  res l i (hid ent res old start emb l i) (map (hid_entry ent res old start emb l) [0..<Suc i])"
  by (simp only: hid.simps(2) hid_entry_def [abs_def])

lemma fold_upt_Suc: "fold f [0..<Suc m] z = f m (fold f [0..<m] z)"
  by simp

declare hid.simps(2) [simp del]

context kv_store
begin

lemma token_layers:
  assumes v: "valid s" and L: "L \<le> layers" and i: "start \<le> i" "i < ctx"
    and x: "okx x" "x = emb i"
    and ent_ok: "\<And>l i x. okx x \<Longrightarrow> entry (ent l i x)" and res_ok: "\<And>l i x h. okx x \<Longrightarrow> okx (res l i x h)"
    and hist: "\<And>l j. l < L \<Longrightarrow> j < i \<Longrightarrow> fetch s l j = hid_entry ent res old start emb l j"
    and run: "fold (tok_step put fetch ent res i) [0..<m] (x, s) = (x', s')" and m: "m \<le> L"
  shows "valid s' \<and> okx x' \<and> x' = hid ent res old start emb m i \<and>
    (\<forall>l < layers. \<forall>j < ctx. fetch s' l j =
       (if l < m \<and> j = i then hid_entry ent res old start emb l i else fetch s l j))"
  using run m
proof (induction m arbitrary: x' s')
  case 0
  then show ?case using v x by simp
next
  case (Suc m)
  obtain x1 s1 where one: "fold (tok_step put fetch ent res i) [0..<m] (x, s) = (x1, s1)" by fastforce
  have IH: "valid s1" "okx x1" "x1 = hid ent res old start emb m i"
    "\<forall>l < layers. \<forall>j < ctx. fetch s1 l j = (if l < m \<and> j = i then hid_entry ent res old start emb l i else fetch s l j)"
    using Suc.IH [OF one] Suc.prems by auto
  have "tok_step put fetch ent res i m (x1, s1) = (x', s')" using Suc.prems(1) by (simp only: fold_upt_Suc one)
  then have st: "s' = put s1 m i (ent m i x1)" "x' = res m i x1 (map (fetch s' m) [0..<Suc i])"
    by (auto simp: tok_step_def Let_def)
  have ml: "m < layers" using Suc.prems(2) L by simp
  have e: "entry (ent m i x1)" using IH(2) by (rule ent_ok)
  have ei: "ent m i x1 = hid_entry ent res old start emb m i" using IH(3) i by (simp add: hid_entry_def)
  note same = fetch_put_same [OF IH(1) e ml i(2)] and other = fetch_put_other [OF IH(1) e ml i(2)]
  have f: "fetch s' l j = (if l < Suc m \<and> j = i then hid_entry ent res old start emb l i else fetch s l j)"
    if "l < layers" "j < ctx" for l j
    using same other [OF that] IH(4) that ei unfolding st(1) by (cases "(l, j) = (m, i)") auto
  have "map (fetch s' m) [0..<Suc i] = map (hid_entry ent res old start emb m) [0..<Suc i]"
    using f [OF ml] hist [of m] i Suc.prems(2) by (auto simp: less_Suc_eq)
  then have x': "x' = hid ent res old start emb (Suc m) i" by (simp only: st(2) hid_Suc IH(3))
  have "okx x'" unfolding st(2) by (rule res_ok [OF IH(2)])
  moreover have "valid s'" unfolding st(1) by (rule put_valid [OF IH(1) e ml i(2)])
  ultimately show ?case using x' f by blast
qed

lemma token_major_hid:
  assumes L: "L \<le> layers"
    and ent_ok: "\<And>l i x. okx x \<Longrightarrow> entry (ent l i x)" and res_ok: "\<And>l i x h. okx x \<Longrightarrow> okx (res l i x h)"
  shows "valid s \<Longrightarrow> start \<le> i \<Longrightarrow> i + length xs \<le> ctx \<Longrightarrow> \<forall>k < length xs. okx (xs ! k) \<and> xs ! k = emb (i + k) \<Longrightarrow>
    \<forall>l < L. \<forall>j < i. fetch s l j = hid_entry ent res old start emb l j \<Longrightarrow>
    token_major put fetch ent res L i xs s = (ys, s') \<Longrightarrow>
    valid s' \<and> ys = map (hid ent res old start emb L) [i..<i + length xs] \<and>
    (\<forall>l < layers. \<forall>j < ctx. fetch s' l j =
       (if l < L \<and> i \<le> j \<and> j < i + length xs then hid_entry ent res old start emb l j else fetch s l j))"
proof (induction xs arbitrary: i s ys s')
  case (Cons x xs)
  obtain x1 s1 where one: "fold (tok_step put fetch ent res i) [0..<L] (x, s) = (x1, s1)" by fastforce
  obtain xs1 s2 where rest: "token_major put fetch ent res L (Suc i) xs s1 = (xs1, s2)" by fastforce
  have out: "ys = x1 # xs1" "s' = s2" using Cons.prems(6) one rest by auto
  have x: "okx x" "x = emb i" using Cons.prems(4) by (auto dest: spec [of _ 0])
  have i: "i < ctx" using Cons.prems(3) by simp
  have t: "valid s1 \<and> okx x1 \<and> x1 = hid ent res old start emb L i \<and>
    (\<forall>l < layers. \<forall>j < ctx. fetch s1 l j =
       (if l < L \<and> j = i then hid_entry ent res old start emb l i else fetch s l j))"
    using Cons.prems(5)
    by (intro token_layers [of s L start i okx x emb ent res old L, OF Cons.prems(1) L Cons.prems(2) i x ent_ok res_ok _ one order.refl])
       auto
  have ok: "\<forall>k < length xs. okx (xs ! k) \<and> xs ! k = emb (Suc i + k)"
    using Cons.prems(4) by (auto dest: spec [of _ "Suc k" for k])
  have h1: "\<forall>l < L. \<forall>j < Suc i. fetch s1 l j = hid_entry ent res old start emb l j"
    using t Cons.prems(5) L i by (auto simp: less_Suc_eq)
  have IH: "valid s2 \<and> xs1 = map (hid ent res old start emb L) [Suc i..<Suc i + length xs] \<and>
    (\<forall>l < layers. \<forall>j < ctx. fetch s2 l j =
       (if l < L \<and> Suc i \<le> j \<and> j < Suc i + length xs then hid_entry ent res old start emb l j else fetch s1 l j))"
    using Cons.prems(2,3) t by (intro Cons.IH [OF _ _ _ ok h1 rest]) auto
  have rng: "[i..<i + length (x # xs)] = i # [Suc i..<Suc i + length xs]"
    using upt_conv_Cons [of i "i + length (x # xs)"] by simp
  have "ys = map (hid ent res old start emb L) [i..<i + length (x # xs)]"
    unfolding rng list.map out(1) using t IH by blast
  moreover have "fetch s' l j = (if l < L \<and> i \<le> j \<and> j < i + length (x # xs) then hid_entry ent res old start emb l j else fetch s l j)"
    if "l < layers" "j < ctx" for l j
    using t IH that unfolding out(2) by auto
  ultimately show ?case using IH unfolding out(2) by blast
qed simp

lemma layer_store_entries:
  assumes "valid s" "l < layers" "start + length xs \<le> ctx"
    and ent_ok: "\<And>l i x. okx x \<Longrightarrow> entry (ent l i x)" and ok: "\<forall>k < length xs. okx (xs ! k)"
  shows "valid (layer_store put ent start l xs s) \<and>
    (\<forall>l' < layers. \<forall>j < ctx. fetch (layer_store put ent start l xs s) l' j =
       (if l' = l \<and> start \<le> j \<and> j < start + length xs then ent l j (xs ! (j - start)) else fetch s l' j))"
proof -
  let ?f = "\<lambda>k s. put s l (start + k) (ent l (start + k) (xs ! k))"
  have "n \<le> length xs \<Longrightarrow> valid (fold ?f [0..<n] s) \<and> (\<forall>l' < layers. \<forall>j < ctx. fetch (fold ?f [0..<n] s) l' j =
       (if l' = l \<and> start \<le> j \<and> j < start + n then ent l j (xs ! (j - start)) else fetch s l' j))" for n
  proof (induction n)
    case (Suc n)
    let ?s = "fold ?f [0..<n] s"
    have v: "valid ?s" and f: "\<forall>l' < layers. \<forall>j < ctx. fetch ?s l' j =
       (if l' = l \<and> start \<le> j \<and> j < start + n then ent l j (xs ! (j - start)) else fetch s l' j)"
      using Suc by auto
    have e: "entry (ent l (start + n) (xs ! n))" using ok Suc.prems by (intro ent_ok) auto
    have c: "start + n < ctx" using Suc.prems assms(3) by simp
    have step: "fold ?f [0..<Suc n] s = put ?s l (start + n) (ent l (start + n) (xs ! n))" by simp
    note same = fetch_put_same [OF v e assms(2) c] and other = fetch_put_other [OF v e assms(2) c]
    have "fetch (fold ?f [0..<Suc n] s) l' j =
       (if l' = l \<and> start \<le> j \<and> j < start + Suc n then ent l j (xs ! (j - start)) else fetch s l' j)"
      if "l' < layers" "j < ctx" for l' j
      using same other [OF that] f that unfolding step by (cases "(l', j) = (l, start + n)") auto
    then show ?case unfolding step using put_valid [OF v e assms(2) c] by blast
  qed (use assms(1) in auto)
  from this [of "length xs"] show ?thesis unfolding layer_store_def by simp
qed

lemma layer_major_hid:
  assumes v: "valid s" and L: "m \<le> layers" and n: "start + length xs \<le> ctx"
    and ent_ok: "\<And>l i x. okx x \<Longrightarrow> entry (ent l i x)" and res_ok: "\<And>l i x h. okx x \<Longrightarrow> okx (res l i x h)"
    and ok: "\<forall>k < length xs. okx (xs ! k) \<and> xs ! k = emb (start + k)"
    and old: "\<And>l j. l < m \<Longrightarrow> j < start \<Longrightarrow> fetch s l j = old l j"
    and run: "fold (layer_step put fetch ent res start) [0..<m] (xs, s) = (ys, s')"
  shows "valid s' \<and> (\<forall>y \<in> set ys. okx y) \<and> ys = map (hid ent res old start emb m) [start..<start + length xs] \<and>
    (\<forall>l < layers. \<forall>j < ctx. fetch s' l j =
       (if l < m \<and> start \<le> j \<and> j < start + length xs then hid_entry ent res old start emb l j else fetch s l j))"
  using run L old
proof (induction m arbitrary: ys s')
  case 0
  have "xs = map emb [start..<start + length xs]" using ok by (intro nth_equalityI) auto
  then show ?case using 0 v ok by (auto simp: in_set_conv_nth)
next
  case (Suc m)
  obtain x1 s1 where one: "fold (layer_step put fetch ent res start) [0..<m] (xs, s) = (x1, s1)" by fastforce
  have IH: "valid s1" "\<forall>y \<in> set x1. okx y" "x1 = map (hid ent res old start emb m) [start..<start + length xs]"
    "\<forall>l < layers. \<forall>j < ctx. fetch s1 l j =
       (if l < m \<and> start \<le> j \<and> j < start + length xs then hid_entry ent res old start emb l j else fetch s l j)"
    using Suc.IH [OF one] Suc.prems by auto
  have len: "length x1 = length xs" using IH(3) by simp
  have "layer_step put fetch ent res start m (x1, s1) = (ys, s')" using Suc.prems(1) by (simp only: fold_upt_Suc one)
  then have st: "s' = layer_store put ent start m x1 s1"
    "ys = map (\<lambda>k. res m (start + k) (x1 ! k) (map (fetch s' m) [0..<Suc (start + k)])) [0..<length xs]"
    by (auto simp: layer_step_def Let_def len)
  have ml: "m < layers" using Suc.prems(2) by simp
  have x1k: "x1 ! k = hid ent res old start emb m (start + k)" if "k < length xs" for k using that IH(3) by simp
  have okk: "\<forall>k < length x1. okx (x1 ! k)" using IH(2) by auto
  have "start + length x1 \<le> ctx" using n len by simp
  note ls = layer_store_entries [of s1 m start x1 okx ent, OF IH(1) ml this ent_ok okk, folded st(1)]
  have ent: "ent m j (x1 ! (j - start)) = hid_entry ent res old start emb m j" if "start \<le> j" "j < start + length xs" for j
    using that x1k [of "j - start"] by (simp add: hid_entry_def)
  have f: "fetch s' l j = (if l < Suc m \<and> start \<le> j \<and> j < start + length xs
      then hid_entry ent res old start emb l j else fetch s l j)" if "l < layers" "j < ctx" for l j
    using ls IH(4) that ent len by (auto simp: less_Suc_eq)
  have hist: "map (fetch s' m) [0..<Suc (start + k)] = map (hid_entry ent res old start emb m) [0..<Suc (start + k)]"
    if "k < length xs" for k
    using f [OF ml] Suc.prems(3) n that by (auto simp: hid_entry_def)
  have yk: "res m (start + k) (x1 ! k) (map (fetch s' m) [0..<Suc (start + k)]) = hid ent res old start emb (Suc m) (start + k)"
    if "k < length xs" for k
    by (simp only: hid_Suc x1k [OF that] hist [OF that])
  have "ys = map (hid ent res old start emb (Suc m)) [start..<start + length xs]"
    unfolding st(2) by (intro nth_equalityI) (simp_all only: length_map length_upt nth_map nth_upt yk diff_zero add_0 add_diff_cancel_left' add_less_cancel_left)
  moreover have "\<forall>y \<in> set ys. okx y" unfolding st(2) using okk len by (auto intro: res_ok)
  ultimately show ?case using ls f by auto
qed

text \<open>The interchange.\<close>

lemma prefill_orders_agree:
  assumes "valid s" "L \<le> layers" "start + length xs \<le> ctx"
    and "\<And>l i x. okx x \<Longrightarrow> entry (ent l i x)" "\<And>l i x h. okx x \<Longrightarrow> okx (res l i x h)" "\<forall>x \<in> set xs. okx x"
    and "token_major put fetch ent res L start xs s = (ys, st)"
    and "fold (layer_step put fetch ent res start) [0..<L] (xs, s) = (zs, sl)"
  shows "ys = zs \<and> valid st \<and> valid sl \<and> (\<forall>l < layers. \<forall>j < ctx. fetch st l j = fetch sl l j)"
proof -
  define emb where "emb = (\<lambda>i. xs ! (i - start))"
  have emb: "\<forall>k < length xs. okx (xs ! k) \<and> xs ! k = emb (start + k)" using assms(6) by (simp add: emb_def)
  have h: "\<forall>l < L. \<forall>j < start. fetch s l j = hid_entry ent res (fetch s) start emb l j" by (simp add: hid_entry_def)
  note t = token_major_hid [of L okx ent res, OF assms(2,4,5) assms(1) order.refl assms(3) emb h assms(7)]
  note l = layer_major_hid [of s L start xs okx ent res emb "fetch s", OF assms(1-3) assms(4,5) emb _ assms(8)]
  show ?thesis using t l by auto
qed

end

end
