(* ===== verification/Prefill_Equiv.thy ===== *)
theory Prefill_Equiv
  imports Transformer Loop_Interchange
begin

text \<open>
  The two prefill paths of \<^verbatim>\<open>Engine::generate\<close> agree. Under the documented behaviour of
  reflex-infer a token's pass through a layer is a store of one entry followed by a function of the
  layer's entries so far (\<^verbatim>\<open>tok_entry\<close>, \<^verbatim>\<open>tok_out\<close>); \<^verbatim>\<open>transformer_layer\<close> computes them
  for one token and \<^verbatim>\<open>transformer_prefill\<close> for every row of the batch, so the interchange lemma
  of the KV store applies.
\<close>

section \<open>One token, as a function\<close>

definition norm1 :: "device \<Rightarrow> model_config \<Rightarrow> int \<Rightarrow> bool \<Rightarrow> nat \<Rightarrow> half list \<Rightarrow> half list" where
  "norm1 d cfg w fp32 n x = rms_norm d cfg (replicate n 0) x w fp32 1 n"

definition norm_heads :: "device \<Rightarrow> model_config \<Rightarrow> int \<Rightarrow> bool \<Rightarrow> nat \<Rightarrow> nat \<Rightarrow> half list \<Rightarrow> half list" where
  "norm_heads d cfg w fp32 heads dh x = concat (map (\<lambda>r. norm1 d cfg w fp32 dh (slice (r * dh) dh x)) [0..<heads])"

lemma length_norm1 [simp]: "length (norm1 d cfg w fp32 n x) = n"
  by (simp add: norm1_def rms_norm_def fused_rmsnorm_residual_def blit_def)

lemma length_norm_heads [simp]: "length (norm_heads d cfg w fp32 heads dh x) = heads * dh"
  unfolding norm_heads_def by (intro length_concat_rows) simp

lemma rms_norm_rows:
  assumes "length out = n * k" "length x = n * k"
  shows "rms_norm d cfg out x w fp32 n k = concat (map (\<lambda>r. norm1 d cfg w fp32 k (slice (r * k) k x)) [0..<n])"
  unfolding rms_norm_def norm1_def using fused_rmsnorm_rows [OF assms] by simp

lemma rms_norm_one: "length out = k \<Longrightarrow> length x = k \<Longrightarrow> rms_norm d cfg out x w fp32 1 k = norm1 d cfg w fp32 k x"
  using rms_norm_rows [of out 1 k x] by (simp add: slice_def)

text \<open>The dimensions the pool shares with the model; the FP16 format.\<close>

definition dims_ok :: "model_config \<Rightarrow> kv_config \<Rightarrow> bool" where
  "dims_ok cfg c \<longleftrightarrow> n_layers c = m_n_layers cfg \<and> n_kv_heads c = m_n_kv_heads cfg \<and> head_dim c = m_head_dim cfg \<and>
     kv_type_bytes c = 2 \<and> even (m_head_dim cfg)"

definition junk_ok :: "device \<Rightarrow> bool" where
  "junk_ok d \<longleftrightarrow> (\<forall>p n. length (d_junk d p n) = n)"

definition hid_dim :: "model_config \<Rightarrow> nat" where "hid_dim cfg = nat (m_hidden_dim cfg)"
definition q_dim :: "model_config \<Rightarrow> nat" where "q_dim cfg = nat (m_n_heads cfg) * nat (m_head_dim cfg)"
definition kv_dims :: "model_config \<Rightarrow> nat" where "kv_dims cfg = nat (m_n_kv_heads cfg) * nat (m_head_dim cfg)"
definition ffn_dim :: "model_config \<Rightarrow> nat" where "ffn_dim cfg = nat (m_intermediate_dim cfg)"

definition tok_qkv ::
  "device \<Rightarrow> (wref \<Rightarrow> half list \<Rightarrow> nat \<Rightarrow> half list) \<Rightarrow> model_config \<Rightarrow> layer_weights \<Rightarrow> half list \<Rightarrow>
   half list \<times> half list \<times> half list"
where
  "tok_qkv d G cfg lw x =
     (let H = hid_dim cfg; hd = nat (m_head_dim cfg);
          normed = norm1 d cfg (lw_rms_attn lw) (lw_rms_type lw = 0) H x;
          q = G (wref_of d (lw_wq lw) (lw_type_wq lw) (q_dim cfg)) normed H;
          k = G (wref_of d (lw_wk lw) (lw_type_wk lw) (kv_dims cfg)) normed H;
          v = G (wref_of d (lw_wv lw) (lw_type_wv lw) (kv_dims cfg)) normed H
      in if lw_q_norm lw \<noteq> 0 \<and> lw_k_norm lw \<noteq> 0
         then (norm_heads d cfg (lw_q_norm lw) (lw_qk_norm_type lw = 0) (nat (m_n_heads cfg)) hd q,
               norm_heads d cfg (lw_k_norm lw) (lw_qk_norm_type lw = 0) (nat (m_n_kv_heads cfg)) hd k, v)
         else (q, k, v))"

definition tok_entry ::
  "device \<Rightarrow> (wref \<Rightarrow> half list \<Rightarrow> nat \<Rightarrow> half list) \<Rightarrow> model_config \<Rightarrow> layer_weights \<Rightarrow> nat \<Rightarrow> half list \<Rightarrow>
   byte list \<times> byte list"
where
  "tok_entry d G cfg lw i x =
     (case tok_qkv d G cfg lw x of (q, k, v) \<Rightarrow>
        (halves_bytes (rope_ref (d_fp d) (rope_of cfg (int i)) k), halves_bytes v))"

definition hist_args :: "device \<Rightarrow> model_config \<Rightarrow> half list \<Rightarrow> (byte list \<times> byte list) list \<Rightarrow> attn_args" where
  "hist_args d cfg q h =
     \<lparr>aa_q = q, aa_keys = concat (map fst h), aa_vals = concat (map snd h),
      aa_n_heads = nat (m_n_heads cfg), aa_n_kv_heads = nat (m_n_kv_heads cfg), aa_head_dim = nat (m_head_dim cfg),
      aa_scale = f_div (d_fp d) f32_one (f_sqrt (d_fp d) (f_of_int (d_fp d) (m_head_dim cfg))),
      aa_kv_int8 = False, aa_k_scales = None, aa_v_scales = None\<rparr>"

definition tok_ffn ::
  "device \<Rightarrow> (wref \<Rightarrow> half list \<Rightarrow> nat \<Rightarrow> half list) \<Rightarrow> model_config \<Rightarrow> layer_weights \<Rightarrow> half list \<Rightarrow> half list"
where
  "tok_ffn d G cfg lw x2 =
     (let H = hid_dim cfg; I = ffn_dim cfg;
          normed2 = norm1 d cfg (lw_rms_ffn lw) (lw_rms_type lw = 0) H x2;
          gate = G (wref_of d (lw_w_gate lw) (lw_type_w_gate lw) I) normed2 H;
          up = G (wref_of d (lw_w_up lw) (lw_type_w_up lw) I) normed2 H;
          swiglu = map (\<lambda>i. silu_mul (d_fp d) (gate ! i) (up ! i)) [0..<I]
      in add_rows (d_fp d) x2 (G (wref_of d (lw_w_down lw) (lw_type_w_down lw) H) swiglu I))"

definition tok_attn ::
  "device \<Rightarrow> (wref \<Rightarrow> half list \<Rightarrow> nat \<Rightarrow> half list) \<Rightarrow> (attn_args \<Rightarrow> nat \<Rightarrow> half list) \<Rightarrow> model_config \<Rightarrow> layer_weights \<Rightarrow> nat \<Rightarrow>
   half list \<Rightarrow> (byte list \<times> byte list) list \<Rightarrow> half list"
where
  "tok_attn d G A cfg lw i x h =
     (case tok_qkv d G cfg lw x of (q, k, v) \<Rightarrow>
        let att = A (hist_args d cfg (rope_ref (d_fp d) (rope_of cfg (int i)) q) h) (length h)
        in add_rows (d_fp d) x (G (wref_of d (lw_wo lw) (lw_type_wo lw) (hid_dim cfg)) att (q_dim cfg)))"

definition tok_out ::
  "device \<Rightarrow> (wref \<Rightarrow> half list \<Rightarrow> nat \<Rightarrow> half list) \<Rightarrow> (attn_args \<Rightarrow> nat \<Rightarrow> half list) \<Rightarrow> model_config \<Rightarrow> layer_weights \<Rightarrow> nat \<Rightarrow>
   half list \<Rightarrow> (byte list \<times> byte list) list \<Rightarrow> half list"
where
  "tok_out d G A cfg lw i x h = tok_ffn d G cfg lw (tok_attn d G A cfg lw i x h)"


section \<open>Buffers and the pool\<close>

lemma length_halves_of: "length (halves_of bs) = length bs div 2"
  by (induction bs rule: halves_of.induct) auto

lemma length_halves_bytes [simp]: "length (halves_bytes hs) = 2 * length hs"
  by (induction hs) (auto simp: halves_bytes_def)

lemma length_rope_ref [simp]: "length (rope_ref fp r q) = length q"
  by (simp add: rope_ref_def)

lemma length_add_rows [simp]: "length (add_rows fp a b) = length a"
  by (simp add: add_rows_def)

lemma get_bufs_Some:
  assumes "get_bufs d ns s = Some (bs, s')" "junk_ok d"
  shows "map length bs = ns \<and> f_kv s' = f_kv s"
proof -
  obtain ps sc where g: "get_all scratch_get (map (\<lambda>n. int n * 2) ns) (f_scratch s) = (ps, sc)" by fastforce
  have "length (fst (get_all get xs p)) = length xs" for get :: "int \<Rightarrow> scratch_pool \<Rightarrow> int \<times> scratch_pool" and xs p
    by (induction xs arbitrary: p) (auto simp: Let_def split_beta)
  from this [of scratch_get "map (\<lambda>n. int n * 2) ns" "f_scratch s"] g have len: "length ps = length ns" by simp
  have bs: "bs = map2 (d_junk d) ps ns" "f_kv s' = f_kv s"
    using assms(1) g by (auto simp: get_bufs_def split: if_splits)
  have "map length bs = ns" unfolding bs(1) using assms(2) len by (intro nth_equalityI) (auto simp: junk_ok_def)
  then show ?thesis using bs(2) by simp
qed

lemma kv_half_dims: "kv_cfg_ok c \<Longrightarrow> dims_ok cfg c \<Longrightarrow> kv_half c = 2 * kv_dims cfg"
  by (auto simp: kv_cfg_ok_def dims_ok_def kv_half_def kv_dims_def nat_mult_distrib)

lemma kv_fetch_entry_ok:
  assumes "kv_pool_at c p" "l < nat (n_layers c)" "i < kv_cols c"
  shows "kv_entry_ok c (kv_fetch p l i)"
proof -
  from assms(1) obtain g where g: "gpu_pool p = Some g" "kv_cfg p = c" "kv_pool_ok p"
    and len: "length g = kv_rows c * kv_cols c * kv_half c"
    by (auto simp: kv_pool_at_def kv_pool_ok_def split: option.splits)
  have "slot (kv_cols c) r i * kv_half c + kv_half c \<le> length g" if "r < kv_rows c" for r
    unfolding len using slot_bound [OF that assms(3)] by (rule slot_slices_ordered)
  then show ?thesis using assms(2) unfolding kv_fetch_slots [OF g(3,1,2) assms(3)] kv_entry_ok_def slot_at_def
    by (auto simp: length_slice kv_rows_def)
qed

lemma rope_of_dims [simp]:
  "ra_n_heads (rope_of cfg pos) * ra_head_dim (rope_of cfg pos) = q_dim cfg" "kv_dim (rope_of cfg pos) = kv_dims cfg"
  by (simp_all add: rope_of_def q_dim_def kv_dims_def kv_dim_def)

lemma rope_store_fp16_put:
  assumes "kv_pool_at c p" "dims_ok cfg c" "l < nat (n_layers c)" "i < kv_cols c"
    and "length q = q_dim cfg" "length k = kv_dims cfg" "length v = kv_dims cfg"
  shows "rope_store_fp16 d cfg l (int i) q k v p =
    (rope_ref (d_fp d) (rope_of cfg (int i)) q, rope_ref (d_fp d) (rope_of cfg (int i)) k,
     kv_put p l i (halves_bytes (rope_ref (d_fp d) (rope_of cfg (int i)) k), halves_bytes v))"
proof -
  have ok: "kv_cfg_ok c" and c: "kv_cfg p = c" using assms(1) by (auto simp: kv_pool_at_def kv_pool_ok_def)
  have half: "kv_half c = 2 * kv_dims cfg" using ok assms(2) by (rule kv_half_dims)
  have "length (loc_bytes p (key_ptr c (int l) (int i)) (2 * kv_dims cfg)) = 2 * kv_dims cfg"
    "length (loc_bytes p (val_ptr c (int l) (int i)) (2 * kv_dims cfg)) = 2 * kv_dims cfg"
    using kv_fetch_entry_ok [OF assms(1,3,4)]
    by (simp_all add: kv_fetch_def kv_entry_ok_def c half_entry_bytes [OF ok] half Let_def nat_mult_distrib)
  then have len: "length (halves_of (loc_bytes p (key_ptr c (int l) (int i)) (2 * kv_dims cfg))) = kv_dims cfg"
    "length (halves_of (loc_bytes p (val_ptr c (int l) (int i)) (2 * kv_dims cfg))) = kv_dims cfg"
    by (simp_all add: length_halves_of)
  have ev: "even (ra_head_dim (rope_of cfg (int i)))" using assms(2) ok by (auto simp: rope_of_def dims_ok_def kv_cfg_ok_def even_nat_iff)
  note r = rope_inplace_store_ref [of "rope_of cfg (int i)", unfolded rope_of_dims, OF ev assms(5-7) len]
  show ?thesis unfolding rope_store_fp16_def Let_def c rope_of_dims r by (simp add: kv_put_def c)
qed

lemma attn_view_hist:
  assumes "kv_pool_at c p" "dims_ok cfg c" "l < nat (n_layers c)" "n \<le> kv_cols c"
  shows "attn_view d cfg False l q n p = hist_args d cfg q (map (kv_fetch p l) [0..<n])"
proof -
  have ok: "kv_cfg_ok c" and c: "kv_cfg p = c" using assms(1) by (auto simp: kv_pool_at_def kv_pool_ok_def)
  have half: "nat (entry_bytes c sdiv 2) = kv_dims cfg * 2"
    using half_entry_bytes [OF ok] kv_half_dims [OF ok assms(2)] by simp
  have n: "n \<le> nat (max_context c)" using assms(4) by (simp add: kv_cols_def)
  note a = attn_reads_fetch [OF assms(1,3) n, unfolded attn_keys_def attn_vals_def c half]
  show ?thesis unfolding attn_view_def hist_args_def Let_def c
    using a by (simp add: kv_dims_def comp_def)
qed

lemma tok_qkv_lengths:
  assumes "infer_contract (d_fp d) (d_inf d) G A" "tok_qkv d G cfg lw x = (q, k, v)"
  shows "length q = q_dim cfg" "length k = kv_dims cfg" "length v = kv_dims cfg"
  using assms(2) bridge_eqs(8) [OF assms(1)]
  by (auto simp: tok_qkv_def Let_def q_dim_def kv_dims_def split: if_splits)

lemma tok_entry_ok:
  assumes "infer_contract (d_fp d) (d_inf d) G A" "kv_cfg_ok c" "dims_ok cfg c"
  shows "kv_entry_ok c (tok_entry d G cfg lw i x)"
  using tok_qkv_lengths [OF assms(1)] kv_half_dims [OF assms(2,3)]
  by (auto simp: tok_entry_def kv_entry_ok_def split: prod.splits)

lemma norm_heads_rms:
  "length x = heads * dh \<Longrightarrow> rms_norm d cfg x x w fp32 heads dh = norm_heads d cfg w fp32 heads dh x"
  unfolding norm_heads_def by (rule rms_norm_rows)

lemma attn_compute_tok:
  assumes "kv_pool_at c p" "dims_ok cfg c" "l < nat (n_layers c)" "i < kv_cols c"
    and "infer_contract (d_fp d) (d_inf d) G A"
    and "length q = q_dim cfg" "length k = kv_dims cfg" "length v = kv_dims cfg"
    and "(if lw_q_norm lw \<noteq> 0 \<and> lw_k_norm lw \<noteq> 0
         then (norm_heads d cfg (lw_q_norm lw) (lw_qk_norm_type lw = 0) (nat (m_n_heads cfg)) (nat (m_head_dim cfg)) q,
               norm_heads d cfg (lw_k_norm lw) (lw_qk_norm_type lw = 0) (nat (m_n_kv_heads cfg)) (nat (m_head_dim cfg)) k)
         else (q, k)) = (q1, k1)"
  defines "p' \<equiv> kv_put p l i (halves_bytes (rope_ref (d_fp d) (rope_of cfg (int i)) k1), halves_bytes v)"
  shows "transformer_layer_attn_compute d cfg lw False l (int i) q k v out False p =
    (A (hist_args d cfg (rope_ref (d_fp d) (rope_of cfg (int i)) q1) (map (kv_fetch p' l) [0..<Suc i])) (Suc i), p')"
proof -
  have ok: "kv_cfg_ok c" and c: "kv_cfg p = c" using assms(1) by (auto simp: kv_pool_at_def kv_pool_ok_def)
  have fast: "is_fast_position c (int i)" using assms(4) by (simp add: is_fast_position_def kv_cols_def zless_nat_eq_int_zless)
  have n: "(if lw_q_norm lw \<noteq> 0 \<and> lw_k_norm lw \<noteq> 0 \<and> \<not> False
      then (rms_norm d cfg q q (lw_q_norm lw) (lw_qk_norm_type lw = 0) (nat (m_n_heads cfg)) (nat (m_head_dim cfg)),
            rms_norm d cfg k k (lw_k_norm lw) (lw_qk_norm_type lw = 0) (nat (m_n_kv_heads cfg)) (nat (m_head_dim cfg)))
      else (q, k)) = (q1, k1)"
    using assms(9) norm_heads_rms [OF assms(6) [unfolded q_dim_def]] norm_heads_rms [OF assms(7) [unfolded kv_dims_def]]
    by (simp only: simp_thms)
  have len: "length q1 = q_dim cfg" "length k1 = kv_dims cfg"
    using assms(6,7,9) by (auto simp: q_dim_def kv_dims_def split: if_splits)
  have e: "kv_entry_ok c (halves_bytes (rope_ref (d_fp d) (rope_of cfg (int i)) k1), halves_bytes v)"
    using len assms(8) kv_half_dims [OF ok assms(2)] by (simp add: kv_entry_ok_def)
  have p': "kv_pool_at c p'" unfolding p'_def by (rule kv.put_valid [OF assms(1) e assms(3,4)])
  have c': "kv_cfg p' = c" using p' by (simp add: kv_pool_at_def)
  have v: "attn_view d cfg False l q' (Suc i) p' = hist_args d cfg q' (map (kv_fetch p' l) [0..<Suc i])" for q'
    using assms(4) by (intro attn_view_hist [OF p' assms(2,3)]) simp
  have si: "nat (int i + 1) = Suc i" by simp
  show ?thesis
    unfolding transformer_layer_attn_compute_def Let_def n prod.case c
    by (simp only: fast rope_store_fp16_put [OF assms(1-4) len assms(8)] p'_def [symmetric] simp_thms if_True if_False prod.case
        c' si v bridge_eqs(6) [OF assms(5)])
qed


section \<open>One token through a layer\<close>

lemmas dim_folds = hid_dim_def [symmetric] q_dim_def [symmetric] kv_dims_def [symmetric] ffn_dim_def [symmetric]

lemma get_bufs_one:
  assumes "get_bufs d [n] s = Some (bs, s')" "junk_ok d"
  shows "length (bs ! 0) = n" "f_kv s' = f_kv s"
  using get_bufs_Some [OF assms] by auto

lemma attn_block_tok:
  assumes "kv_pool_at c (f_kv s)" "dims_ok cfg c" "l < nat (n_layers c)" "i < kv_cols c"
    and con: "infer_contract (d_fp d) (d_inf d) G A" and junk: "junk_ok d" and x: "length x = hid_dim cfg"
    and qkv: "tok_qkv d G cfg lw x = (q1, k1, v)"
    and raw: "length q = q_dim cfg" "length k = kv_dims cfg"
      "(if lw_q_norm lw \<noteq> 0 \<and> lw_k_norm lw \<noteq> 0
         then (norm_heads d cfg (lw_q_norm lw) (lw_qk_norm_type lw = 0) (nat (m_n_heads cfg)) (nat (m_head_dim cfg)) q,
               norm_heads d cfg (lw_k_norm lw) (lw_qk_norm_type lw = 0) (nat (m_n_kv_heads cfg)) (nat (m_head_dim cfg)) k)
         else (q, k)) = (q1, k1)"
    and run: "transformer_layer_attn_block d cfg lw False l (int i) x q k v out False s = Some (y, s')"
  shows "f_kv s' = kv_put (f_kv s) l i (tok_entry d G cfg lw i x) \<and>
    y = tok_attn d G A cfg lw i x (map (kv_fetch (f_kv s') l) [0..<Suc i])"
proof -
  let ?p' = "kv_put (f_kv s) l i (halves_bytes (rope_ref (d_fp d) (rope_of cfg (int i)) k1), halves_bytes v)"
  obtain bs s1 where b: "get_bufs d [q_dim cfg] s = Some (bs, s1)"
    and rest: "(let (attn_out, p) = transformer_layer_attn_compute d cfg lw False l (int i) q k v (bs ! 0) False (f_kv s1)
      in Some (gemv_quant_add d out (lw_wo lw) (lw_type_wo lw) attn_out x (hid_dim cfg) (q_dim cfg), s1\<lparr>f_kv := p\<rparr>)) = Some (y, s')"
    using run unfolding transformer_layer_attn_block_def Let_def dim_folds by (cases "get_bufs d [q_dim cfg] s") auto
  have kv: "f_kv s1 = f_kv s" using get_bufs_one [OF b junk] by simp
  note v = tok_qkv_lengths(3) [OF con qkv]
  note at = attn_compute_tok [OF assms(1-4) con raw(1,2) v raw(3)]
  have out: "s' = s1\<lparr>f_kv := ?p'\<rparr>"
    "y = add_rows (d_fp d) x (G (wref_of d (lw_wo lw) (lw_type_wo lw) (hid_dim cfg))
        (A (hist_args d cfg (rope_ref (d_fp d) (rope_of cfg (int i)) q1) (map (kv_fetch ?p' l) [0..<Suc i])) (Suc i)) (q_dim cfg))"
    using rest unfolding kv at Let_def prod.case bridge_eqs(2) [OF con x] by (simp_all only: option.inject prod.inject)
  have "f_kv s' = ?p'" unfolding out(1) by simp
  then show ?thesis unfolding out(2) by (simp only: tok_attn_def tok_entry_def qkv prod.case Let_def length_map length_upt) simp
qed

lemma tok_attn_length: "length x = hid_dim cfg \<Longrightarrow> length (tok_attn d G A cfg lw i x h) = hid_dim cfg"
  by (simp add: tok_attn_def Let_def split: prod.splits)

lemma tok_out_length: "length x = hid_dim cfg \<Longrightarrow> length (tok_out d G A cfg lw i x h) = hid_dim cfg"
  by (simp add: tok_out_def tok_ffn_def Let_def tok_attn_length)

lemma transformer_layer_tok:
  assumes "kv_pool_at c (f_kv s)" "dims_ok cfg c" "l < nat (n_layers c)" "i < kv_cols c"
    and con: "infer_contract (d_fp d) (d_inf d) G A" and junk: "junk_ok d" and x: "length x = hid_dim cfg"
    and run: "transformer_layer d cfg lw False l (int i) x s = Some (y, s')"
  shows "f_kv s' = kv_put (f_kv s) l i (tok_entry d G cfg lw i x) \<and>
    y = tok_out d G A cfg lw i x (map (kv_fetch (f_kv s') l) [0..<Suc i])"
proof -
  note eqs = bridge_eqs [OF con]
  obtain b1 s1 where b1: "get_bufs d [hid_dim cfg, q_dim cfg, kv_dims cfg, kv_dims cfg] s = Some (b1, s1)"
    using run unfolding transformer_layer_def Let_def dim_folds
    by (cases "get_bufs d [hid_dim cfg, q_dim cfg, kv_dims cfg, kv_dims cfg] s") auto
  have l1: "length (b1 ! 0) = hid_dim cfg" and kv1: "f_kv s1 = f_kv s" using get_bufs_Some [OF b1 junk] by auto
  define n where "n = norm1 d cfg (lw_rms_attn lw) (lw_rms_type lw = 0) (hid_dim cfg) x"
  have n: "rms_norm d cfg (b1 ! 0) x (lw_rms_attn lw) (lw_rms_type lw = 0) 1 (hid_dim cfg) = n"
    unfolding n_def by (rule rms_norm_one [OF l1 x])
  define q where "q = G (wref_of d (lw_wq lw) (lw_type_wq lw) (q_dim cfg)) n (hid_dim cfg)"
  define k where "k = G (wref_of d (lw_wk lw) (lw_type_wk lw) (kv_dims cfg)) n (hid_dim cfg)"
  define v where "v = G (wref_of d (lw_wv lw) (lw_type_wv lw) (kv_dims cfg)) n (hid_dim cfg)"
  obtain b2 s2 where b2: "get_bufs d [hid_dim cfg] s1 = Some (b2, s2)"
    and run2: "Option.bind (transformer_layer_attn_block d cfg lw False l (int i) x q k v (b2 ! 0) False s2)
      (\<lambda>(x2, s). Option.bind (get_bufs d [hid_dim cfg, ffn_dim cfg, ffn_dim cfg, ffn_dim cfg] s)
        (\<lambda>(fs, s). case gemv_quant_pair d (fs ! 1) (lw_w_gate lw) (lw_type_w_gate lw) (ffn_dim cfg)
              (fs ! 2) (lw_w_up lw) (lw_type_w_up lw) (ffn_dim cfg)
              (rms_norm d cfg (fs ! 0) x2 (lw_rms_ffn lw) (lw_rms_type lw = 0) 1 (hid_dim cfg)) (hid_dim cfg)
           of (gate, up) \<Rightarrow> Some (transformer_layer_ffn_block d cfg lw x2 (fused_swiglu (d_fp d) (fs ! 3) gate up 1 (ffn_dim cfg)) x, s)))
      = Some (y, s')"
    using run unfolding transformer_layer_def Let_def dim_folds b1 bind.bind_lunit prod.case n eqs(4) q_def [symmetric] k_def [symmetric] v_def [symmetric]
    by (cases "get_bufs d [hid_dim cfg] s1") auto
  obtain x2 s3 where blk: "transformer_layer_attn_block d cfg lw False l (int i) x q k v (b2 ! 0) False s2 = Some (x2, s3)"
    using run2 by (cases "transformer_layer_attn_block d cfg lw False l (int i) x q k v (b2 ! 0) False s2") auto
  obtain b4 s4 where b4: "get_bufs d [hid_dim cfg, ffn_dim cfg, ffn_dim cfg, ffn_dim cfg] s3 = Some (b4, s4)"
    using run2 unfolding blk by (cases "get_bufs d [hid_dim cfg, ffn_dim cfg, ffn_dim cfg, ffn_dim cfg] s3") auto
  have kv2: "f_kv s2 = f_kv s" using get_bufs_one [OF b2 junk] kv1 by simp
  obtain q1 k1 where qk: "(if lw_q_norm lw \<noteq> 0 \<and> lw_k_norm lw \<noteq> 0
         then (norm_heads d cfg (lw_q_norm lw) (lw_qk_norm_type lw = 0) (nat (m_n_heads cfg)) (nat (m_head_dim cfg)) q,
               norm_heads d cfg (lw_k_norm lw) (lw_qk_norm_type lw = 0) (nat (m_n_kv_heads cfg)) (nat (m_head_dim cfg)) k)
         else (q, k)) = (q1, k1)" by fastforce
  have qkv: "tok_qkv d G cfg lw x = (q1, k1, v)"
    using qk unfolding tok_qkv_def Let_def n_def [symmetric] q_def [symmetric] k_def [symmetric] v_def [symmetric]
    by (auto split: if_splits)
  have len: "length q = q_dim cfg" "length k = kv_dims cfg" by (simp_all add: q_def k_def eqs(8))
  note tok = attn_block_tok [of c s2 cfg l i, unfolded kv2, OF assms(1-4) con junk x qkv len qk blk]
  have x2: "length x2 = hid_dim cfg" using tok tok_attn_length [OF x] by simp
  have l4: "length (b4 ! 0) = hid_dim cfg" "length (b4 ! 3) = 1 * ffn_dim cfg" "f_kv s4 = f_kv s3" using get_bufs_Some [OF b4 junk] by auto
  have "y = tok_ffn d G cfg lw x2" "s' = s4"
    using run2 unfolding blk b4 bind.bind_lunit prod.case rms_norm_one [OF l4(1) x2] eqs(3) fused_swiglu_map [OF l4(2)]
      transformer_layer_ffn_block_def dim_folds eqs(2) [OF x2]
    by (simp_all add: tok_ffn_def Let_def)
  then show ?thesis using tok l4(3) by (simp add: tok_out_def del: upt_Suc)
qed


section \<open>A batch, row by row\<close>

lemma map_rows: "map f [0..<N * k] = concat (map (\<lambda>i. map (\<lambda>j. f (i * k + j)) [0..<k]) [0..<N])"
proof (induction N)
  case (Suc N)
  have "[0..<Suc N * k] = [0..<N * k] @ map (\<lambda>j. N * k + j) [0..<k]"
    using upt_add_eq_append [of 0 "N * k" k] map_add_upt [of "N * k" k] by (simp add: add.commute)
  then show ?case using Suc by (simp add: comp_def)
qed simp

lemma concat_concat_map: "concat (concat xss) = concat (map concat xss)"
  by (induction xss) simp_all

lemma concat_rows:
  assumes "length x = N * k"
  shows "concat (map (\<lambda>i. slice (i * k) k x) [0..<N]) = x"
proof -
  have "slice (i * k) k x = map (\<lambda>j. x ! (i * k + j)) [0..<k]" if "i < N" for i
  proof -
    have "i * k + k \<le> N * k" using that mult_le_mono1 [of "Suc i" N k] by simp
    then show ?thesis using assms by (intro nth_equalityI) (auto simp: length_slice nth_slice)
  qed
  then have "concat (map (\<lambda>i. slice (i * k) k x) [0..<N]) = map ((!) x) [0..<N * k]"
    unfolding map_rows by (intro arg_cong [where f = concat] map_cong) auto
  then show ?thesis using assms map_nth [of x] by simp
qed

lemma blit_concat_rows:
  assumes "\<And>j. j < N \<Longrightarrow> length (f j) = k" "i < N" "length r = k"
  shows "blit (concat (map f [0..<N])) (i * k) r = concat (map (f(i := r)) [0..<N])"
proof -
  have len: "length (concat (map g [0..<m])) = m * k" if "m \<le> N" "\<And>j. j < N \<Longrightarrow> length (g j) = k" for g :: "nat \<Rightarrow> 'a list" and m
    using that by (intro length_concat_rows) auto
  have split: "concat (map g [0..<N]) = concat (map g [0..<i]) @ g i @ concat (map g [Suc i..<N])" for g :: "nat \<Rightarrow> 'a list"
  proof -
    have "[0..<N] = [0..<i] @ i # [Suc i..<N]"
      using assms(2) upt_add_eq_append [of 0 i "N - i"] upt_conv_Cons [of i N] by simp
    then show ?thesis by simp
  qed
  have "length (concat (map f [0..<i])) = i * k" using len [of i f] assms by simp
  moreover have "concat (map (f(i := r)) [0..<i]) = concat (map f [0..<i])"
    "concat (map (f(i := r)) [Suc i..<N]) = concat (map f [Suc i..<N])" by (auto intro!: arg_cong [where f = concat])
  ultimately show ?thesis unfolding split [of f] split [of "f(i := r)"] blit_def
    using assms(1) [OF assms(2)] assms(3) by simp
qed

lemma norm_heads_batch:
  assumes "\<And>i. i < N \<Longrightarrow> length (f i) = heads * dh"
  shows "rms_norm d cfg (concat (map f [0..<N])) (concat (map f [0..<N])) w fp32 (N * heads) dh =
    concat (map (\<lambda>i. norm_heads d cfg w fp32 heads dh (f i)) [0..<N])"
proof -
  let ?x = "concat (map f [0..<N])"
  have len: "length ?x = N * heads * dh" using length_concat_rows [of N f "heads * dh"] assms by (simp add: mult.assoc)
  have row: "slice ((i * heads + j) * dh) dh ?x = slice (j * dh) dh (f i)" if "i < N" "j < heads" for i j
  proof -
    have "j * dh + dh \<le> heads * dh" using that(2) mult_le_mono1 [of "Suc j" heads dh] by simp
    moreover have "i * (heads * dh) + heads * dh \<le> length ?x"
      unfolding len mult.assoc using that(1) mult_le_mono1 [of "Suc i" N "heads * dh"] by simp
    ultimately have "slice (j * dh) dh (slice (i * (heads * dh)) (heads * dh) ?x) = slice (i * (heads * dh) + j * dh) dh ?x"
      by (rule slice_slice)
    then show ?thesis using slice_concat_rows [of N f "heads * dh" i] assms that(1) by (simp add: algebra_simps)
  qed
  show ?thesis unfolding rms_norm_rows [OF len len] map_rows concat_concat_map map_map norm_heads_def using row
    by (intro arg_cong [where f = concat] map_cong) (auto intro!: arg_cong [where f = concat] map_cong)
qed

lemma nth_concat_rows:
  assumes "i < N" "j < k" "\<And>i. i < N \<Longrightarrow> length (h i) = k"
  shows "concat (map h [0..<N]) ! (i * k + j) = h i ! j"
proof -
  have "i * k + k \<le> length (concat (map h [0..<N]))"
    using length_concat_rows [of N h k] assms(3) mult_le_mono1 [of "Suc i" N k] assms(1) by simp
  then show ?thesis using slice_concat_rows [of N h k i] assms nth_slice [of "i * k" k "concat (map h [0..<N])" j] by simp
qed

lemma vec_add_batch:
  assumes "length out = N * k" "\<And>i. i < N \<Longrightarrow> length (f i) = k" "\<And>i. i < N \<Longrightarrow> length (g i) = k"
  shows "vec_add fp out (concat (map f [0..<N])) (concat (map g [0..<N])) (N * k) =
    concat (map (\<lambda>i. add_rows fp (f i) (g i)) [0..<N])"
  unfolding vec_add_map [OF assms(1)] map_rows add_rows_def
  using assms(2,3) nth_concat_rows [of _ N _ k f, OF _ _ assms(2)] nth_concat_rows [of _ N _ k g, OF _ _ assms(3)]
  by (intro arg_cong [where f = concat] map_cong) auto

lemma swiglu_batch:
  assumes "length out = N * k" "\<And>i. i < N \<Longrightarrow> length (f i) = k" "\<And>i. i < N \<Longrightarrow> length (g i) = k"
  shows "fused_swiglu fp out (concat (map f [0..<N])) (concat (map g [0..<N])) N k =
    concat (map (\<lambda>i. map (\<lambda>j. silu_mul fp (f i ! j) (g i ! j)) [0..<k]) [0..<N])"
  unfolding fused_swiglu_map [OF assms(1)] map_rows
  using assms(2,3) nth_concat_rows [of _ N _ k f, OF _ _ assms(2)] nth_concat_rows [of _ N _ k g, OF _ _ assms(3)]
  by (intro arg_cong [where f = concat] map_cong) auto

lemma gemm_batch:
  assumes "infer_contract (d_fp d) (d_inf d) G A" "\<And>i. i < N \<Longrightarrow> length (f i) = K"
  shows "gemm_quant_batched d y W ty (concat (map f [0..<N])) M N K =
    concat (map (\<lambda>i. G (wref_of d W ty M) (f i) K) [0..<N])"
  using bridge_eqs(5) [OF assms(1) length_concat_rows [of N f K]] assms(2) slice_concat_rows [of N f K]
  by (auto intro!: arg_cong [where f = concat])

lemma norm_batch:
  assumes "length out = N * k" "\<And>i. i < N \<Longrightarrow> length (f i) = k"
  shows "rms_norm d cfg out (concat (map f [0..<N])) w fp32 N k = concat (map (\<lambda>i. norm1 d cfg w fp32 k (f i)) [0..<N])"
  using rms_norm_rows [OF assms(1) length_concat_rows [of N f k]] assms(2) slice_concat_rows [of N f k]
  by (auto intro!: arg_cong [where f = concat])


section \<open>A batch through a layer\<close>

lemma prefill_store_rows:
  fixes d :: device
  assumes "kv_pool_at c p" "dims_ok cfg c" "l < nat (n_layers c)" "start + N \<le> kv_cols c"
    and len: "\<And>i. i < N \<Longrightarrow> length (q i) = q_dim cfg" "\<And>i. i < N \<Longrightarrow> length (k i) = kv_dims cfg" "\<And>i. i < N \<Longrightarrow> length (v i) = kv_dims cfg"
    and m: "m \<le> N"
  defines "rope \<equiv> \<lambda>i. rope_ref (d_fp d) (rope_of cfg (int (start + i)))"
  defines "e \<equiv> \<lambda>i. (halves_bytes (rope i (k i)), halves_bytes (v i))"
  defines "pool \<equiv> \<lambda>m. fold (\<lambda>i p. kv_put p l (start + i) (e i)) [0..<m] p"
  shows "fold (prefill_store d cfg False l (int start)) [0..<m] (concat (map q [0..<N]), concat (map k [0..<N]), concat (map v [0..<N]), p) =
    (concat (map (\<lambda>i. if i < m then rope i (q i) else q i) [0..<N]), concat (map (\<lambda>i. if i < m then rope i (k i) else k i) [0..<N]),
     concat (map v [0..<N]), pool m) \<and> kv_pool_at c (pool m)"
  using m
proof (induction m)
  case 0
  then show ?case using assms(1) by (simp add: pool_def)
next
  case (Suc m)
  have ok: "kv_cfg_ok c" using assms(1) by (auto simp: kv_pool_at_def kv_pool_ok_def)
  have at: "kv_pool_at c (pool m)" and mN: "m < N" using Suc by auto
  have col: "start + m < kv_cols c" using mN assms(4) by simp
  have em: "kv_entry_ok c (e m)" using len(2,3) [OF mN] kv_half_dims [OF ok assms(2)] by (simp add: e_def rope_def kv_entry_ok_def)
  have cfg: "kv_cfg (pool m) = c" using at by (simp add: kv_pool_at_def)
  have fast: "is_fast_position c (int start + int m)" using col by (simp add: is_fast_position_def kv_cols_def)
  let ?q = "\<lambda>i. if i < m then rope i (q i) else q i" and ?k = "\<lambda>i. if i < m then rope i (k i) else k i"
  have lq: "length (?q i) = q_dim cfg" "length (?k i) = kv_dims cfg" if "i < N" for i using len that by (auto simp: rope_def)
  have sl: "slice (m * q_dim cfg) (q_dim cfg) (concat (map ?q [0..<N])) = q m"
    "slice (m * kv_dims cfg) (kv_dims cfg) (concat (map ?k [0..<N])) = k m"
    "slice (m * kv_dims cfg) (kv_dims cfg) (concat (map v [0..<N])) = v m"
    using slice_concat_rows [of N ?q, OF lq(1) mN] slice_concat_rows [of N ?k, OF lq(2) mN] slice_concat_rows [of N v, OF len(3) mN] by auto
  have st: "rope_store_fp16 d cfg l (int start + int m) (q m) (k m) (v m) (pool m) =
      (rope m (q m), rope m (k m), kv_put (pool m) l (start + m) (e m))"
    using rope_store_fp16_put [OF at assms(2,3) col len(1-3) [OF mN]] by (simp add: rope_def e_def)
  have upd: "?q(m := rope m (q m)) = (\<lambda>i. if i < Suc m then rope i (q i) else q i)"
    "?k(m := rope m (k m)) = (\<lambda>i. if i < Suc m then rope i (k i) else k i)" by (auto simp: less_Suc_eq)
  have bl: "blit (concat (map ?q [0..<N])) (m * q_dim cfg) (rope m (q m)) = concat (map (\<lambda>i. if i < Suc m then rope i (q i) else q i) [0..<N])"
    "blit (concat (map ?k [0..<N])) (m * kv_dims cfg) (rope m (k m)) = concat (map (\<lambda>i. if i < Suc m then rope i (k i) else k i) [0..<N])"
    unfolding upd [symmetric] using lq len mN by (auto intro!: blit_concat_rows simp: rope_def)
  have pool: "pool (Suc m) = kv_put (pool m) l (start + m) (e m)" by (simp add: pool_def)
  have "prefill_store d cfg False l (int start) m (concat (map ?q [0..<N]), concat (map ?k [0..<N]), concat (map v [0..<N]), pool m) =
    (concat (map (\<lambda>i. if i < Suc m then rope i (q i) else q i) [0..<N]), concat (map (\<lambda>i. if i < Suc m then rope i (k i) else k i) [0..<N]),
     concat (map v [0..<N]), pool (Suc m))"
    unfolding prefill_store_def prod.case Let_def dim_folds sl cfg pool
    by (simp only: simp_thms fast if_True st prod.case bl)
  moreover have "kv_pool_at c (pool (Suc m))" unfolding pool by (rule kv.put_valid [OF at em assms(3) col])
  ultimately show ?case using Suc by (simp only: fold_upt_Suc Suc_leD)
qed

lemma take_concat_rows:
  "\<forall>x \<in> set xs. length (f x) = h \<Longrightarrow> take (n * h) (concat (map f xs)) = concat (map f (take n xs))"
proof (induction xs arbitrary: n)
  case (Cons x xs)
  then show ?case by (cases n) auto
qed simp

lemma attn_row_hist:
  assumes "\<forall>e \<in> set h. length (fst e) = 2 * kv_dims cfg \<and> length (snd e) = 2 * kv_dims cfg"
  shows "attn_row (hist_args d cfg q h) i n = hist_args d cfg (slice (i * q_dim cfg) (q_dim cfg) q) (take n h)"
proof -
  have "row_bytes (hist_args d cfg q h) = 2 * kv_dims cfg" by (simp add: row_bytes_def hist_args_def kv_dims_def)
  then show ?thesis unfolding attn_row_def using take_concat_rows [of h fst "2 * kv_dims cfg" n] take_concat_rows [of h snd "2 * kv_dims cfg" n] assms
    by (simp add: hist_args_def q_dim_def)
qed

lemma attention_batch:
  assumes "kv_pool_at c p" "dims_ok cfg c" "l < nat (n_layers c)" "start + N \<le> kv_cols c"
    and con: "infer_contract (d_fp d) (d_inf d) G A" and len: "\<And>i. i < N \<Longrightarrow> length (q i) = q_dim cfg"
  shows "flash_attention_prefill_batched d out (attn_view d cfg False l (concat (map q [0..<N])) (start + N) p) N start =
    concat (map (\<lambda>i. A (hist_args d cfg (q i) (map (kv_fetch p l) [0..<Suc (start + i)])) (Suc (start + i))) [0..<N])"
proof -
  let ?h = "map (kv_fetch p l) [0..<start + N]" and ?q = "concat (map q [0..<N])"
  have ok: "kv_cfg_ok c" using assms(1) by (auto simp: kv_pool_at_def kv_pool_ok_def)
  have ent: "\<forall>e \<in> set ?h. length (fst e) = 2 * kv_dims cfg \<and> length (snd e) = 2 * kv_dims cfg"
    using kv_fetch_entry_ok [OF assms(1,3)] assms(4) kv_half_dims [OF ok assms(2)] by (auto simp: kv_entry_ok_def)
  have lq: "length ?q = N * q_dim cfg" using len by (rule length_concat_rows)
  have row: "attn_row (hist_args d cfg ?q ?h) i (start + i + 1) = hist_args d cfg (q i) (map (kv_fetch p l) [0..<Suc (start + i)])"
    if "i < N" for i
  proof -
    have "take (start + i + 1) ?h = map (kv_fetch p l) [0..<Suc (start + i)]"
      using that by (simp only: take_map take_upt) simp
    then show ?thesis unfolding attn_row_hist [OF ent] using slice_concat_rows [of N q, OF len that] by simp
  qed
  have a: "attn_view d cfg False l ?q (start + N) p = hist_args d cfg ?q ?h" by (rule attn_view_hist [OF assms(1-4)])
  have "length (aa_q (hist_args d cfg ?q ?h)) = N * (aa_n_heads (hist_args d cfg ?q ?h) * aa_head_dim (hist_args d cfg ?q ?h))"
    using lq by (simp add: hist_args_def q_dim_def)
  note b = bridge_eqs(7) [OF con this]
  show ?thesis unfolding a b by (intro arg_cong [where f = concat] map_cong refl) (simp only: row set_upt atLeastLessThan_iff Suc_eq_plus1)
qed

definition rows_of :: "nat \<Rightarrow> nat \<Rightarrow> half list \<Rightarrow> half list list" where
  "rows_of N k x = map (\<lambda>i. slice (i * k) k x) [0..<N]"

lemma rows_of_concat:
  "(\<And>i. i < N \<Longrightarrow> length (f i) = k) \<Longrightarrow> rows_of N k (concat (map f [0..<N])) = map f [0..<N]"
  unfolding rows_of_def using slice_concat_rows [of N f k] by simp

lemma qkv_batch:
  fixes d :: device and lw :: layer_weights and oq ok ov :: "half list"
  assumes con: "infer_contract (d_fp d) (d_inf d) G A" and len: "\<And>i. i < N \<Longrightarrow> length (X i) = hid_dim cfg"
    and out: "length o' = N * hid_dim cfg"
  defines "nb \<equiv> rms_norm d cfg o' (concat (map X [0..<N])) (lw_rms_attn lw) (lw_rms_type lw = 0) N (hid_dim cfg)"
  defines "qb \<equiv> gemm_quant_batched d oq (lw_wq lw) (lw_type_wq lw) nb (q_dim cfg) N (hid_dim cfg)"
  defines "kb \<equiv> gemm_quant_batched d ok (lw_wk lw) (lw_type_wk lw) nb (kv_dims cfg) N (hid_dim cfg)"
  shows "(if lw_q_norm lw \<noteq> 0 \<and> lw_k_norm lw \<noteq> 0
       then (rms_norm d cfg qb qb (lw_q_norm lw) (lw_qk_norm_type lw = 0) (N * nat (m_n_heads cfg)) (nat (m_head_dim cfg)),
             rms_norm d cfg kb kb (lw_k_norm lw) (lw_qk_norm_type lw = 0) (N * nat (m_n_kv_heads cfg)) (nat (m_head_dim cfg)))
       else (qb, kb)) =
      (concat (map (\<lambda>i. fst (tok_qkv d G cfg lw (X i))) [0..<N]), concat (map (\<lambda>i. fst (snd (tok_qkv d G cfg lw (X i)))) [0..<N]))"
    and "gemm_quant_batched d ov (lw_wv lw) (lw_type_wv lw) nb (kv_dims cfg) N (hid_dim cfg) =
      concat (map (\<lambda>i. snd (snd (tok_qkv d G cfg lw (X i)))) [0..<N])"
proof -
  have nb: "nb = concat (map (\<lambda>i. norm1 d cfg (lw_rms_attn lw) (lw_rms_type lw = 0) (hid_dim cfg) (X i)) [0..<N])"
    unfolding nb_def by (rule norm_batch [OF out len])
  have g: "gemm_quant_batched d y W ty nb M N (hid_dim cfg) =
      concat (map (\<lambda>i. G (wref_of d W ty M) (norm1 d cfg (lw_rms_attn lw) (lw_rms_type lw = 0) (hid_dim cfg) (X i)) (hid_dim cfg)) [0..<N])" for y W ty M
    unfolding nb by (rule gemm_batch [OF con]) simp
  note lenG = bridge_eqs(8) [OF con]
  show "gemm_quant_batched d ov (lw_wv lw) (lw_type_wv lw) nb (kv_dims cfg) N (hid_dim cfg) =
      concat (map (\<lambda>i. snd (snd (tok_qkv d G cfg lw (X i)))) [0..<N])"
    unfolding g by (intro arg_cong [where f = concat] map_cong refl) (simp add: tok_qkv_def Let_def)
  show "(if lw_q_norm lw \<noteq> 0 \<and> lw_k_norm lw \<noteq> 0
       then (rms_norm d cfg qb qb (lw_q_norm lw) (lw_qk_norm_type lw = 0) (N * nat (m_n_heads cfg)) (nat (m_head_dim cfg)),
             rms_norm d cfg kb kb (lw_k_norm lw) (lw_qk_norm_type lw = 0) (N * nat (m_n_kv_heads cfg)) (nat (m_head_dim cfg)))
       else (qb, kb)) =
      (concat (map (\<lambda>i. fst (tok_qkv d G cfg lw (X i))) [0..<N]), concat (map (\<lambda>i. fst (snd (tok_qkv d G cfg lw (X i)))) [0..<N]))"
  proof (cases "lw_q_norm lw \<noteq> 0 \<and> lw_k_norm lw \<noteq> 0")
    case True
    show ?thesis unfolding if_P [OF True] qb_def kb_def g tok_qkv_def Let_def fst_conv snd_conv
      by (subst norm_heads_batch norm_heads_batch) (simp_all add: lenG q_dim_def kv_dims_def norm_heads_batch)
  next
    case False
    show ?thesis unfolding if_not_P [OF False] qb_def kb_def g tok_qkv_def Let_def fst_conv snd_conv ..
  qed
qed

lemma ffn_batch:
  fixes d :: device and lw :: layer_weights and og ou od :: "half list"
  assumes con: "infer_contract (d_fp d) (d_inf d) G A" and len: "\<And>i. i < N \<Longrightarrow> length (X i) = hid_dim cfg"
    and out: "length o' = N * hid_dim cfg" "length os = N * ffn_dim cfg" "length oy = N * hid_dim cfg"
  defines "nb \<equiv> rms_norm d cfg o' (concat (map X [0..<N])) (lw_rms_ffn lw) (lw_rms_type lw = 0) N (hid_dim cfg)"
  shows "vec_add (d_fp d) oy (concat (map X [0..<N]))
      (gemm_quant_batched d od (lw_w_down lw) (lw_type_w_down lw)
        (fused_swiglu (d_fp d) os
          (gemm_quant_batched d og (lw_w_gate lw) (lw_type_w_gate lw) nb (ffn_dim cfg) N (hid_dim cfg))
          (gemm_quant_batched d ou (lw_w_up lw) (lw_type_w_up lw) nb (ffn_dim cfg) N (hid_dim cfg)) N (ffn_dim cfg))
        (hid_dim cfg) N (ffn_dim cfg)) (N * hid_dim cfg) =
    concat (map (\<lambda>i. tok_ffn d G cfg lw (X i)) [0..<N])"
proof -
  note lenG = bridge_eqs(8) [OF con]
  have nb: "nb = concat (map (\<lambda>i. norm1 d cfg (lw_rms_ffn lw) (lw_rms_type lw = 0) (hid_dim cfg) (X i)) [0..<N])"
    unfolding nb_def by (rule norm_batch [OF out(1) len])
  have g: "gemm_quant_batched d y W ty nb M N (hid_dim cfg) =
      concat (map (\<lambda>i. G (wref_of d W ty M) (norm1 d cfg (lw_rms_ffn lw) (lw_rms_type lw = 0) (hid_dim cfg) (X i)) (hid_dim cfg)) [0..<N])" for y W ty M
    unfolding nb by (rule gemm_batch [OF con]) simp
  show ?thesis unfolding g tok_ffn_def Let_def
    by (subst swiglu_batch [OF out(2)], simp_all only: lenG, subst gemm_batch [OF con], simp, subst vec_add_batch [OF out(3) len], simp_all add: lenG)
qed

lemma attn_out_batch:
  assumes con: "infer_contract (d_fp d) (d_inf d) G A" and len: "\<And>i. i < N \<Longrightarrow> length (X i) = hid_dim cfg"
    "\<And>i. i < N \<Longrightarrow> length (At i) = q_dim cfg" and out: "length ox = N * hid_dim cfg"
  shows "vec_add (d_fp d) ox (concat (map X [0..<N]))
      (gemm_quant_batched d oa (lw_wo lw) (lw_type_wo lw) (concat (map At [0..<N])) (hid_dim cfg) N (q_dim cfg)) (N * hid_dim cfg) =
    concat (map (\<lambda>i. add_rows (d_fp d) (X i) (G (wref_of d (lw_wo lw) (lw_type_wo lw) (hid_dim cfg)) (At i) (q_dim cfg))) [0..<N])"
  by (subst gemm_batch [OF con len(2)], simp, subst vec_add_batch [OF out len(1)]) (simp_all add: bridge_eqs(8) [OF con])

lemma transformer_prefill_tok:
  assumes "kv_pool_at c (f_kv s)" "dims_ok cfg c" "l < nat (n_layers c)" "start + N \<le> kv_cols c"
    and con: "infer_contract (d_fp d) (d_inf d) G A" and junk: "junk_ok d"
    and len: "\<And>i. i < N \<Longrightarrow> length (X i) = hid_dim cfg"
    and run: "transformer_prefill d cfg lw False l (int start) N (concat (map X [0..<N])) s = Some (yb, s')"
  shows "f_kv s' = fold (\<lambda>i p. kv_put p l (start + i) (tok_entry d G cfg lw (start + i) (X i))) [0..<N] (f_kv s) \<and>
    yb = concat (map (\<lambda>i. tok_out d G A cfg lw (start + i) (X i) (map (kv_fetch (f_kv s') l) [0..<Suc (start + i)])) [0..<N])"
proof -
  let ?H = "hid_dim cfg" and ?Q = "q_dim cfg" and ?K = "kv_dims cfg" and ?I = "ffn_dim cfg"
  let ?ns = "[N * ?H, N * ?Q, N * ?K, N * ?K, N * ?Q, N * ?H, N * ?H, N * ?H, N * ?I, N * ?I, N * ?I, N * ?H]"
  let ?q = "\<lambda>i. fst (tok_qkv d G cfg lw (X i))" and ?k = "\<lambda>i. fst (snd (tok_qkv d G cfg lw (X i)))"
    and ?v = "\<lambda>i. snd (snd (tok_qkv d G cfg lw (X i)))"
  obtain bs s1 where b: "get_bufs d ?ns s = Some (bs, s1)"
    using run unfolding transformer_prefill_def Let_def dim_folds by (cases "get_bufs d ?ns s") auto
  have ml: "map length bs = ?ns" and kv: "f_kv s1 = f_kv s" using get_bufs_Some [OF b junk] by auto
  have lb: "length bs = 12" using arg_cong [OF ml, of length] by simp
  have bl: "length (bs ! 0) = N * ?H" "length (bs ! 6) = N * ?H" "length (bs ! 7) = N * ?H" "length (bs ! 10) = N * ?I"
    using nth_map [of 0 bs length] nth_map [of 6 bs length] nth_map [of 7 bs length] nth_map [of 10 bs length] lb
    unfolding ml by simp_all
  have qkv: "tok_qkv d G cfg lw (X i) = (?q i, ?k i, ?v i)" for i by simp
  note lq = tok_qkv_lengths [OF con qkv]
  define p' where "p' = fold (\<lambda>i p. kv_put p l (start + i) (halves_bytes (rope_ref (d_fp d) (rope_of cfg (int (start + i))) (?k i)), halves_bytes (?v i))) [0..<N] (f_kv s)"
  let ?r = "\<lambda>i. rope_ref (d_fp d) (rope_of cfg (int (start + i)))"
  have st: "fold (prefill_store d cfg False l (int start)) [0..<N] (concat (map ?q [0..<N]), concat (map ?k [0..<N]), concat (map ?v [0..<N]), f_kv s) =
      (concat (map (\<lambda>i. ?r i (?q i)) [0..<N]), concat (map (\<lambda>i. ?r i (?k i)) [0..<N]), concat (map ?v [0..<N]), p')"
    and at: "kv_pool_at c p'"
  proof -
    have drop_if: "map (\<lambda>i. if i < N then f i else g i) [0..<N] = map f [0..<N]" for f g :: "nat \<Rightarrow> half list" by simp
    note r = prefill_store_rows [of c "f_kv s" cfg l start N ?q ?k ?v N d, OF assms(1-4) lq order.refl, unfolded drop_if, folded p'_def]
    show "fold (prefill_store d cfg False l (int start)) [0..<N] (concat (map ?q [0..<N]), concat (map ?k [0..<N]), concat (map ?v [0..<N]), f_kv s) =
      (concat (map (\<lambda>i. ?r i (?q i)) [0..<N]), concat (map (\<lambda>i. ?r i (?k i)) [0..<N]), concat (map ?v [0..<N]), p')"
      by (rule conjunct1 [OF r])
    show "kv_pool_at c p'" by (rule conjunct2 [OF r])
  qed
  let ?A = "\<lambda>i. A (hist_args d cfg (?r i (?q i)) (map (kv_fetch p' l) [0..<Suc (start + i)])) (Suc (start + i))"
  have att: "flash_attention_prefill_batched d (bs ! 4) (attn_view d cfg False l (concat (map (\<lambda>i. ?r i (?q i)) [0..<N])) (start + N) p') N start =
      concat (map ?A [0..<N])"
    by (rule attention_batch [OF at assms(2-4) con]) (simp add: lq)
  have lA: "length (?A i) = ?Q" for i using bridge_eqs(9) [OF con] by (simp add: hist_args_def q_dim_def)
  let ?X2 = "\<lambda>i. add_rows (d_fp d) (X i) (G (wref_of d (lw_wo lw) (lw_type_wo lw) ?H) (?A i) ?Q)"
  have lX: "length (?X2 i) = ?H" if "i < N" for i using len that by simp
  have xl: "length (concat (map X [0..<N])) = N * ?H" using len by (rule length_concat_rows)
  note qkv_rows = qkv_batch [where X = X, OF con _ bl(1)]
  note tail_rows = attn_out_batch [where X = X and At = ?A, OF con _ _ bl(2)] ffn_batch [where X = ?X2, OF con _ bl(3,4) xl]
  have "yb = concat (map (\<lambda>i. tok_ffn d G cfg lw (?X2 i)) [0..<N]) \<and> f_kv s' = p'"
    using run by (simp only: transformer_prefill_def Let_def dim_folds b bind.bind_lunit prod.case kv nat_int
        qkv_rows len st att tail_rows lA lX option.inject prod.inject) auto
  moreover have "tok_ffn d G cfg lw (?X2 i) = tok_out d G A cfg lw (start + i) (X i) (map (kv_fetch p' l) [0..<Suc (start + i)])" for i
    by (simp only: tok_out_def tok_attn_def Let_def split_beta length_map length_upt diff_zero)
  moreover have "p' = fold (\<lambda>i p. kv_put p l (start + i) (tok_entry d G cfg lw (start + i) (X i))) [0..<N] (f_kv s)"
    by (simp only: p'_def tok_entry_def split_beta)
  ultimately show ?thesis by simp
qed


section \<open>All layers\<close>

abbreviation ent_of :: "device \<Rightarrow> (wref \<Rightarrow> half list \<Rightarrow> nat \<Rightarrow> half list) \<Rightarrow> model_config \<Rightarrow> model_weights \<Rightarrow> nat \<Rightarrow> nat \<Rightarrow> half list \<Rightarrow> byte list \<times> byte list" where
  "ent_of d G cfg mw l \<equiv> tok_entry d G cfg (mw_layers mw ! l)"

abbreviation res_of :: "device \<Rightarrow> (wref \<Rightarrow> half list \<Rightarrow> nat \<Rightarrow> half list) \<Rightarrow> (attn_args \<Rightarrow> nat \<Rightarrow> half list) \<Rightarrow> model_config \<Rightarrow> model_weights \<Rightarrow>
   nat \<Rightarrow> nat \<Rightarrow> half list \<Rightarrow> (byte list \<times> byte list) list \<Rightarrow> half list" where
  "res_of d G A cfg mw l \<equiv> tok_out d G A cfg (mw_layers mw ! l)"

lemma layers_loop_tok:
  assumes "dims_ok cfg c" "i < kv_cols c" and con: "infer_contract (d_fp d) (d_inf d) G A" and junk: "junk_ok d"
  shows "set ls \<subseteq> {..<nat (n_layers c)} \<Longrightarrow> kv_pool_at c (f_kv s) \<Longrightarrow> length x = hid_dim cfg \<Longrightarrow>
    layers_loop (\<lambda>l. transformer_layer d cfg (mw_layers mw ! l) False l (int i)) ls (x, s) = Some (y, s') \<Longrightarrow>
    fold (tok_step kv_put kv_fetch (ent_of d G cfg mw) (res_of d G A cfg mw) i) ls (x, f_kv s) = (y, f_kv s') \<and>
    kv_pool_at c (f_kv s') \<and> length y = hid_dim cfg"
proof (induction ls arbitrary: x s)
  case (Cons l ls)
  have ok: "kv_cfg_ok c" using Cons.prems(2) by (auto simp: kv_pool_at_def kv_pool_ok_def)
  obtain x1 s1 where one: "transformer_layer d cfg (mw_layers mw ! l) False l (int i) x s = Some (x1, s1)"
    and rest: "layers_loop (\<lambda>l. transformer_layer d cfg (mw_layers mw ! l) False l (int i)) ls (x1, s1) = Some (y, s')"
    using Cons.prems(4) by (cases "transformer_layer d cfg (mw_layers mw ! l) False l (int i) x s") auto
  have l: "l < nat (n_layers c)" using Cons.prems(1) by simp
  note t = transformer_layer_tok [OF Cons.prems(2) assms(1) l assms(2) con junk Cons.prems(3) one]
  have at1: "kv_pool_at c (f_kv s1)"
    using t kv.put_valid [OF Cons.prems(2) tok_entry_ok [OF con ok assms(1)] l assms(2)] by simp
  have x1: "length x1 = hid_dim cfg" using t tok_out_length [OF Cons.prems(3)] by (simp del: upt_Suc)
  have "tok_step kv_put kv_fetch (ent_of d G cfg mw) (res_of d G A cfg mw) i l (x, f_kv s) = (x1, f_kv s1)"
    using t unfolding tok_step_def Let_def fst_conv snd_conv by (simp del: upt_Suc)
  then show ?case using Cons.IH [OF _ at1 x1 rest] Cons.prems(1) by simp
qed simp

lemma layers_loop_batch:
  assumes "dims_ok cfg c" "start + N \<le> kv_cols c" and con: "infer_contract (d_fp d) (d_inf d) G A" and junk: "junk_ok d"
  shows "set ls \<subseteq> {..<nat (n_layers c)} \<Longrightarrow> kv_pool_at c (f_kv s) \<Longrightarrow> length xs = N \<Longrightarrow> \<forall>x \<in> set xs. length x = hid_dim cfg \<Longrightarrow>
    layers_loop (\<lambda>l. transformer_prefill d cfg (mw_layers mw ! l) False l (int start) N) ls (concat xs, s) = Some (yb, s') \<Longrightarrow>
    \<exists>ys. fold (layer_step kv_put kv_fetch (ent_of d G cfg mw) (res_of d G A cfg mw) start) ls (xs, f_kv s) = (ys, f_kv s') \<and>
      yb = concat ys \<and> length ys = N \<and> (\<forall>y \<in> set ys. length y = hid_dim cfg)"
proof (induction ls arbitrary: xs s)
  case Nil
  then show ?case by auto
next
  case (Cons l ls)
  let ?ent = "ent_of d G cfg mw" and ?res = "res_of d G A cfg mw"
  have ok: "kv_cfg_ok c" using Cons.prems(2) by (auto simp: kv_pool_at_def kv_pool_ok_def)
  have l: "l < nat (n_layers c)" using Cons.prems(1) by simp
  have xs: "xs = map ((!) xs) [0..<N]" using Cons.prems(3) map_nth [of xs] by simp
  have len: "length (xs ! i) = hid_dim cfg" if "i < N" for i using that Cons.prems(3,4) by simp
  obtain yb1 s1 where one: "transformer_prefill d cfg (mw_layers mw ! l) False l (int start) N (concat (map ((!) xs) [0..<N])) s = Some (yb1, s1)"
    and rest: "layers_loop (\<lambda>l. transformer_prefill d cfg (mw_layers mw ! l) False l (int start) N) ls (yb1, s1) = Some (yb, s')"
    using Cons.prems(5) xs by (cases "transformer_prefill d cfg (mw_layers mw ! l) False l (int start) N (concat xs) s") auto
  note t = transformer_prefill_tok [OF Cons.prems(2) assms(1) l assms(2) con junk len one]
  define ys where "ys = map (\<lambda>k. ?res l (start + k) (xs ! k) (map (kv_fetch (f_kv s1) l) [0..<Suc (start + k)])) [0..<N]"
  have kv1: "f_kv s1 = layer_store kv_put ?ent start l xs (f_kv s)"
    using t Cons.prems(3) by (simp add: layer_store_def)
  have step: "layer_step kv_put kv_fetch ?ent ?res start l (xs, f_kv s) = (ys, f_kv s1)"
    unfolding layer_step_def Let_def fst_conv snd_conv kv1 [symmetric] ys_def Cons.prems(3) ..
  have at1: "kv_pool_at c (f_kv s1)"
    using kv.layer_store_entries [of c "f_kv s" l start xs "\<lambda>x. length x = hid_dim cfg" ?ent, OF Cons.prems(2) l]
      tok_entry_ok [OF con ok assms(1)] assms(2) Cons.prems(3,4) unfolding kv1 by simp
  have yb1: "yb1 = concat ys" using conjunct2 [OF t] unfolding ys_def .
  have ly: "length ys = N" "\<forall>y \<in> set ys. length y = hid_dim cfg"
    using len tok_out_length by (auto simp: ys_def simp del: upt_Suc)
  show ?case using Cons.IH [OF _ at1 ly rest [unfolded yb1]] Cons.prems(1) step by simp
qed


section \<open>The embeddings\<close>

lemma dequant_embedding_dst:
  "dequant_embedding d dst W t n ty = dequant_embedding d dst' W t n ty"
proof (cases "rf_dequant_embedding_row (d_inf d) (wref_of d W ty 0) t n")
  case None
  then have "\<And>o'. fst (dequant_embedding_row d o' W ty t n) = False" by (simp add: dequant_embedding_row_def)
  then show ?thesis unfolding dequant_embedding_def Let_def by (simp only: simp_thms if_False)
next
  case (Some r)
  then have "\<And>o'. dequant_embedding_row d o' W ty t n = (True, r)" by (simp add: dequant_embedding_row_def)
  then show ?thesis unfolding dequant_embedding_def Let_def by (simp only: fst_conv snd_conv)
qed

text \<open>The prompt's tokens have embedding rows \<^verbatim>\<open>xs\<close>.\<close>

definition embeds :: "device \<Rightarrow> model_config \<Rightarrow> model_weights \<Rightarrow> int list \<Rightarrow> half list list \<Rightarrow> bool" where
  "embeds d cfg mw toks xs \<longleftrightarrow> list_all2 (\<lambda>t x. dequant_embedding d [] (mw_tok_embd mw) t (hid_dim cfg) (mw_embd_type mw) = Some x \<and>
     length x = hid_dim cfg) toks xs"

lemma embed_rows_concat:
  "embeds d cfg mw toks xs \<Longrightarrow> length ys = i \<Longrightarrow> \<forall>y \<in> set ys. length y = hid_dim cfg \<Longrightarrow> length junk = length toks * hid_dim cfg \<Longrightarrow>
   embed_rows d mw (hid_dim cfg) i toks (concat ys @ junk) = Some (concat ys @ concat xs)"
proof (induction toks arbitrary: xs ys i junk)
  case Nil
  then show ?case by (simp add: embeds_def)
next
  case (Cons t ts)
  let ?H = "hid_dim cfg"
  from Cons.prems(1) obtain x xs' where xs: "xs = x # xs'" "embeds d cfg mw ts xs'" "length x = ?H"
    "dequant_embedding d [] (mw_tok_embd mw) t ?H (mw_embd_type mw) = Some x"
    by (auto simp: embeds_def list_all2_Cons1)
  have x: "dequant_embedding d (slice (i * ?H) ?H (concat ys @ junk)) (mw_tok_embd mw) t ?H (mw_embd_type mw) = Some x"
    using xs(4) dequant_embedding_dst by metis
  have ly: "length (concat ys) = i * ?H"
    using Cons.prems(2,3) by (induction ys arbitrary: i) auto
  have "blit (concat ys @ junk) (i * ?H) x = concat (ys @ [x]) @ drop ?H junk"
    using ly xs(3) by (simp add: blit_def)
  moreover have "embed_rows d mw ?H (Suc i) ts (concat (ys @ [x]) @ drop ?H junk) = Some (concat (ys @ [x]) @ concat xs')"
    using Cons.prems xs by (intro Cons.IH) auto
  ultimately show ?case using x xs(1) by simp
qed

lemma prefill_per_token_tok:
  assumes "dims_ok cfg c" and con: "infer_contract (d_fp d) (d_inf d) G A" and junk: "junk_ok d" and L: "m_n_layers cfg = n_layers c"
  shows "kv_pool_at c (f_kv s) \<Longrightarrow> i + length toks \<le> kv_cols c \<Longrightarrow> embeds d cfg mw toks xs \<Longrightarrow>
    prefill_per_token d cfg mw False (int i) toks (x0, s) = Some (xl, s') \<Longrightarrow>
    \<exists>ys. token_major kv_put kv_fetch (ent_of d G cfg mw) (res_of d G A cfg mw) (nat (n_layers c)) i xs (f_kv s) = (ys, f_kv s') \<and>
      xl = (if toks = [] then x0 else Some (last ys)) \<and> length ys = length toks"
proof (induction toks arbitrary: i xs s x0)
  case Nil
  then show ?case by (auto simp: embeds_def)
next
  case (Cons t ts)
  let ?H = "hid_dim cfg" and ?ent = "ent_of d G cfg mw" and ?res = "res_of d G A cfg mw"
  from Cons.prems(3) obtain x xs' where xs: "xs = x # xs'" "embeds d cfg mw ts xs'" "length x = ?H"
    "dequant_embedding d [] (mw_tok_embd mw) t ?H (mw_embd_type mw) = Some x"
    by (auto simp: embeds_def list_all2_Cons1)
  obtain x1 s1 where one: "prefill_token d cfg mw False t (int i) s = Some (x1, s1)"
    and rest: "prefill_per_token d cfg mw False (int (Suc i)) ts (Some x1, s1) = Some (xl, s')"
    using Cons.prems(4) by (cases "prefill_token d cfg mw False t (int i) s") (auto simp: add.commute)
  obtain bs s0 where b: "get_bufs d [?H] (s\<lparr>f_scratch := scratch_reset (f_scratch s)\<rparr>) = Some (bs, s0)"
    and fl: "forward_layers d cfg mw False (int i) (x, s0) = Some (x1, s1)"
    using one xs(4) dequant_embedding_dst [of d _ "mw_tok_embd mw" t ?H "mw_embd_type mw" "[]"]
    unfolding prefill_token_def Let_def dim_folds
    by (cases "get_bufs d [?H] (s\<lparr>f_scratch := scratch_reset (f_scratch s)\<rparr>)") auto
  have kv0: "f_kv s0 = f_kv s" using get_bufs_one [OF b junk] by simp
  have t: "fold (tok_step kv_put kv_fetch ?ent ?res i) [0..<nat (n_layers c)] (x, f_kv s) = (x1, f_kv s1) \<and>
      kv_pool_at c (f_kv s1) \<and> length x1 = ?H"
    using layers_loop_tok [OF assms(1) _ con junk, of i "[0..<nat (n_layers c)]" s0 x mw x1 s1] Cons.prems(1,2) xs(3) fl kv0
    by (simp add: forward_layers_def L lessThan_atLeast0)
  have "Suc i + length ts \<le> kv_cols c" using Cons.prems(2) by simp
  from Cons.IH [OF _ this xs(2) rest] t obtain ys where
    "token_major kv_put kv_fetch ?ent ?res (nat (n_layers c)) (Suc i) xs' (f_kv s1) = (ys, f_kv s')"
    "xl = (if ts = [] then Some x1 else Some (last ys))" "length ys = length ts" by auto
  then show ?case using t xs(1) by (intro exI [of _ "x1 # ys"]) auto
qed

lemma prefill_batched_tok:
  assumes "dims_ok cfg c" and con: "infer_contract (d_fp d) (d_inf d) G A" and junk: "junk_ok d" and L: "m_n_layers cfg = n_layers c"
    and "kv_pool_at c (f_kv s)" "start + length toks \<le> kv_cols c" "embeds d cfg mw toks xs" "toks \<noteq> []"
    and run: "prefill_batched d cfg mw False (int start) toks s = Some (x, s')"
  shows "\<exists>ys. fold (layer_step kv_put kv_fetch (ent_of d G cfg mw) (res_of d G A cfg mw) start) [0..<nat (n_layers c)] (xs, f_kv s) = (ys, f_kv s') \<and>
    x = last ys \<and> length ys = length toks"
proof -
  let ?H = "hid_dim cfg" and ?M = "length toks"
  let ?loop = "layers_loop (\<lambda>l. transformer_prefill d cfg (mw_layers mw ! l) False l (int start) ?M) [0..<nat (n_layers c)]"
  have xs: "length xs = ?M" "\<forall>x \<in> set xs. length x = ?H"
    using assms(7) by (auto simp: embeds_def list_all2_conv_all_nth in_set_conv_nth)
  obtain bs s0 where b: "get_bufs d [?M * ?H] (s\<lparr>f_scratch := scratch_reset (f_scratch s)\<rparr>) = Some (bs, s0)"
    using run unfolding prefill_batched_def Let_def dim_folds
    by (cases "get_bufs d [?M * ?H] (s\<lparr>f_scratch := scratch_reset (f_scratch s)\<rparr>)") auto
  note g = get_bufs_one [OF b junk]
  have e: "embed_rows d mw ?H 0 toks (bs ! 0) = Some (concat xs)"
    using embed_rows_concat [OF assms(7), of "[]" 0 "bs ! 0"] g(1) by simp
  obtain yb s1 where lp: "?loop (concat xs, s0) = Some (yb, s1)" and out: "x = slice ((?M - 1) * ?H) ?H yb" "s' = s1"
    using run unfolding prefill_batched_def Let_def dim_folds b L
    by (cases "?loop (concat xs, s0)") (auto simp: e)
  have kv0: "kv_pool_at c (f_kv s0)" using assms(5) g(2) by simp
  obtain ys where ys: "fold (layer_step kv_put kv_fetch (ent_of d G cfg mw) (res_of d G A cfg mw) start) [0..<nat (n_layers c)] (xs, f_kv s0) = (ys, f_kv s1)"
    "yb = concat ys" "length ys = ?M" "\<forall>y \<in> set ys. length y = ?H"
    using layers_loop_batch [OF assms(1,6) con junk _ kv0 xs lp] by (auto simp: lessThan_atLeast0)
  have rows: "ys = map ((!) ys) [0..<?M]" using ys(3) map_nth [of ys] by simp
  have "slice ((?M - 1) * ?H) ?H (concat (map ((!) ys) [0..<?M])) = ys ! (?M - 1)"
    using ys(3,4) assms(8) by (intro slice_concat_rows) (auto simp: Suc_le_eq)
  then have "x = last ys" unfolding out(1) ys(2) using rows ys(3) assms(8) by (metis last_conv_nth length_0_conv)
  then show ?thesis using ys g(2) out(2) by auto
qed


section \<open>Enough scratch memory\<close>

definition buf_need :: "nat list \<Rightarrow> int" where
  "buf_need ns = sum_list (map (\<lambda>n. align256 (int n * 2)) ns)"

lemma buf_need_simps [simp]:
  "buf_need [] = 0" "buf_need (n # ns) = align256 (int n * 2) + buf_need ns"
  by (simp_all add: buf_need_def)

lemma buf_need_nonneg: "0 \<le> buf_need ns"
  by (induction ns) (auto intro!: add_nonneg_nonneg align256_nonneg)

text \<open>\<^verbatim>\<open>s'\<close> has used \<^verbatim>\<open>n\<close> more bytes of the same live pool than \<^verbatim>\<open>s\<close>.\<close>

definition took :: "fwd \<Rightarrow> int \<Rightarrow> fwd \<Rightarrow> bool" where
  "took s n s' \<longleftrightarrow> scratch_live (f_scratch s') \<and> scratch_used (f_scratch s') = scratch_used (f_scratch s) + n \<and>
     scratch_capacity (f_scratch s') = scratch_capacity (f_scratch s)"

definition has_room :: "fwd \<Rightarrow> int \<Rightarrow> bool" where
  "has_room s n \<longleftrightarrow> scratch_live (f_scratch s) \<and> scratch_used (f_scratch s) + n \<le> scratch_capacity (f_scratch s)"

lemma took_room: "took s m s' \<Longrightarrow> has_room s (m + n) \<Longrightarrow> has_room s' n"
  by (simp add: took_def has_room_def)

lemma took_trans: "took s m s' \<Longrightarrow> took s' n s'' \<Longrightarrow> took s (m + n) s''"
  by (simp add: took_def)

lemma room_mono: "has_room s n \<Longrightarrow> m \<le> n \<Longrightarrow> has_room s m"
  by (simp add: has_room_def)

lemma took_kv [simp]: "took s n (s'\<lparr>f_kv := p\<rparr>) = took s n s'"
  by (simp add: took_def)

lemma get_bufs_fits:
  assumes "has_room s (buf_need ns)"
  shows "\<exists>bs s'. get_bufs d ns s = Some (bs, s') \<and> took s (buf_need ns) s'"
proof -
  obtain ps sc where g: "get_all scratch_get (map (\<lambda>n. int n * 2) ns) (f_scratch s) = (ps, sc)" by fastforce
  have "scratch_used (f_scratch s) + sum_list (map align256 (map (\<lambda>n. int n * 2) ns)) \<le> scratch_capacity (f_scratch s)"
    using assms by (simp add: has_room_def buf_need_def comp_def)
  from scratch.get_all_fits [OF _ _ this] assms g
  show ?thesis by (auto simp: get_bufs_def took_def has_room_def buf_need_def comp_def)
qed

lemma split_need: "has_room s (a + b) \<Longrightarrow> 0 \<le> b \<Longrightarrow> has_room s a"
  by (rule room_mono) auto

definition layer_need :: "model_config \<Rightarrow> int" where
  "layer_need cfg = buf_need [hid_dim cfg, q_dim cfg, kv_dims cfg, kv_dims cfg] + (buf_need [hid_dim cfg] +
     (buf_need [q_dim cfg] + buf_need [hid_dim cfg, ffn_dim cfg, ffn_dim cfg, ffn_dim cfg]))"

lemma layer_need_nonneg: "0 \<le> layer_need cfg"
  unfolding layer_need_def by (intro add_nonneg_nonneg buf_need_nonneg)

lemma transformer_layer_fits:
  assumes "has_room s (layer_need cfg)"
  shows "\<exists>y s'. transformer_layer d cfg lw kv_int8 l pos x s = Some (y, s') \<and> took s (layer_need cfg) s'"
proof -
  let ?n1 = "buf_need [hid_dim cfg, q_dim cfg, kv_dims cfg, kv_dims cfg]" and ?n2 = "buf_need [hid_dim cfg]"
    and ?n3 = "buf_need [q_dim cfg]" and ?n4 = "buf_need [hid_dim cfg, ffn_dim cfg, ffn_dim cfg, ffn_dim cfg]"
  note r1 = assms [unfolded layer_need_def]
  obtain b1 s1 where b1: "get_bufs d [hid_dim cfg, q_dim cfg, kv_dims cfg, kv_dims cfg] s = Some (b1, s1)" "took s ?n1 s1"
    using get_bufs_fits [OF split_need [OF r1]] buf_need_nonneg by (meson add_nonneg_nonneg)
  have r2: "has_room s1 (?n2 + (?n3 + ?n4))" by (rule took_room [OF b1(2) r1])
  obtain b2 s2 where b2: "get_bufs d [hid_dim cfg] s1 = Some (b2, s2)" "took s1 ?n2 s2"
    using get_bufs_fits [OF split_need [OF r2]] buf_need_nonneg by (meson add_nonneg_nonneg)
  have r3: "has_room s2 (?n3 + ?n4)" by (rule took_room [OF b2(2) r2])
  obtain b3 s3 where b3: "get_bufs d [q_dim cfg] s2 = Some (b3, s3)" "took s2 ?n3 s3"
    using get_bufs_fits [OF split_need [OF r3]] buf_need_nonneg by meson
  have blk: "\<exists>y p. transformer_layer_attn_block d cfg lw kv_int8 l pos x q k v o' f s2 = Some (y, s3\<lparr>f_kv := p\<rparr>)" for q k v o' f
    unfolding transformer_layer_attn_block_def Let_def dim_folds b3(1) bind.bind_lunit prod.case by (auto split: prod.splits)
  obtain q k v where t: "gemv_quant_triple d (b1 ! 1) (lw_wq lw) (lw_type_wq lw) (q_dim cfg) (b1 ! 2) (lw_wk lw) (lw_type_wk lw) (kv_dims cfg)
      (b1 ! 3) (lw_wv lw) (lw_type_wv lw) (kv_dims cfg) (rms_norm d cfg (b1 ! 0) x (lw_rms_attn lw) (lw_rms_type lw = 0) 1 (hid_dim cfg)) (hid_dim cfg) = (q, k, v)"
    using prod_cases3 by blast
  obtain y p where y: "transformer_layer_attn_block d cfg lw kv_int8 l pos x q k v (b2 ! 0) False s2 = Some (y, s3\<lparr>f_kv := p\<rparr>)"
    using blk by blast
  have "has_room s3 ?n4" by (rule took_room [OF b3(2) r3])
  then have r4: "has_room (s3\<lparr>f_kv := p\<rparr>) ?n4" by (simp add: has_room_def)
  obtain b4 s4 where b4: "get_bufs d [hid_dim cfg, ffn_dim cfg, ffn_dim cfg, ffn_dim cfg] (s3\<lparr>f_kv := p\<rparr>) = Some (b4, s4)"
      "took (s3\<lparr>f_kv := p\<rparr>) ?n4 s4" using get_bufs_fits [OF r4] by meson
  have "took s3 ?n4 s4" using b4(2) by (simp add: took_def)
  then have "took s (layer_need cfg) s4" unfolding layer_need_def
    using took_trans [OF b1(2) took_trans [OF b2(2) took_trans [OF b3(2)]]] by blast
  then show ?thesis unfolding transformer_layer_def Let_def dim_folds b1(1) b2(1) bind.bind_lunit prod.case t y b4(1)
    by (auto split: prod.splits)
qed

lemma layers_loop_grow:
  assumes "\<And>l x s. has_room s k \<Longrightarrow> \<exists>y s'. f l x s = Some (y, s') \<and> took s k s'" "0 \<le> k"
  shows "has_room s (int (length ls) * k) \<Longrightarrow>
    \<exists>y s'. layers_loop f ls (x, s) = Some (y, s') \<and> took s (int (length ls) * k) s'"
proof (induction ls arbitrary: x s)
  case Nil
  then show ?case by (simp add: took_def has_room_def)
next
  case (Cons l ls)
  have r: "has_room s (k + int (length ls) * k)" using Cons.prems by (simp add: algebra_simps)
  obtain y s1 where one: "f l x s = Some (y, s1)" "took s k s1" using assms(1) [OF split_need [OF r]] assms(2) by fastforce
  from Cons.IH [OF took_room [OF one(2) r], of y] obtain z s' where
    z: "layers_loop f ls (y, s1) = Some (z, s')" "took s1 (int (length ls) * k) s'" by blast
  have "took s (int (length (l # ls)) * k) s'" using took_trans [OF one(2) z(2)] by (simp add: algebra_simps)
  then show ?case using one(1) z(1) by simp
qed

lemma layers_loop_level:
  assumes "\<And>l x s. has_room s k \<Longrightarrow> \<exists>y s'. f l x s = Some (y, s') \<and> took s 0 s'"
  shows "has_room s k \<Longrightarrow> \<exists>y s'. layers_loop f ls (x, s) = Some (y, s')"
proof (induction ls arbitrary: x s)
  case (Cons l ls)
  from assms [OF Cons.prems] obtain y s1 where one: "f l x s = Some (y, s1)" "took s 0 s1" by blast
  from one(2) Cons.prems have "has_room s1 k" by (simp add: took_def has_room_def)
  from Cons.IH [OF this] one(1) show ?case by simp
qed simp

definition batch_bufs :: "model_config \<Rightarrow> nat \<Rightarrow> nat list" where
  "batch_bufs cfg N = [N * hid_dim cfg, N * q_dim cfg, N * kv_dims cfg, N * kv_dims cfg, N * q_dim cfg, N * hid_dim cfg, N * hid_dim cfg,
     N * hid_dim cfg, N * ffn_dim cfg, N * ffn_dim cfg, N * ffn_dim cfg, N * hid_dim cfg]"

lemma transformer_prefill_fits:
  assumes "has_room s (buf_need (batch_bufs cfg N))"
  shows "\<exists>y s'. transformer_prefill d cfg lw kv_int8 l start N x s = Some (y, s') \<and> took s 0 s'"
proof -
  obtain bs s1 where b: "get_bufs d (batch_bufs cfg N) s = Some (bs, s1)" "took s (buf_need (batch_bufs cfg N)) s1"
    using get_bufs_fits [OF assms] by blast
  have "0 \<le> scratch_used (f_scratch s)" "scratch_used (f_scratch s) \<le> scratch_capacity (f_scratch s1)"
    using assms b(2) buf_need_nonneg [of "batch_bufs cfg N"]
    by (auto simp: has_room_def took_def scratch_live_def scratch_used_def)
  then have rewound: "took s 0 (s1\<lparr>f_kv := p, f_scratch := scratch_rewind_to (scratch_mark (f_scratch s)) (f_scratch s1)\<rparr>)" for p
    using b(2) by (auto simp: took_def scratch_rewind_to_def scratch_mark_def scratch_used_def scratch_capacity_def scratch_live_def)
  show ?thesis unfolding transformer_prefill_def Let_def dim_folds b(1) [unfolded batch_bufs_def] bind.bind_lunit prod.case
    using rewound by (auto split: prod.splits simp: took_def)
qed

lemma batched_fits_room:
  assumes "batched_fits cfg sc N" "int M \<le> N" "0 \<le> m_hidden_dim cfg" "0 \<le> m_n_heads cfg" "0 \<le> m_n_kv_heads cfg" "0 \<le> m_head_dim cfg"
    "0 \<le> m_intermediate_dim cfg"
  shows "buf_need [M * hid_dim cfg] + buf_need (batch_bufs cfg M) \<le> scratch_capacity sc"
proof -
  define t where "t = 6 * int (hid_dim cfg) + 2 * int (q_dim cfg) + 2 * int (kv_dims cfg) + 3 * int (ffn_dim cfg)"
  have dims: "m_hidden_dim cfg = int (hid_dim cfg)" "m_n_heads cfg * m_head_dim cfg = int (q_dim cfg)"
    "m_n_kv_heads cfg * m_head_dim cfg = int (kv_dims cfg)" "m_intermediate_dim cfg = int (ffn_dim cfg)"
    using assms(3-7) by (simp_all add: hid_dim_def q_dim_def kv_dims_def ffn_dim_def)
  have total: "batched_total cfg N = N * (2 * t)"
    unfolding batched_total_def Let_def dims t_def by (simp add: algebra_simps)
  have le: "buf_need ns \<le> 2 * sum_list (map int ns) + 255 * int (length ns)" for ns
    using sum_align256_le [of "map (\<lambda>n. int n * 2) ns"] by (simp add: buf_need_def comp_def sum_list_mult_const mult.commute)
  have "buf_need [M * hid_dim cfg] + buf_need (batch_bufs cfg M) \<le> int M * (2 * t) + 255 * 13"
    using le [of "[M * hid_dim cfg]"] le [of "batch_bufs cfg M"] by (simp add: batch_bufs_def t_def algebra_simps)
  also have "int M * (2 * t) \<le> N * (2 * t)" using assms(2) by (intro mult_right_mono) (simp_all add: t_def)
  finally show ?thesis using assms(1) total by (simp add: batched_fits_def)
qed

lemma batched_fits_run:
  assumes "batched_fits cfg (f_scratch s) N" and "int (length toks) \<le> N" and "0 < sp_base (f_scratch s)" and "0 \<le> sp_capacity (f_scratch s)"
    and "0 \<le> m_hidden_dim cfg" "0 \<le> m_n_heads cfg" "0 \<le> m_n_kv_heads cfg" "0 \<le> m_head_dim cfg" "0 \<le> m_intermediate_dim cfg"
    and "embeds d cfg mw toks xs" and "junk_ok d"
  shows "\<exists>x s'. prefill_batched d cfg mw kv_int8 start toks s = Some (x, s')"
proof -
  let ?M = "length toks" and ?H = "hid_dim cfg" and ?s0 = "s\<lparr>f_scratch := scratch_reset (f_scratch s)\<rparr>"
  have "has_room ?s0 (buf_need [?M * ?H] + buf_need (batch_bufs cfg ?M))"
    using batched_fits_room [OF assms(1,2,5-9)] assms(3,4) by (simp add: has_room_def scratch_live_def scratch_used_def scratch_capacity_def scratch_reset_def)
  note r = this
  obtain bs s1 where b: "get_bufs d [?M * ?H] ?s0 = Some (bs, s1)" "took ?s0 (buf_need [?M * ?H]) s1"
    using get_bufs_fits [OF split_need [OF r buf_need_nonneg]] by blast
  have e: "embed_rows d mw ?H 0 toks (bs ! 0) = Some (concat xs)"
    using embed_rows_concat [OF assms(10), of "[]" 0 "bs ! 0"] get_bufs_one(1) [OF b(1) assms(11)] by simp
  obtain y s2 where "layers_loop (\<lambda>l. transformer_prefill d cfg (mw_layers mw ! l) kv_int8 l start ?M) [0..<nat (m_n_layers cfg)] (concat xs, s1) = Some (y, s2)"
    using layers_loop_level [where f = "\<lambda>l. transformer_prefill d cfg (mw_layers mw ! l) kv_int8 l start ?M",
        OF transformer_prefill_fits took_room [OF b(2) r]] by blast
  then show ?thesis unfolding prefill_batched_def Let_def dim_folds b(1) bind.bind_lunit prod.case e by simp
qed

text \<open>(C14) The test \<^verbatim>\<open>batched_fits\<close> is sufficient: when it admits a prompt of \<^verbatim>\<open>N\<close> tokens,
  the batched prefill of any part of it (what is left after a restored prefix) never runs out of
  scratch memory, in any layer, alignment of all thirteen buffers included; every kernel gets its
  buffers and the prefill returns a hidden state.\<close>

theorem batched_fits_suffices:
  assumes "batched_fits cfg (f_scratch s) N" and "int (length toks) \<le> N" and "0 < sp_base (f_scratch s)" and "0 \<le> sp_capacity (f_scratch s)"
    and "0 \<le> m_hidden_dim cfg" "0 \<le> m_n_heads cfg" "0 \<le> m_n_kv_heads cfg" "0 \<le> m_head_dim cfg" "0 \<le> m_intermediate_dim cfg"
    and "embeds d cfg mw toks xs" and "junk_ok d"
  shows "\<exists>x s'. prefill_batched d cfg mw kv_int8 start toks s = Some (x, s')"
  using batched_fits_run [OF assms] .

text \<open>The per-token path resets the pool for every token and does not reset it between layers.\<close>

definition token_need :: "model_config \<Rightarrow> int" where
  "token_need cfg = buf_need [hid_dim cfg] + int (nat (m_n_layers cfg)) * layer_need cfg"

lemma token_need_nonneg: "0 \<le> token_need cfg"
  unfolding token_need_def by (intro add_nonneg_nonneg mult_nonneg_nonneg buf_need_nonneg layer_need_nonneg) simp

lemma prefill_token_fits:
  assumes "0 < sp_base (f_scratch s)" "token_need cfg \<le> sp_capacity (f_scratch s)" "embeds d cfg mw [t] [x]"
  shows "\<exists>y s'. prefill_token d cfg mw kv_int8 t pos s = Some (y, s') \<and> scratch_live (f_scratch s') \<and>
    sp_capacity (f_scratch s') = sp_capacity (f_scratch s)"
proof -
  let ?s0 = "s\<lparr>f_scratch := scratch_reset (f_scratch s)\<rparr>" and ?k = "int (nat (m_n_layers cfg)) * layer_need cfg"
  have k: "0 \<le> ?k" using layer_need_nonneg by simp
  have r: "has_room ?s0 (buf_need [hid_dim cfg] + ?k)" using assms(1,2) token_need_nonneg [of cfg]
    by (simp add: has_room_def scratch_live_def scratch_used_def scratch_capacity_def scratch_reset_def token_need_def)
  obtain bs s1 where b: "get_bufs d [hid_dim cfg] ?s0 = Some (bs, s1)" "took ?s0 (buf_need [hid_dim cfg]) s1"
    using get_bufs_fits [OF split_need [OF r k]] by blast
  have x: "dequant_embedding d (bs ! 0) (mw_tok_embd mw) t (hid_dim cfg) (mw_embd_type mw) = Some x"
    using assms(3) dequant_embedding_dst by (simp add: embeds_def) metis
  let ?f = "\<lambda>l. transformer_layer d cfg (mw_layers mw ! l) kv_int8 l pos"
  have "has_room s1 (int (length [0..<nat (m_n_layers cfg)]) * layer_need cfg)" using took_room [OF b(2) r] by simp
  from layers_loop_grow [where f = ?f, OF transformer_layer_fits layer_need_nonneg this]
  obtain y s2 where y: "layers_loop ?f [0..<nat (m_n_layers cfg)] (x, s1) = Some (y, s2)" "took s1 ?k s2"
    unfolding length_upt diff_zero by blast
  have "scratch_live (f_scratch s2)" "sp_capacity (f_scratch s2) = sp_capacity (f_scratch s)"
    using y(2) b(2) by (auto simp: took_def scratch_capacity_def scratch_reset_def)
  then show ?thesis unfolding prefill_token_def Let_def dim_folds b(1) bind.bind_lunit prod.case x forward_layers_def y(1) by auto
qed

lemma prefill_per_token_fits:
  "0 < sp_base (f_scratch s) \<Longrightarrow> token_need cfg \<le> sp_capacity (f_scratch s) \<Longrightarrow> embeds d cfg mw toks xs \<Longrightarrow>
   \<exists>r. prefill_per_token d cfg mw kv_int8 i toks (x0, s) = Some r"
proof (induction toks arbitrary: i s x0 xs)
  case (Cons t ts)
  then obtain x xs' where x: "embeds d cfg mw [t] [x]" "embeds d cfg mw ts xs'" by (auto simp: embeds_def list_all2_Cons1)
  from prefill_token_fits [OF Cons.prems(1,2) x(1)] obtain y s' where
    "prefill_token d cfg mw kv_int8 t i s = Some (y, s')" "0 < sp_base (f_scratch s')" "token_need cfg \<le> sp_capacity (f_scratch s')"
    using Cons.prems(2) by (metis scratch_live_def)
  with Cons.IH [OF _ _ x(2)] show ?case by simp
qed simp


section \<open>The two paths agree\<close>


text \<open>A model of one layer with two-element heads, on a library whose product is a sum and whose
  attention counts rows.\<close>

definition demo_cfg :: model_config where
  "demo_cfg = model_config_default\<lparr>m_n_layers := 1, m_n_heads := 1, m_n_kv_heads := 1, m_head_dim := 2, m_hidden_dim := 2,
     m_intermediate_dim := 2, m_vocab_size := 8\<rparr>"

definition demo_mw :: model_weights where
  "demo_mw = model_weights_empty\<lparr>mw_embd_type := 12, mw_layers := [layer_weights_zero], mw_n_layers := 1\<rparr>"

definition demo_dev :: device where
  "demo_dev = \<lparr>d_fp = demo_fpu, d_inf = infer_of demo_fpu (\<lambda>w x K. replicate (wf_rows w) (sum_list x))
       (\<lambda>a n. replicate (aa_n_heads a * aa_head_dim a) (of_nat n)),
     d_env = Map.empty, d_ptr = (\<lambda>_. False), d_region = weight_region_none, d_launch_ok = True,
     d_norm = (\<lambda>_ _. Norm_F32 [1, 1]), d_bytes = (\<lambda>_. []), d_junk = (\<lambda>_ n. replicate n 7), d_stack = replicate 8192 0\<rparr>"

definition demo_kv :: kv_config where
  "demo_kv = \<lparr>n_layers = 1, n_kv_heads = 1, head_dim = 2, max_context = 4, overflow_context = 0, kv_type_bytes = 2\<rparr>"

definition demo_fwd :: fwd where
  "demo_fwd = \<lparr>f_kv = kv_pool_empty\<lparr>kv_cfg := demo_kv, gpu_pool := Some (replicate 32 0)\<rparr>,
     f_scratch = \<lparr>sp_base = 4096, sp_capacity = 67108864, sp_offset = 0\<rparr>\<rparr>"

lemma demo_facts:
  "kv_pool_at demo_kv (f_kv demo_fwd)" "dims_ok demo_cfg demo_kv" "junk_ok demo_dev"
  "batched_fits demo_cfg (f_scratch demo_fwd) 3" "token_need demo_cfg \<le> sp_capacity (f_scratch demo_fwd)"
  "embeds demo_dev demo_cfg demo_mw [3, 5] [[3, 3], [5, 5]]"
  "infer_contract (d_fp demo_dev) (d_inf demo_dev) (\<lambda>w x K. replicate (wf_rows w) (sum_list x))
     (\<lambda>a n. replicate (aa_n_heads a * aa_head_dim a) (of_nat n))"
proof -
  show "kv_pool_at demo_kv (f_kv demo_fwd)"
    by (simp add: kv_pool_at_def kv_pool_ok_def kv_cfg_ok_def kv_rows_def kv_cols_def kv_half_def demo_fwd_def demo_kv_def)
  show "dims_ok demo_cfg demo_kv" by (simp add: dims_ok_def demo_cfg_def demo_kv_def)
  show "junk_ok demo_dev" by (simp add: junk_ok_def demo_dev_def)
  show "batched_fits demo_cfg (f_scratch demo_fwd) 3"
    by (simp add: batched_fits_def batched_total_def demo_cfg_def demo_fwd_def scratch_capacity_def)
  have "hid_dim demo_cfg = 2" "q_dim demo_cfg = 2" "kv_dims demo_cfg = 2" "ffn_dim demo_cfg = 2" "m_n_layers demo_cfg = 1"
    by (simp_all add: hid_dim_def q_dim_def kv_dims_def ffn_dim_def demo_cfg_def)
  then show "token_need demo_cfg \<le> sp_capacity (f_scratch demo_fwd)"
    by (simp add: token_need_def layer_need_def align256_eq demo_fwd_def)
  show "embeds demo_dev demo_cfg demo_mw [3, 5] [[3, 3], [5, 5]]"
    by (simp add: embeds_def dequant_embedding_def dequant_embedding_row_def demo_dev_def demo_mw_def demo_cfg_def hid_dim_def
        infer_of_def fast_embedding_enabled_def env_opt_out_def numeral_2_eq_2)
  show "infer_contract (d_fp demo_dev) (d_inf demo_dev) (\<lambda>w x K. replicate (wf_rows w) (sum_list x))
     (\<lambda>a n. replicate (aa_n_heads a * aa_head_dim a) (of_nat n))"
    unfolding demo_dev_def device.select_convs by (rule infer_of_contract) simp_all
qed

lemma demo_dims: "0 \<le> m_hidden_dim demo_cfg" "0 \<le> m_n_heads demo_cfg" "0 \<le> m_n_kv_heads demo_cfg" "0 \<le> m_head_dim demo_cfg"
  "0 \<le> m_intermediate_dim demo_cfg" "0 < sp_base (f_scratch demo_fwd)" "0 \<le> sp_capacity (f_scratch demo_fwd)"
  "nat (max_context demo_kv) = 4" "nat (n_layers demo_kv) = 1"
  by (simp_all add: demo_cfg_def demo_fwd_def demo_kv_def)

theorem batched_fits_suffices_witness:
  "\<exists>x s'. prefill_batched demo_dev demo_cfg demo_mw True 1 [3, 5] demo_fwd = Some (x, s')"
  using batched_fits_suffices [OF demo_facts(4) _ demo_dims(6,7,1-5) demo_facts(6,3), of True 1] by simp


end
