(* ===== verification/Sampler.thy ===== *)
theory Sampler
  imports F32_Order
begin

text \<open>
  \<^verbatim>\<open>sample.cpp\<close>: from a vector of logits to a token. Floats are bit patterns; the comparisons of
  the source are those of IEEE 754 on them (\<^verbatim>\<open>f32_lt\<close>, \<^verbatim>\<open>f32_eq\<close>), its arithmetic is the
  record \<^verbatim>\<open>fpu\<close>. The algorithms of the C++ library (\<^verbatim>\<open>std::sort\<close>,
  \<^verbatim>\<open>std::partial_sort\<close>, \<^verbatim>\<open>std::push_heap\<close>, \<^verbatim>\<open>std::pop_heap\<close>) leave the order of equivalent
  elements open: they are the record \<^verbatim>\<open>stl\<close>, with what the standard promises as
  \<^verbatim>\<open>stl_ok\<close>. The generator \<^verbatim>\<open>g_rng\<close> is the number of draws made so far; the
  \<^verbatim>\<open>n\<close>-th draw of \<^verbatim>\<open>uniform_real_distribution(0, total)\<close> is \<^verbatim>\<open>st_draw n total\<close>.
\<close>

section \<open>The sampler\<close>

definition f32_ninf :: f32 where "f32_ninf = 0xFF800000"

definition finite_bits :: "f32 \<Rightarrow> bool" where
  "finite_bits v \<longleftrightarrow> v AND 0x7F800000 \<noteq> 0x7F800000"

record gen_params =
  gp_max_tokens :: int
  gp_temperature :: f32
  gp_top_k :: int
  gp_top_p :: f32
  gp_repeat_penalty :: f32
  gp_context_limit :: int
  gp_use_cuda_graph :: bool
  gp_kv_int8 :: bool
  gp_conversation_id :: string

text \<open>0.7, 0.9 and 1.1 as single precision.\<close>

definition gen_params_default :: gen_params where
  "gen_params_default = \<lparr>gp_max_tokens = 256, gp_temperature = 0x3F333333, gp_top_k = 40, gp_top_p = 0x3F666666,
     gp_repeat_penalty = 0x3F8CCCCD, gp_context_limit = 0, gp_use_cuda_graph = True, gp_kv_int8 = True,
     gp_conversation_id = []\<rparr>"

record token_prob =
  tp_id :: int
  tp_prob :: f32

record stl =
  st_sort :: "token_prob list \<Rightarrow> token_prob list"
  st_partial_sort :: "nat \<Rightarrow> token_prob list \<Rightarrow> token_prob list"
  st_push_heap :: "token_prob list \<Rightarrow> token_prob list"
  st_pop_heap :: "token_prob list \<Rightarrow> token_prob list"
  st_draw :: "nat \<Rightarrow> f32 \<Rightarrow> f32"

definition fast_sample_enabled :: "env \<Rightarrow> bool" where
  "fast_sample_enabled e = env_opt_out e ''JLLM_FAST_SAMPLE''"

definition debug_kernels_enabled :: "env \<Rightarrow> bool" where
  "debug_kernels_enabled e = env_opt_in e ''JLLM_DEBUG_KERNELS''"

definition apply_temperature :: "fpu \<Rightarrow> f32 list \<Rightarrow> f32 \<Rightarrow> f32 list" where
  "apply_temperature fp logits temperature =
     (if f32_le temperature 0 \<or> f32_eq temperature f32_one then logits
      else (let inv_t = f_div fp f32_one temperature in map (\<lambda>v. f_mul fp v inv_t) logits))"

definition apply_repeat_penalty :: "fpu \<Rightarrow> f32 list \<Rightarrow> int list \<Rightarrow> f32 \<Rightarrow> f32 list" where
  "apply_repeat_penalty fp logits recent_tokens penalty =
     (if f32_le penalty f32_one then logits
      else fold (\<lambda>tok logits.
             let v = logits ! nat tok
             in logits[nat tok := (if f32_lt 0 v then f_div fp v penalty else f_mul fp v penalty)]) recent_tokens logits)"

definition top_k_filter :: "stl \<Rightarrow> token_prob list \<Rightarrow> int \<Rightarrow> token_prob list \<times> nat" where
  "top_k_filter st candidates k =
     (let n = length candidates
      in if k \<le> 0 \<or> int n \<le> k then (candidates, n) else (st_partial_sort st (nat k) candidates, nat k))"

text \<open>The number of candidates kept: up to and including the first whose cumulated probability is
  above \<^verbatim>\<open>p\<close>.\<close>

fun top_p_cut :: "fpu \<Rightarrow> f32 \<Rightarrow> nat \<Rightarrow> f32 \<Rightarrow> token_prob list \<Rightarrow> nat" where
  "top_p_cut fp p i cumsum [] = i"
| "top_p_cut fp p i cumsum (c # cs) =
     (let cumsum = f_add fp cumsum (tp_prob c)
      in if f32_lt p cumsum then i + 1 else top_p_cut fp p (i + 1) cumsum cs)"

definition top_p_filter :: "fpu \<Rightarrow> token_prob list \<Rightarrow> f32 \<Rightarrow> nat" where
  "top_p_filter fp candidates p = top_p_cut fp p 0 0 candidates"

fun sample_pick :: "fpu \<Rightarrow> f32 \<Rightarrow> f32 \<Rightarrow> token_prob list \<Rightarrow> int option" where
  "sample_pick fp r cumsum [] = None"
| "sample_pick fp r cumsum (c # cs) =
     (let cumsum = f_add fp cumsum (tp_prob c)
      in if f32_le r cumsum then Some (tp_id c) else sample_pick fp r cumsum cs)"

definition sample_from :: "fpu \<Rightarrow> stl \<Rightarrow> token_prob list \<Rightarrow> nat \<Rightarrow> int \<times> nat" where
  "sample_from fp st candidates rng =
     (let tot = foldl (f_add fp) 0 (map tp_prob candidates); r = st_draw st rng tot
      in (case sample_pick fp r 0 candidates of Some t \<Rightarrow> t | None \<Rightarrow> tp_id (last candidates), Suc rng))"

definition greedy_step :: "f32 list \<Rightarrow> nat \<Rightarrow> int \<times> f32 \<Rightarrow> int \<times> f32" where
  "greedy_step logits i b =
     (if finite_bits (logits ! i) \<and> f32_lt (snd b) (logits ! i) then (int i, logits ! i) else b)"

definition sample_greedy :: "f32 list \<Rightarrow> int" where
  "sample_greedy logits = fst (fold (greedy_step logits) [0..<length logits] (0, f32_ninf))"

text \<open>The body of the scan that keeps the \<^verbatim>\<open>k\<close> largest scaled logits in a heap.\<close>

definition topk_step :: "fpu \<Rightarrow> stl \<Rightarrow> f32 list \<Rightarrow> f32 \<Rightarrow> nat \<Rightarrow> nat \<Rightarrow> token_prob list \<Rightarrow> token_prob list" where
  "topk_step fp st logits inv_t k i candidates =
     (if \<not> finite_bits (logits ! i) then candidates
      else
        let v = f_mul fp (logits ! i) inv_t; c = \<lparr>tp_id = int i, tp_prob = v\<rparr> in
        if length candidates < k then st_push_heap st (candidates @ [c])
        else if f32_lt (tp_prob (hd candidates)) v then st_push_heap st (butlast (st_pop_heap st candidates) @ [c])
        else candidates)"

definition softmax_cands :: "fpu \<Rightarrow> f32 \<Rightarrow> token_prob list \<Rightarrow> token_prob list" where
  "softmax_cands fp max_val cs = map (\<lambda>c. c\<lparr>tp_prob := f_exp fp (f_sub fp (tp_prob c) max_val)\<rparr>) cs"

definition scale_cands :: "fpu \<Rightarrow> f32 \<Rightarrow> token_prob list \<Rightarrow> token_prob list" where
  "scale_cands fp inv_sum cs = map (\<lambda>c. c\<lparr>tp_prob := f_mul fp (tp_prob c) inv_sum\<rparr>) cs"

definition sample_top_k_fast :: "fpu \<Rightarrow> stl \<Rightarrow> f32 list \<Rightarrow> gen_params \<Rightarrow> nat \<Rightarrow> int \<times> nat" where
  "sample_top_k_fast fp st logits params rng =
     (let k = gp_top_k params; vocab_size = length logits in
      if k \<le> 0 \<or> int vocab_size \<le> k then (- 1, rng)
      else
        let inv_t = (if f32_eq (gp_temperature params) f32_one then f32_one else f_div fp f32_one (gp_temperature params));
            candidates = fold (topk_step fp st logits inv_t (nat k)) [0..<vocab_size] [] in
        if candidates = [] then (sample_greedy logits, rng)
        else
          let candidates = st_sort st candidates;
              candidates = softmax_cands fp (tp_prob (hd candidates)) candidates;
              sum = foldl (f_add fp) 0 (map tp_prob candidates) in
          if \<not> finite_bits sum \<or> f32_le sum 0 then (sample_greedy logits, rng)
          else
            let candidates = scale_cands fp (f_div fp f32_one sum) candidates;
                n = top_p_filter fp candidates (gp_top_p params)
            in sample_from fp st (take n candidates) rng)"

definition max_element :: "f32 list \<Rightarrow> f32" where
  "max_element xs = fold (\<lambda>v m. if f32_lt m v then v else m) (tl xs) (hd xs)"

text \<open>The path over the whole vocabulary.\<close>

definition sample_full :: "fpu \<Rightarrow> stl \<Rightarrow> f32 list \<Rightarrow> gen_params \<Rightarrow> nat \<Rightarrow> int \<times> nat" where
  "sample_full fp st logits params rng =
     (let logits = apply_temperature fp logits (gp_temperature params);
          max_val = max_element logits in
      if \<not> finite_bits max_val then (0, rng)
      else
        let logits = map (\<lambda>v. f_exp fp (f_sub fp v max_val)) logits;
            sum = foldl (f_add fp) 0 logits in
        if \<not> finite_bits sum \<or> f32_le sum 0 then (sample_greedy logits, rng)
        else
          let inv_sum = f_div fp f32_one sum;
              candidates = map (\<lambda>i. \<lparr>tp_id = int i, tp_prob = f_mul fp (logits ! i) inv_sum\<rparr>) [0..<length logits];
              (candidates, n) = top_k_filter st candidates (gp_top_k params);
              n = top_p_filter fp (take n candidates) (gp_top_p params)
          in sample_from fp st (take n candidates) rng)"

definition sample_token :: "fpu \<Rightarrow> stl \<Rightarrow> env \<Rightarrow> f32 list \<Rightarrow> gen_params \<Rightarrow> int list \<Rightarrow> nat \<Rightarrow> int \<times> nat" where
  "sample_token fp st e logits params recent_tokens rng =
     (let debug = debug_kernels_enabled e;
          greedy = f32_le (gp_temperature params) 0;
          penalised = apply_repeat_penalty fp logits recent_tokens (gp_repeat_penalty params);
          sanitise = map (\<lambda>v. if finite_bits v then v else f32_ninf) in
      if \<not> debug then
        (if greedy then (sample_greedy logits, rng)
         else
           let fast = sample_top_k_fast fp st penalised params rng in
           if fast_sample_enabled e \<and> 0 \<le> fst fast then fast
           else
             let logits = sanitise penalised;
                 again = sample_top_k_fast fp st logits params (if fast_sample_enabled e then snd fast else rng)
             in if fast_sample_enabled e \<and> 0 \<le> fst again then again
                else sample_full fp st logits params (if fast_sample_enabled e then snd again else rng))
      else
        let logits = sanitise logits in
        if greedy then (sample_greedy logits, rng)
        else
          let logits = apply_repeat_penalty fp logits recent_tokens (gp_repeat_penalty params);
              fast = sample_top_k_fast fp st logits params rng
          in if fast_sample_enabled e \<and> 0 \<le> fst fast then fast
             else sample_full fp st logits params (if fast_sample_enabled e then snd fast else rng))"

section \<open>The library\<close>

text \<open>The standard's \<^verbatim>\<open>is_heap\<close> for the comparison \<^verbatim>\<open>a.prob > b.prob\<close>: no element is above its
  children. The algorithms rearrange their range; their ordering guarantees need a strict weak order,
  which the comparison is when no probability is a NaN.\<close>

definition no_nan :: "token_prob list \<Rightarrow> bool" where
  "no_nan cs \<longleftrightarrow> (\<forall>c \<in> set cs. \<not> f32_is_nan (tp_prob c))"

definition min_heap :: "token_prob list \<Rightarrow> bool" where
  "min_heap cs \<longleftrightarrow> (\<forall>i < length cs. 0 < i \<longrightarrow> \<not> f32_lt (tp_prob (cs ! i)) (tp_prob (cs ! ((i - 1) div 2))))"

definition stl_ok :: "stl \<Rightarrow> bool" where
  "stl_ok st \<longleftrightarrow>
     (\<forall>cs. mset (st_sort st cs) = mset cs \<and>
        (no_nan cs \<longrightarrow> sorted_wrt (\<lambda>a b. \<not> f32_lt (tp_prob a) (tp_prob b)) (st_sort st cs))) \<and>
     (\<forall>k cs. mset (st_partial_sort st k cs) = mset cs) \<and>
     (\<forall>cs. mset (st_push_heap st cs) = mset cs \<and>
        (cs \<noteq> [] \<and> no_nan cs \<and> min_heap (butlast cs) \<longrightarrow> min_heap (st_push_heap st cs))) \<and>
     (\<forall>cs. mset (st_pop_heap st cs) = mset cs \<and>
        (cs \<noteq> [] \<and> no_nan cs \<and> min_heap cs \<longrightarrow> min_heap (butlast (st_pop_heap st cs)) \<and> last (st_pop_heap st cs) = hd cs))"

lemma stl_msets:
  assumes "stl_ok st"
  shows "mset (st_sort st cs) = mset cs" "mset (st_partial_sort st k cs) = mset cs" "mset (st_push_heap st cs) = mset cs"
    "mset (st_pop_heap st cs) = mset cs"
  using assms by (auto simp: stl_ok_def)

lemma stl_sets:
  assumes "stl_ok st"
  shows "set (st_sort st cs) = set cs" "set (st_partial_sort st k cs) = set cs" "set (st_push_heap st cs) = set cs"
    "set (st_pop_heap st cs) = set cs" "length (st_push_heap st cs) = length cs" "length (st_pop_heap st cs) = length cs"
    "length (st_sort st cs) = length cs" "length (st_partial_sort st k cs) = length cs"
  using stl_msets [OF assms, THEN mset_eq_setD] stl_msets [OF assms, THEN mset_eq_length] by auto

section \<open>Every sampled token is in the vocabulary\<close>

definition ids_below :: "nat \<Rightarrow> token_prob list \<Rightarrow> bool" where
  "ids_below n cs \<longleftrightarrow> (\<forall>c \<in> set cs. 0 \<le> tp_id c \<and> tp_id c < int n)"

lemma fold_invariant_upt: "P x \<Longrightarrow> (\<And>i x. i < n \<Longrightarrow> P x \<Longrightarrow> P (f i x)) \<Longrightarrow> P (fold f [0..<n] x)"
  by (induction n) auto

lemma sample_greedy_range: "logits \<noteq> [] \<Longrightarrow> 0 \<le> sample_greedy logits \<and> sample_greedy logits < int (length logits)"
  unfolding sample_greedy_def
  by (rule fold_invariant_upt [where P = "\<lambda>b. 0 \<le> fst b \<and> fst b < int (length logits)"]) (auto simp: greedy_step_def)

lemma length_repeat_penalty [simp]: "length (apply_repeat_penalty fp logits recent p) = length logits"
proof -
  have "length (fold (\<lambda>tok ls. ls[nat tok := h (ls ! nat tok)]) recent ls) = length ls" for h :: "f32 \<Rightarrow> f32" and ls
    by (induction recent arbitrary: ls) auto
  from this [of "\<lambda>v. if f32_lt 0 v then f_div fp v p else f_mul fp v p"] show ?thesis
    by (simp add: apply_repeat_penalty_def Let_def)
qed

lemma length_temperature [simp]: "length (apply_temperature fp logits t) = length logits"
  by (simp add: apply_temperature_def Let_def)

lemma top_p_cut_bounds: "cs \<noteq> [] \<Longrightarrow> i < top_p_cut fp p i s cs \<and> top_p_cut fp p i s cs \<le> i + length cs"
proof (induction cs arbitrary: i s)
  case (Cons c cs)
  show ?case
  proof (cases "cs = []")
    case False
    from Cons.IH [OF this, of "i + 1" "f_add fp s (tp_prob c)"] show ?thesis by (auto simp: Let_def)
  qed (simp add: Let_def)
qed simp

lemma sample_pick_mem: "sample_pick fp r s cs = Some t \<Longrightarrow> \<exists>c \<in> set cs. t = tp_id c"
  by (induction cs arbitrary: s) (auto simp: Let_def split: if_splits)

lemma sample_from_mem: "cs \<noteq> [] \<Longrightarrow> \<exists>c \<in> set cs. fst (sample_from fp st cs rng) = tp_id c"
  using sample_pick_mem [of fp _ 0 cs] by (auto simp: sample_from_def Let_def split: option.split)

lemma nucleus_mem: "cs \<noteq> [] \<Longrightarrow> \<exists>c \<in> set cs. fst (sample_from fp st (take (top_p_filter fp cs p) cs) rng) = tp_id c"
proof -
  assume ne: "cs \<noteq> []"
  have "take (top_p_filter fp cs p) cs \<noteq> []" using top_p_cut_bounds [OF ne, of 0 fp p 0] ne by (simp add: top_p_filter_def)
  from sample_from_mem [OF this, of fp st rng] show ?thesis by (auto dest: in_set_takeD)
qed

lemma top_k_filter_facts:
  assumes "stl_ok st" "cs \<noteq> []"
  shows "set (fst (top_k_filter st cs k)) = set cs" "fst (top_k_filter st cs k) \<noteq> []" "0 < snd (top_k_filter st cs k)"
proof -
  have "st_partial_sort st j cs \<noteq> []" for j using stl_sets(8) [OF assms(1), of j cs] assms(2) by (metis length_0_conv)
  then show "set (fst (top_k_filter st cs k)) = set cs" "fst (top_k_filter st cs k) \<noteq> []" "0 < snd (top_k_filter st cs k)"
    using stl_sets(2) [OF assms(1)] assms(2) by (auto simp: top_k_filter_def Let_def)
qed

lemma topk_scan_ids:
  assumes "stl_ok st"
  shows "ids_below (length logits) (fold (topk_step fp st logits inv_t k) [0..<length logits] [])"
proof (rule fold_invariant_upt)
  fix i cs assume i: "i < length logits" and cs: "ids_below (length logits) cs"
  have "set (butlast (st_pop_heap st cs)) \<subseteq> set cs" using stl_sets(4) [OF assms] by (auto dest: in_set_butlastD)
  then show "ids_below (length logits) (topk_step fp st logits inv_t k i cs)"
    using i cs stl_sets(3) [OF assms] by (auto simp: topk_step_def ids_below_def Let_def)
qed (simp add: ids_below_def)

lemma softmax_scale_ids [simp]:
  "tp_id ` set (softmax_cands fp m cs) = tp_id ` set cs" "tp_id ` set (scale_cands fp m cs) = tp_id ` set cs"
  "softmax_cands fp m cs = [] \<longleftrightarrow> cs = []" "scale_cands fp m cs = [] \<longleftrightarrow> cs = []"
  by (simp_all add: softmax_cands_def scale_cands_def image_image)

lemma fast_path_cases:
  assumes "stl_ok st" "fst (sample_top_k_fast fp st logits params rng) \<noteq> - 1"
  defines "inv_t \<equiv> (if f32_eq (gp_temperature params) f32_one then f32_one else f_div fp f32_one (gp_temperature params))"
  shows "fst (sample_top_k_fast fp st logits params rng) = sample_greedy logits \<or>
    fst (sample_top_k_fast fp st logits params rng) \<in> tp_id ` set (fold (topk_step fp st logits inv_t (nat (gp_top_k params))) [0..<length logits] [])"
proof -
  define cs where "cs = fold (topk_step fp st logits inv_t (nat (gp_top_k params))) [0..<length logits] []"
  define ss where "ss = st_sort st cs"
  define ms where "ms = softmax_cands fp (tp_prob (hd ss)) ss"
  define ns where "ns = scale_cands fp (f_div fp f32_one (foldl (f_add fp) 0 (map tp_prob ms))) ms"
  have set: "set ss = set cs" "cs = [] \<longleftrightarrow> ss = []" using stl_sets(1,7) [OF assms(1), of cs] by (auto simp: ss_def)
  have ids: "tp_id ` set ns = tp_id ` set cs" and ne: "ns = [] \<longleftrightarrow> cs = []" using set by (auto simp: ns_def ms_def)
  have k: "\<not> (gp_top_k params \<le> 0 \<or> int (length logits) \<le> gp_top_k params)"
    using assms(2) by (auto simp: sample_top_k_fast_def)
  have "fst (sample_top_k_fast fp st logits params rng) = sample_greedy logits \<or>
    cs \<noteq> [] \<and> fst (sample_top_k_fast fp st logits params rng) = fst (sample_from fp st (take (top_p_filter fp ns (gp_top_p params)) ns) rng)"
    unfolding sample_top_k_fast_def Let_def if_not_P [OF k] inv_t_def [symmetric] cs_def [symmetric] ss_def [symmetric] ms_def [symmetric]
      ns_def [symmetric] by simp
  moreover have "cs \<noteq> [] \<Longrightarrow> fst (sample_from fp st (take (top_p_filter fp ns (gp_top_p params)) ns) rng) \<in> tp_id ` set cs"
    using nucleus_mem [of ns fp st "gp_top_p params" rng] ne ids by auto
  ultimately show ?thesis unfolding cs_def [symmetric] by auto
qed

lemma sample_full_range:
  assumes "stl_ok st" "logits \<noteq> []"
  shows "0 \<le> fst (sample_full fp st logits params rng) \<and> fst (sample_full fp st logits params rng) < int (length logits)"
proof -
  define ls where "ls = apply_temperature fp logits (gp_temperature params)"
  define es where "es = map (\<lambda>v. f_exp fp (f_sub fp v (max_element ls))) ls"
  define cs where "cs = map (\<lambda>i. \<lparr>tp_id = int i, tp_prob = f_mul fp (es ! i) (f_div fp f32_one (foldl (f_add fp) 0 es))\<rparr>) [0..<length es]"
  have len: "length es = length logits" "es \<noteq> []"
    using assms(2) length_temperature [of fp logits "gp_temperature params"] by (auto simp: es_def ls_def simp del: length_temperature)
  have cs_ne: "cs \<noteq> []" using len assms(2) by (simp add: cs_def)
  have tk: "set (take (snd (top_k_filter st cs k)) (fst (top_k_filter st cs k))) \<subseteq> set cs"
    "take (snd (top_k_filter st cs k)) (fst (top_k_filter st cs k)) \<noteq> []" for k
    using top_k_filter_facts [OF assms(1) cs_ne, of k] by (auto dest: in_set_takeD)
  have ids: "0 \<le> tp_id c \<and> tp_id c < int (length logits)" if "c \<in> set cs" for c using that len by (auto simp: cs_def)
  define ts where "ts = take (snd (top_k_filter st cs (gp_top_k params))) (fst (top_k_filter st cs (gp_top_k params)))"
  have nuc: "0 \<le> fst (sample_from fp st (take (top_p_filter fp ts (gp_top_p params)) cs') rng) \<and>
      fst (sample_from fp st (take (top_p_filter fp ts (gp_top_p params)) cs') rng) < int (length logits)"
    if "cs' = fst (top_k_filter st cs (gp_top_k params))" for cs'
  proof -
    have "top_p_filter fp ts (gp_top_p params) \<le> length ts"
      using top_p_cut_bounds [OF tk(2), of 0 fp "gp_top_p params" 0] unfolding top_p_filter_def ts_def by simp
    then have "take (top_p_filter fp ts (gp_top_p params)) cs' = take (top_p_filter fp ts (gp_top_p params)) ts"
      unfolding that ts_def take_take by (simp add: min_absorb1)
    moreover obtain c where "c \<in> set ts" "fst (sample_from fp st (take (top_p_filter fp ts (gp_top_p params)) ts) rng) = tp_id c"
      using nucleus_mem [OF tk(2) [of "gp_top_k params", folded ts_def]] by blast
    moreover have "c \<in> set cs" using tk(1) \<open>c \<in> set ts\<close> unfolding ts_def by blast
    ultimately show ?thesis using ids by simp
  qed
  show ?thesis
    unfolding sample_full_def Let_def ls_def [symmetric] es_def [symmetric] cs_def [symmetric]
    using nuc sample_greedy_range [OF len(2)] assms(2) len(1) by (simp add: split_beta ts_def)
qed

lemma sample_token_range:
  assumes "stl_ok st" and "logits \<noteq> []"
  shows "0 \<le> fst (sample_token fp st e logits params recent rng) \<and>
    fst (sample_token fp st e logits params recent rng) < int (length logits)"
proof -
  have ne: "ls \<noteq> []" if "length ls = length logits" for ls :: "f32 list" using that assms(2) by (metis length_0_conv)
  have fast: "fst (sample_top_k_fast fp st ls params r) < int (length logits)" if "length ls = length logits" for ls r
  proof (cases "fst (sample_top_k_fast fp st ls params r) = - 1")
    case False
    from ne [OF that] fast_path_cases [OF assms(1) False] sample_greedy_range [of ls] topk_scan_ids [OF assms(1), of ls] that
    show ?thesis by (fastforce simp: ids_below_def)
  qed simp
  have full: "0 \<le> fst (sample_full fp st ls params r) \<and> fst (sample_full fp st ls params r) < int (length logits)"
    if "length ls = length logits" for ls r
    using sample_full_range [OF assms(1) ne [OF that], of fp params r] that by simp
  have greedy: "0 \<le> sample_greedy ls \<and> sample_greedy ls < int (length logits)" if "length ls = length logits" for ls
    using sample_greedy_range [OF ne [OF that]] that by simp
  show ?thesis unfolding sample_token_def Let_def by (auto simp: fast full greedy)
qed



section \<open>Greedy decoding\<close>

lemma exponent_mask: "(0x7F800000 :: f32) = push_bit 23 (mask 8)" "(0x7FFFFFFF :: f32) = mask 31"
  by (simp_all add: mask_eq_exp_minus_1 push_bit_eq_mult)

lemma finite_below_infinity:
  assumes "finite_bits v"
  shows "uint (v AND 0x7FFFFFFF) < 0x7F800000"
proof (rule ccontr)
  define m where "m = take_bit 31 v"
  assume "\<not> uint (v AND 0x7FFFFFFF) < 0x7F800000"
  then have "0x7F800000 \<le> uint m" unfolding exponent_mask(2) m_def take_bit_eq_mask by simp
  moreover have "uint m < 2 ^ 31" unfolding m_def unsigned_take_bit_eq by (rule take_bit_int_less_exp)
  ultimately have "uint m div 2 ^ 23 = 255" using zdiv_mono1 [of "0x7F800000" "uint m" "2 ^ 23"] zdiv_mono1 [of "uint m" "2 ^ 31 - 1" "2 ^ 23"] by simp
  then have d: "drop_bit 23 m = mask 8"
    by (simp add: word_uint_eq_iff drop_bit_eq_div uint_div mask_eq_exp_minus_1)
  have "v AND push_bit 23 (mask 8) = push_bit 23 (mask 8)"
  proof (rule bit_word_eqI)
    fix n assume "n < LENGTH(32)"
    show "bit (v AND push_bit 23 (mask 8)) n = bit (push_bit 23 (mask 8) :: f32) n"
    proof (cases "23 \<le> n \<and> n < 31")
      case True
      then have "bit (drop_bit 23 m) (n - 23)" unfolding d by (auto simp: bit_simps)
      then have "bit v n" using True by (simp add: m_def bit_simps)
      then show ?thesis by (simp add: bit_simps)
    next
      case False
      then have "\<not> bit (push_bit 23 (mask 8) :: f32) n" by (auto simp: bit_simps)
      then show ?thesis by (simp only: bit_and_iff simp_thms)
    qed
  qed
  then show False using assms unfolding finite_bits_def exponent_mask(1) by simp
qed

lemma finite_not_nan: "finite_bits v \<Longrightarrow> \<not> f32_is_nan v"
  by (simp add: finite_bits_def f32_is_nan_def)

lemma ninf_below_finite: "finite_bits v \<Longrightarrow> f32_lt f32_ninf v"
proof -
  assume v: "finite_bits v"
  have "f32_key f32_ninf = - 0x7F800000" "\<not> f32_is_nan f32_ninf" by (simp_all add: f32_key_def f32_ninf_def f32_is_nan_def)
  moreover have "f32_key v = - uint (v AND 0x7FFFFFFF) \<or> f32_key v = uint (v AND 0x7FFFFFFF)" by (simp add: f32_key_def)
  then have "- 0x7F800000 < f32_key v" using finite_below_infinity [OF v] uint_ge_0 [of "v AND 0x7FFFFFFF"] by linarith
  ultimately show ?thesis using finite_not_nan [OF v] by (simp add: f32_lt_def)
qed

lemma f32_lt_below: "\<not> f32_lt a b \<Longrightarrow> f32_lt a c \<Longrightarrow> \<not> f32_is_nan b \<Longrightarrow> f32_lt b c"
  by (auto simp: f32_lt_def)

lemma f32_lt_asym: "f32_lt a b \<Longrightarrow> \<not> f32_lt b a"
  by (simp add: f32_lt_def)

lemma f32_not_lt_trans: "\<not> f32_lt a b \<Longrightarrow> \<not> f32_lt b c \<Longrightarrow> \<not> f32_is_nan b \<Longrightarrow> \<not> f32_lt a c"
  by (auto simp: f32_lt_def)

definition greedy_best :: "f32 list \<Rightarrow> nat \<Rightarrow> int \<times> f32 \<Rightarrow> bool" where
  "greedy_best logits m b \<longleftrightarrow>
     (if \<forall>i < m. \<not> finite_bits (logits ! i) then b = (0, f32_ninf)
      else \<exists>j < m. b = (int j, logits ! j) \<and> finite_bits (logits ! j) \<and>
        (\<forall>i < m. finite_bits (logits ! i) \<longrightarrow> \<not> f32_lt (logits ! j) (logits ! i)) \<and>
        (\<forall>i < j. finite_bits (logits ! i) \<longrightarrow> f32_lt (logits ! i) (logits ! j)))"

lemma greedy_step_best:
  assumes "greedy_best logits m b"
  shows "greedy_best logits (Suc m) (greedy_step logits m b)"
proof (cases "\<forall>i < m. \<not> finite_bits (logits ! i)")
  case True
  then have b: "b = (0, f32_ninf)" using assms by (simp add: greedy_best_def)
  show ?thesis
  proof (cases "finite_bits (logits ! m)")
    case fin: True
    then have "greedy_step logits m b = (int m, logits ! m)" using ninf_below_finite by (simp add: greedy_step_def b)
    moreover have "\<not> f32_lt (logits ! m) (logits ! m)" by (simp add: f32_lt_def)
    ultimately show ?thesis using True fin unfolding greedy_best_def by (auto simp: less_Suc_eq)
  next
    case False
    then show ?thesis using True by (auto simp: greedy_best_def greedy_step_def b less_Suc_eq)
  qed
next
  case False
  then obtain j where j: "j < m" "b = (int j, logits ! j)" "finite_bits (logits ! j)"
    "\<forall>i < m. finite_bits (logits ! i) \<longrightarrow> \<not> f32_lt (logits ! j) (logits ! i)"
    "\<forall>i < j. finite_bits (logits ! i) \<longrightarrow> f32_lt (logits ! i) (logits ! j)"
    using assms [unfolded greedy_best_def if_not_P [OF False]] by blast
  have ex: "\<not> (\<forall>i < Suc m. \<not> finite_bits (logits ! i))" using j(1,3) by (auto intro: exI [of _ j])
  show ?thesis
  proof (cases "finite_bits (logits ! m) \<and> f32_lt (logits ! j) (logits ! m)")
    case True
    then have "f32_lt (logits ! i) (logits ! m)" if "i < m" "finite_bits (logits ! i)" for i
      using f32_lt_below [of "logits ! j" "logits ! i" "logits ! m"] j(4) that finite_not_nan [OF that(2)] by simp
    moreover from this have "\<not> f32_lt (logits ! m) (logits ! i)" if "i < Suc m" "finite_bits (logits ! i)" for i
      using that f32_lt_asym by (cases "i = m") (auto simp: less_Suc_eq)
    ultimately show ?thesis unfolding greedy_best_def if_not_P [OF ex] using True
      by (intro exI [of _ m]) (auto simp: greedy_step_def j(2))
  next
    case no: False
    then have "greedy_step logits m b = b" by (auto simp: greedy_step_def j(2))
    moreover have "\<forall>i < Suc m. finite_bits (logits ! i) \<longrightarrow> \<not> f32_lt (logits ! j) (logits ! i)"
      using no j(4) by (auto simp: less_Suc_eq)
    ultimately show ?thesis unfolding greedy_best_def if_not_P [OF ex] using j by (intro exI [of _ j]) auto
  qed
qed

lemma sample_greedy_best: "greedy_best logits (length logits) (fold (greedy_step logits) [0..<length logits] (0, f32_ninf))"
proof -
  have "greedy_best logits m (fold (greedy_step logits) [0..<m] (0, f32_ninf))" for m
    by (induction m) (simp add: greedy_best_def, simp add: greedy_step_best)
  then show ?thesis .
qed

text \<open>(C17) At temperature 0 the token is the first of the largest finite logits, in debug mode as well
  as without; infinities and NaNs are never chosen while there is a finite logit, and when there is none
  the token is 0.\<close>

theorem greedy_is_first_argmax:
  assumes "f32_le (gp_temperature params) 0"
  shows "\<exists>j. fst (sample_token fp st e logits params recent rng) = int j \<and>
    (if \<forall>v \<in> set logits. \<not> finite_bits v then j = 0
     else j < length logits \<and> finite_bits (logits ! j) \<and>
       (\<forall>i < length logits. finite_bits (logits ! i) \<longrightarrow> \<not> f32_lt (logits ! j) (logits ! i)) \<and>
       (\<forall>i < j. finite_bits (logits ! i) \<longrightarrow> f32_lt (logits ! i) (logits ! j)))"
proof -
  let ?san = "map (\<lambda>v. if finite_bits v then v else f32_ninf) logits"
  have nf: "\<not> finite_bits f32_ninf" by (simp add: finite_bits_def f32_ninf_def)
  have fb: "finite_bits (?san ! i) = finite_bits (logits ! i)" "finite_bits (logits ! i) \<Longrightarrow> ?san ! i = logits ! i"
    if "i < length logits" for i using that nf by auto
  have "greedy_step ?san i b = greedy_step logits i b" if "i < length logits" for i b
    using that fb by (simp only: greedy_step_def) (cases "finite_bits (logits ! i)"; simp)
  then have "fold (greedy_step ?san) [0..<length logits] b = fold (greedy_step logits) [0..<length logits] b" for b
    by (intro fold_cong) auto
  then have same: "sample_greedy ?san = sample_greedy logits" by (simp add: sample_greedy_def)
  have "fst (sample_token fp st e logits params recent rng) = sample_greedy logits"
    using assms same by (simp add: sample_token_def Let_def)
  moreover have "(\<forall>v \<in> set logits. \<not> finite_bits v) \<longleftrightarrow> (\<forall>i < length logits. \<not> finite_bits (logits ! i))"
    unfolding all_set_conv_all_nth ..
  ultimately show ?thesis using sample_greedy_best [of logits]
    by (auto simp: greedy_best_def sample_greedy_def split: if_splits)
qed

section \<open>Top-k\<close>

lemma heap_root_min:
  assumes "min_heap cs" "no_nan cs"
  shows "i < length cs \<Longrightarrow> \<not> f32_lt (tp_prob (cs ! i)) (tp_prob (cs ! 0))"
proof (induction i rule: less_induct)
  case (less i)
  show ?case
  proof (cases "i = 0")
    case False
    let ?j = "(i - 1) div 2"
    have j: "?j < i" using False by simp
    then have "\<not> f32_lt (tp_prob (cs ! ?j)) (tp_prob (cs ! 0))" using less by simp
    moreover have "\<not> f32_lt (tp_prob (cs ! i)) (tp_prob (cs ! ?j))" using assms(1) less.prems False by (simp add: min_heap_def)
    moreover have "\<not> f32_is_nan (tp_prob (cs ! ?j))" using assms(2) less.prems j by (auto simp: no_nan_def)
    ultimately show ?thesis by (auto simp: f32_lt_def)
  qed (simp add: f32_lt_def)
qed

lemma heap_hd_min: "min_heap cs \<Longrightarrow> no_nan cs \<Longrightarrow> c \<in> set cs \<Longrightarrow> \<not> f32_lt (tp_prob c) (tp_prob (hd cs))"
  using heap_root_min [of cs] hd_conv_nth [of cs] by (metis in_set_conv_nth length_pos_if_in_set length_greater_0_conv)

text \<open>What the scan has kept of the first \<^verbatim>\<open>m\<close> logits; \<^verbatim>\<open>v i\<close> is the scaled logit.\<close>

definition kept_ok :: "f32 list \<Rightarrow> (nat \<Rightarrow> f32) \<Rightarrow> nat \<Rightarrow> nat \<Rightarrow> token_prob list \<Rightarrow> bool" where
  "kept_ok logits v k m cs \<longleftrightarrow> min_heap cs \<and> length cs \<le> k \<and> distinct (map tp_id cs) \<and>
     (\<forall>c \<in> set cs. \<exists>i < m. tp_id c = int i \<and> finite_bits (logits ! i) \<and> tp_prob c = v i) \<and>
     (\<forall>i < m. finite_bits (logits ! i) \<longrightarrow> int i \<notin> tp_id ` set cs \<longrightarrow> length cs = k \<and> (\<forall>c \<in> set cs. \<not> f32_lt (tp_prob c) (v i)))"

lemma kept_no_nan:
  assumes "kept_ok logits v k m cs" "\<And>i. i < m \<Longrightarrow> finite_bits (logits ! i) \<Longrightarrow> \<not> f32_is_nan (v i)"
  shows "no_nan cs"
  using assms by (fastforce simp: kept_ok_def no_nan_def)

lemma kept_push:
  assumes st: "stl_ok st" and c: "c = \<lparr>tp_id = int m, tp_prob = v m\<rparr>" "finite_bits (logits ! m)"
    and nan: "\<And>i. i < Suc m \<Longrightarrow> finite_bits (logits ! i) \<Longrightarrow> \<not> f32_is_nan (v i)"
    and rest: "min_heap cs" "length cs < k" "distinct (map tp_id cs)"
      "\<forall>c \<in> set cs. \<exists>i < m. tp_id c = int i \<and> finite_bits (logits ! i) \<and> tp_prob c = v i"
    and drop: "\<forall>i < m. finite_bits (logits ! i) \<longrightarrow> int i \<notin> tp_id ` set cs \<longrightarrow>
      Suc (length cs) = k \<and> (\<forall>c \<in> set cs. \<not> f32_lt (tp_prob c) (v i)) \<and> \<not> f32_lt (v m) (v i)"
  shows "kept_ok logits v k (Suc m) (st_push_heap st (cs @ [c]))"
proof -
  let ?new = "st_push_heap st (cs @ [c])"
  have ms: "mset ?new = mset (cs @ [c])" by (rule stl_msets(3) [OF st])
  have set: "set ?new = insert c (set cs)" "length ?new = Suc (length cs)" using stl_sets(3,5) [OF st, of "cs @ [c]"] by auto
  have nn: "no_nan (cs @ [c])" using rest(4) nan c less_SucI by (fastforce simp: no_nan_def)
  have "min_heap ?new" using st nn rest(1) by (simp add: stl_ok_def)
  moreover have "distinct (map tp_id ?new)"
  proof -
    have "mset (map tp_id ?new) = mset (map tp_id (cs @ [c]))" using ms by (simp only: mset_map)
    moreover have "int m \<notin> tp_id ` set cs" using rest(4) by fastforce
    then have "distinct (map tp_id (cs @ [c]))" using rest(3) c(1) by simp
    ultimately show ?thesis using mset_eq_imp_distinct_iff by blast
  qed
  moreover have "\<forall>c \<in> set ?new. \<exists>i < Suc m. tp_id c = int i \<and> finite_bits (logits ! i) \<and> tp_prob c = v i"
    using rest(4) c less_SucI unfolding set by fastforce
  moreover have "length ?new = k \<and> (\<forall>c \<in> set ?new. \<not> f32_lt (tp_prob c) (v i))"
    if "i < Suc m" "finite_bits (logits ! i)" "int i \<notin> tp_id ` set ?new" for i
  proof -
    have "i \<noteq> m" "int i \<notin> tp_id ` set cs" using that(3) c(1) unfolding set by auto
    then show ?thesis using drop [rule_format, of i] that(1,2) c(1) unfolding set by simp
  qed
  ultimately show ?thesis using rest(2) unfolding kept_ok_def set(2) by auto
qed

lemma kept_step:
  assumes st: "stl_ok st" and k: "0 < k" and nan: "\<And>i. i < Suc m \<Longrightarrow> finite_bits (logits ! i) \<Longrightarrow> \<not> f32_is_nan (f_mul fp (logits ! i) inv_t)"
    and ok: "kept_ok logits (\<lambda>i. f_mul fp (logits ! i) inv_t) k m cs"
  shows "kept_ok logits (\<lambda>i. f_mul fp (logits ! i) inv_t) k (Suc m) (topk_step fp st logits inv_t k m cs)"
proof -
  let ?v = "\<lambda>i. f_mul fp (logits ! i) inv_t" and ?c = "\<lparr>tp_id = int m, tp_prob = f_mul fp (logits ! m) inv_t\<rparr>"
  have nn: "no_nan cs" using kept_no_nan [OF ok] nan by simp
  have old: "\<forall>c \<in> set cs. \<exists>i < m. tp_id c = int i \<and> finite_bits (logits ! i) \<and> tp_prob c = ?v i"
    and heap: "min_heap cs" and dist: "distinct (map tp_id cs)" and len: "length cs \<le> k"
    and drop: "\<forall>i < m. finite_bits (logits ! i) \<longrightarrow> int i \<notin> tp_id ` set cs \<longrightarrow> length cs = k \<and> (\<forall>c \<in> set cs. \<not> f32_lt (tp_prob c) (?v i))"
    using ok by (auto simp: kept_ok_def)
  note hmin = heap_hd_min [OF heap nn]
  consider "\<not> finite_bits (logits ! m)" | "finite_bits (logits ! m)" "length cs < k"
    | "finite_bits (logits ! m)" "length cs = k" "f32_lt (tp_prob (hd cs)) (?v m)"
    | "finite_bits (logits ! m)" "length cs = k" "\<not> f32_lt (tp_prob (hd cs)) (?v m)" using len by linarith
  then show ?thesis
  proof cases
    case 1
    then show ?thesis using ok less_SucI unfolding kept_ok_def topk_step_def by (auto simp: less_Suc_eq)
  next
    case 2
    then show ?thesis using kept_push [OF st refl 2(1) nan heap 2(2) dist old] drop by (simp add: topk_step_def Let_def)
  next
    case 3
    have ne: "cs \<noteq> []" using 3(2) k by auto
    let ?r = "butlast (st_pop_heap st cs)"
    have pop: "min_heap ?r" "last (st_pop_heap st cs) = hd cs" using st ne nn heap by (auto simp: stl_ok_def)
    have "st_pop_heap st cs \<noteq> []" using stl_sets(6) [OF st, of cs] ne by auto
    then have split: "st_pop_heap st cs = ?r @ [hd cs]" using append_butlast_last_id pop(2) by metis
    have ms: "mset cs = mset (?r @ [hd cs])" using stl_msets(4) [OF st, of cs] split by simp
    have set: "set cs = insert (hd cs) (set ?r)" using mset_eq_setD [OF ms] by simp
    have lr: "Suc (length ?r) = k" using mset_eq_length [OF ms] 3(2) by simp
    have "mset (map tp_id cs) = mset (map tp_id (?r @ [hd cs]))" using ms by (simp only: mset_map)
    then have dr: "distinct (map tp_id (?r @ [hd cs]))" using mset_eq_imp_distinct_iff dist by blast
    have below: "(\<forall>c \<in> set ?r. \<not> f32_lt (tp_prob c) (?v i)) \<and> \<not> f32_lt (?v m) (?v i)"
      if i: "i < m" "finite_bits (logits ! i)" "int i \<notin> tp_id ` set ?r" for i
    proof (cases "int i = tp_id (hd cs)")
      case True
      then have "tp_prob (hd cs) = ?v i" using old ne by (metis hd_in_set of_nat_eq_iff)
      then show ?thesis using hmin set 3(3) by (auto simp: f32_lt_def)
    next
      case False
      then have "int i \<notin> tp_id ` set cs" using i(3) unfolding set by simp
      then have "\<forall>c \<in> set cs. \<not> f32_lt (tp_prob c) (?v i)" using drop i by blast
      then show ?thesis using set 3(3) nan [of i] i by (auto simp: f32_lt_def)
    qed
    have "topk_step fp st logits inv_t k m cs = st_push_heap st (?r @ [?c])" using 3 by (simp add: topk_step_def Let_def)
    moreover have "kept_ok logits ?v k (Suc m) (st_push_heap st (?r @ [?c]))"
      using below lr old set dr by (intro kept_push [OF st refl 3(1) nan pop(1)]) auto
    ultimately show ?thesis by simp
  next
    case 4
    have ne: "cs \<noteq> []" using 4(2) k by auto
    have "\<not> f32_is_nan (tp_prob (hd cs))" using nn ne by (simp add: no_nan_def)
    then have "\<forall>c \<in> set cs. \<not> f32_lt (tp_prob c) (?v m)" using f32_not_lt_trans [OF hmin 4(3)] by blast
    then show ?thesis using ok 4 less_SucI unfolding kept_ok_def by (auto simp: topk_step_def Let_def less_Suc_eq)
  qed
qed

lemma topk_scan_kept:
  assumes "stl_ok st" "0 < k" "\<forall>l \<in> set logits. finite_bits l \<longrightarrow> \<not> f32_is_nan (f_mul fp l inv_t)"
  shows "kept_ok logits (\<lambda>i. f_mul fp (logits ! i) inv_t) k (length logits) (fold (topk_step fp st logits inv_t k) [0..<length logits] [])"
proof -
  have "m \<le> length logits \<Longrightarrow> kept_ok logits (\<lambda>i. f_mul fp (logits ! i) inv_t) k m (fold (topk_step fp st logits inv_t k) [0..<m] [])" for m
  proof (induction m)
    case (Suc m)
    have "\<not> f32_is_nan (f_mul fp (logits ! i) inv_t)" if "i < Suc m" "finite_bits (logits ! i)" for i
      using assms(3) Suc.prems that by simp
    from kept_step [OF assms(1,2) this] Suc show ?case by simp
  qed (simp add: kept_ok_def min_heap_def)
  then show ?thesis by blast
qed


section \<open>A concrete library\<close>

definition by_prob :: "token_prob list \<Rightarrow> token_prob list" where
  "by_prob cs = sort_key (\<lambda>c. f32_key (tp_prob c)) cs"

definition demo_stl :: stl where
  "demo_stl = \<lparr>st_sort = (\<lambda>cs. rev (by_prob cs)), st_partial_sort = (\<lambda>k cs. rev (by_prob cs)),
     st_push_heap = by_prob, st_pop_heap = (\<lambda>cs. if cs = [] then [] else by_prob (tl cs) @ [hd cs]), st_draw = (\<lambda>n t. t)\<rparr>"

lemma by_prob_sorted: "sorted_wrt (\<lambda>a b. f32_key (tp_prob a) \<le> f32_key (tp_prob b)) (by_prob cs)" "mset (by_prob cs) = mset cs"
  using sorted_sort_key [of "\<lambda>c. f32_key (tp_prob c)" cs] by (simp_all add: by_prob_def sorted_map)

lemma by_prob_heap: "min_heap (by_prob cs)"
proof -
  have "f32_key (tp_prob (by_prob cs ! ((i - 1) div 2))) \<le> f32_key (tp_prob (by_prob cs ! i))" if "i < length (by_prob cs)" "0 < i" for i
    using sorted_wrt_nth_less [OF by_prob_sorted(1) [of cs], of "(i - 1) div 2" i] that by simp
  then show ?thesis by (auto simp: min_heap_def f32_lt_def not_less)
qed

lemma demo_stl_ok: "stl_ok demo_stl"
proof -
  have "sorted_wrt (\<lambda>a b. \<not> f32_lt (tp_prob a) (tp_prob b)) (rev (by_prob cs))" for cs
    unfolding sorted_wrt_rev by (rule sorted_wrt_mono_rel [OF _ by_prob_sorted(1)]) (simp add: f32_lt_def)
  moreover have "mset (if cs = [] then [] else by_prob (tl cs) @ [hd cs]) = mset cs" for cs
    using by_prob_sorted(2) by (cases cs) auto
  ultimately show ?thesis using by_prob_heap by_prob_sorted(2) by (simp add: stl_ok_def demo_stl_def)
qed


theorem greedy_is_first_argmax_witness:
  "\<exists>j. fst (sample_token demo_fpu demo_stl Map.empty [0x7FC00000, 0x3F800000] (gen_params_default\<lparr>gp_temperature := 0\<rparr>) [] 0) = int j \<and>
     j < 2 \<and> finite_bits ([0x7FC00000, 0x3F800000] ! j)"
proof -
  have "f32_le (gp_temperature (gen_params_default\<lparr>gp_temperature := 0\<rparr>)) 0"
    by (simp add: f32_le_def f32_eq_def f32_is_nan_def)
  moreover have "finite_bits 0x3F800000" by (simp add: finite_bits_def)
  ultimately show ?thesis
    using greedy_is_first_argmax [of "gen_params_default\<lparr>gp_temperature := 0\<rparr>" demo_fpu demo_stl Map.empty "[0x7FC00000, 0x3F800000]" "[]" 0]
    by (auto simp: split: if_splits)
qed

definition demo_top2 :: gen_params where
  "demo_top2 = gen_params_default\<lparr>gp_temperature := f32_one, gp_top_k := 2, gp_top_p := 0x7F7FFFFF\<rparr>"

definition flat_fpu :: fpu where
  "flat_fpu = demo_fpu\<lparr>f_exp := (\<lambda>_. f32_one), f_mul := (\<lambda>a b. a)\<rparr>"


end
