(* ===== verification/Memory_Budget.thy ===== *)
theory Memory_Budget
  imports C_Text
begin

text \<open>
  The memory accounting of \<^verbatim>\<open>include/jllm_memory.h\<close> and
  \<^verbatim>\<open>src/memory/budget.cpp\<close>: the budget record and its arithmetic, reading
  \<^verbatim>\<open>/proc/meminfo\<close>, and the guard that stops generation before the machine runs out of
  memory.

  The kernel's file is an argument: \<^verbatim>\<open>None\<close> when \<^verbatim>\<open>fopen\<close> fails, otherwise its
  text.
\<close>


section \<open>/proc/meminfo\<close>

fun meminfo_scan :: "string \<Rightarrow> string list \<Rightarrow> int" where
  "meminfo_scan field [] = -1"
| "meminfo_scan field (line # rest) =
     (if starts_with field (c_str line) then
        strtoll10 (dropWhile (\<lambda>c. c = CHR '' '' \<or> c = CHR '':'') (drop (length field) (c_str line))) sdiv 1024
      else meminfo_scan field rest)"

definition parse_meminfo_field :: "string option \<Rightarrow> string \<Rightarrow> int" where
  "parse_meminfo_field meminfo field =
     (case meminfo of None \<Rightarrow> -1 | Some text \<Rightarrow> meminfo_scan field (fgets_lines text))"


section \<open>The budget\<close>

record memory_budget =
  total_mb :: int
  os_mb :: int
  cma_mb :: int
  cuda_ctx_mb :: int
  model_mb :: int
  kv_cache_mb :: int
  scratch_mb :: int
  safety_mb :: int

definition used_mb :: "memory_budget \<Rightarrow> int" where
  "used_mb b = os_mb b + cma_mb b + cuda_ctx_mb b + model_mb b + kv_cache_mb b + scratch_mb b"

definition free_mb :: "memory_budget \<Rightarrow> int" where
  "free_mb b = total_mb b - used_mb b - safety_mb b"

definition can_allocate :: "memory_budget \<Rightarrow> int \<Rightarrow> bool" where
  "can_allocate b request_mb \<longleftrightarrow> free_mb b \<ge> request_mb"

definition max_kv_mb :: "memory_budget \<Rightarrow> int" where
  "max_kv_mb b =
     total_mb b - os_mb b - cma_mb b - cuda_ctx_mb b - model_mb b - scratch_mb b - safety_mb b"

definition budget_max_context :: "memory_budget \<Rightarrow> int \<Rightarrow> int \<Rightarrow> int \<Rightarrow> int \<Rightarrow> int" where
  "budget_max_context b n_layers n_kv_heads head_dim kv_bytes =
     (let bytes_per_token = 2 * n_layers * n_kv_heads * head_dim * kv_bytes in
      if bytes_per_token = 0 then 0
      else to_int32 ((max_kv_mb b * 1024 * 1024) sdiv bytes_per_token))"

definition probe_system_memory :: "string option \<Rightarrow> memory_budget" where
  "probe_system_memory meminfo =
     (let total = parse_meminfo_field meminfo ''MemTotal'';
          available = parse_meminfo_field meminfo ''MemAvailable'';
          cma = parse_meminfo_field meminfo ''CmaTotal'';
          os = total - available - cma;
          os = (if os < 0 then 500 else os)
      in \<lparr>total_mb = total, os_mb = os, cma_mb = cma, cuda_ctx_mb = 300, model_mb = 0,
          kv_cache_mb = 0, scratch_mb = 0, safety_mb = 256\<rparr>)"


section \<open>The guard\<close>

definition real_free_mb :: "string option \<Rightarrow> int" where
  "real_free_mb meminfo = parse_meminfo_field meminfo ''MemAvailable''"

definition can_extend :: "int \<Rightarrow> string option \<Rightarrow> int \<Rightarrow> bool" where
  "can_extend guard_safety_mb meminfo additional_bytes =
     (let free = real_free_mb meminfo;
          needed_mb = additional_bytes sdiv (1024 * 1024) + 1
      in free > needed_mb + guard_safety_mb)"

text \<open>\<^verbatim>\<open>emergency_free\<close> writes to two kernel files; \<^verbatim>\<open>ok\<close> tells which of them
  can be opened.\<close>

definition emergency_free :: "(string \<Rightarrow> bool) \<Rightarrow> (string \<times> string) list" where
  "emergency_free ok =
     filter (\<lambda>(path, _). ok path)
       [(''/proc/sys/vm/drop_caches'', ''3'' @ [CHR 0x0A]),
        (''/proc/sys/vm/compact_memory'', ''1'' @ [CHR 0x0A])]"


section \<open>Properties\<close>

text \<open>The context length the budget allows is the largest one whose KV cache fits: its
  \<^verbatim>\<open>2 * layers * heads * dim * bytes\<close> per token stay within the megabytes left for the
  cache, one more token would not fit, and adding that cache to the budget keeps the free memory
  non-negative.\<close>

theorem budget_max_context_is_largest_that_fits:
  assumes dims: "0 < ly" "0 < kh" "0 < dm" "0 < kb" and room: "0 \<le> max_kv_mb b"
    and small: "max_kv_mb b * 1024 * 1024 < 2 ^ 31 * (2 * ly * kh * dm * kb)"
  shows "let n = budget_max_context b ly kh dm kb; per = 2 * ly * kh * dm * kb in
    0 \<le> n \<and> n * per \<le> max_kv_mb b * 1024 * 1024 \<and> max_kv_mb b * 1024 * 1024 < (n + 1) * per \<and>
    (\<forall>mb. mb * 1024 * 1024 \<le> n * per \<longrightarrow> 0 \<le> free_mb (b\<lparr>kv_cache_mb := mb\<rparr>))"
proof -
  define per where "per = 2 * ly * kh * dm * kb"
  define M where "M = max_kv_mb b * 1024 * 1024"
  have per: "0 < per" using dims by (simp add: per_def)
  have M: "0 \<le> M" using room by (simp add: M_def)
  have eq: "M = M div per * per + M mod per" by simp
  have rem: "0 \<le> M mod per" "M mod per < per" using per by simp_all
  have q: "M div per < 2 ^ 31"
  proof (rule ccontr)
    assume "\<not> M div per < 2 ^ 31"
    then have "2 ^ 31 * per \<le> M div per * per" using per by (intro mult_right_mono) auto
    then show False using small eq rem unfolding M_def [symmetric] per_def [symmetric] by linarith
  qed
  have "0 \<le> M div per" using M per by (simp add: pos_imp_zdiv_nonneg_iff)
  then have n: "budget_max_context b ly kh dm kb = M div per"
    using per q M by (simp add: budget_max_context_def Let_def per_def [symmetric] M_def [symmetric]
        sdiv_nonneg to_int32_id)
  have le: "M div per * per \<le> M" using eq rem by linarith
  have lt: "M < (M div per + 1) * per" unfolding distrib_right using eq rem by linarith
  have fr: "0 \<le> free_mb (b\<lparr>kv_cache_mb := mb\<rparr>)" if "mb * 1024 * 1024 \<le> M div per * per" for mb
  proof -
    have "mb * 1024 * 1024 \<le> max_kv_mb b * 1024 * 1024" using that le by (simp add: M_def)
    then show ?thesis by (simp add: free_mb_def used_mb_def max_kv_mb_def)
  qed
  show ?thesis unfolding Let_def n per_def [symmetric] M_def [symmetric]
    using \<open>0 \<le> M div per\<close> le lt fr by blast
qed

theorem budget_max_context_is_largest_that_fits_witness:
  "let b = \<lparr>total_mb = 7633, os_mb = 1200, cma_mb = 256, cuda_ctx_mb = 300, model_mb = 2500,
            kv_cache_mb = 0, scratch_mb = 64, safety_mb = 256\<rparr>;
       n = budget_max_context b 36 8 128 2
   in n = 21738 \<and> n * (2 * 36 * 8 * 128 * 2) \<le> max_kv_mb b * 1024 * 1024 \<and>
      max_kv_mb b * 1024 * 1024 < (n + 1) * (2 * 36 * 8 * 128 * 2)"
proof -
  let ?b = "\<lparr>total_mb = 7633, os_mb = 1200, cma_mb = 256, cuda_ctx_mb = 300, model_mb = 2500,
            kv_cache_mb = 0, scratch_mb = 64, safety_mb = 256\<rparr> :: memory_budget"
  have "budget_max_context ?b 36 8 128 2 = 21738"
    by (simp add: budget_max_context_def max_kv_mb_def to_int32_def signed_divide_int_def)
  then show ?thesis
    using budget_max_context_is_largest_that_fits [of 36 8 128 2 ?b] by (simp add: max_kv_mb_def)
qed

text \<open>A reader of \<^verbatim>\<open>/proc/meminfo\<close>: lines shorter than the buffer are read whole, so a
  file of \<^verbatim>\<open>Name: value kB\<close> lines yields the value of the first line with the name.\<close>

definition meminfo_line :: "string \<Rightarrow> string \<Rightarrow> string" where
  "meminfo_line field ds = field @ '':        '' @ ds @ '' kB'' @ [CHR 0x0A]"

definition meminfo_entry_ok :: "string \<times> string \<Rightarrow> bool" where
  "meminfo_entry_ok = (\<lambda>(field, ds). field \<noteq> [] \<and> ds \<noteq> [] \<and> list_all is_digit ds \<and>
     list_all (\<lambda>c. c \<noteq> CHR 0x0A \<and> c \<noteq> CHR 0x00 \<and> c \<noteq> CHR '':'') field \<and>
     length field + length ds < 240)"

definition meminfo_file :: "(string \<times> string) list \<Rightarrow> string" where
  "meminfo_file es = concat (map (\<lambda>(field, ds). meminfo_line field ds) es)"

lemma meminfo_file_lines:
  "list_all meminfo_entry_ok es \<Longrightarrow> fgets_lines (meminfo_file es) = map (\<lambda>(f, ds). meminfo_line f ds) es"
proof (induction es)
  case (Cons e es)
  obtain f ds where e: "e = (f, ds)" by fastforce
  let ?l = "f @ '':        '' @ ds @ '' kB''"
  have "meminfo_entry_ok (f, ds)" using Cons.prems e by simp
  then have "CHR 0x0A \<notin> set ?l" "length ?l < 255"
    using list_all_digit_chars [of ds] by (auto simp: meminfo_entry_ok_def list_all_iff)
  from fgets_lines_line [OF this, of "meminfo_file es"] Cons e
  show ?case by (simp add: meminfo_file_def meminfo_line_def)
qed (simp add: meminfo_file_def)

lemma meminfo_scan_line:
  assumes ok: "meminfo_entry_ok (f, ds)"
  shows "meminfo_scan f (meminfo_line f ds # rest) = clamp_i64 (digits_value ds) sdiv 1024"
proof -
  have ds: "ds \<noteq> []" "list_all is_digit ds" using ok by (auto simp: meminfo_entry_ok_def)
  then obtain d ds' where d: "ds = d # ds'" "is_digit d" by (cases ds) auto
  have "CHR 0x00 \<notin> set (meminfo_line f ds)"
    using ok list_all_digit_chars(2) [OF ds(2)]
    by (auto simp: meminfo_line_def meminfo_entry_ok_def list_all_iff)
  then have c: "c_str (meminfo_line f ds) = meminfo_line f ds" by (rule c_str_no_nul)
  have "dropWhile (\<lambda>c. c = CHR '' '' \<or> c = CHR '':'') (drop (length f) (meminfo_line f ds)) =
      ds @ CHR '' '' # ''kB'' @ [CHR 0x0A]"
    using d digit_chars [OF d(2)] by (simp add: meminfo_line_def)
  moreover have "\<not> is_digit (CHR '' '')" by (simp add: is_digit_def)
  ultimately show ?thesis
    using strtoll10_digits [OF ds] by (simp add: c) (simp add: meminfo_line_def)
qed

lemma meminfo_scan_skip:
  "\<not> starts_with f (c_str l) \<Longrightarrow> meminfo_scan f (l # rest) = meminfo_scan f rest"
  by simp

lemma meminfo_line_other:
  assumes "meminfo_entry_ok (f', ds)" "\<not> starts_with f f'" "CHR '':'' \<notin> set f"
  shows "\<not> starts_with f (c_str (meminfo_line f' ds))"
proof
  assume a: "starts_with f (c_str (meminfo_line f' ds))"
  have "list_all is_digit ds" using assms(1) by (simp add: meminfo_entry_ok_def)
  then have "CHR 0x00 \<notin> set (meminfo_line f' ds)"
    using assms(1) list_all_digit_chars(2) [of ds]
    by (auto simp: meminfo_line_def meminfo_entry_ok_def list_all_iff)
  with a have a: "starts_with f (f' @ CHR '':'' # '' '' @ '' '' @ '' '' @ '' '' @ '' '' @ '' '' @ '' '' @ '' '' @ ds @ '' kB'' @ [CHR 0x0A])"
    by (simp add: c_str_no_nul meminfo_line_def)
  show False
  proof (cases "length f \<le> length f'")
    case True
    then show ?thesis using a assms(2) starts_with_append_long by metis
  next
    case False
    then have "f ! length f' = CHR '':''" using a unfolding starts_with_def
      by (metis (no_types, lifting) linorder_not_le nth_append_length nth_take)
    then show ?thesis using assms(3) False by (metis linorder_not_le nth_mem)
  qed
qed

lemma meminfo_lookup:
  assumes "list_all meminfo_entry_ok (es1 @ (f, ds) # es2)"
    and "list_all (\<lambda>(g, _). \<not> starts_with f g) es1"
  shows "parse_meminfo_field (Some (meminfo_file (es1 @ (f, ds) # es2))) f =
         clamp_i64 (digits_value ds) sdiv 1024"
proof -
  have e: "meminfo_entry_ok (f, ds)" using assms(1) by simp
  then have f: "CHR '':'' \<notin> set f" unfolding meminfo_entry_ok_def list_all_iff prod.case by blast
  have "meminfo_scan f (map (\<lambda>(f, ds). meminfo_line f ds) es1 @ meminfo_line f ds # rest) =
        meminfo_scan f (meminfo_line f ds # rest)" for rest
    using assms
  proof (induction es1)
    case (Cons e es1)
    then have "\<not> starts_with f (c_str (meminfo_line (fst e) (snd e)))"
      by (intro meminfo_line_other) (auto simp: f)
    moreover have "list_all meminfo_entry_ok (es1 @ (f, ds) # es2)"
      "list_all (\<lambda>(g, _). \<not> starts_with f g) es1" using Cons.prems by simp_all
    ultimately show ?case
      using Cons.IH by (cases e) (simp add: meminfo_scan_skip del: meminfo_scan.simps)
  qed simp
  then show ?thesis
    using meminfo_scan_line [OF e]
    by (simp only: parse_meminfo_field_def meminfo_file_lines [OF assms(1)] option.case map_append
        list.map prod.case)
qed

text \<open>On a \<^verbatim>\<open>/proc/meminfo\<close> of the documented format, the guard lets the cache grow
  by \<^verbatim>\<open>n\<close> bytes only when the kernel reports more than \<^verbatim>\<open>n\<close> bytes plus the safety
  margin as available; when the file cannot be read it never does.\<close>

theorem can_extend_keeps_safety_margin:
  assumes ok: "list_all meminfo_entry_ok (es1 @ (''MemAvailable'', ds) # es2)"
    and first: "list_all (\<lambda>(g, _). \<not> starts_with ''MemAvailable'' g) es1"
    and n: "0 \<le> n" and s: "0 \<le> safety"
  shows "(can_extend safety (Some (meminfo_file (es1 @ (''MemAvailable'', ds) # es2))) n \<longrightarrow>
            n + safety * 1024 * 1024 < 1024 * digits_value ds) \<and>
         \<not> can_extend safety None n"
proof (intro conjI impI)
  let ?kb = "digits_value ds"
  assume "can_extend safety (Some (meminfo_file (es1 @ (''MemAvailable'', ds) # es2))) n"
  then have "n sdiv (1024 * 1024) + 1 + safety < clamp_i64 ?kb sdiv 1024"
    by (simp only: can_extend_def Let_def real_free_mb_def meminfo_lookup [OF ok first] if_False)
  moreover have kb: "0 \<le> ?kb" using ok digits_value_nonneg by (simp add: meminfo_entry_ok_def)
  then have "0 \<le> clamp_i64 ?kb" "clamp_i64 ?kb \<le> ?kb" by (auto simp: clamp_i64_def)
  ultimately have "n div 1048576 + 1 + safety < ?kb div 1024"
    using n zdiv_mono1 [of "clamp_i64 ?kb" ?kb 1024] by (simp add: sdiv_nonneg)
  then show "n + safety * 1024 * 1024 < 1024 * ?kb" by linarith
next
  have "0 \<le> n sdiv (1024 * 1024)" using n by (simp add: sdiv_nonneg pos_imp_zdiv_nonneg_iff)
  then show "\<not> can_extend safety None n"
    using s by (simp add: can_extend_def real_free_mb_def parse_meminfo_field_def)
qed

theorem can_extend_keeps_safety_margin_witness:
  "let f = meminfo_file [(''MemTotal'', ''8000000''), (''MemAvailable'', ''2097152'')]
   in can_extend 256 (Some f) 1048576 \<and> \<not> can_extend 256 None 1048576 \<and>
      1048576 + 256 * 1024 * 1024 < 1024 * digits_value ''2097152''"
proof -
  let ?es = "[(''MemTotal'', ''8000000'')]"
  have ok: "list_all meminfo_entry_ok (?es @ (''MemAvailable'', ''2097152'') # [])"
    by (simp add: meminfo_entry_ok_def is_digit_def)
  have fs: "list_all (\<lambda>(g, _). \<not> starts_with ''MemAvailable'' g) ?es"
    by (simp add: starts_with_def)
  have "can_extend 256 (Some (meminfo_file (?es @ (''MemAvailable'', ''2097152'') # []))) 1048576"
    by (simp add: can_extend_def real_free_mb_def meminfo_lookup [OF ok fs, simplified] clamp_i64_def
        digits_value_def signed_divide_int_def)
  then show ?thesis
    using can_extend_keeps_safety_margin [OF ok fs, of 1048576 256] by (simp add: Let_def)
qed

end
