(* ===== verification/Jetson_Hal.thy ===== *)
theory Jetson_Hal
  imports Memory_Budget F32_Order
begin

text \<open>
  The hardware layer of \<^verbatim>\<open>src/jetson\<close>: temperatures and the back-off between tokens
  (\<^verbatim>\<open>thermal.cpp\<close>), power mode, clocks and online cores (\<^verbatim>\<open>power.cpp\<close>), and the live
  statistics (\<^verbatim>\<open>sysinfo.cpp\<close>). Everything is read from small text files of the kernel: a
  record \<^verbatim>\<open>sysfs\<close> gives the contents of a file that can be opened, the names in the thermal
  directory in the order \<^verbatim>\<open>readdir\<close> yields them, the output of \<^verbatim>\<open>popen\<close>, and the value an
  uninitialised \<^verbatim>\<open>int\<close> happens to have.
\<close>


section \<open>Reading the kernel's files\<close>

record sysfs =
  sf_file :: "string \<Rightarrow> string option"
  sf_zones :: "string list option"
  sf_popen :: "string \<Rightarrow> string option"
  sf_uninit :: int

text \<open>\<^verbatim>\<open>fscanf(f, "%d", &v)\<close> and \<^verbatim>\<open>sscanf\<close> with a literal before the conversion; \<^verbatim>\<open>None\<close> when
  nothing is converted.\<close>

definition scan_long :: "string \<Rightarrow> int option" where
  "scan_long s =
     (let t = dropWhile is_c_space s;
          u = (case t of [] \<Rightarrow> [] | c # r \<Rightarrow> if c = CHR ''-'' \<or> c = CHR ''+'' then r else t)
      in if u \<noteq> [] \<and> is_digit (hd u) then Some (strtoll10 s) else None)"

definition scan_int :: "string \<Rightarrow> int option" where
  "scan_int s = map_option to_int32 (scan_long s)"

definition sscanf_long :: "string \<Rightarrow> string \<Rightarrow> int option" where
  "sscanf_long lit s = (if starts_with lit s then scan_long (drop (length lit) s) else None)"

text \<open>\<^verbatim>\<open>read_sysfs_int\<close>; the two files of the source differ in the initial value of the variable.\<close>

definition read_sysfs_int :: "int \<Rightarrow> sysfs \<Rightarrow> string \<Rightarrow> int" where
  "read_sysfs_int init sf path =
     (case sf_file sf path of None \<Rightarrow> -1 | Some s \<Rightarrow> (case scan_int s of None \<Rightarrow> init | Some v \<Rightarrow> v))"

definition snprintf_buf :: "nat \<Rightarrow> string \<Rightarrow> string" where
  "snprintf_buf n s = take (n - 1) s"


section \<open>Temperatures\<close>

record thermal_state =
  ts_cpu_temp_c :: f32
  ts_gpu_temp_c :: f32
  ts_board_temp_c :: f32
  ts_throttling :: bool

text \<open>The constants -1, 80, 85, 90, 95 and 1000 in single precision.\<close>

definition f32_m1 :: f32 where "f32_m1 = 0xBF800000"
definition f32_80 :: f32 where "f32_80 = 0x42A00000"
definition f32_85 :: f32 where "f32_85 = 0x42AA0000"
definition f32_90 :: f32 where "f32_90 = 0x42B40000"
definition f32_95 :: f32 where "f32_95 = 0x42BE0000"
definition f32_1000 :: f32 where "f32_1000 = 0x447A0000"

definition milli_c :: "fpu \<Rightarrow> int \<Rightarrow> f32" where
  "milli_c fp t = f_div fp (f_of_int fp t) f32_1000"

definition thermal_dir :: string where "thermal_dir = ''/sys/devices/virtual/thermal/''"

fun read_zones :: "fpu \<Rightarrow> sysfs \<Rightarrow> string \<Rightarrow> string list \<Rightarrow> f32" where
  "read_zones fp sf zone_type [] = f32_m1"
| "read_zones fp sf zone_type (name # names) =
     (if \<not> starts_with ''thermal_zone'' name then read_zones fp sf zone_type names
      else
        (case sf_file sf (snprintf_buf 256 (thermal_dir @ name @ ''/type'')) of
           None \<Rightarrow> read_zones fp sf zone_type names
         | Some s \<Rightarrow>
             let ty = takeWhile (\<lambda>c. c \<noteq> CHR 0x0A) (c_str (fst (fgets_chunk 63 s))) in
             if ty = zone_type then
               (case sf_file sf (snprintf_buf 256 (thermal_dir @ name @ ''/temp'')) of
                  None \<Rightarrow> read_zones fp sf zone_type names
                | Some t \<Rightarrow> milli_c fp (case scan_int t of None \<Rightarrow> 0 | Some v \<Rightarrow> v))
             else read_zones fp sf zone_type names))"

definition read_thermal_zone :: "fpu \<Rightarrow> sysfs \<Rightarrow> string \<Rightarrow> f32" where
  "read_thermal_zone fp sf zone_type =
     (case sf_zones sf of None \<Rightarrow> f32_m1 | Some names \<Rightarrow> read_zones fp sf zone_type names)"

definition read_thermal :: "fpu \<Rightarrow> sysfs \<Rightarrow> thermal_state" where
  "read_thermal fp sf =
     (let cpu = read_thermal_zone fp sf ''CPU-therm'';
          gpu = read_thermal_zone fp sf ''GPU-therm'';
          board = read_thermal_zone fp sf ''Tboard_tegra'';
          cpu = (if f32_lt cpu 0
                 then (case sf_file sf (thermal_dir @ ''thermal_zone0/temp'') of
                         None \<Rightarrow> cpu
                       | Some s \<Rightarrow> milli_c fp (case scan_int s of None \<Rightarrow> sf_uninit sf | Some v \<Rightarrow> v))
                 else cpu);
          gpu = (if f32_lt gpu 0 then cpu else gpu)
      in \<lparr>ts_cpu_temp_c = cpu, ts_gpu_temp_c = gpu, ts_board_temp_c = board,
          ts_throttling = (f32_lt f32_85 gpu \<or> f32_lt f32_85 cpu)\<rparr>)"

definition thermal_backoff_us :: "thermal_state \<Rightarrow> int" where
  "thermal_backoff_us ts =
     (let max_temp = (if f32_lt (ts_cpu_temp_c ts) (ts_gpu_temp_c ts) then ts_gpu_temp_c ts else ts_cpu_temp_c ts) in
      if f32_lt f32_95 max_temp then 200000
      else if f32_lt f32_90 max_temp then 100000
      else if f32_lt f32_85 max_temp then 50000
      else if f32_lt f32_80 max_temp then 10000
      else 0)"


section \<open>Power and clocks\<close>

datatype power_mode = POWER_MAXN | POWER_15W | POWER_10W | POWER_7W | POWER_UNKNOWN

record power_state =
  ps_mode :: power_mode
  ps_watts :: int
  ps_gpu_freq_mhz :: int
  ps_gpu_freq_max_mhz :: int
  ps_emc_freq_mhz :: int
  ps_cpu_freq_mhz :: int
  ps_cpu_online :: int

definition power_mode_id :: "power_mode \<Rightarrow> int" where
  "power_mode_id m = (case m of POWER_MAXN \<Rightarrow> 0 | POWER_15W \<Rightarrow> 1 | POWER_10W \<Rightarrow> 2 | POWER_7W \<Rightarrow> 3 | POWER_UNKNOWN \<Rightarrow> -1)"

definition read_sysfs_mhz :: "sysfs \<Rightarrow> string \<Rightarrow> int \<Rightarrow> int" where
  "read_sysfs_mhz sf path divisor = (let v = read_sysfs_int 0 sf path in if v \<ge> 0 then v sdiv divisor else -1)"

fun read_first_sysfs_mhz :: "sysfs \<Rightarrow> string list \<Rightarrow> int \<Rightarrow> int" where
  "read_first_sysfs_mhz sf [] divisor = -1"
| "read_first_sysfs_mhz sf (p # ps) divisor =
     (let mhz = read_sysfs_mhz sf p divisor in if mhz \<ge> 0 then mhz else read_first_sysfs_mhz sf ps divisor)"

text \<open>A number directly followed by the unit; the scan goes on behind a number without one.\<close>

function parse_watts_from_line :: "string \<Rightarrow> int" where
  "parse_watts_from_line [] = -1"
| "parse_watts_from_line (c # s) =
     (if \<not> is_digit c then parse_watts_from_line s
      else
        (let rest = dropWhile is_digit (c # s); v = strtoll10 (c # s) in
         if rest \<noteq> [] \<and> (hd rest = CHR ''W'' \<or> hd rest = CHR ''w'') \<and> v > 0 \<and> v < 1000 then v
         else parse_watts_from_line rest))"
  by pat_completeness auto
termination
  by (relation "measure length") (auto simp: le_imp_less_Suc length_dropWhile_le)

definition mode_from_watts :: "int \<Rightarrow> power_mode" where
  "mode_from_watts w = (if w \<ge> 25 then POWER_MAXN else if w \<ge> 15 then POWER_15W else if w \<ge> 10 then POWER_10W
     else if w \<ge> 7 then POWER_7W else POWER_UNKNOWN)"

text \<open>The list \<^verbatim>\<open>0-3,5\<close> of online cores. \<^verbatim>\<open>strtol\<close> behind the dash may itself skip white
  space and a sign; when it finds no number the rest of the line starts at the dash's successor.\<close>

definition strtol_rest :: "string \<Rightarrow> string" where
  "strtol_rest s =
     (let t = dropWhile is_c_space s;
          u = (case t of [] \<Rightarrow> [] | c # r \<Rightarrow> if c = CHR ''-'' \<or> c = CHR ''+'' then r else t)
      in if u \<noteq> [] \<and> is_digit (hd u) then dropWhile is_digit u else s)"

lemma strtol_rest_shorter: "length (strtol_rest s) \<le> length s"
proof -
  have t: "length (dropWhile is_c_space s) \<le> length s" by (rule length_dropWhile_le)
  have "length (dropWhile is_digit u) \<le> length u" for u :: string by (rule length_dropWhile_le)
  then show ?thesis using t by (auto simp: strtol_rest_def Let_def split: list.splits intro: order.trans) (meson le_trans Suc_leD)+
qed

text \<open>One entry of the list, at its first digit: first and last core and the rest of the line.\<close>

definition cpu_range :: "string \<Rightarrow> int \<times> int \<times> string" where
  "cpu_range p =
     (let first = strtoll10 p; rest = dropWhile is_digit p in
      case rest of
        [] \<Rightarrow> (first, first, [])
      | c # q \<Rightarrow> if c = CHR ''-'' then (first, strtoll10 q, strtol_rest q) else (first, first, rest))"

lemma cpu_range_shorter:
  assumes "p \<noteq> []" "is_digit (hd p)"
  shows "length (snd (snd (cpu_range p))) < length p"
proof -
  have d: "length (dropWhile is_digit p) < length p"
    using assms by (cases p) (auto simp: le_imp_less_Suc length_dropWhile_le)
  show ?thesis
  proof (cases "dropWhile is_digit p")
    case Nil
    then show ?thesis using assms(1) by (simp only: cpu_range_def Let_def) simp
  next
    case (Cons c q)
    then show ?thesis using d strtol_rest_shorter [of q] by (simp only: cpu_range_def Let_def) simp
  qed
qed

lemma skip_to_digit:
  assumes "dropWhile (\<lambda>c. \<not> is_digit c) s \<noteq> []"
  shows "is_digit (hd (dropWhile (\<lambda>c. \<not> is_digit c) s))"
  using hd_dropWhile [OF assms] by simp

function count_cpus :: "string \<Rightarrow> int \<Rightarrow> int" where
  "count_cpus s k =
     (let p = dropWhile (\<lambda>c. \<not> is_digit c) s in
      if p = [] then k
      else
        (let (first, final, rest) = cpu_range p
         in count_cpus rest (if first \<ge> 0 \<and> final \<ge> first then k + to_int32 (final - first + 1) else k)))"
  by auto
termination
proof (relation "measure (length \<circ> fst)", goal_cases)
  case (2 s k p x first y final rest)
  have "length rest < length p" using cpu_range_shorter [of p] skip_to_digit [of s] 2 by (metis snd_conv)
  also have "length p \<le> length s" unfolding 2 by (rule length_dropWhile_le)
  finally show ?case by simp
qed simp

declare count_cpus.simps [simp del]

definition cpu_online_paths :: "string list" where
  "cpu_online_paths = map (\<lambda>n. ''/sys/devices/system/cpu/cpu'' @ n @ ''/online'')
     [''0'', ''1'', ''2'', ''3'', ''4'', ''5'', ''6'', ''7'', ''8'', ''9'', ''10'', ''11'']"

definition read_online_cpu_count :: "sysfs \<Rightarrow> int" where
  "read_online_cpu_count sf =
     (let listed = (case sf_file sf ''/sys/devices/system/cpu/online'' of
            None \<Rightarrow> 0
          | Some s \<Rightarrow> if s = [] then 0 else count_cpus (c_str (fst (fgets_chunk 255 s))) 0) in
      if listed > 0 then listed
      else
        int (length (filter (\<lambda>(i, path).
          let online = read_sysfs_int 0 sf path in (i = 0 \<and> online < 0) \<or> online = 1) (enumerate 0 cpu_online_paths))))"

definition gpu_freq_dirs :: "string list" where
  "gpu_freq_dirs =
    [''/sys/devices/17000000.ga10b/devfreq/17000000.ga10b/'',
     ''/sys/devices/platform/17000000.ga10b/devfreq/17000000.ga10b/'',
     ''/sys/devices/platform/17000000.gpu/devfreq/17000000.gpu/'',
     ''/sys/devices/platform/bus@0/17000000.gpu/devfreq/17000000.gpu/'',
     ''/sys/devices/platform/host1x/17000000.gpu/devfreq/17000000.gpu/'',
     ''/sys/devices/gpu.0/devfreq/17000000.gp10b/'']"

text \<open>The first line of \<^verbatim>\<open>nvpmodel -q\<close> that names a mode.\<close>

fun parse_nvpmodel :: "string list \<Rightarrow> power_mode \<times> int" where
  "parse_nvpmodel [] = (POWER_UNKNOWN, -1)"
| "parse_nvpmodel (line # lines) =
     (if str_find ''MAXN'' (c_str line) \<noteq> None then (POWER_MAXN, 25)
      else
        (let watts = parse_watts_from_line (c_str line) in
         if watts > 0 then (mode_from_watts watts, watts) else parse_nvpmodel lines))"

definition read_power_state :: "sysfs \<Rightarrow> power_state" where
  "read_power_state sf =
     (let gpu = read_first_sysfs_mhz sf (map (\<lambda>d. d @ ''cur_freq'') gpu_freq_dirs) 1000000;
          gpu_max = read_first_sysfs_mhz sf (map (\<lambda>d. d @ ''max_freq'') gpu_freq_dirs) 1000000;
          emc = read_sysfs_mhz sf ''/sys/kernel/debug/bpmp/debug/clk/emc/rate'' 1000000;
          cpu = read_sysfs_mhz sf ''/sys/devices/system/cpu/cpu0/cpufreq/scaling_cur_freq'' 1000;
          (mode, watts) = (case sf_popen sf ''nvpmodel -q 2>/dev/null'' of
              None \<Rightarrow> (POWER_UNKNOWN, -1) | Some out \<Rightarrow> parse_nvpmodel (fgets_lines out))
      in \<lparr>ps_mode = mode, ps_watts = watts, ps_gpu_freq_mhz = gpu, ps_gpu_freq_max_mhz = gpu_max,
          ps_emc_freq_mhz = emc, ps_cpu_freq_mhz = cpu, ps_cpu_online = read_online_cpu_count sf\<rparr>)"

text \<open>The two commands for \<^verbatim>\<open>system\<close>.\<close>

fun dec_nat :: "nat \<Rightarrow> string" where
  "dec_nat n = (if n < 10 then [char_of (48 + n)] else dec_nat (n div 10) @ [char_of (48 + n mod 10)])"

declare dec_nat.simps [simp del]

definition dec_string :: "int \<Rightarrow> string" where
  "dec_string i = (if i < 0 then CHR ''-'' # dec_nat (nat (- i)) else dec_nat (nat i))"

definition set_power_mode :: "power_mode \<Rightarrow> string" where
  "set_power_mode m = snprintf_buf 64 (''nvpmodel -m '' @ dec_string (power_mode_id m) @ '' 2>/dev/null'')"

definition lock_clocks :: string where "lock_clocks = ''jetson_clocks 2>/dev/null''"


section \<open>The probe at start-up\<close>

record jetson_info =
  ji_l4t_version :: string
  ji_jetpack_version :: string
  ji_cuda_major :: int
  ji_cuda_minor :: int
  ji_gpu_sm_count :: int
  ji_gpu_cuda_cores :: int
  ji_total_ram_mb :: int
  ji_cma_total_mb :: int
  ji_nvme_free_mb :: int

text \<open>A literal of a \<^verbatim>\<open>scanf\<close> format behind optional white space, and the conversions of the release
  line: major and minor version as far as they were converted.\<close>

definition scan_lit :: "string \<Rightarrow> string \<Rightarrow> string option" where
  "scan_lit lit s = (let t = dropWhile is_c_space s in if starts_with lit t then Some (drop (length lit) t) else None)"

definition scan_release :: "string \<Rightarrow> (int \<times> int) option" where
  "scan_release line =
     do {
       s \<leftarrow> (if starts_with ''#'' line then Some (drop 1 line) else None);
       s \<leftarrow> scan_lit ''R'' s;
       major \<leftarrow> scan_int s;
       Some (major,
         case do { t \<leftarrow> scan_lit ''(release),'' (strtol_rest s); t \<leftarrow> scan_lit ''REVISION:'' t; scan_int t } of
           None \<Rightarrow> 0 | Some minor \<Rightarrow> minor)
     }"

definition probe_ram_line :: "string \<Rightarrow> int \<times> int \<Rightarrow> int \<times> int" where
  "probe_ram_line line st =
     (let (tot, cma) = st
      in (case sscanf_long ''MemTotal:'' (c_str line) of Some v \<Rightarrow> v sdiv 1024 | None \<Rightarrow> tot,
          case sscanf_long ''CmaTotal:'' (c_str line) of Some v \<Rightarrow> v sdiv 1024 | None \<Rightarrow> cma))"

text \<open>\<^verbatim>\<open>runtime_ver\<close> is the answer of \<^verbatim>\<open>cudaRuntimeGetVersion\<close>, \<^verbatim>\<open>sms\<close> the multiprocessor count if
  \<^verbatim>\<open>cudaGetDeviceProperties\<close> succeeds.\<close>

definition probe_jetson :: "sysfs \<Rightarrow> int \<Rightarrow> int option \<Rightarrow> jetson_info" where
  "probe_jetson sf runtime_ver sms =
     (let l4t = (case sf_file sf ''/etc/nv_tegra_release'' of
             None \<Rightarrow> []
           | Some s \<Rightarrow> if s = [] then []
               else (case scan_release (c_str (fst (fgets_chunk 255 s))) of
                       None \<Rightarrow> []
                     | Some (major, minor) \<Rightarrow> snprintf_buf 32 (dec_string major @ ''.'' @ dec_string minor)));
          (sm_count, cores) = (case sms of None \<Rightarrow> (0, 0) | Some n \<Rightarrow> (n, n * 128));
          (tot, cma) = (case sf_file sf ''/proc/meminfo'' of
             None \<Rightarrow> (0, 0) | Some s \<Rightarrow> fold probe_ram_line (fgets_lines s) (0, 0));
          nvme = (case sf_popen sf (''df /dev/nvme0n1p1 2>/dev/null | tail -1 | awk '' @ [CHR 0x27] @ ''{print $4}'' @ [CHR 0x27]) of
             None \<Rightarrow> 0 | Some s \<Rightarrow> (case scan_long s of None \<Rightarrow> 0 | Some kb \<Rightarrow> kb) sdiv 1024)
      in \<lparr>ji_l4t_version = l4t, ji_jetpack_version = [], ji_cuda_major = runtime_ver sdiv 1000,
          ji_cuda_minor = (runtime_ver smod 1000) sdiv 10, ji_gpu_sm_count = sm_count, ji_gpu_cuda_cores = cores,
          ji_total_ram_mb = tot, ji_cma_total_mb = cma, ji_nvme_free_mb = nvme\<rparr>)"


section \<open>Live statistics\<close>

record live_stats =
  ls_ram_used_mb :: int
  ls_ram_total_mb :: int
  ls_gpu_util_pct :: int
  ls_gpu_freq_mhz :: int
  ls_power_watts :: f32
  ls_gpu_temp_c :: f32
  ls_tokens_per_sec :: f32

fun read_first_sysfs_int :: "sysfs \<Rightarrow> string list \<Rightarrow> int" where
  "read_first_sysfs_int sf [] = -1"
| "read_first_sysfs_int sf (p # ps) =
     (let v = read_sysfs_int (-1) sf p in if v \<ge> 0 then v else read_first_sysfs_int sf ps)"

text \<open>\<^verbatim>\<open>read_first_sysfs_mhz\<close> of \<^verbatim>\<open>sysinfo.cpp\<close>, which reports 0 where the one of \<^verbatim>\<open>power.cpp\<close> reports -1.\<close>

definition live_gpu_mhz :: "sysfs \<Rightarrow> string list \<Rightarrow> int \<Rightarrow> int" where
  "live_gpu_mhz sf paths divisor = (let v = read_first_sysfs_int sf paths in if v \<ge> 0 then v sdiv divisor else 0)"

definition live_ram_line :: "string \<Rightarrow> int \<times> int \<Rightarrow> int \<times> int" where
  "live_ram_line line st =
     (let (used, tot) = st;
          tot = (case sscanf_long ''MemTotal:'' (c_str line) of Some v \<Rightarrow> v sdiv 1024 | None \<Rightarrow> tot);
          used = (case sscanf_long ''MemAvailable:'' (c_str line) of Some v \<Rightarrow> tot - v sdiv 1024 | None \<Rightarrow> used)
      in (used, tot))"

definition read_live_stats :: "fpu \<Rightarrow> sysfs \<Rightarrow> live_stats" where
  "read_live_stats fp sf =
     (let (used, tot) = (case sf_file sf ''/proc/meminfo'' of
             None \<Rightarrow> (0, 0) | Some s \<Rightarrow> fold live_ram_line (fgets_lines s) (0, 0));
          util = read_first_sysfs_int sf (map (\<lambda>d. d @ ''load'') gpu_freq_dirs)
      in \<lparr>ls_ram_used_mb = used, ls_ram_total_mb = tot, ls_gpu_util_pct = (if util < 0 then 0 else util),
          ls_gpu_freq_mhz = live_gpu_mhz sf (map (\<lambda>d. d @ ''cur_freq'') gpu_freq_dirs) 1000000,
          ls_power_watts = 0, ls_gpu_temp_c = ts_gpu_temp_c (read_thermal fp sf), ls_tokens_per_sec = 0\<rparr>)"


section \<open>Properties\<close>

lemma threshold_keys:
  "\<not> f32_is_nan f32_m1" "\<not> f32_is_nan f32_80" "\<not> f32_is_nan f32_85" "\<not> f32_is_nan f32_90" "\<not> f32_is_nan f32_95"
  "f32_key f32_80 = 0x42A00000" "f32_key f32_85 = 0x42AA0000" "f32_key f32_90 = 0x42B40000" "f32_key f32_95 = 0x42BE0000"
  by (simp_all add: f32_is_nan_def f32_key_def f32_m1_def f32_80_def f32_85_def f32_90_def f32_95_def)

definition pause_at :: "int \<Rightarrow> int" where
  "pause_at k = (if 0x42BE0000 < k then 200000 else if 0x42B40000 < k then 100000 else if 0x42AA0000 < k then 50000
     else if 0x42A00000 < k then 10000 else 0)"

lemma backoff_pause:
  assumes "\<not> f32_is_nan (ts_cpu_temp_c ts)" "\<not> f32_is_nan (ts_gpu_temp_c ts)"
  shows "thermal_backoff_us ts = pause_at (max (f32_key (ts_cpu_temp_c ts)) (f32_key (ts_gpu_temp_c ts)))"
  using assms by (simp add: thermal_backoff_us_def pause_at_def f32_lt_def threshold_keys Let_def max_def)

lemma pause_mono: "a \<le> b \<Longrightarrow> pause_at a \<le> pause_at b"
  by (simp add: pause_at_def)

lemma pause_values: "pause_at k \<in> {0, 10000, 50000, 100000, 200000}" "50000 \<le> pause_at k \<longleftrightarrow> 0x42AA0000 < k"
  by (simp_all add: pause_at_def)


text \<open>Readings 0 to 1000000 are mapped to themselves: enough for a concrete board, whose GPU zone is not
  readable, at 91 degrees.\<close>

definition demo_thermal_fpu :: fpu where
  "demo_thermal_fpu = demo_fpu\<lparr>f_div := (\<lambda>a b. a), f_of_int := (\<lambda>v. if v = 91000 then 0x42B60000 else 0)\<rparr>"

definition demo_board :: sysfs where
  "demo_board = \<lparr>sf_file = [''/sys/devices/virtual/thermal/thermal_zone0/type'' \<mapsto> ''CPU-therm'' @ [CHR 0x0A],
       ''/sys/devices/virtual/thermal/thermal_zone0/temp'' \<mapsto> ''91000'' @ [CHR 0x0A]],
     sf_zones = Some [''.'', ''..'', ''thermal_zone0''], sf_popen = Map.empty, sf_uninit = 0\<rparr>"


text \<open>The kernel prints the online cores as ranges separated by commas.\<close>

definition range_text :: "string \<times> string option \<Rightarrow> string" where
  "range_text r = fst r @ (case snd r of None \<Rightarrow> [] | Some b \<Rightarrow> CHR ''-'' # b)"

fun ranges_text :: "(string \<times> string option) list \<Rightarrow> string" where
  "ranges_text [] = [CHR 0x0A]"
| "ranges_text [r] = range_text r @ [CHR 0x0A]"
| "ranges_text (r # rs) = range_text r @ CHR '','' # ranges_text rs"

definition range_ok :: "string \<times> string option \<Rightarrow> bool" where
  "range_ok r \<longleftrightarrow> fst r \<noteq> [] \<and> list_all is_digit (fst r) \<and> digits_value (fst r) < 2 ^ 30 \<and>
     (case snd r of None \<Rightarrow> True | Some b \<Rightarrow> b \<noteq> [] \<and> list_all is_digit b \<and> digits_value (fst r) \<le> digits_value b \<and> digits_value b < 2 ^ 30)"

definition range_size :: "string \<times> string option \<Rightarrow> int" where
  "range_size r = (case snd r of None \<Rightarrow> 1 | Some b \<Rightarrow> digits_value b - digits_value (fst r) + 1)"

lemma drop_digits: "list_all is_digit ds \<Longrightarrow> \<not> is_digit c \<Longrightarrow> dropWhile is_digit (ds @ c # r) = c # r"
  by (simp add: dropWhile_append2 list_all_iff)

lemma sep_not_digit: "\<not> is_digit (CHR '','')" "\<not> is_digit (CHR 0x0A)" "\<not> is_digit (CHR ''-'')"
  by (simp_all add: is_digit_def)

lemma clamp_small: "0 \<le> v \<Longrightarrow> v < 2 ^ 30 \<Longrightarrow> clamp_i64 v = v"
  by (simp add: clamp_i64_def)

lemma strtol_rest_digits:
  assumes "ds \<noteq> []" "list_all is_digit ds" "\<not> is_digit c"
  shows "strtol_rest (ds @ c # r) = c # r"
proof -
  obtain d ds' where d: "ds = d # ds'" "is_digit d" using assms by (cases ds) auto
  show ?thesis using d digit_chars [OF d(2)] drop_digits [OF assms(2,3)] by (simp add: strtol_rest_def)
qed

lemma cpu_range_text:
  assumes "range_ok r" "\<not> is_digit c" "c \<noteq> CHR ''-''"
  shows "cpu_range (range_text r @ c # s) =
    (digits_value (fst r), digits_value (fst r) + range_size r - 1, c # s)"
proof (cases "snd r")
  case None
  then have ok: "fst r \<noteq> []" "list_all is_digit (fst r)" "digits_value (fst r) < 2 ^ 30" using assms(1) by (auto simp: range_ok_def)
  show ?thesis
    using None assms(2,3) strtoll10_digits [OF ok(1,2) assms(2)] drop_digits [OF ok(2) assms(2)]
      clamp_small [OF digits_value_nonneg [OF ok(2)] ok(3)]
    by (simp add: cpu_range_def range_text_def range_size_def Let_def)
next
  case (Some b)
  then have ok: "fst r \<noteq> []" "list_all is_digit (fst r)" "digits_value (fst r) < 2 ^ 30"
    "b \<noteq> []" "list_all is_digit b" "digits_value b < 2 ^ 30" using assms(1) by (auto simp: range_ok_def)
  show ?thesis
    using Some strtoll10_digits [OF ok(1,2) sep_not_digit(3)] drop_digits [OF ok(2) sep_not_digit(3)]
      strtoll10_digits [OF ok(4,5) assms(2)] strtol_rest_digits [OF ok(4,5) assms(2)]
      clamp_small [OF digits_value_nonneg [OF ok(2)] ok(3)] clamp_small [OF digits_value_nonneg [OF ok(5)] ok(6)]
    by (simp add: cpu_range_def range_text_def range_size_def Let_def)
qed

lemma range_text_starts: "range_ok r \<Longrightarrow> dropWhile (\<lambda>c. \<not> is_digit c) (range_text r @ s) = range_text r @ s \<and> range_text r @ s \<noteq> []"
  by (cases "fst r") (auto simp: range_ok_def range_text_def)

lemma range_text_chars:
  assumes "range_ok r"
  shows "CHR 0x0A \<notin> set (range_text r)" "CHR 0x00 \<notin> set (range_text r)"
  using assms by (cases "snd r"; use list_all_digit_chars in \<open>auto simp: range_text_def range_ok_def\<close>)+

lemma count_cpus_range:
  assumes "range_ok r" "\<not> is_digit c" "c \<noteq> CHR ''-''"
  shows "count_cpus (range_text r @ c # s) k = count_cpus s (k + range_size r)"
proof -
  have nn: "0 \<le> digits_value (fst r)" using assms(1) digits_value_nonneg by (simp add: range_ok_def)
  then have sz: "1 \<le> range_size r" "range_size r < 2 ^ 31" "0 \<le> digits_value (fst r)"
    using assms(1) by (auto simp: range_ok_def range_size_def split: option.splits)
  have "count_cpus (c # s) k' = count_cpus s k'" for k' using assms(2) by (subst (1 2) count_cpus.simps) simp
  then show ?thesis
    using range_text_starts [OF assms(1), of "c # s"] sz
    by (subst count_cpus.simps) (simp add: cpu_range_text [OF assms] to_int32_id)
qed

lemma count_cpus_ranges: "list_all range_ok rs \<Longrightarrow> count_cpus (ranges_text rs) k = k + sum_list (map range_size rs)"
proof (induction rs arbitrary: k rule: ranges_text.induct)
  case 1
  have "count_cpus [CHR 0x0A] k = k" by (subst count_cpus.simps) (simp add: sep_not_digit)
  then show ?case by simp
next
  case (2 r)
  have "count_cpus [] k' = k'" for k' by (subst count_cpus.simps) simp
  then show ?case using 2 count_cpus_range [of r "CHR 0x0A" "[]"] sep_not_digit by simp
next
  case (3 r r' rs)
  then show ?case using count_cpus_range [of r "CHR '',''"] sep_not_digit by simp
qed

text \<open>The core count is the number of cores the kernel lists: for every non-empty list of single
  cores and ranges that fits the 255-byte line buffer, the count of \<^verbatim>\<open>read_online_cpu_count\<close> is the
  sum of the sizes of the ranges, and the per-core fallback is not consulted.\<close>

theorem online_cpus_are_counted:
  assumes "sf_file sf ''/sys/devices/system/cpu/online'' = Some (ranges_text rs)" "rs \<noteq> []" "list_all range_ok rs"
    and "length (ranges_text rs) \<le> 255"
  shows "read_online_cpu_count sf = sum_list (map range_size rs)"
proof -
  have chars: "\<exists>l. ranges_text rs = l @ [CHR 0x0A] \<and> CHR 0x0A \<notin> set l \<and> CHR 0x00 \<notin> set l" using assms(3)
  proof (induction rs rule: ranges_text.induct)
    case (2 r)
    then show ?case using range_text_chars [of r] by auto
  next
    case (3 r r' rs)
    then obtain l where "ranges_text (r' # rs) = l @ [CHR 0x0A]" "CHR 0x0A \<notin> set l" "CHR 0x00 \<notin> set l" by auto
    then show ?case using 3 range_text_chars [of r] by (intro exI [of _ "range_text r @ CHR '','' # l"]) auto
  qed simp
  then obtain l where l: "ranges_text rs = l @ [CHR 0x0A]" "CHR 0x0A \<notin> set l" "CHR 0x00 \<notin> set l" by blast
  have fg: "fst (fgets_chunk 255 (ranges_text rs)) = ranges_text rs"
    using fgets_chunk_line [OF l(2), of 255 "[]"] assms(4) l(1) by simp
  have cs: "c_str (ranges_text rs) = ranges_text rs" using l by (intro c_str_no_nul) simp
  have size1: "\<forall>r \<in> set rs. 1 \<le> range_size r"
    using assms(3) by (auto simp: list_all_iff range_ok_def range_size_def split: option.splits)
  have pos: "0 < sum_list (map range_size rs)"
    using assms(2) size1 sum_list_nonneg [of "map range_size (tl rs)"] by (cases rs) (auto, force)
  show ?thesis using assms(1) l(1) count_cpus_ranges [OF assms(3)] pos fg cs
    by (simp add: read_online_cpu_count_def)
qed

theorem online_cpus_are_counted_witness:
  "read_online_cpu_count (demo_board\<lparr>sf_file := [''/sys/devices/system/cpu/online'' \<mapsto> ''0-3,5'' @ [CHR 0x0A]]\<rparr>) = 5"
proof -
  have d: "list_all range_ok [(''0'', Some ''3''), (''5'', None)]" by code_simp
  have s: "sum_list (map range_size [(''0'', Some ''3''), (''5'', None)]) = 5" by code_simp
  have t: "ranges_text [(''0'', Some ''3''), (''5'', None)] = ''0-3,5'' @ [CHR 0x0A]" by code_simp
  show ?thesis
    by (rule online_cpus_are_counted [of _ "[(''0'', Some ''3''), (''5'', None)]", unfolded s t, OF _ _ d]) simp_all
qed

end
