(* ===== verification/KV_File_Format.thy ===== *)
theory KV_File_Format
  imports C_Text
begin

unbundle bit_operations_syntax

text \<open>
  Saving and loading the KV cache of a conversation: \<^verbatim>\<open>write_all\<close>,
  \<^verbatim>\<open>save_kv_to_file\<close>, \<^verbatim>\<open>read_all\<close>, \<^verbatim>\<open>load_kv_from_file\<close>,
  \<^verbatim>\<open>peek_kv_header\<close> and \<^verbatim>\<open>compute_model_fingerprint\<close> of
  \<^verbatim>\<open>src/persistence/kv_cache_file.cpp\<close>, with the 128-byte header of
  \<^verbatim>\<open>kv_cache_file.h\<close>.

  The file system is a map from paths to contents. Every system call of a save appends the file
  system it leaves to a log, so the log is the list of states a crash can leave behind. What the
  kernel answers is an argument, a record \<^verbatim>\<open>io_env\<close>: the \<^verbatim>\<open>k\<close>-th
  \<^verbatim>\<open>write\<close> or \<^verbatim>\<open>read\<close> may fail or transfer fewer bytes than asked. Other processes
  do not touch the files while an operation runs.
\<close>


section \<open>The header\<close>

record kv_header =
  h_magic :: u32
  h_version :: u32
  h_n_layers :: u32
  h_n_kv_heads :: u32
  h_head_dim :: u32
  h_kv_type_bytes :: u32
  h_max_context :: u32
  h_used_tokens :: u32
  h_body_bytes :: u64
  h_model_hash :: "byte list"
  h_reserved :: "byte list"

definition KVCACHE_MAGIC :: u32 where "KVCACHE_MAGIC = 0x4D4C4C4A"

definition KVCACHE_VERSION :: u32 where "KVCACHE_VERSION = 2"

text \<open>The packed struct as the 128 bytes \<^verbatim>\<open>write(fd, &hdr, sizeof(hdr))\<close> puts on disk, and
  the struct a 128-byte \<^verbatim>\<open>read\<close> yields.\<close>

definition header_bytes :: "kv_header \<Rightarrow> byte list" where
  "header_bytes h = le32 (h_magic h) @ le32 (h_version h) @ le32 (h_n_layers h) @
     le32 (h_n_kv_heads h) @ le32 (h_head_dim h) @ le32 (h_kv_type_bytes h) @
     le32 (h_max_context h) @ le32 (h_used_tokens h) @ le64 (h_body_bytes h) @
     h_model_hash h @ h_reserved h"

definition header_of :: "byte list \<Rightarrow> kv_header" where
  "header_of b = \<lparr>h_magic = u32_of (slice 0 4 b), h_version = u32_of (slice 4 4 b),
     h_n_layers = u32_of (slice 8 4 b), h_n_kv_heads = u32_of (slice 12 4 b),
     h_head_dim = u32_of (slice 16 4 b), h_kv_type_bytes = u32_of (slice 20 4 b),
     h_max_context = u32_of (slice 24 4 b), h_used_tokens = u32_of (slice 28 4 b),
     h_body_bytes = u64_of (slice 32 8 b), h_model_hash = slice 40 32 b,
     h_reserved = slice 72 56 b\<rparr>"

text \<open>The two arrays of the struct have their declared sizes.\<close>

definition header_ok :: "kv_header \<Rightarrow> bool" where
  "header_ok h \<longleftrightarrow> length (h_model_hash h) = 32 \<and> length (h_reserved h) = 56"

text \<open>An array of \<^verbatim>\<open>uint32_t\<close> in memory, and a buffer read into one.\<close>

definition tokens_bytes :: "u32 list \<Rightarrow> byte list" where
  "tokens_bytes ts = concat (map le32 ts)"

fun tokens_of :: "nat \<Rightarrow> byte list \<Rightarrow> u32 list" where
  "tokens_of 0 b = []"
| "tokens_of (Suc n) b = u32_of (take 4 b) # tokens_of n (drop 4 b)"


section \<open>Files and system calls\<close>

record kv_file =
  f_data :: "byte list"
  f_mtime :: int

type_synonym fs = "string \<rightharpoonup> kv_file"

record io_env =
  io_now :: int
  io_open_ok :: bool
  io_write :: "nat \<Rightarrow> int"
  io_fsync_ok :: bool
  io_rename_ok :: bool
  io_unlink_ok :: "string \<Rightarrow> bool"
  io_read :: "nat \<Rightarrow> int"
  io_fstat_ok :: bool

record sys =
  sys_fs :: fs
  sys_log :: "fs list"
  sys_calls :: nat

definition sys_set :: "fs \<Rightarrow> sys \<Rightarrow> sys" where
  "sys_set f s = s\<lparr>sys_fs := f, sys_log := sys_log s @ [f]\<rparr>"

text \<open>\<^verbatim>\<open>open(path, O_WRONLY | O_CREAT | O_TRUNC, ...)\<close>\<close>

definition sys_open_trunc :: "io_env \<Rightarrow> string \<Rightarrow> sys \<Rightarrow> bool \<times> sys" where
  "sys_open_trunc e path s =
     (if \<not> io_open_ok e then (False, s)
      else (True, sys_set ((sys_fs s)(c_str path \<mapsto> \<lparr>f_data = [], f_mtime = io_now e\<rparr>)) s))"

text \<open>\<^verbatim>\<open>write\<close> on the descriptor of a freshly truncated file: appends at most what was
  asked.\<close>

definition sys_write :: "io_env \<Rightarrow> string \<Rightarrow> byte list \<Rightarrow> sys \<Rightarrow> int \<times> sys" where
  "sys_write e path buf s =
     (let n = min (io_write e (sys_calls s)) (int (length buf));
          s = s\<lparr>sys_calls := Suc (sys_calls s)\<rparr> in
      if n \<le> 0 then (n, s)
      else
        (n, case sys_fs s (c_str path) of
              None \<Rightarrow> s
            | Some f \<Rightarrow> sys_set ((sys_fs s)(c_str path \<mapsto>
                \<lparr>f_data = f_data f @ take (nat n) buf, f_mtime = io_now e\<rparr>)) s))"

definition sys_unlink :: "io_env \<Rightarrow> string \<Rightarrow> sys \<Rightarrow> bool \<times> sys" where
  "sys_unlink e path s =
     (if io_unlink_ok e (c_str path) \<and> sys_fs s (c_str path) \<noteq> None
      then (True, sys_set ((sys_fs s)(c_str path := None)) s) else (False, s))"

definition sys_rename :: "io_env \<Rightarrow> string \<Rightarrow> string \<Rightarrow> sys \<Rightarrow> bool \<times> sys" where
  "sys_rename e old new s =
     (if \<not> io_rename_ok e then (False, s)
      else case sys_fs s (c_str old) of
             None \<Rightarrow> (False, s)
           | Some f \<Rightarrow> (True, sys_set ((sys_fs s)(c_str old := None, c_str new \<mapsto> f)) s))"


section \<open>Saving\<close>

function write_all :: "io_env \<Rightarrow> string \<Rightarrow> byte list \<Rightarrow> sys \<Rightarrow> bool \<times> sys" where
  "write_all e path buf s =
     (if buf = [] then (True, s)
      else
        (let (n, s') = sys_write e path buf s in
         if n \<le> 0 then (False, s') else write_all e path (drop (nat n) buf) s'))"
  by auto
termination
  by (relation "measure (\<lambda>(e, path, buf, s). length buf)") auto

declare write_all.simps [simp del]

definition kv_tmp_path :: "string \<Rightarrow> string" where
  "kv_tmp_path path = path @ ''.tmp''"

text \<open>The caller's \<^verbatim>\<open>tokens\<close> is \<^verbatim>\<open>None\<close> for \<^verbatim>\<open>nullptr\<close>; a pointer and a
  length are a list and a length.\<close>

definition save_kv_to_file ::
  "io_env \<Rightarrow> string \<Rightarrow> kv_header \<Rightarrow> u32 list option \<Rightarrow> nat \<Rightarrow> byte list \<Rightarrow> nat \<Rightarrow> sys \<Rightarrow> bool \<times> sys"
where
  "save_kv_to_file e path hdr tokens n_tokens host_kv body_bytes s =
     (let tmp_path = kv_tmp_path path;
          fail = (\<lambda>s. (False, snd (sys_unlink e tmp_path s))) in
      if unat (h_body_bytes hdr) \<noteq> body_bytes then (False, s)
      else if unat (h_used_tokens hdr) \<noteq> n_tokens then (False, s)
      else if n_tokens > 0 \<and> tokens = None then (False, s)
      else
        (let (opened, s) = sys_open_trunc e tmp_path s in
         if \<not> opened then (False, s)
         else
           (let (n, s) = sys_write e tmp_path (header_bytes hdr) s in
            if n \<noteq> 128 then fail s
            else
              (let (wrote_tokens, s) =
                 (if n_tokens > 0
                  then write_all e tmp_path (tokens_bytes (take n_tokens (the tokens))) s
                  else (True, s)) in
               if \<not> wrote_tokens then fail s
               else
                 (let (wrote_body, s) = write_all e tmp_path (take body_bytes host_kv) s in
                  if \<not> wrote_body then fail s
                  else if \<not> io_fsync_ok e then fail s
                  else
                    (let (renamed, s) = sys_rename e tmp_path path s in
                     if \<not> renamed then fail s else (True, s)))))))"


section \<open>Loading\<close>

datatype load_error =
    Open_failed | Short_header | Bad_magic | Bad_version | Body_too_large | Fstat_failed
  | Size_mismatch | Tokens_failed | Body_failed

text \<open>\<^verbatim>\<open>read\<close> at offset \<^verbatim>\<open>off\<close>, the \<^verbatim>\<open>k\<close>-th of the operation: the return
  value, bounded by what was asked and by the end of the file, and the bytes.\<close>

definition sys_read :: "io_env \<Rightarrow> nat \<Rightarrow> byte list \<Rightarrow> nat \<Rightarrow> nat \<Rightarrow> int \<times> byte list" where
  "sys_read e k data off want =
     (let n = min (io_read e k) (int (min want (length data - off)))
      in (n, slice off (nat n) data))"

text \<open>\<^verbatim>\<open>read_all\<close>: the bytes read, with the call counter, or a failure.\<close>

function read_all :: "io_env \<Rightarrow> nat \<Rightarrow> byte list \<Rightarrow> nat \<Rightarrow> nat \<Rightarrow> (nat \<times> byte list) option" where
  "read_all e k data off want =
     (if want = 0 then Some (k, [])
      else
        (let (n, bs) = sys_read e k data off want in
         if n \<le> 0 then None
         else do {
           (k', rest) \<leftarrow> read_all e (Suc k) data (off + nat n) (want - nat n);
           Some (k', bs @ rest)
         }))"
  by auto
termination
  by (relation "measure (\<lambda>(e, k, data, off, want). want)") (auto simp: sys_read_def Let_def)

declare read_all.simps [simp del]

text \<open>\<^verbatim>\<open>want_tokens\<close> is whether \<^verbatim>\<open>out_tokens\<close> is not null. The out-parameters of a
  failed load are discarded by its callers and not part of the result. Sizes are
  \<^verbatim>\<open>size_t\<close>: the expected size wraps.\<close>

definition expected_size :: "kv_header \<Rightarrow> u64" where
  "expected_size hdr = 128 + ucast (h_used_tokens hdr) * 4 + h_body_bytes hdr"

definition load_kv_from_file ::
  "io_env \<Rightarrow> fs \<Rightarrow> string \<Rightarrow> bool \<Rightarrow> u64 \<Rightarrow>
   load_error + kv_header \<times> u32 list option \<times> byte list"
where
  "load_kv_from_file e f path want_tokens kv_capacity =
     (case (if io_open_ok e then f (c_str path) else None) of
        None \<Rightarrow> Inl Open_failed
      | Some file \<Rightarrow>
        (let data = f_data file;
             (n, hb) = sys_read e 0 data 0 128;
             hdr = header_of hb;
             used = unat (h_used_tokens hdr);
             tok_bytes = used * 4 in
         if n \<noteq> 128 then Inl Short_header
         else if h_magic hdr \<noteq> KVCACHE_MAGIC then Inl Bad_magic
         else if h_version hdr \<noteq> KVCACHE_VERSION then Inl Bad_version
         else if h_body_bytes hdr > kv_capacity then Inl Body_too_large
         else if \<not> io_fstat_ok e then Inl Fstat_failed
         else if of_nat (length data) \<noteq> expected_size hdr then Inl Size_mismatch
         else
           (case (if want_tokens then
                    (if used > 0
                     then map_option (\<lambda>(k, b). (k, Some (tokens_of used b)))
                            (read_all e 1 data 128 tok_bytes)
                     else Some (1, Some []))
                  else Some (1, None)) of
              None \<Rightarrow> Inl Tokens_failed
            | Some (k, toks) \<Rightarrow>
                (case read_all e k data (128 + tok_bytes) (unat (h_body_bytes hdr)) of
                   None \<Rightarrow> Inl Body_failed
                 | Some (_, body) \<Rightarrow> Inr (hdr, toks, body)))))"

definition peek_kv_header :: "io_env \<Rightarrow> fs \<Rightarrow> string \<Rightarrow> kv_header option" where
  "peek_kv_header e f path =
     (case (if io_open_ok e then f (c_str path) else None) of
        None \<Rightarrow> None
      | Some file \<Rightarrow>
        (let data = f_data file;
             (n, hb) = sys_read e 0 data 0 128;
             hdr = header_of hb in
         if n \<noteq> 128 then None
         else if h_magic hdr \<noteq> KVCACHE_MAGIC then None
         else if h_version hdr \<noteq> KVCACHE_VERSION then None
         else if \<not> io_fstat_ok e then None
         else if of_nat (length data) \<noteq> expected_size hdr then None
         else Some hdr))"


section \<open>The model fingerprint\<close>

definition FNV_OFFSET :: u64 where "FNV_OFFSET = 0xcbf29ce484222325"

definition FNV_PRIME :: u64 where "FNV_PRIME = 0x100000001b3"

definition fnv_step :: "u64 \<Rightarrow> byte \<Rightarrow> u64" where
  "fnv_step h b = (h XOR ucast b) * FNV_PRIME"

definition fnv1a :: "byte list \<Rightarrow> u64" where
  "fnv1a bs = foldl fnv_step FNV_OFFSET bs"

definition compute_model_fingerprint :: "io_env \<Rightarrow> fs \<Rightarrow> string \<Rightarrow> bool \<times> byte list" where
  "compute_model_fingerprint e f gguf_path =
     (let fail = (False, replicate 32 0) in
      case (if io_open_ok e then f (c_str gguf_path) else None) of
        None \<Rightarrow> fail
      | Some file \<Rightarrow>
        (let data = f_data file in
         if \<not> io_fstat_ok e then fail
         else if length data < 256 then fail
         else
           (let (n, head) = sys_read e 0 data 0 256 in
            if n \<noteq> 256 then fail
            else
              (True, le64 (fnv1a (le64 (of_nat (length data)) @ head)) @ replicate 24 0))))"


section \<open>Format lemmas\<close>

lemma length_header_bytes: "header_ok h \<Longrightarrow> length (header_bytes h) = 128"
  by (simp add: header_bytes_def header_ok_def)

lemma header_of_bytes: "header_ok h \<Longrightarrow> header_of (header_bytes h) = h"
  by (simp add: header_of_def header_bytes_def header_ok_def slice_def)

lemma le32_u32_of: "length bs = 4 \<Longrightarrow> le32 (u32_of bs) = bs"
  using nat_to_le_to_nat [of bs] le_to_nat_bound [of bs] by (simp add: unat_of_nat)

lemma le64_u64_of: "length bs = 8 \<Longrightarrow> le64 (u64_of bs) = bs"
  using nat_to_le_to_nat [of bs] le_to_nat_bound [of bs] by (simp add: unat_of_nat)

lemma slice_split: "slice off (m + n) b = slice off m b @ slice (off + m) n b"
  by (simp add: slice_def take_add drop_drop add.commute)

lemma header_bytes_of:
  assumes "length b = 128"
  shows "header_bytes (header_of b) = b"
proof -
  have "b = slice 0 (4+(4+(4+(4+(4+(4+(4+(4+(8+(32+56)))))))))) b" using assms by (simp add: slice_def)
  also have "\<dots> = header_bytes (header_of b)"
    unfolding header_bytes_def header_of_def slice_split
    using assms by (simp add: le32_u32_of le64_u64_of length_slice)
  finally show ?thesis by simp
qed

lemma header_of_ok: "length b = 128 \<Longrightarrow> header_ok (header_of b)"
  by (simp add: header_ok_def header_of_def length_slice)

lemma length_tokens_bytes [simp]: "length (tokens_bytes ts) = length ts * 4"
  by (induction ts) (auto simp: tokens_bytes_def)

lemma tokens_of_bytes: "tokens_of (length ts) (tokens_bytes ts @ r) = ts"
proof (induction ts)
  case (Cons t ts)
  then show ?case by (simp add: tokens_bytes_def)
qed simp

lemma tokens_bytes_of: "length b = n * 4 \<Longrightarrow> tokens_bytes (tokens_of n b) = b"
proof (induction n arbitrary: b)
  case (Suc n)
  then have "tokens_bytes (tokens_of n (drop 4 b)) = drop 4 b" by simp
  then show ?case using Suc.prems by (simp add: tokens_bytes_def le32_u32_of)
qed (simp add: tokens_bytes_def)

lemma length_tokens_of [simp]: "length (tokens_of n b) = n"
  by (induction n arbitrary: b) auto

text \<open>The image of a cache file: header, token ids, packed body.\<close>

definition kv_image :: "kv_header \<Rightarrow> u32 list \<Rightarrow> byte list \<Rightarrow> byte list" where
  "kv_image h ts body = header_bytes h @ tokens_bytes ts @ body"

lemma length_kv_image: "header_ok h \<Longrightarrow> length (kv_image h ts body) = 128 + length ts * 4 + length body"
  by (simp add: kv_image_def length_header_bytes)


section \<open>What a save can leave behind\<close>

text \<open>\<^verbatim>\<open>touches t s s'\<close>: between \<^verbatim>\<open>s\<close> and \<^verbatim>\<open>s'\<close> no file but
  \<^verbatim>\<open>t\<close> changed, in the end and in every state logged in between.\<close>

definition touches :: "string \<Rightarrow> sys \<Rightarrow> sys \<Rightarrow> bool" where
  "touches t s s' \<longleftrightarrow> (\<exists>ext. sys_log s' = sys_log s @ ext \<and>
     (\<forall>g \<in> set ext. \<forall>q. q \<noteq> t \<longrightarrow> g q = sys_fs s q)) \<and> (\<forall>q. q \<noteq> t \<longrightarrow> sys_fs s' q = sys_fs s q)"

lemma touches_refl [simp, intro]: "touches t s s"
  by (simp add: touches_def)

lemma touches_trans: "touches t s1 s2 \<Longrightarrow> touches t s2 s3 \<Longrightarrow> touches t s1 s3"
  unfolding touches_def by (elim conjE exE) (auto simp: ball_Un)

lemma touches_open: "touches (c_str path) s (snd (sys_open_trunc e path s))"
  by (auto simp: sys_open_trunc_def touches_def sys_set_def)

lemma touches_write: "touches (c_str path) s (snd (sys_write e path buf s))"
  by (auto simp: sys_write_def touches_def sys_set_def Let_def split: option.splits)

lemma touches_unlink: "touches (c_str path) s (snd (sys_unlink e path s))"
  by (auto simp: sys_unlink_def touches_def sys_set_def)

lemma touches_write_all: "touches (c_str path) s (snd (write_all e path buf s))"
proof (induction e path buf s rule: write_all.induct)
  case (1 e path buf s)
  obtain n s1 where w: "sys_write e path buf s = (n, s1)" by fastforce
  then have t: "touches (c_str path) s s1" using touches_write [of path s e buf] by simp
  show ?case
    using 1 [OF _ w [symmetric] refl] t w
    by (subst write_all.simps) (auto intro: touches_trans)
qed

lemma sys_write_appends:
  assumes "sys_write e path buf s = (n, s')" "sys_fs s (c_str path) = Some f" "0 < n"
  shows "\<exists>f'. sys_fs s' (c_str path) = Some f' \<and> f_data f' = f_data f @ take (nat n) buf \<and> n \<le> int (length buf)"
  using assms by (auto simp: sys_write_def sys_set_def Let_def split: if_splits)

lemma write_all_appends:
  assumes "write_all e path buf s = (True, s')" "sys_fs s (c_str path) = Some f"
  shows "\<exists>f'. sys_fs s' (c_str path) = Some f' \<and> f_data f' = f_data f @ buf"
  using assms
proof (induction e path buf s arbitrary: f rule: write_all.induct)
  case (1 e path buf s)
  show ?case
  proof (cases "buf = []")
    case True
    then show ?thesis using 1 by (simp add: write_all.simps)
  next
    case False
    obtain n s1 where w: "sys_write e path buf s = (n, s1)" by fastforce
    from 1(2) False w have n: "\<not> n \<le> 0" and rec: "write_all e path (drop (nat n) buf) s1 = (True, s')"
      by (subst (asm) write_all.simps; auto split: if_splits)+
    obtain f1 where f1: "sys_fs s1 (c_str path) = Some f1" "f_data f1 = f_data f @ take (nat n) buf"
      using sys_write_appends [OF w 1(3)] n by auto
    show ?thesis using 1(1) [OF False w [symmetric] refl n rec f1(1)] f1(2) by auto
  qed
qed

lemma touches_eq:
  "sys_open_trunc e path s = (b, s') \<Longrightarrow> touches (c_str path) s s'"
  "sys_write e path buf s = (n, s') \<Longrightarrow> touches (c_str path) s s'"
  "sys_unlink e path s = (b, s') \<Longrightarrow> touches (c_str path) s s'"
  "write_all e path buf s = (b, s') \<Longrightarrow> touches (c_str path) s s'"
  using touches_open touches_write touches_unlink touches_write_all by (metis snd_conv)+

text \<open>The outcome of a save: a failed one touched only the temporary file; a successful one
  filled the temporary file with the whole image and renamed it.\<close>

lemma save_outcome:
  assumes save: "save_kv_to_file e path hdr (Some toks) (length toks) body (length body) s = (r, s')"
    and ok: "header_ok hdr"
  shows "(\<not> r \<longrightarrow> touches (c_str (kv_tmp_path path)) s s') \<and>
    (r \<longrightarrow> (\<exists>s1 f. touches (c_str (kv_tmp_path path)) s s1 \<and>
       sys_fs s1 (c_str (kv_tmp_path path)) = Some f \<and> f_data f = kv_image hdr toks body \<and>
       s' = sys_set ((sys_fs s1)(c_str (kv_tmp_path path) := None, c_str path \<mapsto> f)) s1 \<and>
       unat (h_body_bytes hdr) = length body \<and> unat (h_used_tokens hdr) = length toks))"
proof -
  let ?t = "kv_tmp_path path" and ?fail = "\<lambda>s. (False, snd (sys_unlink e (kv_tmp_path path) s))"
  have fail: "touches (c_str ?t) s s' \<and> \<not> r" if "(r, s') = ?fail s1" "touches (c_str ?t) s s1" for s1
    using that touches_unlink [of ?t s1 e] by (auto intro: touches_trans)
  have fail0: ?thesis if "(r, s') = ?fail s1" "touches (c_str ?t) s s1" for s1
    using fail [OF that] by blast
  show ?thesis
  proof (cases "unat (h_body_bytes hdr) = length body \<and> unat (h_used_tokens hdr) = length toks")
    case False
    then have "save_kv_to_file e path hdr (Some toks) (length toks) body (length body) s = (False, s)"
      unfolding save_kv_to_file_def Let_def by (simp only: split: if_split) blast
    then have "r = False \<and> s' = s" using save by simp
    then show ?thesis by simp
  next
    case True
    obtain o1 s1 where w1: "sys_open_trunc e ?t s = (o1, s1)" by fastforce
    obtain n s2 where w2: "sys_write e ?t (header_bytes hdr) s1 = (n, s2)" by fastforce
    obtain b3 s3 where w3': "(if length toks > 0
        then write_all e ?t (tokens_bytes (take (length toks) (the (Some toks)))) s2 else (True, s2)) = (b3, s3)"
      by fastforce
    then have w3: "(if length toks > 0 then write_all e ?t (tokens_bytes toks) s2 else (True, s2)) = (b3, s3)"
      by (simp only: option.sel take_all order.refl)
    obtain b4 s4 where w4': "write_all e ?t (take (length body) body) s3 = (b4, s4)" by fastforce
    then have w4: "write_all e ?t body s3 = (b4, s4)" by simp
    obtain b5 s5 where w5: "sys_rename e ?t path s4 = (b5, s5)" by fastforce
    have t1: "touches (c_str ?t) s s1" using w1 by (rule touches_eq)
    have t2: "touches (c_str ?t) s s2" using t1 touches_eq(2) [OF w2] by (rule touches_trans)
    have "touches (c_str ?t) s2 s3" using w3 touches_eq(4) by (auto split: if_splits)
    with t2 have t3: "touches (c_str ?t) s s3" by (rule touches_trans)
    have t4: "touches (c_str ?t) s s4" using t3 touches_eq(4) [OF w4] by (rule touches_trans)
    have run: "(r, s') = (if \<not> o1 then (False, s1) else if n \<noteq> 128 then ?fail s2 else if \<not> b3 then ?fail s3
        else if \<not> b4 then ?fail s4 else if \<not> io_fsync_ok e then ?fail s4
        else if \<not> b5 then ?fail s5 else (True, s5))"
      unfolding save [symmetric] save_kv_to_file_def
      by (simp only: Let_def True w1 w2 w3' w4' w5 prod.case simp_thms if_False if_True option.distinct)
    have s5: "\<not> b5 \<Longrightarrow> s5 = s4" using w5 by (auto simp: sys_rename_def split: if_splits option.splits)
    show ?thesis
    proof (cases r)
      case False
      then show ?thesis
        using run t1 t2 t3 t4 s5 fail0 [of s2] fail0 [of s3] fail0 [of s4] by (auto split: if_splits)
    next
      case r: True
      have o: "o1" "n = 128" "b3" "b4" "b5" "s' = s5" using run r by (auto split: if_splits)
      obtain f1 where "sys_fs s1 (c_str ?t) = Some f1" "f_data f1 = []"
        using w1 o(1) by (auto simp: sys_open_trunc_def sys_set_def split: if_splits)
      then obtain f2 where f2: "sys_fs s2 (c_str ?t) = Some f2" "f_data f2 = header_bytes hdr"
        using sys_write_appends [OF w2] o(2) length_header_bytes [OF ok] by auto
      then obtain f3 where "sys_fs s3 (c_str ?t) = Some f3" "f_data f3 = header_bytes hdr @ tokens_bytes toks"
        using w3 o(3) write_all_appends [of e ?t "tokens_bytes toks" s2 s3]
        by (cases toks) (auto simp: tokens_bytes_def)
      then obtain f4 where f4: "sys_fs s4 (c_str ?t) = Some f4" "f_data f4 = kv_image hdr toks body"
        using write_all_appends [of e ?t body s3 s4] w4 o(4) by (auto simp: kv_image_def)
      have "s5 = sys_set ((sys_fs s4)(c_str ?t := None, c_str path \<mapsto> f4)) s4"
        using w5 o(5) f4 by (auto simp: sys_rename_def split: if_splits)
      then show ?thesis using t4 f4 o(6) True r by blast
    qed
  qed
qed

text \<open>Liveness: when the kernel accepts every call, however it splits the writes after the
  header, the save succeeds.\<close>

lemma write_all_succeeds: "\<forall>k. 0 < io_write e k \<Longrightarrow> fst (write_all e path buf s)"
proof (induction e path buf s rule: write_all.induct)
  case (1 e path buf s)
  obtain n s1 where w: "sys_write e path buf s = (n, s1)" by fastforce
  show ?case
  proof (cases "buf = []")
    case False
    moreover have "\<not> io_write e (sys_calls s) \<le> 0" using 1(2) by (simp add: not_le)
    ultimately have "\<not> n \<le> 0" using w by (auto simp: sys_write_def Let_def min_def split: if_splits)
    then show ?thesis
      using 1(1) [OF False w [symmetric] refl _ 1(2)] w False by (subst write_all.simps) simp
  qed (simp add: write_all.simps)
qed

lemma sys_write_header:
  "header_ok h \<Longrightarrow> 128 \<le> io_write e (sys_calls s) \<Longrightarrow> fst (sys_write e path (header_bytes h) s) = 128"
  by (simp add: sys_write_def Let_def length_header_bytes)

lemma sys_rename_succeeds:
  "io_rename_ok e \<Longrightarrow> sys_fs s (c_str old) \<noteq> None \<Longrightarrow> fst (sys_rename e old new s)"
  by (auto simp: sys_rename_def)

lemma sys_write_exists: "sys_fs s (c_str path) \<noteq> None \<Longrightarrow> sys_fs (snd (sys_write e path buf s)) (c_str path) \<noteq> None"
  by (auto simp: sys_write_def sys_set_def Let_def split: option.splits)

lemma write_all_exists:
  "sys_fs s (c_str path) \<noteq> None \<Longrightarrow> sys_fs (snd (write_all e path buf s)) (c_str path) \<noteq> None"
proof (induction e path buf s rule: write_all.induct)
  case (1 e path buf s)
  obtain n s1 where w: "sys_write e path buf s = (n, s1)" by fastforce
  then have "sys_fs s1 (c_str path) \<noteq> None" using sys_write_exists [OF 1(2), of e buf] by simp
  then show ?case
    using 1(1) [OF _ w [symmetric] refl] 1(2) w by (subst write_all.simps) auto
qed

lemma save_succeeds:
  assumes ok: "header_ok hdr" "unat (h_body_bytes hdr) = length body" "unat (h_used_tokens hdr) = length toks"
    and io: "io_open_ok e" "\<forall>k. 0 < io_write e k" "128 \<le> io_write e (sys_calls s)" "io_fsync_ok e" "io_rename_ok e"
  shows "fst (save_kv_to_file e path hdr (Some toks) (length toks) body (length body) s)"
proof -
  let ?t = "kv_tmp_path path"
  obtain s1 where w1: "sys_open_trunc e ?t s = (True, s1)" using io(1) by (auto simp: sys_open_trunc_def)
  have e1: "sys_fs s1 (c_str ?t) \<noteq> None" "sys_calls s1 = sys_calls s"
    using w1 io(1) by (auto simp: sys_open_trunc_def sys_set_def)
  obtain s2 where w2: "sys_write e ?t (header_bytes hdr) s1 = (128, s2)"
    using sys_write_header [OF ok(1), of e s1 ?t] io(3) e1(2) by (metis prod.collapse)
  have e2: "sys_fs s2 (c_str ?t) \<noteq> None" using sys_write_exists [OF e1(1)] w2 by (metis snd_conv)
  obtain s3 where w3: "(if length toks > 0
      then write_all e ?t (tokens_bytes (take (length toks) (the (Some toks)))) s2 else (True, s2)) = (True, s3)"
    using write_all_succeeds [OF io(2), of ?t _ s2] by (metis (full_types) prod.collapse)
  have e3: "sys_fs s3 (c_str ?t) \<noteq> None"
    using w3 e2 write_all_exists [OF e2, of e] by (metis snd_conv)
  obtain s4 where w4: "write_all e ?t (take (length body) body) s3 = (True, s4)"
    using write_all_succeeds [OF io(2), of ?t _ s3] by (metis (full_types) prod.collapse)
  have e4: "sys_fs s4 (c_str ?t) \<noteq> None" using write_all_exists [OF e3] w4 by (metis snd_conv)
  obtain s5 where w5: "sys_rename e ?t path s4 = (True, s5)"
    using sys_rename_succeeds [OF io(5) e4] by (metis (full_types) prod.collapse)
  show ?thesis unfolding save_kv_to_file_def
    by (simp only: Let_def ok(2,3) io(4) w1 w2 w3 w4 w5 prod.case simp_thms if_False if_True option.distinct fst_conv)
qed

text \<open>A small concrete run for the witnesses: a two-token cache, writes of at most 100 bytes after
  the header, reads of at most 5 bytes after the header.\<close>

definition demo_header :: kv_header where
  "demo_header = \<lparr>h_magic = KVCACHE_MAGIC, h_version = KVCACHE_VERSION, h_n_layers = 1, h_n_kv_heads = 1,
     h_head_dim = 1, h_kv_type_bytes = 2, h_max_context = 4, h_used_tokens = 2, h_body_bytes = 8,
     h_model_hash = replicate 32 7, h_reserved = replicate 56 0\<rparr>"

definition demo_env :: io_env where
  "demo_env = \<lparr>io_now = 10, io_open_ok = True, io_write = (\<lambda>k. if k = 0 then 128 else 5), io_fsync_ok = True,
     io_rename_ok = True, io_unlink_ok = (\<lambda>_. True), io_read = (\<lambda>k. if k = 0 then 128 else 5),
     io_fstat_ok = True\<rparr>"

definition demo_sys :: sys where
  "demo_sys = \<lparr>sys_fs = Map.empty, sys_log = [], sys_calls = 0\<rparr>"

lemma demo_header_ok: "header_ok demo_header"
  by (simp add: header_ok_def demo_header_def)

lemma demo_save_eq:
  "save_kv_to_file demo_env ''c.bin'' demo_header (Some [7, 9]) (length [7, 9 :: u32]) [1, 2, 3, 4, 5, 6, 7, 8]
     (length [1, 2, 3, 4, 5, 6, 7, 8 :: byte]) demo_sys =
   (True, snd (save_kv_to_file demo_env ''c.bin'' demo_header (Some [7, 9]) 2 [1, 2, 3, 4, 5, 6, 7, 8] 8 demo_sys))"
proof -
  have ok: "fst (save_kv_to_file demo_env ''c.bin'' demo_header (Some [7, 9]) (length [7, 9 :: u32])
      [1, 2, 3, 4, 5, 6, 7, 8] (length [1, 2, 3, 4, 5, 6, 7, 8 :: byte]) demo_sys)"
    by (rule save_succeeds) (auto simp: demo_header_ok, auto simp: demo_header_def demo_env_def demo_sys_def)
  have len: "length [7, 9 :: u32] = 2" "length [1, 2, 3, 4, 5, 6, 7, 8 :: byte] = 8" by simp_all
  show ?thesis using ok unfolding len by (simp only: prod_eq_iff fst_conv snd_conv simp_thms)
qed

text \<open>(C7) A save is atomic: in every state of the file system between its system calls, and so in
  every state a crash can leave, the cache file has its old contents or the complete new image, and
  no file but the cache file and its temporary has changed. If the save reports success the new
  image is in place and the temporary is gone; if it reports failure the old file is still there.\<close>

theorem save_is_crash_atomic:
  assumes save: "save_kv_to_file e path hdr (Some toks) (length toks) body (length body) s = (r, s')"
    and ok: "header_ok hdr" and nul: "CHR 0x00 \<notin> set path" and log: "sys_log s = []"
  shows "(\<forall>g \<in> set (sys_log s').
            (g path = sys_fs s path \<or> map_option f_data (g path) = Some (kv_image hdr toks body)) \<and>
            (\<forall>q. q \<noteq> path \<longrightarrow> q \<noteq> path @ ''.tmp'' \<longrightarrow> g q = sys_fs s q)) \<and>
         (if r then map_option f_data (sys_fs s' path) = Some (kv_image hdr toks body) \<and>
                    sys_fs s' (path @ ''.tmp'') = None
          else sys_fs s' path = sys_fs s path)"
proof -
  have c: "c_str (kv_tmp_path path) = path @ ''.tmp''" "c_str path = path"
    using nul by (auto intro: c_str_no_nul simp: kv_tmp_path_def)
  have ne: "path \<noteq> path @ ''.tmp''" by simp
  note out = save_outcome [OF save ok, unfolded c]
  show ?thesis
  proof (cases r)
    case False
    then have "touches (path @ ''.tmp'') s s'" using out by blast
    then show ?thesis using log ne False unfolding touches_def by auto
  next
    case True
    then obtain s1 f where t: "touches (path @ ''.tmp'') s s1" and f: "f_data f = kv_image hdr toks body"
      and s': "s' = sys_set ((sys_fs s1)(path @ ''.tmp'' := None, path \<mapsto> f)) s1"
      using out by blast
    from t have fs1: "\<And>q. q \<noteq> path @ ''.tmp'' \<Longrightarrow> sys_fs s1 q = sys_fs s q"
      and lg: "\<forall>g \<in> set (sys_log s1). \<forall>q. q \<noteq> path @ ''.tmp'' \<longrightarrow> g q = sys_fs s q"
      using log unfolding touches_def by auto
    have l': "sys_log s' = sys_log s1 @ [(sys_fs s1)(path @ ''.tmp'' := None, path \<mapsto> f)]"
      and f': "sys_fs s' = (sys_fs s1)(path @ ''.tmp'' := None, path \<mapsto> f)"
      using s' by (simp_all add: sys_set_def)
    show ?thesis unfolding l' f' using lg fs1 ne f True by auto
  qed
qed

theorem save_is_crash_atomic_witness:
  "let s' = snd (save_kv_to_file demo_env ''c.bin'' demo_header (Some [7, 9]) 2 [1, 2, 3, 4, 5, 6, 7, 8] 8 demo_sys)
   in (\<forall>g \<in> set (sys_log s'). g ''c.bin'' = None \<or>
         map_option f_data (g ''c.bin'') = Some (kv_image demo_header [7, 9] [1, 2, 3, 4, 5, 6, 7, 8])) \<and>
      map_option f_data (sys_fs s' ''c.bin'') = Some (kv_image demo_header [7, 9] [1, 2, 3, 4, 5, 6, 7, 8])"
  using save_is_crash_atomic [OF demo_save_eq demo_header_ok]
  by (auto simp: demo_sys_def Let_def)

lemma read_all_sound:
  "read_all e k data off want = Some (k', bs) \<Longrightarrow>
   bs = slice off want data \<and> (want = 0 \<or> off + want \<le> length data)"
proof (induction e k data off want arbitrary: k' bs rule: read_all.induct)
  case (1 e k data off want)
  show ?case
  proof (cases "want = 0")
    case True
    then show ?thesis using 1 by (simp add: read_all.simps)
  next
    case False
    define n where "n = min (io_read e k) (int (min want (length data - off)))"
    from 1(2) False obtain rest where n: "0 < n" and bs: "bs = slice off (nat n) data @ rest"
      and rec: "read_all e (Suc k) data (off + nat n) (want - nat n) = Some (k', rest)"
      by (subst (asm) read_all.simps)
         (auto simp: sys_read_def Let_def n_def [symmetric] bind_eq_Some_conv split: if_splits)
    have le: "nat n \<le> want" "off + nat n \<le> length data" using n unfolding n_def by auto
    have sr: "(n, slice off (nat n) data) = sys_read e k data off want"
      by (simp add: sys_read_def n_def Let_def)
    have "rest = slice (off + nat n) (want - nat n) data \<and>
        (want - nat n = 0 \<or> off + nat n + (want - nat n) \<le> length data)"
      using 1(1) [OF False sr refl _ rec] n by simp
    then show ?thesis
      using bs le slice_split [of off "nat n" "want - nat n" data] by auto
  qed
qed

lemma read_all_complete:
  assumes "\<forall>i. 0 < io_read e i" "off + want \<le> length data"
  shows "\<exists>k'. read_all e k data off want = Some (k', slice off want data)"
  using assms
proof (induction e k data off want rule: read_all.induct)
  case (1 e k data off want)
  show ?case
  proof (cases "want = 0")
    case True
    then show ?thesis by (simp add: read_all.simps)
  next
    case False
    define n where "n = min (io_read e k) (int (min want (length data - off)))"
    have n: "0 < n" "nat n \<le> want" "off + nat n \<le> length data"
      using 1(2,3) False unfolding n_def by (auto simp: min_def)
    have sr: "(n, slice off (nat n) data) = sys_read e k data off want"
      by (simp add: sys_read_def n_def Let_def)
    obtain k' where "read_all e (Suc k) data (off + nat n) (want - nat n) =
        Some (k', slice (off + nat n) (want - nat n) data)"
      using 1(1) [OF False sr refl] n 1(2,3) by auto
    then show ?thesis
      using False n slice_split [of off "nat n" "want - nat n" data]
      by (subst read_all.simps) (simp add: sr [symmetric])
  qed
qed


section \<open>What a load accepts\<close>

lemma expected_size_nat:
  "expected_size h = of_nat (128 + unat (h_used_tokens h) * 4 + unat (h_body_bytes h))"
  by (simp add: expected_size_def)

lemma expected_size_eq:
  assumes "of_nat n = expected_size h" "n < 2 ^ 64" "unat (h_body_bytes h) < 2 ^ 63"
  shows "n = 128 + unat (h_used_tokens h) * 4 + unat (h_body_bytes h)"
proof -
  let ?m = "128 + unat (h_used_tokens h) * 4 + unat (h_body_bytes h)"
  have "unat (h_used_tokens h) < 2 ^ 32" using unsigned_less [of "h_used_tokens h"] by simp
  then have m: "?m < 2 ^ 64" using assms(3) by simp
  have "unat (of_nat n :: u64) = unat (of_nat ?m :: u64)"
    using assms(1) unfolding expected_size_nat by simp
  then show ?thesis using m assms(2) by (simp only: unat_of_nat) simp
qed

lemma kv_image_slices:
  assumes "length data = 128 + n * 4 + m"
  shows "data = kv_image (header_of (slice 0 128 data)) (tokens_of n (slice 128 (n * 4) data)) (slice (128 + n * 4) m data)"
proof -
  have "data = slice 0 (128 + (n * 4 + m)) data" using assms by (simp add: slice_def)
  also have "\<dots> = slice 0 128 data @ slice 128 (n * 4) data @ slice (128 + n * 4) m data"
    by (simp only: slice_split add_0)
  finally show ?thesis
    using assms by (simp add: kv_image_def header_bytes_of tokens_bytes_of length_slice)
qed

lemma sys_read_full: "sys_read e k data off want = (int want, bs) \<Longrightarrow>
    bs = slice off want data \<and> (want = 0 \<or> off + want \<le> length data)"
  by (auto simp: sys_read_def Let_def min_def split: if_splits)

lemma load_Inr:
  assumes load: "load_kv_from_file e f path True cap = Inr (h, ts, body)"
    and f: "f (c_str path) = Some file"
  shows "h = header_of (slice 0 128 (f_data file)) \<and> 128 \<le> length (f_data file) \<and>
    h_magic h = KVCACHE_MAGIC \<and> h_version h = KVCACHE_VERSION \<and> h_body_bytes h \<le> cap \<and>
    of_nat (length (f_data file)) = expected_size h \<and>
    ts = Some (tokens_of (unat (h_used_tokens h)) (slice 128 (unat (h_used_tokens h) * 4) (f_data file))) \<and>
    body = slice (128 + unat (h_used_tokens h) * 4) (unat (h_body_bytes h)) (f_data file)"
proof -
  obtain n hb where rd: "sys_read e 0 (f_data file) 0 128 = (n, hb)" by fastforce
  have n: "n = 128" using load f rd
    by (auto simp: load_kv_from_file_def Let_def split: if_splits)
  then have hb: "hb = slice 0 128 (f_data file)" "128 \<le> length (f_data file)"
    using sys_read_full [of e 0 "f_data file" 0 128 hb] rd by auto
  let ?h = "header_of hb"
  define toks where "toks = (if 0 < unat (h_used_tokens ?h)
      then map_option (\<lambda>(k, b). (k, Some (tokens_of (unat (h_used_tokens ?h)) b)))
             (read_all e 1 (f_data file) 128 (unat (h_used_tokens ?h) * 4))
      else Some (1, Some []))"
  have run: "h_magic ?h = KVCACHE_MAGIC \<and> h_version ?h = KVCACHE_VERSION \<and> \<not> cap < h_body_bytes ?h \<and>
      of_nat (length (f_data file)) = expected_size ?h \<and>
      (\<exists>k k' tk. toks = Some (k, tk) \<and> ts = tk \<and> h = ?h \<and>
         read_all e k (f_data file) (128 + unat (h_used_tokens ?h) * 4) (unat (h_body_bytes ?h)) = Some (k', body))"
    using load f unfolding load_kv_from_file_def
    by (simp only: Let_def rd n prod.case option.case if_True toks_def [symmetric] split: if_splits option.splits)
       (auto split: option.splits prod.splits)
  then obtain k k' tk where k: "toks = Some (k, tk)" "ts = tk" "h = ?h"
      "read_all e k (f_data file) (128 + unat (h_used_tokens ?h) * 4) (unat (h_body_bytes ?h)) = Some (k', body)"
    by blast
  have "tk = Some (tokens_of (unat (h_used_tokens ?h)) (slice 128 (unat (h_used_tokens ?h) * 4) (f_data file)))"
    using k(1) read_all_sound by (fastforce simp: toks_def split: if_splits)
  then show ?thesis using run k hb read_all_sound [OF k(4)] by (simp add: not_less)
qed

lemma load_kv_image:
  assumes f: "f (c_str path) = Some file" "f_data file = kv_image hdr toks body" and ok: "header_ok hdr"
    and sz: "unat (h_body_bytes hdr) = length body" "unat (h_used_tokens hdr) = length toks"
    and mv: "h_magic hdr = KVCACHE_MAGIC" "h_version hdr = KVCACHE_VERSION"
    and cap: "h_body_bytes hdr \<le> cap"
    and rd: "io_open_ok e'" "io_fstat_ok e'" "\<forall>i. 0 < io_read e' i" "128 \<le> io_read e' 0"
  shows "load_kv_from_file e' f path True cap = Inr (hdr, Some toks, body)"
proof -
  let ?d = "kv_image hdr toks body"
  have len: "length ?d = 128 + length toks * 4 + length body" using ok by (rule length_kv_image)
  have r0: "sys_read e' 0 ?d 0 128 = (128, header_bytes hdr)"
    using rd(4) len length_header_bytes [OF ok]
    by (simp add: sys_read_def Let_def kv_image_def slice_def)
  have es: "of_nat (length ?d) = expected_size hdr" by (simp only: len expected_size_nat sz)
  have st: "slice 128 (length toks * 4) ?d = tokens_bytes toks"
    and sb: "slice (128 + length toks * 4) (length body) ?d = body"
    using length_header_bytes [OF ok] by (simp_all add: kv_image_def slice_def)
  obtain k1 where k1: "read_all e' 1 ?d 128 (length toks * 4) = Some (k1, tokens_bytes toks)"
    using read_all_complete [OF rd(3), of 128 "length toks * 4" ?d 1] st len by auto
  have body: "\<exists>k2. read_all e' k ?d (128 + length toks * 4) (length body) = Some (k2, body)" for k
    using read_all_complete [OF rd(3), of "128 + length toks * 4" "length body" ?d k] sb len by auto
  obtain k2 k3 where k2: "read_all e' k1 ?d (128 + length toks * 4) (length body) = Some (k2, body)"
      "read_all e' (Suc 0) ?d (128 + length toks * 4) (length body) = Some (k3, body)"
    using body by meson
  show ?thesis unfolding load_kv_from_file_def
    using rd(1,2) f r0 header_of_bytes [OF ok] mv cap es sz k1 k2 tokens_of_bytes [of toks "[]"]
    by (cases "toks = []") (simp_all add: Let_def not_less)
qed





text \<open>\<^verbatim>\<open>peek_kv_header\<close> compares the file size with a sum that wraps around at 64 bits:
  a 128-byte file whose header announces one token and a body of \<^verbatim>\<open>2^64 - 4\<close> bytes passes the
  check, and the caller then sizes a buffer by that body.\<close>

theorem peek_accepts_wrapped_size:
  assumes "f (c_str path) = Some \<lparr>f_data = header_bytes h, f_mtime = m\<rparr>" and "header_ok h"
    and "h_magic h = KVCACHE_MAGIC" "h_version h = KVCACHE_VERSION"
    and "h_used_tokens h = 1" "h_body_bytes h = - 4"
    and "io_open_ok e" "io_fstat_ok e" "128 \<le> io_read e 0"
  shows "peek_kv_header e f path = Some h \<and> unat (h_body_bytes h) = 2 ^ 64 - 4"
proof -
  have r: "sys_read e 0 (header_bytes h) 0 128 = (128, header_bytes h)"
    using assms length_header_bytes [of h] by (simp add: sys_read_def Let_def slice_def)
  have "of_nat (length (header_bytes h)) = expected_size h"
    using assms length_header_bytes [of h] by (simp add: expected_size_def)
  moreover have "unat (- 4 :: u64) = 2 ^ 64 - 4" by simp
  ultimately show ?thesis
    using assms header_of_bytes [of h] r by (simp add: peek_kv_header_def Let_def)
qed

theorem peek_accepts_wrapped_size_witness:
  "let h = demo_header\<lparr>h_used_tokens := 1, h_body_bytes := - 4\<rparr>
   in peek_kv_header demo_env [''c.bin'' \<mapsto> \<lparr>f_data = header_bytes h, f_mtime = 0\<rparr>] ''c.bin'' = Some h"
  unfolding Let_def
  by (rule peek_accepts_wrapped_size [THEN conjunct1])
     (auto simp: c_str_no_nul header_ok_def demo_header_def demo_env_def)


section \<open>Fingerprints\<close>

text \<open>Multiplication by the odd FNV prime is invertible modulo \<^verbatim>\<open>2^64\<close>, so a step of the hash
  loses nothing of the state.\<close>

lemma FNV_PRIME_inverse: "FNV_PRIME * 0xCE965057AFF6957B = 1"
  by (simp add: FNV_PRIME_def)

lemma FNV_PRIME_inj: "a * FNV_PRIME = b * FNV_PRIME \<Longrightarrow> a = b"
  by (drule arg_cong [of _ _ "\<lambda>x. x * 0xCE965057AFF6957B"])
     (simp only: mult.assoc FNV_PRIME_inverse mult_1_right)

lemma xor_cancel: "(h XOR c) XOR c = (h :: u64)"
  by (simp add: xor.assoc)

lemma fnv_step_inj: "fnv_step h b = fnv_step h' b \<Longrightarrow> h = h'"
  unfolding fnv_step_def by (drule FNV_PRIME_inj) (metis xor_cancel)

lemma ucast_byte_inj: "(ucast b :: u64) = ucast b' \<Longrightarrow> b = (b' :: byte)"
proof -
  assume "(ucast b :: u64) = ucast b'"
  then have "unat (ucast b :: u64) = unat (ucast b' :: u64)" by simp
  then show ?thesis
    using unsigned_less [of b, where 'a = nat] unsigned_less [of b', where 'a = nat]
    by (simp add: unsigned_ucast_eq take_bit_nat_eq_self word_unat_eq_iff)
qed

lemma fnv_step_inj_byte: "fnv_step h b = fnv_step h b' \<Longrightarrow> b = b'"
  unfolding fnv_step_def by (drule FNV_PRIME_inj) (metis ucast_byte_inj xor_cancel xor.commute)

lemma fnv_fold_inj: "foldl fnv_step h bs = foldl fnv_step h' bs \<Longrightarrow> h = h'"
  by (induction bs arbitrary: h h') (auto dest: fnv_step_inj)

lemma fnv1a_single_byte:
  assumes "b \<noteq> b'"
  shows "fnv1a (xs @ b # ys) \<noteq> fnv1a (xs @ b' # ys)"
  using assms by (auto simp: fnv1a_def dest!: fnv_fold_inj fnv_step_inj_byte)

text \<open>The fingerprint tells two model files of the same size apart whenever they differ in
  exactly one of their first 256 bytes: no such change is ever lost in the 64-bit hash.\<close>

theorem fingerprint_detects_byte_change:
  assumes "f (c_str p) = Some f1" "f (c_str q) = Some f2"
    and "f_data f1 = xs @ b # ys" "f_data f2 = xs @ b' # ys" "b \<noteq> b'"
    and "length xs < 256" "256 \<le> length (f_data f1)" "256 \<le> io_read e 0" "io_open_ok e" "io_fstat_ok e"
  shows "fst (compute_model_fingerprint e f p) \<and> fst (compute_model_fingerprint e f q) \<and>
    snd (compute_model_fingerprint e f p) \<noteq> snd (compute_model_fingerprint e f q)"
proof -
  let ?n = "length xs + Suc (length ys)"
  let ?pre = "le64 (of_nat ?n) @ xs" and ?suf = "take (255 - length xs) ys"
  have len: "length (f_data f1) = ?n" "length (f_data f2) = ?n" "256 \<le> ?n" using assms by simp_all
  have cut: "slice 0 256 (xs @ c # ys) = xs @ c # ?suf" for c
  proof -
    have "256 - length xs = Suc (255 - length xs)" using assms(6) by simp
    then show ?thesis using assms(6) by (simp add: slice_def)
  qed
  have fp: "compute_model_fingerprint e f r = (True, le64 (fnv1a (?pre @ c # ?suf)) @ replicate 24 0)"
    if "f (c_str r) = Some g" "f_data g = xs @ c # ys" for r g c
    using that assms(8-10) len cut [of c]
    by (simp add: compute_model_fingerprint_def sys_read_def Let_def)
  have "fnv1a (?pre @ b # ?suf) \<noteq> fnv1a (?pre @ b' # ?suf)" by (rule fnv1a_single_byte) (rule assms(5))
  then have "le64 (fnv1a (?pre @ b # ?suf)) \<noteq> le64 (fnv1a (?pre @ b' # ?suf))" by (metis u64_of_le64)
  then show ?thesis using fp [OF assms(1,3)] fp [OF assms(2,4)] by simp
qed

theorem fingerprint_detects_byte_change_witness:
  "let f = [''a.gguf'' \<mapsto> \<lparr>f_data = [1] @ 2 # replicate 300 0, f_mtime = 0\<rparr>,
            ''b.gguf'' \<mapsto> \<lparr>f_data = [1] @ 3 # replicate 300 0, f_mtime = 0\<rparr>];
       e = demo_env\<lparr>io_read := \<lambda>_. 256\<rparr>
   in snd (compute_model_fingerprint e f ''a.gguf'') \<noteq> snd (compute_model_fingerprint e f ''b.gguf'')"
proof -
  let ?f = "[''a.gguf'' \<mapsto> \<lparr>f_data = [1] @ 2 # replicate 300 0, f_mtime = 0\<rparr>,
            ''b.gguf'' \<mapsto> \<lparr>f_data = [1] @ 3 # replicate 300 0, f_mtime = 0\<rparr>] :: fs"
  have "?f (c_str ''a.gguf'') = Some \<lparr>f_data = [1] @ 2 # replicate 300 0, f_mtime = 0\<rparr>"
    "?f (c_str ''b.gguf'') = Some \<lparr>f_data = [1] @ 3 # replicate 300 0, f_mtime = 0\<rparr>"
    by (simp_all add: c_str_no_nul)
  then show ?thesis unfolding Let_def
    by (rule fingerprint_detects_byte_change [where xs = "[1]" and b = 2 and b' = 3 and
          ys = "replicate 300 0", THEN conjunct2, THEN conjunct2])
       (simp_all add: demo_env_def)
qed

end
