(* ===== verification/KV_Cache_Dir.thy ===== *)
theory KV_Cache_Dir
  imports KV_File_Format "HOL-Library.Char_ord" "HOL-Library.Multiset"
begin

text \<open>
  The directory of cache files: conversation ids and the paths made from them
  (\<^verbatim>\<open>validate_conversation_id\<close> of \<^verbatim>\<open>src/engine/decode.cu\<close>,
  \<^verbatim>\<open>path_for_conv_id\<close>), the settings read from the environment, and the two sweeps
  \<^verbatim>\<open>enforce_kv_cache_budget\<close> and \<^verbatim>\<open>cleanup_stale_tmp_files\<close> of
  \<^verbatim>\<open>src/persistence/kv_cache_file.cpp\<close>.

  What the directory iterator yields is an argument, a record \<^verbatim>\<open>dir_env\<close>.
  \<^verbatim>\<open>std::sort\<close> leaves entries of equal time in no particular order, so the sort is an
  argument too: the results hold for every function that returns a permutation ordered by time.
\<close>


section \<open>Conversation ids and paths\<close>

definition conv_id_char :: "char \<Rightarrow> bool" where
  "conv_id_char c \<longleftrightarrow>
     (CHR ''a'' \<le> c \<and> c \<le> CHR ''z'') \<or> (CHR ''A'' \<le> c \<and> c \<le> CHR ''Z'') \<or>
     (CHR ''0'' \<le> c \<and> c \<le> CHR ''9'') \<or> c = CHR ''_'' \<or> c = CHR ''-''"

definition validate_conversation_id :: "string \<Rightarrow> bool" where
  "validate_conversation_id conv =
     (if conv = [] then True else if length conv > 64 then False else list_all conv_id_char conv)"

definition path_for_conv_id :: "string \<Rightarrow> string \<Rightarrow> string" where
  "path_for_conv_id dir conv_id =
     (if dir = [] \<or> conv_id = [] then []
      else if last dir = CHR ''/'' then dir @ conv_id @ ''.bin''
      else dir @ ''/'' @ conv_id @ ''.bin'')"

definition default_kv_cache_dir :: "env \<Rightarrow> string" where
  "default_kv_cache_dir e =
     (case e ''JLLM_KV_CACHE_DIR'' of
        Some v \<Rightarrow> if v \<noteq> [] then v else ''/opt/jllm/data/kv-cache''
      | None \<Rightarrow> ''/opt/jllm/data/kv-cache'')"

definition default_kv_cache_max_mb :: "env \<Rightarrow> int" where
  "default_kv_cache_max_mb e =
     (case e ''JLLM_KV_CACHE_MAX_MB'' of
        None \<Rightarrow> 1024
      | Some v \<Rightarrow> if v = [] then 1024 else (let n = strtoll10 v in if n < 0 then 0 else n))"

definition default_kv_cache_stale_tmp_s :: "env \<Rightarrow> int" where
  "default_kv_cache_stale_tmp_s e =
     (case e ''JLLM_KV_CACHE_STALE_TMP_S'' of
        None \<Rightarrow> 60
      | Some v \<Rightarrow> if v = [] then 60 else (let n = strtoll10 v in if n < 0 then 0 else to_int32 n))"

text \<open>\<^verbatim>\<open>create_directories\<close> reports success or an error code.\<close>

definition ensure_dir :: "(string \<Rightarrow> bool) \<Rightarrow> string \<Rightarrow> bool" where
  "ensure_dir create_directories dir = create_directories dir"


section \<open>Directory entries\<close>

record cache_entry =
  ce_path :: string
  ce_mtime :: int
  ce_size :: int

record dir_env =
  de_names :: "string \<Rightarrow> string list option"
  de_stat_ok :: "string \<Rightarrow> bool"

text \<open>\<^verbatim>\<open>dir / name\<close> and \<^verbatim>\<open>path::extension()\<close>: from the last dot of the file name, empty
  for the names dot and dot-dot and when the only dot comes first.\<close>

definition path_join :: "string \<Rightarrow> string \<Rightarrow> string" where
  "path_join dir name = (if dir = [] \<or> last dir = CHR ''/'' then dir @ name else dir @ ''/'' @ name)"

definition path_extension :: "string \<Rightarrow> string" where
  "path_extension name =
     (let tail = takeWhile (\<lambda>c. c \<noteq> CHR ''.'') (rev name);
          i = length name - length tail in
      if name = ''.'' \<or> name = ''..'' then []
      else if i \<le> 1 then []
      else drop (i - 1) name)"

definition list_entry :: "dir_env \<Rightarrow> fs \<Rightarrow> string \<Rightarrow> string \<Rightarrow> string \<Rightarrow> cache_entry option" where
  "list_entry d f dir suffix name =
     (let p = path_join dir name in
      case f p of
        None \<Rightarrow> None
      | Some file \<Rightarrow>
          if path_extension name \<noteq> suffix then None
          else if \<not> de_stat_ok d p then None
          else Some \<lparr>ce_path = p, ce_mtime = f_mtime file, ce_size = int (length (f_data file))\<rparr>)"

definition list_kv_files :: "dir_env \<Rightarrow> fs \<Rightarrow> string \<Rightarrow> string \<Rightarrow> cache_entry list" where
  "list_kv_files d f dir suffix =
     (case de_names d dir of
        None \<Rightarrow> []
      | Some names \<Rightarrow> List.map_filter (list_entry d f dir suffix) names)"


section \<open>The sweeps\<close>

fun evict_loop :: "io_env \<Rightarrow> int \<Rightarrow> string \<Rightarrow> cache_entry list \<Rightarrow> int \<Rightarrow> sys \<Rightarrow> int \<times> sys" where
  "evict_loop io max_bytes keep_path [] tot s = (tot, s)"
| "evict_loop io max_bytes keep_path (e # es) tot s =
     (if tot \<le> max_bytes then (tot, s)
      else if ce_path e = keep_path then evict_loop io max_bytes keep_path es tot s
      else
        (let (gone, s) = sys_unlink io (ce_path e) s in
         if gone then evict_loop io max_bytes keep_path es (tot - ce_size e) s
         else evict_loop io max_bytes keep_path es tot s))"

definition enforce_kv_cache_budget ::
  "(cache_entry list \<Rightarrow> cache_entry list) \<Rightarrow> io_env \<Rightarrow> dir_env \<Rightarrow> string \<Rightarrow> int \<Rightarrow> string \<Rightarrow> sys \<Rightarrow> sys"
where
  "enforce_kv_cache_budget sort_by_mtime io d dir max_bytes keep_path s =
     (if max_bytes \<le> 0 then s
      else
        (let entries = list_kv_files d (sys_fs s) dir ''.bin'';
             tot = sum_list (map ce_size entries) in
         if tot \<le> max_bytes then s
         else snd (evict_loop io max_bytes keep_path (sort_by_mtime entries) tot s)))"

fun cleanup_loop :: "io_env \<Rightarrow> int \<Rightarrow> cache_entry list \<Rightarrow> sys \<Rightarrow> sys" where
  "cleanup_loop io max_age [] s = s"
| "cleanup_loop io max_age (e # es) s =
     (if io_now io - ce_mtime e < max_age then cleanup_loop io max_age es s
      else cleanup_loop io max_age es (snd (sys_unlink io (ce_path e) s)))"

definition cleanup_stale_tmp_files :: "io_env \<Rightarrow> dir_env \<Rightarrow> string \<Rightarrow> int \<Rightarrow> sys \<Rightarrow> sys" where
  "cleanup_stale_tmp_files io d dir max_age_seconds s =
     (if max_age_seconds \<le> 0 then s
      else
        (let entries = list_kv_files d (sys_fs s) dir ''.tmp'' in
         if entries = [] then s else cleanup_loop io max_age_seconds entries s))"


section \<open>Paths of different conversations\<close>

lemma conv_id_chars:
  assumes "validate_conversation_id conv" "c \<in> set conv"
  shows "c \<noteq> CHR ''/'' \<and> c \<noteq> CHR ''.'' \<and> c \<noteq> CHR 0x00"
proof -
  have "conv_id_char c" using assms by (auto simp: validate_conversation_id_def list_all_iff split: if_splits)
  then show ?thesis by (auto simp: conv_id_char_def less_eq_char_def)
qed

lemma path_for_conv_id_join:
  "dir \<noteq> [] \<Longrightarrow> conv \<noteq> [] \<Longrightarrow> path_for_conv_id dir conv = path_join dir (conv @ ''.bin'')"
  by (simp add: path_for_conv_id_def path_join_def)

lemma path_join_inj: "path_join dir a = path_join dir b \<Longrightarrow> a = b"
  by (simp add: path_join_def split: if_splits)

lemma path_join_append: "path_join dir a @ x = path_join dir (a @ x)"
  by (simp add: path_join_def)

lemma path_extension_dot:
  assumes "CHR ''.'' \<notin> set x" "a \<noteq> []" "x \<noteq> []"
  shows "path_extension (a @ CHR ''.'' # x) = CHR ''.'' # x"
proof -
  have "takeWhile (\<lambda>c. c \<noteq> CHR ''.'') (rev (a @ CHR ''.'' # x)) = rev x"
    using assms(1) by (auto intro: trans [OF takeWhile_append2])
  moreover have "a @ CHR ''.'' # x \<noteq> ''.'' \<and> a @ CHR ''.'' # x \<noteq> ''..''"
    using assms(2,3) by (auto simp: append_eq_Cons_conv)
  ultimately show ?thesis using assms(2) by (auto simp: path_extension_def Let_def Suc_le_eq)
qed

lemma conv_path_inj:
  "path_for_conv_id dir a = path_for_conv_id dir b \<Longrightarrow> dir \<noteq> [] \<Longrightarrow> a \<noteq> [] \<Longrightarrow> b \<noteq> [] \<Longrightarrow> a = b"
  by (auto simp: path_for_conv_id_join dest: path_join_inj)

lemma tmp_path_not_conv:
  assumes "dir \<noteq> []" "a \<noteq> []" "b \<noteq> []"
  shows "kv_tmp_path (path_for_conv_id dir a) \<noteq> path_for_conv_id dir b"
proof
  assume "kv_tmp_path (path_for_conv_id dir a) = path_for_conv_id dir b"
  then have "(a @ ''.bin'') @ ''.tmp'' = b @ ''.bin''"
    unfolding path_for_conv_id_join [OF assms(1,2)] path_for_conv_id_join [OF assms(1,3)]
      kv_tmp_path_def path_join_append by (rule path_join_inj)
  then have "last ((a @ ''.bin'') @ ''.tmp'') = last (b @ ''.bin'')" by (rule arg_cong)
  then show False by simp
qed

text \<open>No path of a conversation contains a terminator, so the kernel sees the whole path.\<close>

lemma conv_path_c_str:
  assumes "CHR 0x00 \<notin> set dir" "validate_conversation_id a"
  shows "c_str (path_for_conv_id dir a) = path_for_conv_id dir a" "c_str (kv_tmp_path (path_for_conv_id dir a)) = kv_tmp_path (path_for_conv_id dir a)"
proof -
  have "CHR 0x00 \<notin> set (path_for_conv_id dir a)"
    using assms(1) conv_id_chars [OF assms(2)] by (auto simp: path_for_conv_id_def)
  then show "c_str (path_for_conv_id dir a) = path_for_conv_id dir a" "c_str (kv_tmp_path (path_for_conv_id dir a)) = kv_tmp_path (path_for_conv_id dir a)"
    by (auto intro!: c_str_no_nul simp: kv_tmp_path_def)
qed

text \<open>(C36) Files of different conversations never meet: for valid ids the cache file lies directly
  in the cache directory under the name \<^verbatim>\<open>id.bin\<close>, no separator or dot comes from the id,
  the file is one the eviction sweep sees, and neither the file nor the temporary of one conversation
  is the file or temporary of another.\<close>

theorem conversation_files_are_isolated:
  assumes "validate_conversation_id a" "validate_conversation_id b" "a \<noteq> []" "b \<noteq> []" "dir \<noteq> []"
  shows "path_for_conv_id dir a = path_join dir (a @ ''.bin'') \<and>
    CHR ''/'' \<notin> set (a @ ''.bin'') \<and> path_extension (a @ ''.bin'') = ''.bin'' \<and>
    path_extension (a @ ''.bin.tmp'') = ''.tmp'' \<and>
    (a \<noteq> b \<longrightarrow>
       path_for_conv_id dir a \<noteq> path_for_conv_id dir b \<and>
       kv_tmp_path (path_for_conv_id dir a) \<noteq> kv_tmp_path (path_for_conv_id dir b)) \<and>
    kv_tmp_path (path_for_conv_id dir a) \<noteq> path_for_conv_id dir b"
proof -
  have ext: "path_extension (a @ ''.bin'') = ''.bin''"
    using path_extension_dot [of "''bin''" a] assms(3) by simp
  have tmp: "path_extension (a @ ''.bin.tmp'') = ''.tmp''"
    using path_extension_dot [of "''tmp''" "a @ ''.bin''"] by simp
  have "kv_tmp_path (path_for_conv_id dir a) \<noteq> path_for_conv_id dir b" using tmp_path_not_conv assms(3-5) by blast
  moreover have "CHR ''/'' \<notin> set (a @ ''.bin'')" using conv_id_chars [OF assms(1)] by auto
  ultimately show ?thesis
    using assms ext tmp by (auto simp: path_for_conv_id_join kv_tmp_path_def dest: path_join_inj)
qed

theorem conversation_files_are_isolated_witness:
  "path_for_conv_id ''/data'' ''user-1'' = ''/data/user-1.bin'' \<and>
   kv_tmp_path (path_for_conv_id ''/data'' ''user-1'') \<noteq> path_for_conv_id ''/data'' ''user_2'' \<and>
   validate_conversation_id ''../etc'' = False"
  using conversation_files_are_isolated [of "''user-1''" "''user_2''" "''/data''"]
  by (auto simp: validate_conversation_id_def conv_id_char_def less_eq_char_def path_for_conv_id_def)


section \<open>What the sweeps delete\<close>

text \<open>The entries the loop removes among \<^verbatim>\<open>es\<close>.\<close>

definition removable :: "string \<Rightarrow> cache_entry list \<Rightarrow> cache_entry list" where
  "removable keep es = filter (\<lambda>e. ce_path e \<noteq> keep) es"

lemma removable_simps [simp]:
  "removable keep [] = []"
  "removable keep (e # es) = (if ce_path e = keep then removable keep es else e # removable keep es)"
  by (simp_all add: removable_def)

lemma set_removable: "set (removable keep es) = {e \<in> set es. ce_path e \<noteq> keep}"
  by (auto simp: removable_def)

text \<open>Whatever the kernel answers, the sweeps do nothing but unlink: they keep every property that
  unlinking keeps.\<close>

lemma evict_loop_keeps:
  assumes "\<And>path s. P s \<Longrightarrow> P (snd (sys_unlink io path s))"
  shows "P s \<Longrightarrow> P (snd (evict_loop io mx keep es tot s))"
  using assms by (induction es arbitrary: tot s) (auto simp: case_prod_beta)

lemma cleanup_loop_keeps:
  assumes "\<And>path s. P s \<Longrightarrow> P (snd (sys_unlink io path s))"
  shows "P s \<Longrightarrow> P (cleanup_loop io age es s)"
  using assms by (induction es arbitrary: s) auto

lemma sweeps_keep:
  assumes "\<And>path s. P s \<Longrightarrow> P (snd (sys_unlink io path s))" "P s"
  shows "P (enforce_kv_cache_budget srt io d dir mx keep s)" "P (cleanup_stale_tmp_files io d dir age s)"
  using assms evict_loop_keeps [of P io] cleanup_loop_keeps [of P io]
  by (auto simp: enforce_kv_cache_budget_def cleanup_stale_tmp_files_def Let_def)

text \<open>When every unlink succeeds, the loop removes a prefix of its list (less the kept file) and
  stops as soon as the total is within the budget.\<close>

lemma evict_loop_prefix:
  assumes "\<forall>e \<in> set es. sys_fs s (ce_path e) \<noteq> None \<and> c_str (ce_path e) = ce_path e \<and> io_unlink_ok io (ce_path e)"
    and "distinct (map ce_path es)" and "evict_loop io mx keep es tot s = (t', s')"
  shows "\<exists>k \<le> length es.
    (\<forall>q. sys_fs s' q = (if q \<in> ce_path ` set (removable keep (take k es)) then None else sys_fs s q)) \<and>
    t' = tot - sum_list (map ce_size (removable keep (take k es))) \<and> (t' \<le> mx \<or> k = length es)"
  using assms
proof (induction es arbitrary: tot s)
  case (Cons e es)
  show ?case
  proof (cases "tot \<le> mx")
    case True
    then show ?thesis using Cons.prems(3) by (intro exI [of _ 0]) auto
  next
    case False
    show ?thesis
    proof (cases "ce_path e = keep")
      case True
      with False Cons.prems(3) have "evict_loop io mx keep es tot s = (t', s')" by simp
      from Cons.IH [OF _ _ this] Cons.prems(1,2) obtain k where "k \<le> length es"
        "\<forall>q. sys_fs s' q = (if q \<in> ce_path ` set (removable keep (take k es)) then None else sys_fs s q)"
        "t' = tot - sum_list (map ce_size (removable keep (take k es)))" "t' \<le> mx \<or> k = length es"
        by auto
      then show ?thesis using True by (intro exI [of _ "Suc k"]) auto
    next
      case ne: False
      obtain s1 where u: "sys_unlink io (ce_path e) s = (True, s1)" and s1: "sys_fs s1 = (sys_fs s)(ce_path e := None)"
        using Cons.prems(1) by (auto simp: sys_unlink_def sys_set_def)
      have pre: "\<forall>x \<in> set es. sys_fs s1 (ce_path x) \<noteq> None \<and> c_str (ce_path x) = ce_path x \<and> io_unlink_ok io (ce_path x)"
        using Cons.prems(1,2) by (auto simp: s1) (metis imageI)
      have run: "evict_loop io mx keep es (tot - ce_size e) s1 = (t', s')"
        using Cons.prems(3) False ne u by simp
      obtain k where k: "k \<le> length es"
        "\<forall>q. sys_fs s' q = (if q \<in> ce_path ` set (removable keep (take k es)) then None else sys_fs s1 q)"
        "t' = tot - ce_size e - sum_list (map ce_size (removable keep (take k es)))" "t' \<le> mx \<or> k = length es"
        using Cons.IH [OF pre _ run] Cons.prems(2) by auto
      then show ?thesis using ne s1 by (intro exI [of _ "Suc k"]) auto
    qed
  qed
qed auto

lemma list_kv_files_member:
  assumes "e \<in> set (list_kv_files d f dir suffix)"
  shows "\<exists>name file. ce_path e = path_join dir name \<and> f (ce_path e) = Some file \<and>
    path_extension name = suffix \<and> ce_mtime e = f_mtime file \<and> ce_size e = int (length (f_data file))"
  using assms
  by (auto simp: list_kv_files_def list_entry_def Let_def map_filter_def split: option.splits if_splits)

lemma list_kv_files_distinct:
  assumes "\<And>names. de_names d dir = Some names \<Longrightarrow> distinct names"
  shows "distinct (map ce_path (list_kv_files d f dir suffix))"
proof -
  have path: "ce_path e = path_join dir n" if "list_entry d f dir suffix n = Some e" for n e
    using that by (auto simp: list_entry_def Let_def split: option.splits if_splits)
  have "distinct (map ce_path (List.map_filter (list_entry d f dir suffix) ns))" if "distinct ns" for ns
    using that
  proof (induction ns)
    case (Cons n ns)
    have "path_join dir n \<notin> ce_path ` set (List.map_filter (list_entry d f dir suffix) ns)"
      using Cons.prems path by (auto simp: map_filter_def dest: path_join_inj)
    with Cons path show ?case by (auto simp: map_filter_simps split: option.splits)
  qed (simp add: map_filter_simps)
  then show ?thesis using assms by (auto simp: list_kv_files_def split: option.splits)
qed

lemma filter_removed:
  assumes gone: "\<And>e. e \<in> set es \<Longrightarrow> P e \<longleftrightarrow> e \<in> set (removable keep (take k es))"
    and dist: "distinct (map ce_path es)"
  shows "filter P es = removable keep (take k es)"
proof -
  have "filter P (take k es) = removable keep (take k es)"
    unfolding removable_def using gone by (intro filter_cong) (auto simp: set_removable dest: in_set_takeD)
  moreover have "set (take k es) \<inter> set (drop k es) = {}"
    using dist by (metis append_take_drop_id distinct_append distinct_map)
  then have "filter P (drop k es) = []"
    using gone by (auto simp: filter_empty_conv set_removable dest: in_set_dropD)
  ultimately show ?thesis by (metis append_Nil2 append_take_drop_id filter_append)
qed

lemma sum_list_filter_split:
  "sum_list (map g (filter P xs)) + sum_list (map g (filter (\<lambda>x. \<not> P x) xs)) = (sum_list (map g xs) :: int)"
  by (induction xs) auto

lemma mset_sum_list: "mset xs = mset ys \<Longrightarrow> sum_list (map g xs) = (sum_list (map g ys) :: int)"
  by (metis mset_map sum_mset_sum_list)

lemma evict_loop_outcome:
  assumes ex: "\<forall>e \<in> set es. sys_fs s (ce_path e) \<noteq> None \<and> c_str (ce_path e) = ce_path e \<and> io_unlink_ok io (ce_path e)"
    and dist: "distinct (map ce_path es)" and sorted: "sorted (map ce_mtime es)"
    and run: "evict_loop io mx keep es (sum_list (map ce_size es)) s = (t', s')"
  shows "(\<forall>q. q = keep \<or> q \<notin> ce_path ` set es \<longrightarrow> sys_fs s' q = sys_fs s q) \<and>
    (sum_list (map ce_size (filter (\<lambda>e. sys_fs s' (ce_path e) \<noteq> None) es)) \<le> mx \<or>
     (\<forall>e \<in> set es. sys_fs s' (ce_path e) \<noteq> None \<longrightarrow> ce_path e = keep)) \<and>
    (\<forall>a \<in> set es. \<forall>b \<in> set es.
       sys_fs s' (ce_path a) = None \<longrightarrow> sys_fs s' (ce_path b) \<noteq> None \<longrightarrow> ce_path b \<noteq> keep \<longrightarrow>
       ce_mtime a \<le> ce_mtime b)"
proof -
  obtain k where k: "k \<le> length es"
    "\<forall>q. sys_fs s' q = (if q \<in> ce_path ` set (removable keep (take k es)) then None else sys_fs s q)"
    "t' = sum_list (map ce_size es) - sum_list (map ce_size (removable keep (take k es)))"
    "t' \<le> mx \<or> k = length es"
    using evict_loop_prefix [OF ex dist run] by blast
  have inj: "a = b" if "a \<in> set es" "b \<in> set es" "ce_path a = ce_path b" for a b
    using dist that by (auto simp: distinct_map inj_on_def)
  have gone: "sys_fs s' (ce_path e) = None \<longleftrightarrow> e \<in> set (removable keep (take k es))" if "e \<in> set es" for e
    using k(2) ex that inj by (auto simp: set_removable dest: in_set_takeD) (metis in_set_takeD)
  have "filter (\<lambda>e. sys_fs s' (ce_path e) = None) es = removable keep (take k es)"
    using gone dist by (intro filter_removed) auto
  then have left: "sum_list (map ce_size (filter (\<lambda>e. sys_fs s' (ce_path e) \<noteq> None) es)) = t'"
    using sum_list_filter_split [of ce_size "\<lambda>e. sys_fs s' (ce_path e) = None" es] k(3) by simp
  have all: "\<forall>e \<in> set es. sys_fs s' (ce_path e) \<noteq> None \<longrightarrow> ce_path e = keep" if "k = length es"
    using gone that by (auto simp: set_removable)
  have old: "ce_mtime a \<le> ce_mtime b"
    if "a \<in> set es" "b \<in> set es" "sys_fs s' (ce_path a) = None" "sys_fs s' (ce_path b) \<noteq> None"
       "ce_path b \<noteq> keep" for a b
  proof -
    have a: "a \<in> set (take k es)" using gone that by (auto simp: set_removable)
    have "b \<notin> set (take k es)" using gone that by (auto simp: set_removable)
    then have b: "b \<in> set (drop k es)" using that(2) by (metis Un_iff append_take_drop_id set_append)
    have "sorted (map ce_mtime (take k es @ drop k es))" using sorted by simp
    then show ?thesis using a b by (auto simp: sorted_append simp del: append_take_drop_id)
  qed
  have "\<forall>q. q = keep \<or> q \<notin> ce_path ` set es \<longrightarrow> sys_fs s' q = sys_fs s q"
    using k(2) by (auto simp: set_removable dest: in_set_takeD)
  then show ?thesis using old left all k(4) by blast
qed


definition demo_dir :: dir_env where
  "demo_dir = \<lparr>de_names = (\<lambda>_. Some [''a.bin'', ''b.bin'', ''c.bin'', ''n.txt'']), de_stat_ok = (\<lambda>_. True)\<rparr>"

definition demo_dir_fs :: sys where
  "demo_dir_fs = \<lparr>sys_fs = [''d/a.bin'' \<mapsto> \<lparr>f_data = [0, 0, 0], f_mtime = 5\<rparr>,
     ''d/b.bin'' \<mapsto> \<lparr>f_data = [0, 0], f_mtime = 3\<rparr>, ''d/c.bin'' \<mapsto> \<lparr>f_data = [0, 0], f_mtime = 1\<rparr>,
     ''d/n.txt'' \<mapsto> \<lparr>f_data = [0], f_mtime = 0\<rparr>], sys_log = [], sys_calls = 0\<rparr>"

lemma demo_entries:
  "list_kv_files demo_dir (sys_fs demo_dir_fs) ''d'' ''.bin'' =
   [\<lparr>ce_path = ''d/a.bin'', ce_mtime = 5, ce_size = 3\<rparr>, \<lparr>ce_path = ''d/b.bin'', ce_mtime = 3, ce_size = 2\<rparr>,
    \<lparr>ce_path = ''d/c.bin'', ce_mtime = 1, ce_size = 2\<rparr>]"
  by (simp add: list_kv_files_def demo_dir_def demo_dir_fs_def list_entry_def path_join_def
      path_extension_def map_filter_simps)


lemma cleanup_loop_fs:
  assumes "\<forall>e \<in> set es. sys_fs s (ce_path e) \<noteq> None \<and> c_str (ce_path e) = ce_path e \<and> io_unlink_ok io (ce_path e)"
    and "distinct (map ce_path es)"
  shows "sys_fs (cleanup_loop io age es s) q =
    (if \<exists>e \<in> set es. ce_path e = q \<and> age \<le> io_now io - ce_mtime e then None else sys_fs s q)"
  using assms
proof (induction es arbitrary: s)
  case (Cons e es)
  let ?s1 = "snd (sys_unlink io (ce_path e) s)"
  have s1: "sys_fs ?s1 = (sys_fs s)(ce_path e := None)"
    using Cons.prems(1) by (auto simp: sys_unlink_def sys_set_def)
  have "\<forall>x \<in> set es. sys_fs ?s1 (ce_path x) \<noteq> None \<and> c_str (ce_path x) = ce_path x \<and> io_unlink_ok io (ce_path x)"
    using Cons.prems by (auto simp: s1) (metis imageI)
  then show ?case
    using Cons.IH [of ?s1] Cons.IH [of s] Cons.prems by (auto simp: s1)
qed simp

text \<open>The age sweep deletes exactly the \<^verbatim>\<open>.tmp\<close> files of the directory that are at least
  \<^verbatim>\<open>max_age_seconds\<close> old; cache files and fresh temporaries, which a running save may own, are
  kept.\<close>

theorem stale_tmp_sweep_correct:
  assumes names: "\<And>names. de_names d dir = Some names \<Longrightarrow> distinct names"
    and entries: "entries = list_kv_files d (sys_fs s) dir ''.tmp''"
    and unlink: "\<And>e. e \<in> set entries \<Longrightarrow> io_unlink_ok io (ce_path e) \<and> CHR 0x00 \<notin> set (ce_path e)"
    and age: "0 < max_age"
  shows "sys_fs (cleanup_stale_tmp_files io d dir max_age s) q =
    (if \<exists>e \<in> set entries. ce_path e = q \<and> max_age \<le> io_now io - ce_mtime e then None else sys_fs s q)"
proof (cases "entries = []")
  case True
  then show ?thesis using entries by (simp add: cleanup_stale_tmp_files_def)
next
  case False
  have "\<forall>e \<in> set entries. sys_fs s (ce_path e) \<noteq> None \<and> c_str (ce_path e) = ce_path e \<and> io_unlink_ok io (ce_path e)"
    using unlink entries list_kv_files_member c_str_no_nul by fastforce
  moreover have "distinct (map ce_path entries)" unfolding entries by (rule list_kv_files_distinct [OF names])
  ultimately show ?thesis
    using cleanup_loop_fs [of entries s io max_age q] age False
    by (simp add: cleanup_stale_tmp_files_def Let_def entries [symmetric])
qed

theorem stale_tmp_sweep_correct_witness:
  "let d = \<lparr>de_names = (\<lambda>_. Some [''a.bin'', ''b.bin.tmp'', ''c.bin.tmp'']), de_stat_ok = (\<lambda>_. True)\<rparr>;
       f = [''d/a.bin'' \<mapsto> \<lparr>f_data = [], f_mtime = 0\<rparr>, ''d/b.bin.tmp'' \<mapsto> \<lparr>f_data = [], f_mtime = 1\<rparr>,
            ''d/c.bin.tmp'' \<mapsto> \<lparr>f_data = [], f_mtime = 8\<rparr>];
       f' = sys_fs (cleanup_stale_tmp_files demo_env d ''d'' 5 \<lparr>sys_fs = f, sys_log = [], sys_calls = 0\<rparr>)
   in f' ''d/a.bin'' = f ''d/a.bin'' \<and> f' ''d/b.bin.tmp'' = None \<and> f' ''d/c.bin.tmp'' = f ''d/c.bin.tmp''"
proof -
  let ?d = "\<lparr>de_names = (\<lambda>_. Some [''a.bin'', ''b.bin.tmp'', ''c.bin.tmp'']), de_stat_ok = (\<lambda>_. True)\<rparr> :: dir_env"
  let ?f = "[''d/a.bin'' \<mapsto> \<lparr>f_data = [], f_mtime = 0\<rparr>, ''d/b.bin.tmp'' \<mapsto> \<lparr>f_data = [], f_mtime = 1\<rparr>,
            ''d/c.bin.tmp'' \<mapsto> \<lparr>f_data = [], f_mtime = 8\<rparr>] :: fs"
  let ?s = "\<lparr>sys_fs = ?f, sys_log = [], sys_calls = 0\<rparr> :: sys"
  have e: "[\<lparr>ce_path = ''d/b.bin.tmp'', ce_mtime = 1, ce_size = 0\<rparr>, \<lparr>ce_path = ''d/c.bin.tmp'', ce_mtime = 8, ce_size = 0\<rparr>] =
      list_kv_files ?d (sys_fs ?s) ''d'' ''.tmp''"
    by (simp add: list_kv_files_def list_entry_def path_join_def path_extension_def map_filter_simps)
  have now: "io_now demo_env = 10" "io_unlink_ok demo_env p" for p by (simp_all add: demo_env_def)
  have "sys_fs (cleanup_stale_tmp_files demo_env ?d ''d'' 5 ?s) q =
      (if \<exists>e \<in> set [\<lparr>ce_path = ''d/b.bin.tmp'', ce_mtime = 1, ce_size = 0\<rparr>, \<lparr>ce_path = ''d/c.bin.tmp'', ce_mtime = 8, ce_size = 0\<rparr>].
         ce_path e = q \<and> 5 \<le> io_now demo_env - ce_mtime e then None else sys_fs ?s q)" for q
    by (rule stale_tmp_sweep_correct [OF _ e]) (auto simp: now)
  then show ?thesis unfolding Let_def by (simp add: now)
qed

end
