(* ===== verification/Engine.thy ===== *)
theory Engine
  imports Prefill_Equiv Sampler Jetson_Hal Bpe_Tokenizer KV_Cache_Dir
begin

text \<open>
  The engine of \<^verbatim>\<open>decode.cu\<close> once a model is loaded: one decode step, the memory and thermal
  check, restoring the cache of a conversation (\<^verbatim>\<open>try_hydrate_kv\<close>) and \<^verbatim>\<open>Engine::generate\<close>
  from the prompt to the saved cache file.

  The state is the record \<^verbatim>\<open>engine\<close>. What the outside answers during one call of
  \<^verbatim>\<open>generate\<close> is the record \<^verbatim>\<open>world\<close>: memory and temperature readings by position, whether
  the copies of the logits succeed, whether \<^verbatim>\<open>stop\<close> has been called before the \<^verbatim>\<open>i\<close>-th test,
  the outcomes of the system calls, of the copies between host and device and of large allocations.
  Exceptions and undefined behaviour are values of \<^verbatim>\<open>gen_error\<close>. The clock only feeds statistics
  and log messages, and these are left out.
\<close>


section \<open>State\<close>

record engine =
  en_cfg :: model_config
  en_mw :: model_weights
  en_tok :: tokenizer
  en_budget :: memory_budget
  en_fingerprint :: "byte list"
  en_fwd :: fwd
  en_params :: gen_params
  en_last_token :: int
  en_recent :: "int list"
  en_rng :: nat
  en_stop :: bool
  en_host_logits :: int
  en_host_logits_capacity :: int

abbreviation en_kv :: "engine \<Rightarrow> kv_pool" where "en_kv e \<equiv> f_kv (en_fwd e)"

record gen_stats =
  gs_prompt_tokens :: int
  gs_completion_tokens :: int
  gs_peak_memory_mb :: int
  gs_peak_thermal_c :: f32
  gs_oom_stops :: int
  gs_thermal_pauses :: int

record world =
  w_meminfo :: "int \<Rightarrow> string option"
  w_sysfs :: "int \<Rightarrow> sysfs"
  w_peak_meminfo :: "int \<Rightarrow> string option"
  w_peak_sysfs :: "int \<Rightarrow> sysfs"
  w_copy_ok :: "int \<Rightarrow> bool"
  w_first_copy_ok :: bool
  w_stop :: "int \<Rightarrow> bool"
  w_alloc_ok :: "int \<Rightarrow> bool"
  w_peek :: io_env
  w_load :: io_env
  w_scatter_ok :: "nat \<Rightarrow> bool"
  w_gather_ok :: "nat \<Rightarrow> bool"
  w_mkdir :: "string \<Rightarrow> bool"
  w_save :: io_env
  w_sweep :: io_env
  w_dir :: dir_env
  w_sort :: "cache_entry list \<Rightarrow> cache_entry list"

text \<open>\<^verbatim>\<open>Length_error\<close> and \<^verbatim>\<open>Bad_alloc\<close> are the exceptions; \<^verbatim>\<open>Diverges\<close> is the tokenizer on an
  empty special token; \<^verbatim>\<open>Bad_access\<close> is a kernel on a null pointer or an access outside a buffer.\<close>

datatype gen_error = Length_error | Bad_alloc | Diverges | Bad_access

definition access_of :: "'a option \<Rightarrow> gen_error + 'a" where
  "access_of r = (case r of None \<Rightarrow> Inl Bad_access | Some x \<Rightarrow> Inr x)"

fun and_then :: "'e + 'a \<Rightarrow> ('a \<Rightarrow> 'e + 'b) \<Rightarrow> 'e + 'b" where
  "and_then (Inl e) f = Inl e"
| "and_then (Inr x) f = f x"


section \<open>One decode step\<close>

definition push_recent :: "int \<Rightarrow> int list \<Rightarrow> int list" where
  "push_recent t ts = (let ts = ts @ [t] in if length ts > 64 then tl ts else ts)"

text \<open>Reading a block of halves as single-precision numbers.\<close>

fun f32s_of :: "half list \<Rightarrow> f32 list" where
  "f32s_of (a # b # hs) = (push_bit 16 (ucast b) OR ucast a) # f32s_of hs"
| "f32s_of hs = []"

text \<open>The final norm and the output projection of a hidden state, with buffers from the scratch
  pool. The logits buffer may be null; the rest of \<^verbatim>\<open>decode_step\<close> tests it.\<close>

definition logits_of :: "device \<Rightarrow> model_config \<Rightarrow> model_weights \<Rightarrow> half list \<Rightarrow> half list \<Rightarrow> int \<Rightarrow> f32 list" where
  "logits_of d cfg mw x normed_buf ptr =
     (let H = nat (m_hidden_dim cfg); V = nat (m_vocab_size cfg);
          normed = rms_norm d cfg normed_buf x (mw_output_norm mw) True 1 H
      in gemv_quant_f32 d (f32s_of (d_junk d ptr (2 * V))) (mw_output mw) (mw_output_type mw) normed V H)"

definition decode_step :: "device \<Rightarrow> stl \<Rightarrow> bool \<Rightarrow> int \<Rightarrow> engine \<Rightarrow> (int \<times> engine) option" where
  "decode_step d st copy_ok pos e =
     (let cfg = en_cfg e; mw = en_mw e; H = nat (m_hidden_dim cfg) in
      do {
        (bs, s) \<leftarrow> get_bufs d [H] (en_fwd e);
        x \<leftarrow> dequant_embedding d (bs ! 0) (mw_tok_embd mw) (en_last_token e) H (mw_embd_type mw);
        (x, s) \<leftarrow> forward_layers d cfg mw (gp_kv_int8 (en_params e)) pos (x, s);
        (ns, s) \<leftarrow> get_bufs d [H] s;
        let (ptr, sc) = scratch_get (m_vocab_size cfg * 4) (f_scratch s);
        let e = e\<lparr>en_fwd := s\<lparr>f_scratch := sc\<rparr>\<rparr>;
        if ptr = 0 \<or> en_host_logits e = 0 \<or> en_host_logits_capacity e < m_vocab_size cfg \<or> \<not> copy_ok
        then Some (eos_id (en_tok e), e)
        else
          (let (token, rng) = sample_token (d_fp d) st (d_env d) (logits_of d cfg mw x (ns ! 0) ptr)
                 (en_params e) (en_recent e) (en_rng e)
           in Some (token, e\<lparr>en_rng := rng, en_recent := push_recent token (en_recent e), en_last_token := token\<rparr>))
      })"

text \<open>\<^verbatim>\<open>check_memory_and_thermal\<close>: whether to go on, and the microseconds slept.\<close>

definition check_memory_and_thermal :: "fpu \<Rightarrow> string option \<Rightarrow> sysfs \<Rightarrow> int \<Rightarrow> engine \<Rightarrow> bool \<times> int" where
  "check_memory_and_thermal fp meminfo sf pos e =
     (let kv_bytes = (if gp_kv_int8 (en_params e) then 1 else 2) in
      if \<not> can_extend 256 meminfo (kv_per_token_bytes (en_cfg e) kv_bytes) then (False, 0)
      else if pos mod 10 = 0 then (let backoff = thermal_backoff_us (read_thermal fp sf) in (True, if backoff > 0 then backoff else 0))
      else (True, 0))"


section \<open>Restoring a conversation\<close>

fun common_prefix :: "u32 list \<Rightarrow> int list \<Rightarrow> nat" where
  "common_prefix (c # cs) (t # ts) = (if c = of_int t then Suc (common_prefix cs ts) else 0)"
| "common_prefix cs ts = 0"

text \<open>One layer of the compaction: the first \<^verbatim>\<open>matched\<close> keys and values out of
  \<^verbatim>\<open>used\<close>. \<^verbatim>\<open>None\<close> when the source range is not inside the loaded body.\<close>

fun compact_layers :: "int \<Rightarrow> int \<Rightarrow> int \<Rightarrow> byte list \<Rightarrow> nat list \<Rightarrow> byte list \<Rightarrow> byte list option" where
  "compact_layers eb used matched staging [] d = Some d"
| "compact_layers eb used matched staging (l # ls) d =
     (let half_eb = eb sdiv 2;
          src_layer_stride = used * eb;
          dst_layer_stride = matched * eb;
          matched_keys_bytes = matched * half_eb;
          src_keys = int l * src_layer_stride;
          src_vals = src_keys + used * half_eb;
          dst_keys = int l * dst_layer_stride;
          dst_vals = dst_keys + matched_keys_bytes in
      if src_vals + matched_keys_bytes > int (length staging) then None
      else
        (let d = blit d (nat dst_keys) (slice (nat src_keys) (nat matched_keys_bytes) staging);
             d = blit d (nat dst_vals) (slice (nat src_vals) (nat matched_keys_bytes) staging)
         in compact_layers eb used matched staging ls d))"

definition shape_matches :: "kv_header \<Rightarrow> kv_config \<Rightarrow> bool" where
  "shape_matches hdr c \<longleftrightarrow> sint (h_n_layers hdr) = n_layers c \<and> sint (h_n_kv_heads hdr) = n_kv_heads c \<and>
     sint (h_head_dim hdr) = head_dim c \<and> sint (h_max_context hdr) = max_context c \<and> sint (h_kv_type_bytes hdr) = kv_type_bytes c"

definition try_hydrate_kv :: "env \<Rightarrow> world \<Rightarrow> fs \<Rightarrow> int list \<Rightarrow> string \<Rightarrow> engine \<Rightarrow> gen_error + int \<times> engine" where
  "try_hydrate_kv env w f prompt_tokens conv_id e =
     (let c = kv_cfg (en_kv e);
          path = path_for_conv_id (default_kv_cache_dir env) conv_id in
      if conv_id = [] \<or> \<not> validate_conversation_id conv_id then Inr (0, e)
      else if prompt_tokens = [] then Inr (0, e)
      else case peek_kv_header (w_peek w) f path of
        None \<Rightarrow> Inr (0, e)
      | Some hdr \<Rightarrow>
        if h_model_hash hdr \<noteq> en_fingerprint e then Inr (0, e)
        else if \<not> shape_matches hdr c then Inr (0, e)
        else if h_used_tokens hdr = 0 \<or> h_used_tokens hdr > of_int (max_context c) then Inr (0, e)
        else if \<not> w_alloc_ok w (uint (h_body_bytes hdr)) then Inl Bad_alloc
        else case load_kv_from_file (w_load w) f path True (h_body_bytes hdr) of
          Inl err \<Rightarrow> Inr (0, e)
        | Inr (hdr2, cached, staging) \<Rightarrow>
          let cached_tokens = (case cached of None \<Rightarrow> [] | Some ts \<Rightarrow> ts);
              used = uint (h_used_tokens hdr);
              matched = int (common_prefix cached_tokens prompt_tokens);
              eb = 2 * n_kv_heads c * head_dim c * kv_type_bytes c;
              compact_bytes = n_layers c * (matched * eb) in
          if int (length cached_tokens) \<noteq> used then Inr (0, e)
          else if matched = 0 then Inr (0, e)
          else if \<not> w_alloc_ok w compact_bytes then Inl Bad_alloc
          else case compact_layers eb used matched staging [0..<nat (n_layers c)] (replicate (nat compact_bytes) 0) of
            None \<Rightarrow> Inl Bad_access
          | Some compact \<Rightarrow>
            (case scatter_from_host (w_scatter_ok w) compact matched True (en_kv e) of
               (done, p) \<Rightarrow> Inr (if done then matched else 0, e\<lparr>en_fwd := (en_fwd e)\<lparr>f_kv := p\<rparr>\<rparr>)))"


section \<open>Generation\<close>

text \<open>The tests on the prompt and its tokens, \<^verbatim>\<open>bos\<close> for an empty one. The reservation for the
  token list throws when the sum, converted to \<^verbatim>\<open>size_t\<close>, is beyond any vector; one of a valid size is
  taken to succeed.\<close>

definition prompt_tokens_of :: "tokenizer \<Rightarrow> int \<Rightarrow> int \<Rightarrow> string \<Rightarrow> gen_error + int \<times> int list" where
  "prompt_tokens_of t kv_token_limit max_tokens prompt =
     (if int (length prompt) > max 4096 (kv_token_limit * 8) then Inl Length_error
      else case encode t prompt of
        None \<Rightarrow> Inl Diverges
      | Some ids \<Rightarrow>
        let toks = (if ids = [] then [bos_id t] else ids) in
        if int (length toks) \<ge> kv_token_limit then Inl Length_error
        else if int (length toks) + max_tokens < 0 then Inl Length_error
        else Inr (int (length ids), toks))"

text \<open>The prefill of the tokens that were not restored; the hidden state of the last one, \<^verbatim>\<open>None\<close>
  when there was nothing to do.\<close>

definition prefill_prompt :: "device \<Rightarrow> int list \<Rightarrow> int \<Rightarrow> engine \<Rightarrow> (half list option \<times> engine) option" where
  "prefill_prompt d prompt_tokens prefill_start e =
     (let cfg = en_cfg e; mw = en_mw e; int8 = gp_kv_int8 (en_params e);
          N = int (length prompt_tokens); M = N - prefill_start;
          todo = drop (nat prefill_start) prompt_tokens;
          e = e\<lparr>en_last_token := last prompt_tokens\<rparr> in
      if M > 0 \<and> batched_prefill_enabled (d_env d) \<and> batched_fits cfg (f_scratch (en_fwd e)) N
      then map_option (\<lambda>(x, s). (Some x, e\<lparr>en_fwd := s\<rparr>)) (prefill_batched d cfg mw int8 prefill_start todo (en_fwd e))
      else if M > 0
      then map_option (\<lambda>(x, s). (x, e\<lparr>en_fwd := s\<rparr>)) (prefill_per_token d cfg mw int8 prefill_start todo (None, en_fwd e))
      else Some (None, e))"

text \<open>The first token, sampled from the hidden state the prefill left; -1 when there is none or a
  buffer is missing.\<close>

definition sample_first :: "device \<Rightarrow> stl \<Rightarrow> bool \<Rightarrow> half list option \<Rightarrow> engine \<Rightarrow> int \<times> engine" where
  "sample_first d st copy_ok last_prefill_x e =
     (case last_prefill_x of
        None \<Rightarrow> (-1, e)
      | Some x \<Rightarrow>
        let cfg = en_cfg e; H = nat (m_hidden_dim cfg);
            (nptr, sc) = scratch_get (int H * 2) (f_scratch (en_fwd e));
            (ptr, sc) = scratch_get (m_vocab_size cfg * 4) sc;
            e = e\<lparr>en_fwd := (en_fwd e)\<lparr>f_scratch := sc\<rparr>\<rparr> in
        if nptr \<noteq> 0 \<and> ptr \<noteq> 0 \<and> en_host_logits e \<noteq> 0 \<and> en_host_logits_capacity e \<ge> m_vocab_size cfg \<and> copy_ok
        then
          (let (token, rng) = sample_token (d_fp d) st (d_env d) (logits_of d cfg (en_mw e) x (d_junk d nptr H) ptr)
                 (en_params e) (en_recent e) (en_rng e)
           in (token, e\<lparr>en_rng := rng\<rparr>))
        else (-1, e))"

text \<open>What the decode loop changes: the engine, the position, the tokens committed to the cache, the
  statistics, and the calls of \<^verbatim>\<open>token_cb\<close>.\<close>

record loop_state =
  ls_engine :: engine
  ls_pos :: int
  ls_kv_tokens :: "u32 list"
  ls_stats :: gen_stats
  ls_out :: "(string \<times> bool) list"

definition deliver :: "int \<Rightarrow> loop_state \<Rightarrow> loop_state" where
  "deliver token s =
     (let t = en_tok (ls_engine s)
      in s\<lparr>ls_out := ls_out s @ [(c_str (decode_token t token), token = eos_id t)],
           ls_stats := (ls_stats s)\<lparr>gs_completion_tokens := gs_completion_tokens (ls_stats s) + 1\<rparr>\<rparr>)"

definition note_peaks :: "fpu \<Rightarrow> world \<Rightarrow> int \<Rightarrow> loop_state \<Rightarrow> loop_state" where
  "note_peaks fp w i s =
     (if i mod 10 = 0 then
        (let used = total_mb (en_budget (ls_engine s)) - real_free_mb (w_peak_meminfo w i);
             temp = ts_gpu_temp_c (read_thermal fp (w_peak_sysfs w i));
             g = ls_stats s
         in s\<lparr>ls_stats := g\<lparr>gs_peak_memory_mb := max (gs_peak_memory_mb g) used,
                gs_peak_thermal_c := (if f32_lt (gs_peak_thermal_c g) temp then temp else gs_peak_thermal_c g)\<rparr>\<rparr>)
      else s)"

text \<open>The body of the loop after its tests, and the body: \<^verbatim>\<open>Inl\<close> leaves the loop.\<close>

definition decode_run :: "device \<Rightarrow> stl \<Rightarrow> world \<Rightarrow> int \<Rightarrow> loop_state \<Rightarrow> gen_error + loop_state + loop_state" where
  "decode_run d st w i s =
     (let e = ls_engine s; pos = ls_pos s;
          e = e\<lparr>en_fwd := (en_fwd e)\<lparr>f_scratch := scratch_reset (f_scratch (en_fwd e))\<rparr>\<rparr>;
          toks = (if int (length (ls_kv_tokens s)) = pos then ls_kv_tokens s @ [of_int (en_last_token e)] else ls_kv_tokens s) in
      and_then (access_of (decode_step d st (w_copy_ok w pos) pos e)) (\<lambda>(token, e).
        let s = deliver token (s\<lparr>ls_engine := e, ls_pos := pos + 1, ls_kv_tokens := toks\<rparr>) in
        if token = eos_id (en_tok e) then Inr (Inl s) else Inr (Inr (note_peaks (d_fp d) w i s))))"

definition decode_iter :: "device \<Rightarrow> stl \<Rightarrow> world \<Rightarrow> int \<Rightarrow> int \<Rightarrow> loop_state \<Rightarrow> gen_error + loop_state + loop_state" where
  "decode_iter d st w kv_token_limit i s =
     (if ls_pos s \<ge> kv_token_limit then Inr (Inl s)
      else if \<not> fst (check_memory_and_thermal (d_fp d) (w_meminfo w (ls_pos s)) (w_sysfs w (ls_pos s)) (ls_pos s) (ls_engine s))
      then Inr (Inl (s\<lparr>ls_stats := (ls_stats s)\<lparr>gs_oom_stops := gs_oom_stops (ls_stats s) + 1\<rparr>\<rparr>))
      else decode_run d st w i s)"

definition stop_requested :: "world \<Rightarrow> int \<Rightarrow> loop_state \<Rightarrow> loop_state" where
  "stop_requested w i s =
     s\<lparr>ls_engine := (ls_engine s)\<lparr>en_stop := en_stop (ls_engine s) \<or> w_stop w i\<rparr>\<rparr>"

function decode_loop :: "device \<Rightarrow> stl \<Rightarrow> world \<Rightarrow> int \<Rightarrow> int \<Rightarrow> int \<Rightarrow> loop_state \<Rightarrow> gen_error + loop_state" where
  "decode_loop d st w kv_token_limit max_tokens i s =
     (if i \<ge> max_tokens then Inr s
      else
        let s = stop_requested w i s in
        if en_stop (ls_engine s) then Inr s
        else
          (case decode_iter d st w kv_token_limit i s of
             Inl err \<Rightarrow> Inl err
           | Inr (Inl s) \<Rightarrow> Inr s
           | Inr (Inr s) \<Rightarrow> decode_loop d st w kv_token_limit max_tokens (i + 1) s))"
  by pat_completeness auto
termination
  by (relation "measure (\<lambda>(d, st, w, limit, max_tokens, i, s). nat (max_tokens - i))") auto

declare decode_loop.simps [simp del]

text \<open>The save at the end of a turn.\<close>

definition save_header :: "engine \<Rightarrow> int \<Rightarrow> int \<Rightarrow> kv_header" where
  "save_header e committed_tokens packed_bytes =
     (let c = kv_cfg (en_kv e) in
      \<lparr>h_magic = KVCACHE_MAGIC, h_version = KVCACHE_VERSION, h_n_layers = of_int (n_layers c),
       h_n_kv_heads = of_int (n_kv_heads c), h_head_dim = of_int (head_dim c), h_kv_type_bytes = of_int (kv_type_bytes c),
       h_max_context = of_int (max_context c), h_used_tokens = of_int committed_tokens, h_body_bytes = of_int packed_bytes,
       h_model_hash = en_fingerprint e, h_reserved = replicate 56 0\<rparr>)"

definition save_turn :: "env \<Rightarrow> world \<Rightarrow> gen_params \<Rightarrow> u32 list \<Rightarrow> engine \<Rightarrow> sys \<Rightarrow> gen_error + sys" where
  "save_turn env w params kv_tokens e fsys =
     (let conv_id = gp_conversation_id params;
          committed_tokens = int (length kv_tokens);
          c = kv_cfg (en_kv e);
          dir = default_kv_cache_dir env;
          path = path_for_conv_id dir conv_id;
          packed_bytes = packed_used_bytes c committed_tokens in
      if conv_id = [] \<or> \<not> validate_conversation_id conv_id then Inr fsys
      else if committed_tokens < 4 then Inr fsys
      else if committed_tokens > max_context c then Inr fsys
      else if gp_kv_int8 params then Inr fsys
      else if \<not> ensure_dir (w_mkdir w) dir then Inr fsys
      else if \<not> w_alloc_ok w packed_bytes then Inl Bad_alloc
      else
        (case gather_used_to_host (w_gather_ok w) (en_kv e) committed_tokens (replicate (nat packed_bytes) 0) of
           (gathered, staging) \<Rightarrow>
             if \<not> gathered then Inr fsys
             else
               (case save_kv_to_file (w_save w) path (save_header e committed_tokens packed_bytes) (Some kv_tokens)
                  (nat committed_tokens) staging (nat packed_bytes) fsys of
                  (saved, fsys) \<Rightarrow>
                    if \<not> saved then Inr fsys
                    else
                      (let fsys = cleanup_stale_tmp_files (w_sweep w) (w_dir w) dir (default_kv_cache_stale_tmp_s env)
                             (fsys\<lparr>sys_calls := 0\<rparr>)
                       in Inr (enforce_kv_cache_budget (w_sort w) (w_sweep w) (w_dir w) dir
                            (default_kv_cache_max_mb env * (1024 * 1024)) path fsys)))))"

text \<open>The state with which the decode loop starts, after delivering the first token if there is one,
  and the loop.\<close>

definition start_state :: "int \<Rightarrow> int list \<Rightarrow> int \<Rightarrow> engine \<Rightarrow> loop_state" where
  "start_state n_prompt prompt_tokens first_token e =
     (let s = \<lparr>ls_engine = e, ls_pos = int (length prompt_tokens), ls_kv_tokens = map of_int prompt_tokens,
               ls_stats = \<lparr>gs_prompt_tokens = n_prompt, gs_completion_tokens = 0, gs_peak_memory_mb = 0,
                 gs_peak_thermal_c = 0, gs_oom_stops = 0, gs_thermal_pauses = 0\<rparr>, ls_out = []\<rparr> in
      if first_token \<ge> 0
      then deliver first_token (s\<lparr>ls_engine := e\<lparr>en_last_token := first_token, en_recent := push_recent first_token (en_recent e)\<rparr>\<rparr>)
      else s\<lparr>ls_pos := max 0 (int (length prompt_tokens) - 1)\<rparr>)"

definition decode_phase :: "device \<Rightarrow> stl \<Rightarrow> world \<Rightarrow> int \<Rightarrow> int \<Rightarrow> int \<Rightarrow> loop_state \<Rightarrow> gen_error + loop_state" where
  "decode_phase d st w kv_token_limit max_tokens first_token s =
     (if first_token \<ge> 0 \<and> first_token = eos_id (en_tok (ls_engine s)) then Inr s
      else decode_loop d st w kv_token_limit max_tokens (if first_token \<ge> 0 then 1 else 0) s)"

definition generate ::
  "device \<Rightarrow> stl \<Rightarrow> world \<Rightarrow> string \<Rightarrow> gen_params \<Rightarrow> engine \<Rightarrow> sys \<Rightarrow> gen_error + loop_state \<times> sys"
where
  "generate d st w prompt params e fsys =
     (let e = e\<lparr>en_stop := False, en_params := params, en_recent := []\<rparr>;
          kv_token_limit = kv_max_tokens (kv_cfg (en_kv e)) in
      and_then (prompt_tokens_of (en_tok e) kv_token_limit (gp_max_tokens params) prompt) (\<lambda>(n_prompt, prompt_tokens).
      and_then (try_hydrate_kv (d_env d) w (sys_fs fsys) prompt_tokens (gp_conversation_id params) e) (\<lambda>(prefill_start, e).
      and_then (access_of (prefill_prompt d prompt_tokens prefill_start e)) (\<lambda>(last_prefill_x, e).
      case sample_first d st (w_first_copy_ok w) last_prefill_x e of (first_token, e) \<Rightarrow>
      and_then (decode_phase d st w kv_token_limit (gp_max_tokens params) first_token (start_state n_prompt prompt_tokens first_token e)) (\<lambda>s.
      and_then (save_turn (d_env d) w params (ls_kv_tokens s) (ls_engine s) fsys) (\<lambda>fsys. Inr (s, fsys)))))))"

definition stop :: "engine \<Rightarrow> engine" where
  "stop e = e\<lparr>en_stop := True\<rparr>"


section \<open>Bounds\<close>

lemma and_then_Inr: "and_then r f = Inr y \<longleftrightarrow> (\<exists>x. r = Inr x \<and> f x = Inr y)"
  by (cases r) auto

text \<open>The loop invariant before iteration \<^verbatim>\<open>i\<close>: one token has been delivered per iteration, none
  of them the end-of-sequence token, and the committed tokens reach up to the position (one further
  before the first iteration of the fallback, which recomputes the last prompt position).\<close>

definition loop_inv :: "int \<Rightarrow> int \<Rightarrow> loop_state \<Rightarrow> bool" where
  "loop_inv limit i s \<longleftrightarrow> gs_completion_tokens (ls_stats s) = int (length (ls_out s)) \<and> int (length (ls_out s)) = i \<and>
     (\<forall>x \<in> set (ls_out s). \<not> snd x) \<and> ls_pos s \<le> limit \<and> int (length (ls_kv_tokens s)) \<le> limit \<and>
     ls_pos s \<le> int (length (ls_kv_tokens s)) \<and> int (length (ls_kv_tokens s)) \<le> ls_pos s + 1"

text \<open>What holds when the loop is left.\<close>

definition loop_done :: "int \<Rightarrow> int \<Rightarrow> loop_state \<Rightarrow> bool" where
  "loop_done limit bound s \<longleftrightarrow> gs_completion_tokens (ls_stats s) = int (length (ls_out s)) \<and> int (length (ls_out s)) \<le> bound \<and>
     (\<forall>x \<in> set (butlast (ls_out s)). \<not> snd x) \<and> ls_pos s \<le> limit \<and> int (length (ls_kv_tokens s)) \<le> limit"

lemma loop_inv_done: "loop_inv limit i s \<Longrightarrow> i \<le> bound \<Longrightarrow> loop_done limit bound s"
  by (auto simp: loop_inv_def loop_done_def dest: in_set_butlastD)

lemma decode_run_inv:
  assumes "loop_inv limit i s" "ls_pos s < limit" "decode_run d st w i s = Inr r"
  shows "case r of Inl s' \<Rightarrow> loop_done limit (i + 1) s' | Inr s' \<Rightarrow> loop_inv limit (i + 1) s'"
  using assms unfolding decode_run_def
  by (auto simp: and_then_Inr Let_def loop_inv_def loop_done_def deliver_def note_peaks_def split: if_splits dest: in_set_butlastD)

lemma decode_iter_inv:
  assumes "loop_inv limit i s" "decode_iter d st w limit i s = Inr r"
  shows "case r of Inl s' \<Rightarrow> loop_done limit (i + 1) s' | Inr s' \<Rightarrow> loop_inv limit (i + 1) s'"
proof (cases "decode_iter d st w limit i s = decode_run d st w i s \<and> ls_pos s < limit")
  case True
  then show ?thesis using decode_run_inv assms by metis
next
  case False
  then have "\<exists>s'. r = Inl s' \<and> loop_inv limit i s'" using assms
    by (auto simp: decode_iter_def loop_inv_def split: if_splits)
  then show ?thesis using loop_inv_done [of limit i _ "i + 1"] by auto
qed

lemma decode_loop_inv:
  "loop_inv limit i s \<Longrightarrow> decode_loop d st w limit max_tokens i s = Inr s' \<Longrightarrow> loop_done limit (max i max_tokens) s'"
proof (induction d st w limit max_tokens i s rule: decode_loop.induct)
  case (1 d st w limit max_tokens i s)
  let ?s = "stop_requested w i s"
  have inv: "loop_inv limit i ?s" using "1.prems"(1) by (simp add: loop_inv_def stop_requested_def)
  show ?case
  proof (cases "i \<ge> max_tokens \<or> en_stop (ls_engine ?s)")
    case True
    then have "s' = s \<or> s' = ?s" using "1.prems"(2) by (subst (asm) decode_loop.simps) (auto simp: Let_def split: if_splits)
    then show ?thesis using loop_inv_done inv "1.prems"(1) by auto
  next
    case False
    then obtain r where r: "decode_iter d st w limit i ?s = Inr r"
      and res: "(case r of Inl s \<Rightarrow> Inr s | Inr s \<Rightarrow> decode_loop d st w limit max_tokens (i + 1) s) = Inr s'"
      using "1.prems"(2) by (subst (asm) decode_loop.simps) (auto simp: Let_def split: sum.splits)
    show ?thesis
    proof (cases r)
      case (Inl a)
      then show ?thesis using decode_iter_inv [OF inv r] res False by (auto simp: loop_done_def)
    next
      case (Inr a)
      then have "loop_done limit (max (i + 1) max_tokens) s'"
        using "1.IH" [of ?s r a] decode_iter_inv [OF inv r] res r False by auto
      then show ?thesis using False by (auto simp: loop_done_def)
    qed
  qed
qed

lemma generate_InrE:
  assumes "generate d st w prompt params e fsys = Inr (s, fsys')"
  obtains n toks first e3 start e1 x e2
  where "prompt_tokens_of (en_tok e) (kv_max_tokens (kv_cfg (en_kv e))) (gp_max_tokens params) prompt = Inr (n, toks)"
    and "decode_phase d st w (kv_max_tokens (kv_cfg (en_kv e))) (gp_max_tokens params) first (start_state n toks first e3) = Inr s"
    and "try_hydrate_kv (d_env d) w (sys_fs fsys) toks (gp_conversation_id params)
      (e\<lparr>en_stop := False, en_params := params, en_recent := []\<rparr>) = Inr (start, e1)"
    and "prefill_prompt d toks start e1 = Some (x, e2)"
    and "sample_first d st (w_first_copy_ok w) x e2 = (first, e3)"
    and "save_turn (d_env d) w params (ls_kv_tokens s) (ls_engine s) fsys = Inr fsys'"
  using assms by (auto simp: generate_def and_then_Inr Let_def access_of_def case_prod_beta split: option.splits)

lemma generate_done:
  assumes "generate d st w prompt params e fsys = Inr (s, fsys')"
  shows "loop_done (kv_max_tokens (kv_cfg (en_kv e))) (max 1 (gp_max_tokens params)) s"
proof -
  let ?limit = "kv_max_tokens (kv_cfg (en_kv e))" and ?m = "gp_max_tokens params"
  obtain n toks first e3 where p: "prompt_tokens_of (en_tok e) ?limit ?m prompt = Inr (n, toks)"
    and run: "decode_phase d st w ?limit ?m first (start_state n toks first e3) = Inr s"
    using assms by (rule generate_InrE)
  have N: "toks \<noteq> []" "int (length toks) < ?limit"
    using p by (auto simp: prompt_tokens_of_def Let_def split: if_splits option.splits)
  show ?thesis
  proof (cases "first \<ge> 0 \<and> first = eos_id (en_tok (ls_engine (start_state n toks first e3)))")
    case True
    then show ?thesis using run N by (auto simp: decode_phase_def start_state_def loop_done_def deliver_def Let_def)
  next
    case False
    have inv: "loop_inv ?limit (if first \<ge> 0 then 1 else 0) (start_state n toks first e3)"
      using False N by (cases toks) (auto simp: start_state_def loop_inv_def deliver_def Let_def)
    have "loop_done ?limit (max (if first \<ge> 0 then 1 else 0) ?m) s"
      using run False by (intro decode_loop_inv [OF inv]) (auto simp: decode_phase_def)
    then show ?thesis by (auto simp: loop_done_def split: if_splits)
  qed
qed

text \<open>(C15) Generation is bounded: whenever \<^verbatim>\<open>generate\<close> returns, on any model, library and
  environment, it delivered at most \<^verbatim>\<open>max_tokens\<close> tokens (one if \<^verbatim>\<open>max_tokens\<close> is not positive),
  the counter in the statistics is the number of calls of the callback, no token follows an
  end-of-sequence token, and neither the position nor the list of committed tokens exceeds the capacity
  of the KV cache.\<close>

theorem generation_is_bounded:
  assumes "generate d st w prompt params e fsys = Inr (s, fsys')"
  shows "gs_completion_tokens (ls_stats s) = int (length (ls_out s)) \<and>
    int (length (ls_out s)) \<le> max 1 (gp_max_tokens params) \<and> (\<forall>x \<in> set (butlast (ls_out s)). \<not> snd x) \<and>
    ls_pos s \<le> kv_max_tokens (kv_cfg (en_kv e)) \<and> int (length (ls_kv_tokens s)) \<le> kv_max_tokens (kv_cfg (en_kv e))"
  using generate_done [OF assms] by (simp add: loop_done_def)

text \<open>A model with a vocabulary of eight letters and a context of eight tokens.\<close>

definition demo_tok :: tokenizer where
  "demo_tok = \<lparr>vocab = [''a'', ''b'', ''c'', ''d'', ''e'', ''f'', ''g'', ''h''],
     token_to_id = [''a'' \<mapsto> 0, ''b'' \<mapsto> 1, ''c'' \<mapsto> 2, ''d'' \<mapsto> 3],
     special_tokens = [], bpe_ranks = Map.empty, bpe_count = 0, byte_encode = False, add_bos = False, add_eos = False, bos_id = 6, eos_id = 7, max_token_len = 1\<rparr>"

definition demo_engine :: engine where
  "demo_engine = \<lparr>en_cfg = demo_cfg, en_mw = demo_mw, en_tok = demo_tok,
     en_budget = \<lparr>total_mb = 7633, os_mb = 1200, cma_mb = 256, cuda_ctx_mb = 300, model_mb = 2500, kv_cache_mb = 0, scratch_mb = 64, safety_mb = 256\<rparr>,
     en_fingerprint = replicate 32 1,
     en_fwd = \<lparr>f_kv = kv_pool_empty\<lparr>kv_cfg := demo_kv\<lparr>max_context := 8\<rparr>, gpu_pool := Some (replicate 64 0)\<rparr>,
       f_scratch = \<lparr>sp_base = 4096, sp_capacity = 67108864, sp_offset = 0\<rparr>\<rparr>,
     en_params = gen_params_default, en_last_token = 0, en_recent = [], en_rng = 0, en_stop = False,
     en_host_logits = 8192, en_host_logits_capacity = 8\<rparr>"

definition demo_params :: gen_params where
  "demo_params = gen_params_default\<lparr>gp_max_tokens := 2, gp_temperature := 0, gp_kv_int8 := False, gp_conversation_id := ''c1''\<rparr>"

definition demo_world :: world where
  "demo_world = \<lparr>w_meminfo = (\<lambda>_. Some (''MemAvailable: 4000000 kB'' @ [CHR 0x0A])), w_sysfs = (\<lambda>_. demo_board),
     w_peak_meminfo = (\<lambda>_. None), w_peak_sysfs = (\<lambda>_. demo_board), w_copy_ok = (\<lambda>_. True), w_first_copy_ok = True,
     w_stop = (\<lambda>_. False), w_alloc_ok = (\<lambda>_. True), w_peek = demo_env, w_load = demo_env, w_scatter_ok = (\<lambda>_. True),
     w_gather_ok = (\<lambda>_. True), w_mkdir = (\<lambda>_. True), w_save = demo_env, w_sweep = demo_env,
     w_dir = \<lparr>de_names = (\<lambda>_. None), de_stat_ok = (\<lambda>_. True)\<rparr>, w_sort = (\<lambda>es. es)\<rparr>"

definition demo_empty :: sys where
  "demo_empty = \<lparr>sys_fs = Map.empty, sys_log = [], sys_calls = 0\<rparr>"

end
