(* ===== verification/KV_Reference.thy ===== *)
theory KV_Reference
  imports Prefill_Equiv
begin

text \<open>
  What the KV cache should contain. \<^verbatim>\<open>ref_hidden\<close> and \<^verbatim>\<open>ref_entry\<close> are the transformer on a
  token list, computed from the embeddings with no cache at all; \<^verbatim>\<open>kv_holds p toks\<close> says that the
  first positions of the pool are the reference entries of \<^verbatim>\<open>toks\<close>. Entries depend only on the
  tokens up to their position, so a pool that holds a list holds its prefixes and holds every list that
  agrees with it on them. Both prefill paths and the per-token pass of the decode loop extend what the
  pool holds.
\<close>


section \<open>Prefixes and resumption of the reference\<close>

lemma hid_cong:
  "(\<And>j. j \<le> i \<Longrightarrow> emb j = emb' j) \<Longrightarrow> hid ent res old 0 emb l i = hid ent res old' 0 emb' l i"
proof (induction l arbitrary: i)
  case (Suc l)
  have e: "hid ent res old 0 emb l j = hid ent res old' 0 emb' l j" if "j \<le> i" for j
    using that Suc.prems by (intro Suc.IH) auto
  then show ?case by (auto simp: hid_Suc hid_entry_def intro!: arg_cong2 [where f = "res l i"])
qed simp

lemma hid_resume:
  assumes "\<And>l j. l < L \<Longrightarrow> j < start \<Longrightarrow> old l j = hid_entry ent res old0 0 emb l j"
  shows "l \<le> L \<Longrightarrow> start \<le> i \<Longrightarrow> hid ent res old start emb l i = hid ent res old0 0 emb l i"
proof (induction l arbitrary: i)
  case (Suc l)
  have "hid_entry ent res old start emb l j = hid_entry ent res old0 0 emb l j" if "j \<le> i" for j
    using assms [of l j] Suc.IH [of j] Suc.prems(1) by (cases "j < start") (auto simp: hid_entry_def)
  then show ?case using Suc.IH [of i] Suc.prems
    by (auto simp: hid_Suc intro!: arg_cong2 [where f = "res l i"])
qed simp


section \<open>The reference of a token list\<close>

definition emb_row :: "device \<Rightarrow> model_config \<Rightarrow> model_weights \<Rightarrow> int \<Rightarrow> half list" where
  "emb_row d cfg mw t = the (dequant_embedding d [] (mw_tok_embd mw) t (hid_dim cfg) (mw_embd_type mw))"

definition ref_entry ::
  "device \<Rightarrow> (wref \<Rightarrow> half list \<Rightarrow> nat \<Rightarrow> half list) \<Rightarrow> (attn_args \<Rightarrow> nat \<Rightarrow> half list) \<Rightarrow> model_config \<Rightarrow> model_weights \<Rightarrow>
   int list \<Rightarrow> nat \<Rightarrow> nat \<Rightarrow> byte list \<times> byte list"
where
  "ref_entry d G A cfg mw toks =
     hid_entry (ent_of d G cfg mw) (res_of d G A cfg mw) (\<lambda>_ _. ([], [])) 0 (\<lambda>j. emb_row d cfg mw (toks ! j))"

definition ref_hidden ::
  "device \<Rightarrow> (wref \<Rightarrow> half list \<Rightarrow> nat \<Rightarrow> half list) \<Rightarrow> (attn_args \<Rightarrow> nat \<Rightarrow> half list) \<Rightarrow> model_config \<Rightarrow> model_weights \<Rightarrow>
   int list \<Rightarrow> half list"
where
  "ref_hidden d G A cfg mw toks =
     hid (ent_of d G cfg mw) (res_of d G A cfg mw) (\<lambda>_ _. ([], [])) 0 (\<lambda>j. emb_row d cfg mw (toks ! j))
       (nat (m_n_layers cfg)) (length toks - 1)"

definition kv_holds ::
  "device \<Rightarrow> (wref \<Rightarrow> half list \<Rightarrow> nat \<Rightarrow> half list) \<Rightarrow> (attn_args \<Rightarrow> nat \<Rightarrow> half list) \<Rightarrow> model_config \<Rightarrow> model_weights \<Rightarrow>
   kv_pool \<Rightarrow> int list \<Rightarrow> bool"
where
  "kv_holds d G A cfg mw p toks \<longleftrightarrow>
     (\<forall>l < nat (m_n_layers cfg). \<forall>j < length toks. kv_fetch p l j = ref_entry d G A cfg mw toks l j)"

lemma ref_entry_prefix:
  assumes "take (Suc j) toks = take (Suc j) toks'" "j < length toks" "j < length toks'"
  shows "ref_entry d G A cfg mw toks l j = ref_entry d G A cfg mw toks' l j"
proof -
  have "toks ! i = toks' ! i" if "i \<le> j" for i
    using that assms nth_take [of i "Suc j" toks] nth_take [of i "Suc j" toks'] by (simp add: less_Suc_eq_le)
  then show ?thesis unfolding ref_entry_def hid_entry_def
    using hid_cong [where ent = "ent_of d G cfg mw" and emb = "\<lambda>j. emb_row d cfg mw (toks ! j)" and emb' = "\<lambda>j. emb_row d cfg mw (toks' ! j)" and i = j and old' = "\<lambda>_ _. ([], [])"]
    by simp
qed

lemma kv_holds_prefix:
  assumes "kv_holds d G A cfg mw p toks" "m \<le> length toks" "m \<le> length toks'" "take m toks = take m toks'"
  shows "kv_holds d G A cfg mw p (take m toks')"
  unfolding kv_holds_def
proof (intro allI impI)
  fix l j assume l: "l < nat (m_n_layers cfg)" and j: "j < length (take m toks')"
  have "take (Suc j) toks = take (Suc j) (take m toks')"
    using assms(4) j by (simp add: min_def) (metis assms(4) j length_take min_less_iff_conj Suc_leI min.absorb2 take_take)
  then have "ref_entry d G A cfg mw toks l j = ref_entry d G A cfg mw (take m toks') l j"
    using j assms(2) by (intro ref_entry_prefix) auto
  moreover have "kv_fetch p l j = ref_entry d G A cfg mw toks l j" using assms(1,2) l j by (simp add: kv_holds_def)
  ultimately show "kv_fetch p l j = ref_entry d G A cfg mw (take m toks') l j" by simp
qed

lemma kv_holds_Nil [simp]: "kv_holds d G A cfg mw p []"
  by (simp add: kv_holds_def)

lemma kv_holds_take: "kv_holds d G A cfg mw p toks \<Longrightarrow> m \<le> length toks \<Longrightarrow> kv_holds d G A cfg mw p (take m toks)"
  using kv_holds_prefix [of d G A cfg mw p toks m toks] by simp

text \<open>The family \<^verbatim>\<open>hid\<close> of a pass that starts at a held prefix is the reference.\<close>

lemma held_hid:
  assumes "kv_holds d G A cfg mw p (take start toks)" "start \<le> length toks"
  defines "ent \<equiv> ent_of d G cfg mw" and "res \<equiv> res_of d G A cfg mw" and "emb \<equiv> \<lambda>j. emb_row d cfg mw (toks ! j)"
  shows "l < nat (m_n_layers cfg) \<Longrightarrow> j < length toks \<Longrightarrow> hid_entry ent res (kv_fetch p) start emb l j = ref_entry d G A cfg mw toks l j"
    and "l \<le> nat (m_n_layers cfg) \<Longrightarrow> start \<le> i \<Longrightarrow> hid ent res (kv_fetch p) start emb l i = hid ent res (\<lambda>_ _. ([], [])) 0 emb l i"
proof -
  have old: "kv_fetch p l j = hid_entry ent res (\<lambda>_ _. ([], [])) 0 emb l j" if "l < nat (m_n_layers cfg)" "j < start" for l j
  proof -
    have "kv_fetch p l j = ref_entry d G A cfg mw (take start toks) l j" using assms(1,2) that by (simp add: kv_holds_def)
    also have "\<dots> = ref_entry d G A cfg mw toks l j" using that assms(2) by (intro ref_entry_prefix) (auto simp: min_def)
    finally show ?thesis by (simp add: ref_entry_def ent_def res_def emb_def)
  qed
  show h: "hid ent res (kv_fetch p) start emb l i = hid ent res (\<lambda>_ _. ([], [])) 0 emb l i"
    if "l \<le> nat (m_n_layers cfg)" "start \<le> i" for l i
    using hid_resume [of "nat (m_n_layers cfg)" start "kv_fetch p" ent res] old that by blast
  show "hid_entry ent res (kv_fetch p) start emb l j = ref_entry d G A cfg mw toks l j"
    if "l < nat (m_n_layers cfg)" "j < length toks" for l j
    using old [OF that(1), of j] h [of l j] that by (auto simp: ref_entry_def hid_entry_def ent_def res_def emb_def)
qed


section \<open>The passes extend what the pool holds\<close>

definition emb_ok :: "device \<Rightarrow> model_config \<Rightarrow> model_weights \<Rightarrow> bool" where
  "emb_ok d cfg mw \<longleftrightarrow> (\<forall>t. 0 \<le> t \<and> t < m_vocab_size cfg \<longrightarrow>
     (\<exists>x. dequant_embedding d [] (mw_tok_embd mw) t (hid_dim cfg) (mw_embd_type mw) = Some x \<and> length x = hid_dim cfg))"

definition in_vocab :: "model_config \<Rightarrow> int list \<Rightarrow> bool" where
  "in_vocab cfg toks \<longleftrightarrow> (\<forall>t \<in> set toks. 0 \<le> t \<and> t < m_vocab_size cfg)"

lemma embeds_rows:
  "emb_ok d cfg mw \<Longrightarrow> in_vocab cfg toks \<Longrightarrow> embeds d cfg mw toks (map (emb_row d cfg mw) toks)"
  unfolding embeds_def emb_ok_def in_vocab_def emb_row_def list_all2_map2 by (induction toks) force+

lemma emb_row_length: "emb_ok d cfg mw \<Longrightarrow> 0 \<le> t \<Longrightarrow> t < m_vocab_size cfg \<Longrightarrow> length (emb_row d cfg mw t) = hid_dim cfg"
  unfolding emb_ok_def emb_row_def by force

lemma in_vocab_simps [simp]:
  "in_vocab cfg []" "in_vocab cfg (t # ts) \<longleftrightarrow> (0 \<le> t \<and> t < m_vocab_size cfg) \<and> in_vocab cfg ts"
  "in_vocab cfg (as @ bs) \<longleftrightarrow> in_vocab cfg as \<and> in_vocab cfg bs"
  by (auto simp: in_vocab_def)

lemma in_vocab_drop: "in_vocab cfg toks \<Longrightarrow> in_vocab cfg (drop n toks)" "in_vocab cfg toks \<Longrightarrow> in_vocab cfg (take n toks)"
  by (auto simp: in_vocab_def dest: in_set_dropD in_set_takeD)

text \<open>The setting of all the lemmas: an FP16 pool of the model's shape, a library that behaves as
  documented, buffers of the requested sizes.\<close>

definition fwd_ok ::
  "device \<Rightarrow> (wref \<Rightarrow> half list \<Rightarrow> nat \<Rightarrow> half list) \<Rightarrow> (attn_args \<Rightarrow> nat \<Rightarrow> half list) \<Rightarrow> model_config \<Rightarrow> model_weights \<Rightarrow>
   kv_config \<Rightarrow> bool"
where
  "fwd_ok d G A cfg mw c \<longleftrightarrow> kv_cfg_ok c \<and> dims_ok cfg c \<and> infer_contract (d_fp d) (d_inf d) G A \<and> junk_ok d \<and> emb_ok d cfg mw"

lemma fwd_okD:
  assumes "fwd_ok d G A cfg mw c"
  shows "kv_cfg_ok c" "dims_ok cfg c" "infer_contract (d_fp d) (d_inf d) G A" "junk_ok d" "emb_ok d cfg mw"
    "m_n_layers cfg = n_layers c" "nat (n_layers c) = nat (m_n_layers cfg)"
  using assms by (auto simp: fwd_ok_def dims_ok_def)

lemma last_upt_map: "xs = map f [a..<a + n] \<Longrightarrow> 0 < n \<Longrightarrow> last xs = f (a + n - 1)"
  by (cases n) auto

lemma prefill_holds:
  assumes ok: "fwd_ok d G A cfg mw c" and at: "kv_pool_at c p" and start: "start < length toks" "length toks \<le> kv_cols c"
    and held: "kv_holds d G A cfg mw p (take start toks)" and voc: "in_vocab cfg toks"
  defines "ent \<equiv> ent_of d G cfg mw" and "res \<equiv> res_of d G A cfg mw" and "xs \<equiv> map (emb_row d cfg mw) (drop start toks)"
  assumes run: "token_major kv_put kv_fetch ent res (nat (n_layers c)) start xs p = (ys, p') \<or>
      fold (layer_step kv_put kv_fetch ent res start) [0..<nat (n_layers c)] (xs, p) = (ys, p')"
  shows "kv_pool_at c p' \<and> kv_holds d G A cfg mw p' toks \<and> last ys = ref_hidden d G A cfg mw toks"
proof -
  note o = fwd_okD [OF ok]
  let ?L = "nat (n_layers c)"
  define emb where "emb = (\<lambda>j. emb_row d cfg mw (toks ! j))"
  have n: "start + length xs = length toks" using start by (simp add: xs_def)
  have n': "start + length xs \<le> kv_cols c" using start n by simp
  have emb: "\<forall>k < length xs. length (xs ! k) = hid_dim cfg \<and> xs ! k = emb (start + k)"
    using voc start emb_row_length [OF o(5)] by (auto simp: xs_def emb_def in_vocab_def)
  have e: "\<And>l i x. length x = hid_dim cfg \<Longrightarrow> kv_entry_ok c (ent l i x)" unfolding ent_def by (rule tok_entry_ok [OF o(3,1,2)])
  have r: "\<And>l i x h. length x = hid_dim cfg \<Longrightarrow> length (res l i x h) = hid_dim cfg" unfolding res_def by (rule tok_out_length)
  have "kv_pool_at c p' \<and> ys = map (hid ent res (kv_fetch p) start emb ?L) [start..<start + length xs] \<and>
    (\<forall>l < ?L. \<forall>j < kv_cols c. kv_fetch p' l j =
       (if l < ?L \<and> start \<le> j \<and> j < start + length xs then hid_entry ent res (kv_fetch p) start emb l j else kv_fetch p l j))"
    using run
  proof
    assume "token_major kv_put kv_fetch ent res ?L start xs p = (ys, p')"
    then show ?thesis
      using kv.token_major_hid [of ?L c "\<lambda>x. length x = hid_dim cfg" ent res p start start xs emb "kv_fetch p", OF order.refl e r at order.refl n' emb]
      by (simp add: hid_entry_def)
  next
    assume "fold (layer_step kv_put kv_fetch ent res start) [0..<?L] (xs, p) = (ys, p')"
    then show ?thesis
      using kv.layer_major_hid [of c p ?L start xs "\<lambda>x. length x = hid_dim cfg" ent res emb "kv_fetch p", OF at order.refl n' e r emb] by simp
  qed
  note main = this
  note h = held_hid [OF held less_imp_le [OF start(1)], folded ent_def res_def emb_def]
  have "kv_fetch p' l j = ref_entry d G A cfg mw toks l j" if l: "l < ?L" and j: "j < length toks" for l j
  proof -
    have "kv_fetch p' l j = hid_entry ent res (kv_fetch p) start emb l j"
      using main l j n start by (auto simp: hid_entry_def)
    then show ?thesis using h(1) [of l j] l j o(7) by simp
  qed
  moreover have "last ys = hid ent res (kv_fetch p) start emb ?L (length toks - 1)"
    using last_upt_map [of ys "hid ent res (kv_fetch p) start emb ?L" start "length xs"] main n start by (metis less_add_same_cancel1)
  ultimately show ?thesis using main h(2) [of ?L "length toks - 1"] start(1) o(6)
    by (simp add: kv_holds_def ref_hidden_def ent_def res_def emb_def)
qed

lemma prefill_per_token_holds:
  assumes "fwd_ok d G A cfg mw c" "kv_pool_at c (f_kv s)" "start < length toks" "length toks \<le> kv_cols c"
    and "kv_holds d G A cfg mw (f_kv s) (take start toks)" "in_vocab cfg toks"
    and run: "prefill_per_token d cfg mw False (int start) (drop start toks) (None, s) = Some (x, s')"
  shows "kv_pool_at c (f_kv s') \<and> kv_holds d G A cfg mw (f_kv s') toks \<and> x = Some (ref_hidden d G A cfg mw toks)"
proof -
  note o = fwd_okD [OF assms(1)]
  have "start + length (drop start toks) \<le> kv_cols c" using assms(3,4) by simp
  from prefill_per_token_tok [OF o(2-4,6) assms(2) this embeds_rows [OF o(5) in_vocab_drop(1) [OF assms(6)]] run]
  obtain ys where "token_major kv_put kv_fetch (ent_of d G cfg mw) (res_of d G A cfg mw) (nat (n_layers c)) start
      (map (emb_row d cfg mw) (drop start toks)) (f_kv s) = (ys, f_kv s')" "x = Some (last ys)"
    using assms(3) by auto
  then show ?thesis using prefill_holds [OF assms(1-6), of ys "f_kv s'"] by blast
qed

lemma prefill_batched_holds:
  assumes "fwd_ok d G A cfg mw c" "kv_pool_at c (f_kv s)" "start < length toks" "length toks \<le> kv_cols c"
    and "kv_holds d G A cfg mw (f_kv s) (take start toks)" "in_vocab cfg toks"
    and run: "prefill_batched d cfg mw False (int start) (drop start toks) s = Some (x, s')"
  shows "kv_pool_at c (f_kv s') \<and> kv_holds d G A cfg mw (f_kv s') toks \<and> x = ref_hidden d G A cfg mw toks"
proof -
  note o = fwd_okD [OF assms(1)]
  have n: "start + length (drop start toks) \<le> kv_cols c" "drop start toks \<noteq> []" using assms(3,4) by simp_all
  from prefill_batched_tok [OF o(2-4,6) assms(2) n(1) embeds_rows [OF o(5) in_vocab_drop(1) [OF assms(6)]] n(2) run]
  obtain ys where "fold (layer_step kv_put kv_fetch (ent_of d G cfg mw) (res_of d G A cfg mw) start) [0..<nat (n_layers c)]
      (map (emb_row d cfg mw) (drop start toks), f_kv s) = (ys, f_kv s')" "x = last ys" by blast
  then show ?thesis using prefill_holds [OF assms(1-6), of ys "f_kv s'"] by blast
qed

lemma forward_layers_holds:
  assumes "fwd_ok d G A cfg mw c" "kv_pool_at c (f_kv s)" "length toks = Suc i" "i < kv_cols c"
    and "kv_holds d G A cfg mw (f_kv s) (take i toks)" "in_vocab cfg toks"
    and run: "forward_layers d cfg mw False (int i) (emb_row d cfg mw (last toks), s) = Some (x, s')"
  shows "kv_pool_at c (f_kv s') \<and> kv_holds d G A cfg mw (f_kv s') toks \<and> x = ref_hidden d G A cfg mw toks"
proof -
  note o = fwd_okD [OF assms(1)]
  let ?ent = "ent_of d G cfg mw" and ?res = "res_of d G A cfg mw" and ?x = "emb_row d cfg mw (last toks)"
  have ne: "toks \<noteq> []" using assms(3) by auto
  have t: "last toks = toks ! i" using ne assms(3) by (simp add: last_conv_nth)
  have x: "length ?x = hid_dim cfg" using assms(6) ne by (intro emb_row_length [OF o(5)]) (auto simp: in_vocab_def)
  have "fold (tok_step kv_put kv_fetch ?ent ?res i) [0..<nat (n_layers c)] (?x, f_kv s) = (x, f_kv s')"
    using layers_loop_tok [OF o(2) assms(4) o(3,4) _ assms(2) x, of "[0..<nat (n_layers c)]" mw x s'] run o(6)
    by (simp add: forward_layers_def lessThan_atLeast0)
  then have "token_major kv_put kv_fetch ?ent ?res (nat (n_layers c)) i (map (emb_row d cfg mw) (drop i toks)) (f_kv s) = ([x], f_kv s')"
    using assms(3) t Cons_nth_drop_Suc [of i toks, symmetric] by simp
  then show ?thesis using prefill_holds [OF assms(1,2) _ _ assms(5,6), of "[x]" "f_kv s'"] assms(3,4) by auto
qed

end
