(* ===== verification/Engine_Refine.thy ===== *)
theory Engine_Refine
  imports Engine KV_Reference
begin

text \<open>
  The decode loop computes the reference. \<^verbatim>\<open>ref_loop\<close> is autoregressive sampling with no cache,
  no buffers and no files: every token is sampled from the logits the model gives for the whole token
  list so far. \<^verbatim>\<open>engine_ok\<close> is the invariant of a loaded engine in FP16 mode; under it the engine's
  decode loop, working on the KV pool, delivers exactly the tokens of \<^verbatim>\<open>ref_loop\<close> and keeps the
  pool holding the tokens it reports as committed.
\<close>


section \<open>The scratch pool stays the same block\<close>

definition same_scratch :: "fwd \<Rightarrow> fwd \<Rightarrow> bool" where
  "same_scratch s s' \<longleftrightarrow> sp_base (f_scratch s') = sp_base (f_scratch s) \<and> sp_capacity (f_scratch s') = sp_capacity (f_scratch s)"

lemma same_scratch_refl [simp]: "same_scratch s s"
  and same_scratch_trans: "same_scratch s s' \<Longrightarrow> same_scratch s' s'' \<Longrightarrow> same_scratch s s''"
  and same_scratch_kv [simp]: "same_scratch s (s'\<lparr>f_kv := p\<rparr>) = same_scratch s s'" "same_scratch (s\<lparr>f_kv := p\<rparr>) s' = same_scratch s s'"
  and same_scratch_reset [simp]: "same_scratch (s\<lparr>f_scratch := scratch_reset (f_scratch s)\<rparr>) s' = same_scratch s s'"
  by (simp_all add: same_scratch_def)

lemma get_all_frame: "get_all scratch_get xs p = (ps, p') \<Longrightarrow> sp_base p' = sp_base p \<and> sp_capacity p' = sp_capacity p"
proof (induction xs arbitrary: p ps p')
  case (Cons x xs)
  obtain a q where a: "scratch_get x p = (a, q)" by fastforce
  obtain bs r where b: "get_all scratch_get xs q = (bs, r)" by fastforce
  have "sp_base q = sp_base p" "sp_capacity q = sp_capacity p" using scratch_get_frame [of x p] a by simp_all
  then show ?case using Cons.IH [OF b] Cons.prems a b by simp
qed simp

lemma get_bufs_same: "get_bufs d ns s = Some (bs, s') \<Longrightarrow> same_scratch s s'"
  by (auto simp: get_bufs_def same_scratch_def dest: get_all_frame split: prod.splits if_splits)

lemma bind_Some: "Option.bind m f = Some y \<longleftrightarrow> (\<exists>x. m = Some x \<and> f x = Some y)"
  by (cases m) auto

lemma attn_block_same:
  "transformer_layer_attn_block d cfg lw kv_int8 l pos x q k v y f s = Some (z, s') \<Longrightarrow> same_scratch s s'"
  by (auto simp: transformer_layer_attn_block_def bind_Some Let_def case_prod_beta dest!: get_bufs_same)

lemma transformer_layer_same: "transformer_layer d cfg lw kv_int8 l pos x s = Some (y, s') \<Longrightarrow> same_scratch s s'"
  by (auto simp: transformer_layer_def bind_Some Let_def case_prod_beta dest!: get_bufs_same attn_block_same)
     (meson same_scratch_trans)

lemma transformer_prefill_same: "transformer_prefill d cfg lw kv_int8 l start N x s = Some (y, s') \<Longrightarrow> same_scratch s s'"
  by (auto simp: transformer_prefill_def bind_Some Let_def case_prod_beta same_scratch_def dest!: get_bufs_same)

lemma layers_loop_same:
  assumes "\<And>l x s y s'. f l x s = Some (y, s') \<Longrightarrow> same_scratch s s'"
  shows "layers_loop f ls (x, s) = Some (y, s') \<Longrightarrow> same_scratch s s'"
proof (induction ls arbitrary: x s)
  case (Cons l ls)
  then obtain x1 s1 where "f l x s = Some (x1, s1)" "layers_loop f ls (x1, s1) = Some (y, s')" by (auto simp: bind_Some)
  then show ?case using Cons.IH assms same_scratch_trans by blast
qed simp

lemma forward_layers_same: "forward_layers d cfg mw kv_int8 pos (x, s) = Some (y, s') \<Longrightarrow> same_scratch s s'"
  unfolding forward_layers_def by (rule layers_loop_same [OF transformer_layer_same])

lemma prefill_token_same: "prefill_token d cfg mw kv_int8 t pos s = Some (y, s') \<Longrightarrow> same_scratch s s'"
  by (auto simp: prefill_token_def bind_Some Let_def dest!: get_bufs_same forward_layers_same intro: same_scratch_trans)

lemma prefill_per_token_same: "prefill_per_token d cfg mw kv_int8 i ts (x, s) = Some (y, s') \<Longrightarrow> same_scratch s s'"
proof (induction ts arbitrary: i x s)
  case (Cons t ts)
  then obtain x1 s1 where "prefill_token d cfg mw kv_int8 t i s = Some (x1, s1)"
    "prefill_per_token d cfg mw kv_int8 (i + 1) ts (Some x1, s1) = Some (y, s')" by (auto simp: bind_Some)
  then show ?case using Cons.IH prefill_token_same same_scratch_trans by blast
qed simp

lemma prefill_batched_same: "prefill_batched d cfg mw kv_int8 start ts s = Some (y, s') \<Longrightarrow> same_scratch s s'"
  by (auto simp: prefill_batched_def bind_Some Let_def dest!: get_bufs_same layers_loop_same [OF transformer_prefill_same, rotated]
      intro: same_scratch_trans)


section \<open>The reference\<close>

definition ref_logits ::
  "device \<Rightarrow> (wref \<Rightarrow> half list \<Rightarrow> nat \<Rightarrow> half list) \<Rightarrow> (attn_args \<Rightarrow> nat \<Rightarrow> half list) \<Rightarrow> engine \<Rightarrow> int list \<Rightarrow> f32 list"
where
  "ref_logits d G A e toks =
     (let cfg = en_cfg e; mw = en_mw e
      in the (rf_gemv_quant_f32 (d_inf d) (wref_of d (mw_output mw) (mw_output_type mw) (nat (m_vocab_size cfg)))
           (norm1 d cfg (mw_output_norm mw) True (hid_dim cfg) (ref_hidden d G A cfg mw toks)) (hid_dim cfg)))"

definition ref_next ::
  "device \<Rightarrow> stl \<Rightarrow> (wref \<Rightarrow> half list \<Rightarrow> nat \<Rightarrow> half list) \<Rightarrow> (attn_args \<Rightarrow> nat \<Rightarrow> half list) \<Rightarrow> engine \<Rightarrow> int list \<Rightarrow> int list \<Rightarrow> nat \<Rightarrow>
   int \<times> nat"
where
  "ref_next d st G A e toks recent rng =
     sample_token (d_fp d) st (d_env d) (ref_logits d G A e toks) (en_params e) recent rng"

text \<open>There is memory for one more position.\<close>

definition mem_ok :: "world \<Rightarrow> engine \<Rightarrow> int \<Rightarrow> bool" where
  "mem_ok w e pos = can_extend 256 (w_meminfo w pos) (kv_per_token_bytes (en_cfg e) (if gp_kv_int8 (en_params e) then 1 else 2))"

text \<open>Sampling from iteration \<^verbatim>\<open>i\<close> on, after the tokens \<^verbatim>\<open>toks\<close>: the sampled tokens and the
  state of the generator.\<close>

function ref_loop ::
  "device \<Rightarrow> stl \<Rightarrow> (wref \<Rightarrow> half list \<Rightarrow> nat \<Rightarrow> half list) \<Rightarrow> (attn_args \<Rightarrow> nat \<Rightarrow> half list) \<Rightarrow> world \<Rightarrow> engine \<Rightarrow> int \<Rightarrow> int \<Rightarrow>
   int list \<Rightarrow> int list \<Rightarrow> nat \<Rightarrow> int list \<times> nat"
where
  "ref_loop d st G A w e limit i toks recent rng =
     (let pos = int (length toks) - 1; eos = eos_id (en_tok e) in
      if i \<ge> gp_max_tokens (en_params e) \<or> w_stop w i \<or> pos \<ge> limit \<or> \<not> mem_ok w e pos then ([], rng)
      else if \<not> w_copy_ok w pos then ([eos], rng)
      else
        (case ref_next d st G A e toks recent rng of (t, rng) \<Rightarrow>
           if t = eos then ([t], rng)
           else (case ref_loop d st G A w e limit (i + 1) (toks @ [t]) (push_recent t recent) rng of (ids, rng) \<Rightarrow> (t # ids, rng))))"
  by pat_completeness auto
termination
  by (relation "measure (\<lambda>(d, st, G, A, w, e, limit, i, toks, recent, rng). nat (gp_max_tokens (en_params e) - i))") auto

declare ref_loop.simps [simp del]


section \<open>The invariant of a loaded engine\<close>

definition logits_ok :: "device \<Rightarrow> bool" where
  "logits_ok d \<longleftrightarrow> (\<forall>w x K. \<exists>y. rf_gemv_quant_f32 (d_inf d) w x K = Some y \<and> length y = wf_rows w)"

definition step_need :: "model_config \<Rightarrow> int" where
  "step_need cfg = token_need cfg + (buf_need [hid_dim cfg] + align256 (m_vocab_size cfg * 4))"

definition engine_ok ::
  "device \<Rightarrow> (wref \<Rightarrow> half list \<Rightarrow> nat \<Rightarrow> half list) \<Rightarrow> (attn_args \<Rightarrow> nat \<Rightarrow> half list) \<Rightarrow> kv_config \<Rightarrow> engine \<Rightarrow> bool"
where
  "engine_ok d G A c e \<longleftrightarrow> fwd_ok d G A (en_cfg e) (en_mw e) c \<and> logits_ok d \<and> kv_pool_at c (en_kv e) \<and> overflow_context c = 0 \<and>
     0 < sp_base (f_scratch (en_fwd e)) \<and> step_need (en_cfg e) \<le> sp_capacity (f_scratch (en_fwd e)) \<and>
     0 \<le> m_hidden_dim (en_cfg e) \<and> 0 \<le> m_n_heads (en_cfg e) \<and> 0 \<le> m_intermediate_dim (en_cfg e) \<and>
     0 < m_vocab_size (en_cfg e) \<and> m_vocab_size (en_cfg e) < 2 ^ 31 \<and> en_host_logits e \<noteq> 0 \<and>
     m_vocab_size (en_cfg e) \<le> en_host_logits_capacity e"

text \<open>The parts of the engine that no operation changes.\<close>

definition same_model :: "engine \<Rightarrow> engine \<Rightarrow> bool" where
  "same_model e e' \<longleftrightarrow> en_cfg e' = en_cfg e \<and> en_mw e' = en_mw e \<and> en_tok e' = en_tok e \<and> en_params e' = en_params e \<and>
     en_fingerprint e' = en_fingerprint e \<and> en_host_logits e' = en_host_logits e \<and> en_host_logits_capacity e' = en_host_logits_capacity e"

lemma engine_ok_same:
  "engine_ok d G A c e \<Longrightarrow> same_model e e' \<Longrightarrow> same_scratch (en_fwd e) (en_fwd e') \<Longrightarrow> kv_pool_at c (en_kv e') \<Longrightarrow> engine_ok d G A c e'"
  by (simp add: engine_ok_def same_model_def same_scratch_def)

lemma hid_length:
  assumes "length (emb i) = hid_dim cfg"
  shows "length (hid (ent_of d G cfg mw) (res_of d G A cfg mw) old start emb l i) = hid_dim cfg"
  using assms by (induction l) (simp_all add: hid_Suc tok_out_length)

lemma ref_hidden_length:
  assumes "emb_ok d cfg mw" "in_vocab cfg toks" "toks \<noteq> []"
  shows "length (ref_hidden d G A cfg mw toks) = hid_dim cfg"
  unfolding ref_hidden_def using assms by (intro hid_length emb_row_length) (auto simp: in_vocab_def)

lemma logits_of_ref:
  assumes "engine_ok d G A c e" "in_vocab (en_cfg e) toks" "toks \<noteq> []" "length buf = hid_dim (en_cfg e)"
  shows "logits_of d (en_cfg e) (en_mw e) (ref_hidden d G A (en_cfg e) (en_mw e) toks) buf ptr = ref_logits d G A e toks"
    and "length (ref_logits d G A e toks) = nat (m_vocab_size (en_cfg e))"
proof -
  have "emb_ok d (en_cfg e) (en_mw e)" using assms(1) fwd_okD(5) by (auto simp: engine_ok_def)
  note x = ref_hidden_length [OF this assms(2,3), of G A]
  have l: "\<exists>y. rf_gemv_quant_f32 (d_inf d) w x K = Some y \<and> length y = wf_rows w" for w x K
    using assms(1) by (auto simp: engine_ok_def logits_ok_def)
  show "logits_of d (en_cfg e) (en_mw e) (ref_hidden d G A (en_cfg e) (en_mw e) toks) buf ptr = ref_logits d G A e toks"
    unfolding logits_of_def ref_logits_def Let_def dim_folds rms_norm_one [OF assms(4) x] gemv_quant_f32_def
    using l by (auto split: option.split) (metis option.distinct(1))
  show "length (ref_logits d G A e toks) = nat (m_vocab_size (en_cfg e))"
    unfolding ref_logits_def Let_def using l by (metis option.sel wref_of_def wref.select_convs(4))
qed


section \<open>One step\<close>

lemma dequant_row:
  assumes "emb_ok d cfg mw" "0 \<le> t" "t < m_vocab_size cfg"
  shows "dequant_embedding d buf (mw_tok_embd mw) t (nat (m_hidden_dim cfg)) (mw_embd_type mw) = Some (emb_row d cfg mw t)"
proof -
  have "dequant_embedding d [] (mw_tok_embd mw) t (hid_dim cfg) (mw_embd_type mw) = Some (emb_row d cfg mw t)"
    using assms by (auto simp: emb_ok_def emb_row_def)
  then show ?thesis using dequant_embedding_dst [of d buf "mw_tok_embd mw" t "hid_dim cfg" "mw_embd_type mw" "[]"]
    by (simp add: hid_dim_def)
qed

text \<open>The buffers of one step: the embedding, all layers, the final norm and the logits.\<close>

lemma step_buffers:
  assumes room: "has_room s (step_need cfg)" and voc: "0 \<le> m_vocab_size cfg"
  shows "\<exists>bs s1. get_bufs d [hid_dim cfg] s = Some (bs, s1) \<and>
    (\<forall>x. \<exists>y s2. forward_layers d cfg mw kv_int8 pos (x, s1) = Some (y, s2) \<and>
      (\<exists>ns s3. get_bufs d [hid_dim cfg] s2 = Some (ns, s3) \<and> 0 < sp_base (f_scratch s3) \<and>
        fst (scratch_get (m_vocab_size cfg * 4) (f_scratch s3)) \<noteq> 0))"
proof -
  let ?h = "buf_need [hid_dim cfg]" and ?v = "align256 (m_vocab_size cfg * 4)"
  let ?k = "int (length [0..<nat (m_n_layers cfg)]) * layer_need cfg"
  have v: "0 \<le> ?v" using voc by (intro align256_nonneg) simp
  have k: "0 \<le> ?k" using layer_need_nonneg by simp
  have r: "has_room s (?h + (?k + (?h + ?v)))" using room by (simp add: step_need_def token_need_def)
  have r': "0 \<le> ?k + (?h + ?v)" "0 \<le> ?h + ?v" using k v buf_need_nonneg [of "[hid_dim cfg]"] by linarith+
  obtain bs s1 where b: "get_bufs d [hid_dim cfg] s = Some (bs, s1)" "took s ?h s1"
    using get_bufs_fits [OF split_need [OF r r'(1)]] by blast
  note r1 = took_room [OF b(2) r]
  have "\<exists>y s2. forward_layers d cfg mw kv_int8 pos (x, s1) = Some (y, s2) \<and>
      (\<exists>ns s3. get_bufs d [hid_dim cfg] s2 = Some (ns, s3) \<and> 0 < sp_base (f_scratch s3) \<and>
        fst (scratch_get (m_vocab_size cfg * 4) (f_scratch s3)) \<noteq> 0)" for x
  proof -
    obtain y s2 where y: "forward_layers d cfg mw kv_int8 pos (x, s1) = Some (y, s2)" "took s1 ?k s2"
      using layers_loop_grow [where f = "\<lambda>l. transformer_layer d cfg (mw_layers mw ! l) kv_int8 l pos",
          OF transformer_layer_fits layer_need_nonneg split_need [OF r1 r'(2)]] unfolding forward_layers_def by blast
    note r2 = took_room [OF y(2) r1]
    obtain ns s3 where n: "get_bufs d [hid_dim cfg] s2 = Some (ns, s3)" "took s2 ?h s3"
      using get_bufs_fits [OF split_need [OF r2 v]] by blast
    note r3 = took_room [OF n(2) r2]
    have "0 < sp_base (f_scratch s3)" "sp_offset (f_scratch s3) + ?v \<le> sp_capacity (f_scratch s3)" "0 \<le> sp_offset (f_scratch s3)"
      using r3 by (auto simp: has_room_def scratch_live_def scratch_used_def scratch_capacity_def)
    then show ?thesis using y(1) n(1) by (auto simp: scratch_get_ok)
  qed
  then show ?thesis using b(1) by blast
qed

lemma decode_step_ref:
  assumes ok: "engine_ok d G A c e" and fp16: "\<not> gp_kv_int8 (en_params e)" and zero: "sp_offset (f_scratch (en_fwd e)) = 0"
    and toks: "length toks = Suc i" "i < kv_cols c" "in_vocab (en_cfg e) toks" "en_last_token e = last toks"
    and held: "kv_holds d G A (en_cfg e) (en_mw e) (en_kv e) (take i toks)"
  shows "\<exists>s'. kv_pool_at c (f_kv s') \<and> kv_holds d G A (en_cfg e) (en_mw e) (f_kv s') toks \<and> same_scratch (en_fwd e) s' \<and>
    decode_step d st copy_ok (int i) e = Some
      (if copy_ok
       then (case ref_next d st G A e toks (en_recent e) (en_rng e) of (t, rng) \<Rightarrow>
               (t, e\<lparr>en_fwd := s', en_rng := rng, en_recent := push_recent t (en_recent e), en_last_token := t\<rparr>))
       else (eos_id (en_tok e), e\<lparr>en_fwd := s'\<rparr>))"
proof -
  let ?cfg = "en_cfg e" and ?mw = "en_mw e"
  have f: "fwd_ok d G A ?cfg ?mw c" and at: "kv_pool_at c (en_kv e)" and host: "en_host_logits e \<noteq> 0" "m_vocab_size ?cfg \<le> en_host_logits_capacity e"
    and v: "0 \<le> m_vocab_size ?cfg" using ok by (auto simp: engine_ok_def)
  note o = fwd_okD [OF f]
  have nn: "0 \<le> step_need ?cfg" using v token_need_nonneg [of ?cfg] buf_need_nonneg [of "[hid_dim ?cfg]"] align256_nonneg [of "m_vocab_size ?cfg * 4"]
    by (simp add: step_need_def)
  have "has_room (en_fwd e) (step_need ?cfg)"
    using ok zero nn by (simp add: has_room_def engine_ok_def scratch_live_def scratch_used_def scratch_capacity_def)
  from step_buffers [OF this v, of d ?mw False "int i"] obtain bs s1 where b: "get_bufs d [hid_dim ?cfg] (en_fwd e) = Some (bs, s1)"
    and rest: "\<forall>x. \<exists>y s2. forward_layers d ?cfg ?mw False (int i) (x, s1) = Some (y, s2) \<and>
      (\<exists>ns s3. get_bufs d [hid_dim ?cfg] s2 = Some (ns, s3) \<and> 0 < sp_base (f_scratch s3) \<and>
        fst (scratch_get (m_vocab_size ?cfg * 4) (f_scratch s3)) \<noteq> 0)" by blast
  have ne: "toks \<noteq> []" using toks(1) by auto
  have "0 \<le> last toks" "last toks < m_vocab_size ?cfg" using toks(3) ne by (auto simp: in_vocab_def)
  note row = dequant_row [OF o(5) this, of "bs ! 0"]
  from rest obtain x s2 ns s3 where x: "forward_layers d ?cfg ?mw False (int i) (emb_row d ?cfg ?mw (last toks), s1) = Some (x, s2)"
    and n: "get_bufs d [hid_dim ?cfg] s2 = Some (ns, s3)" and ptr: "fst (scratch_get (m_vocab_size ?cfg * 4) (f_scratch s3)) \<noteq> 0" by blast
  obtain q sc where q: "scratch_get (m_vocab_size ?cfg * 4) (f_scratch s3) = (q, sc)" by fastforce
  have kv1: "f_kv s1 = en_kv e" using get_bufs_one [OF b o(4)] by simp
  have h: "kv_pool_at c (f_kv s2) \<and> kv_holds d G A ?cfg ?mw (f_kv s2) toks \<and> x = ref_hidden d G A ?cfg ?mw toks"
    using forward_layers_holds [OF f _ toks(1,2) _ toks(3) x] at held kv1 by simp
  note nn = get_bufs_one [OF n o(4)]
  let ?s' = "s3\<lparr>f_scratch := sc\<rparr>"
  have "same_scratch (en_fwd e) s3"
    using get_bufs_same [OF b] forward_layers_same [OF x] get_bufs_same [OF n] same_scratch_trans by blast
  then have same: "same_scratch (en_fwd e) ?s'"
    using scratch_get_frame [of "m_vocab_size ?cfg * 4" "f_scratch s3"] q by (simp add: same_scratch_def)
  have lg: "logits_of d ?cfg ?mw x (ns ! 0) q = ref_logits d G A e toks"
    using logits_of_ref(1) [OF ok toks(3) ne nn(1)] h by simp
  have q0: "q \<noteq> 0" using ptr q by simp
  have "decode_step d st copy_ok (int i) e = Some
      (if copy_ok
       then (case ref_next d st G A e toks (en_recent e) (en_rng e) of (t, rng) \<Rightarrow>
               (t, e\<lparr>en_fwd := ?s', en_rng := rng, en_recent := push_recent t (en_recent e), en_last_token := t\<rparr>))
       else (eos_id (en_tok e), e\<lparr>en_fwd := ?s'\<rparr>))"
    unfolding decode_step_def Let_def dim_folds b bind.bind_lunit prod.case row [folded hid_dim_def] toks(4) x fp16 simp_thms n q
    using host q0 fp16 lg by (auto simp: ref_next_def x n q row [folded hid_dim_def] split: prod.splits)
  then show ?thesis using h nn(2) same by (intro exI [of _ ?s']) simp
qed


section \<open>The decode loop\<close>

lemma ref_next_range:
  assumes "engine_ok d G A c e" "stl_ok st" "in_vocab (en_cfg e) toks" "toks \<noteq> []" "ref_next d st G A e toks recent rng = (t, rng')"
  shows "0 \<le> t" "t < m_vocab_size (en_cfg e)"
proof -
  have v: "0 < m_vocab_size (en_cfg e)" using assms(1) by (simp add: engine_ok_def)
  have len: "length (ref_logits d G A e toks) = nat (m_vocab_size (en_cfg e))"
    using logits_of_ref(2) [OF assms(1,3,4), of "replicate (hid_dim (en_cfg e)) 0"] by simp
  then have "ref_logits d G A e toks \<noteq> []" using v by auto
  from sample_token_range [OF assms(2) this, of "d_fp d" "d_env d" "en_params e" recent rng] len v assms(5)
  show "0 \<le> t" "t < m_vocab_size (en_cfg e)" by (auto simp: ref_next_def)
qed

text \<open>The state of the loop after the tokens \<^verbatim>\<open>toks\<close>, the last of which is not in the cache yet;
  \<^verbatim>\<open>com\<close> are the committed tokens.\<close>

definition loop_rel ::
  "device \<Rightarrow> (wref \<Rightarrow> half list \<Rightarrow> nat \<Rightarrow> half list) \<Rightarrow> (attn_args \<Rightarrow> nat \<Rightarrow> half list) \<Rightarrow> kv_config \<Rightarrow> engine \<Rightarrow> int list \<Rightarrow> int list \<Rightarrow>
   loop_state \<Rightarrow> bool"
where
  "loop_rel d G A c e toks com s \<longleftrightarrow> same_model e (ls_engine s) \<and> engine_ok d G A c (ls_engine s) \<and> toks \<noteq> [] \<and>
     in_vocab (en_cfg e) toks \<and> ls_pos s = int (length toks) - 1 \<and> en_last_token (ls_engine s) = last toks \<and>
     (com = toks \<or> com = butlast toks) \<and> kv_holds d G A (en_cfg e) (en_mw e) (en_kv (ls_engine s)) com \<and>
     ls_kv_tokens s = map of_int com \<and> \<not> en_stop (ls_engine s)"

text \<open>The state when the loop is left.\<close>

definition end_rel ::
  "device \<Rightarrow> (wref \<Rightarrow> half list \<Rightarrow> nat \<Rightarrow> half list) \<Rightarrow> (attn_args \<Rightarrow> nat \<Rightarrow> half list) \<Rightarrow> kv_config \<Rightarrow> engine \<Rightarrow> int list \<Rightarrow>
   loop_state \<Rightarrow> bool"
where
  "end_rel d G A c e com s \<longleftrightarrow> same_model e (ls_engine s) \<and> engine_ok d G A c (ls_engine s) \<and> in_vocab (en_cfg e) com \<and>
     kv_holds d G A (en_cfg e) (en_mw e) (en_kv (ls_engine s)) com \<and> ls_kv_tokens s = map of_int com"

definition callbacks :: "engine \<Rightarrow> int list \<Rightarrow> (string \<times> bool) list" where
  "callbacks e ids = map (\<lambda>t. (c_str (decode_token (en_tok e) t), t = eos_id (en_tok e))) ids"

lemma loop_rel_end: "loop_rel d G A c e toks com s \<Longrightarrow> end_rel d G A c e com s"
  by (auto simp: loop_rel_def end_rel_def in_vocab_def dest: in_set_butlastD)

lemma ref_next_same: "same_model e e' \<Longrightarrow> ref_next d st G A e' toks recent rng = ref_next d st G A e toks recent rng"
  by (simp add: same_model_def ref_next_def ref_logits_def)

lemma decode_run_ref:
  assumes rel: "loop_rel d G A c e toks com s" and fp16: "\<not> gp_kv_int8 (en_params e)" and st: "stl_ok st"
    and pos: "length toks \<le> kv_cols c"
    and nxt: "(t, rng') = (if w_copy_ok w (ls_pos s) then ref_next d st G A e toks (en_recent (ls_engine s)) (en_rng (ls_engine s))
      else (eos_id (en_tok e), en_rng (ls_engine s)))"
  shows "\<exists>s'. decode_run d st w i s = Inr (if t = eos_id (en_tok e) then Inl s' else Inr s') \<and>
    end_rel d G A c e toks s' \<and> ls_out s' = ls_out s @ callbacks e [t] \<and> en_rng (ls_engine s') = rng' \<and>
    (t \<noteq> eos_id (en_tok e) \<longrightarrow> loop_rel d G A c e (toks @ [t]) toks s' \<and> en_recent (ls_engine s') = push_recent t (en_recent (ls_engine s)))"
proof -
  let ?e = "ls_engine s"
  let ?er = "?e\<lparr>en_fwd := (en_fwd ?e)\<lparr>f_scratch := scratch_reset (f_scratch (en_fwd ?e))\<rparr>\<rparr>"
  obtain i' where i': "length toks = Suc i'" "ls_pos s = int i'"
    using rel by (cases toks) (auto simp: loop_rel_def)
  have m: "same_model e ?e" and ok: "engine_ok d G A c ?e" and voc: "in_vocab (en_cfg e) toks" and ne: "toks \<noteq> []"
    and lt: "en_last_token ?e = last toks" and com: "com = toks \<or> com = butlast toks"
    and held: "kv_holds d G A (en_cfg e) (en_mw e) (en_kv ?e) com" and kvt: "ls_kv_tokens s = map of_int com"
    using rel by (simp_all add: loop_rel_def)
  have m0: "en_cfg ?e = en_cfg e" "en_mw ?e = en_mw e" "en_tok ?e = en_tok e" "en_params ?e = en_params e"
    using m by (simp_all add: same_model_def)
  have ok0: "engine_ok d G A c ?er" using ok by (simp add: engine_ok_def)
  have "take i' toks = butlast toks" using i'(1) by (simp add: butlast_conv_take)
  then have held0: "kv_holds d G A (en_cfg ?er) (en_mw ?er) (en_kv ?er) (take i' toks)"
    using held com m0 kv_holds_take [of d G A "en_cfg e" "en_mw e" "en_kv ?e" toks i'] i'(1) by auto
  obtain s1 where s1: "kv_pool_at c (f_kv s1)" "kv_holds d G A (en_cfg e) (en_mw e) (f_kv s1) toks" "same_scratch (en_fwd ?e) s1"
    and step: "decode_step d st (w_copy_ok w (ls_pos s)) (int i') ?er = Some
      (if w_copy_ok w (ls_pos s)
       then (case ref_next d st G A e toks (en_recent ?e) (en_rng ?e) of (t, rng) \<Rightarrow>
               (t, ?er\<lparr>en_fwd := s1, en_rng := rng, en_recent := push_recent t (en_recent ?e), en_last_token := t\<rparr>))
       else (eos_id (en_tok e), ?er\<lparr>en_fwd := s1\<rparr>))"
    using decode_step_ref [OF ok0 _ _ i'(1) _ _ _ held0, of st "w_copy_ok w (ls_pos s)"] fp16 pos i'(1) voc lt m0
      ref_next_same [of e ?er d st G A toks] m by (auto simp: same_model_def)
  define e1 where "e1 = (if w_copy_ok w (ls_pos s)
       then ?er\<lparr>en_fwd := s1, en_rng := rng', en_recent := push_recent t (en_recent ?e), en_last_token := t\<rparr>
       else ?er\<lparr>en_fwd := s1\<rparr>)"
  have step': "decode_step d st (w_copy_ok w (ls_pos s)) (ls_pos s) ?er = Some (t, e1)"
    unfolding i'(2) using step nxt by (auto simp: e1_def i'(2) split: if_splits prod.splits)
  have e1: "same_model e e1" "en_fwd e1 = s1" "en_rng e1 = rng'" "en_tok e1 = en_tok e" "en_stop e1 = en_stop ?e"
    using m nxt by (auto simp: e1_def same_model_def split: if_splits)
  have ok1: "engine_ok d G A c e1" using engine_ok_same [OF ok, of e1] e1 s1 m by (auto simp: same_model_def)
  have len: "int (length (ls_kv_tokens s)) = ls_pos s \<longleftrightarrow> com = butlast toks"
  proof -
    have "length (butlast toks) = i'" "length toks \<noteq> i'" using i' by simp_all
    then show ?thesis using com kvt i' by (metis length_map of_nat_eq_iff)
  qed
  have "map of_int (butlast toks) @ [of_int (last toks)] = map of_int (butlast toks @ [last toks])" by (simp only: map_append list.map)
  also have "\<dots> = (map of_int toks :: u32 list)" using ne by (simp only: append_butlast_last_id not_False_eq_True)
  finally have app: "map of_int (butlast toks) @ [of_int (last toks)] = (map of_int toks :: u32 list)" .
  have tk: "(if int (length (ls_kv_tokens s)) = ls_pos s then ls_kv_tokens s @ [of_int (en_last_token ?er)] else ls_kv_tokens s) = map of_int toks"
    unfolding len using com kvt app lt by auto
  let ?s1 = "deliver t (s\<lparr>ls_engine := e1, ls_pos := ls_pos s + 1, ls_kv_tokens := map of_int toks\<rparr>)"
  define s2 where "s2 = (if t = eos_id (en_tok e) then ?s1 else note_peaks (d_fp d) w i ?s1)"
  have run: "decode_run d st w i s = Inr (if t = eos_id (en_tok e) then Inl s2 else Inr s2)"
    unfolding decode_run_def Let_def step' tk by (simp add: access_of_def e1(4) s2_def)
  have eng: "ls_engine s2 = e1" "ls_kv_tokens s2 = map of_int toks" "ls_out s2 = ls_out s @ callbacks e [t]" "ls_pos s2 = ls_pos s + 1"
    by (auto simp: s2_def deliver_def note_peaks_def Let_def callbacks_def e1(4))
  have er: "end_rel d G A c e toks s2" using e1 ok1 voc s1(2) unfolding end_rel_def eng by simp
  have "loop_rel d G A c e (toks @ [t]) toks s2 \<and> en_recent e1 = push_recent t (en_recent ?e)" if "t \<noteq> eos_id (en_tok e)"
  proof -
    have cp: "w_copy_ok w (ls_pos s)" using that nxt by (auto split: if_splits)
    have "ref_next d st G A ?e toks (en_recent ?e) (en_rng ?e) = (t, rng')" using nxt cp ref_next_same [OF m] by simp
    note rg = ref_next_range [OF ok st _ ne this]
    show ?thesis using er rg rel cp e1(5) i' m0 voc unfolding loop_rel_def end_rel_def eng by (auto simp: e1_def)
  qed
  then show ?thesis using run er eng e1(3) by (intro exI [of _ s2]) simp
qed

lemma stop_requested_rel:
  assumes "loop_rel d G A c e toks com s" "\<not> w_stop w i"
  shows "loop_rel d G A c e toks com (stop_requested w i s)" "\<not> en_stop (ls_engine (stop_requested w i s))"
    "ls_out (stop_requested w i s) = ls_out s" "en_rng (ls_engine (stop_requested w i s)) = en_rng (ls_engine s)"
    "en_recent (ls_engine (stop_requested w i s)) = en_recent (ls_engine s)" "ls_pos (stop_requested w i s) = ls_pos s"
  using assms by (auto simp: loop_rel_def stop_requested_def same_model_def engine_ok_def)

lemma check_mem_ok:
  "same_model e e' \<Longrightarrow> fst (check_memory_and_thermal fp (w_meminfo w pos) sf pos e') = mem_ok w e pos"
  by (simp add: check_memory_and_thermal_def mem_ok_def same_model_def Let_def)

lemma end_rel_stop: "end_rel d G A c e com s \<Longrightarrow> end_rel d G A c e com (stop_requested w i s)"
  by (auto simp: end_rel_def stop_requested_def same_model_def engine_ok_def)

lemma end_rel_stats: "end_rel d G A c e com (s\<lparr>ls_stats := g\<rparr>) = end_rel d G A c e com s"
  by (simp add: end_rel_def)

lemma callbacks_Nil [simp]: "callbacks e [] = []"
  and callbacks_Cons: "callbacks e (t # ts) = callbacks e [t] @ callbacks e ts"
  by (simp_all add: callbacks_def)

lemma decode_loop_ref:
  assumes c: "overflow_context c = 0" "kv_cfg_ok c"
  shows "loop_rel d G A c e toks com s \<Longrightarrow> \<not> gp_kv_int8 (en_params e) \<Longrightarrow> stl_ok st \<Longrightarrow> en_recent (ls_engine s) = recent \<Longrightarrow> en_rng (ls_engine s) = rng \<Longrightarrow>
    ref_loop d st G A w e (kv_max_tokens c) i toks recent rng = (new, rng') \<Longrightarrow>
    \<exists>s'. decode_loop d st w (kv_max_tokens c) (gp_max_tokens (en_params e)) i s = Inr s' \<and>
      ls_out s' = ls_out s @ callbacks e new \<and> en_rng (ls_engine s') = rng' \<and>
      end_rel d G A c e (if new = [] then com else toks @ butlast new) s'"
proof (induction d st G A w e "kv_max_tokens c" i toks recent rng arbitrary: s com new rng' rule: ref_loop.induct)
  case (1 d st G A w e i toks recent rng)
  let ?lim = "kv_max_tokens c" and ?m = "gp_max_tokens (en_params e)" and ?pos = "int (length toks) - 1" and ?s = "stop_requested w i s"
  have pos: "ls_pos s = ?pos" and m: "same_model e (ls_engine s)" using "1.prems"(1) by (simp_all add: loop_rel_def)
  show ?case
  proof (cases "i \<ge> ?m \<or> w_stop w i \<or> ?pos \<ge> ?lim \<or> \<not> mem_ok w e ?pos")
    case True
    then have new: "new = []" "rng' = rng" using "1.prems"(6) by (subst (asm) ref_loop.simps, simp)+
    show ?thesis
    proof (cases "i \<ge> ?m \<or> w_stop w i")
      case True
      then have "decode_loop d st w ?lim ?m i s = Inr (if i \<ge> ?m then s else ?s)"
        by (subst decode_loop.simps) (auto simp: Let_def stop_requested_def)
      then show ?thesis using new loop_rel_end [OF "1.prems"(1)] end_rel_stop [of d G A c e com s w i] "1.prems"(5)
        by (auto simp: stop_requested_def)
    next
      case go: False
      note r = stop_requested_rel [OF "1.prems"(1), of w i]
      have "\<exists>s'. decode_iter d st w ?lim i ?s = Inr (Inl s') \<and> ls_out s' = ls_out s \<and> en_rng (ls_engine s') = rng \<and> end_rel d G A c e com s'"
      proof (cases "?pos \<ge> ?lim")
        case True
        then show ?thesis using go r pos loop_rel_end [OF r(1)] "1.prems"(5) by (simp add: decode_iter_def)
      next
        case False
        have "\<not> mem_ok w e ?pos" using \<open>i \<ge> ?m \<or> w_stop w i \<or> ?pos \<ge> ?lim \<or> \<not> mem_ok w e ?pos\<close> go False by blast
        moreover have "same_model e (ls_engine ?s)" using r go by (simp add: loop_rel_def)
        ultimately show ?thesis using False go r pos loop_rel_end [OF r(1)] "1.prems"(5)
          by (simp add: decode_iter_def check_mem_ok end_rel_stats)
      qed
      then show ?thesis using go r new by (subst decode_loop.simps) (auto simp: Let_def)
    qed
  next
    case False
    note go = this [unfolded de_Morgan_disj not_not]
    note r = stop_requested_rel [OF "1.prems"(1), of w i]
    obtain t rng1 where t: "(t, rng1) = (if w_copy_ok w (ls_pos ?s) then ref_next d st G A e toks (en_recent (ls_engine ?s)) (en_rng (ls_engine ?s))
        else (eos_id (en_tok e), en_rng (ls_engine ?s)))" by (metis surj_pair)
    have len: "length toks \<le> kv_cols c" using go c by (auto simp: kv_max_tokens_def kv_cols_def)
    obtain s1 where s1: "decode_run d st w i ?s = Inr (if t = eos_id (en_tok e) then Inl s1 else Inr s1)"
      "end_rel d G A c e toks s1" "ls_out s1 = ls_out ?s @ callbacks e [t]" "en_rng (ls_engine s1) = rng1"
      "t \<noteq> eos_id (en_tok e) \<longrightarrow> loop_rel d G A c e (toks @ [t]) toks s1 \<and> en_recent (ls_engine s1) = push_recent t (en_recent (ls_engine ?s))"
      using decode_run_ref [OF r(1) "1.prems"(2,3) len t, of i] go by blast
    have it: "decode_iter d st w ?lim i ?s = decode_run d st w i ?s"
      using go r pos check_mem_ok [of e "ls_engine ?s" "d_fp d" w ?pos "w_sysfs w ?pos"]
      by (simp add: decode_iter_def loop_rel_def)
    have loop: "decode_loop d st w ?lim ?m i s =
      (if t = eos_id (en_tok e) then Inr s1 else decode_loop d st w ?lim ?m (i + 1) s1)"
      using go r(2) by (subst decode_loop.simps) (simp add: Let_def it s1(1))
    have nx: "w_copy_ok w ?pos \<Longrightarrow> ref_next d st G A e toks recent rng = (t, rng1)" "\<not> w_copy_ok w ?pos \<Longrightarrow> t = eos_id (en_tok e) \<and> rng1 = rng"
      using t r go pos "1.prems"(4,5) by (simp_all split: if_splits)
    show ?thesis
    proof (cases "t = eos_id (en_tok e)")
      case True
      then have "new = [t] \<and> rng' = rng1" using "1.prems"(6) go nx
        by (subst (asm) ref_loop.simps) (auto simp: Let_def split: if_splits)
      then show ?thesis using True loop s1(2-4) r go by simp
    next
      case False
      have cp: "w_copy_ok w ?pos" using nx(2) False by blast
      obtain ids rng2 where ids: "ref_loop d st G A w e ?lim (i + 1) (toks @ [t]) (push_recent t recent) rng1 = (ids, rng2)" by fastforce
      have new: "new = t # ids" "rng' = rng2" using "1.prems"(6) go nx(1) [OF cp] False cp ids
        by (subst (asm) ref_loop.simps, simp add: Let_def)+
      have rel1: "loop_rel d G A c e (toks @ [t]) toks s1" "en_recent (ls_engine s1) = push_recent t recent"
        using s1(5) False r go "1.prems"(4) by auto
      obtain s' where "decode_loop d st w ?lim ?m (i + 1) s1 = Inr s'" "ls_out s' = ls_out s1 @ callbacks e ids"
        "en_rng (ls_engine s') = rng2" "end_rel d G A c e (if ids = [] then toks else (toks @ [t]) @ butlast ids) s'"
        using "1.hyps" [OF refl refl _ _ nx(1) [OF cp, symmetric] False rel1(1) "1.prems"(2,3) rel1(2) s1(4) ids] go cp by auto
      then show ?thesis using loop False s1(3) r go unfolding new callbacks_Cons [of e t ids] by auto
    qed
  qed
qed

end
