(* ===== verification/Hydrate.thy ===== *)
theory Hydrate
  imports Engine_Refine
begin

text \<open>
  Restoring a conversation. \<^verbatim>\<open>cache_faithful\<close> is the invariant of the cache directory: every file of
  a conversation that carries the fingerprint of the loaded model and the shape of its pool is a
  complete image whose body is the reference cache of its token list. Under it
  \<^verbatim>\<open>try_hydrate_kv\<close>, whatever its system calls and copies return, leaves a pool that holds the prefix
  of the prompt it reports; and a save at the end of a turn keeps the invariant.
\<close>


section \<open>Copies that may fail\<close>

lemma gather_layers_all_ok:
  "gather_layers ok c u g ls d = (True, d') \<Longrightarrow> gather_layers (\<lambda>_. True) c u g ls d = (True, d')"
  by (induction ls arbitrary: d) (auto simp: Let_def split: if_splits)

lemma gather_True_packed:
  assumes "gather_used_to_host ok p (int u) d = (True, d')" "kv_pool_at c p" "0 < u" "u \<le> kv_cols c"
    and "length d = nat (packed_used_bytes c (int u))"
  shows "length d' = length d \<and> (\<forall>l < nat (n_layers c). \<forall>i < u. packed_at c u d' l i = kv_fetch p l i)"
proof -
  have "gather_used_to_host (\<lambda>_. True) p (int u) d = (True, d')"
    using assms(1) by (auto simp: gather_used_to_host_def dest: gather_layers_all_ok split: option.splits if_splits)
  then show ?thesis using gather_packed [OF assms(2-4) _ assms(5), of "\<lambda>_. True"] by auto
qed

lemma scatter_layers_all_ok:
  "scatter_layers ok c u z s ls g = (True, g') \<Longrightarrow> scatter_layers (\<lambda>_. True) c u z s ls g = (True, g')"
proof (induction ls arbitrary: g)
  case (Cons l ls)
  then show ?case unfolding scatter_layers.simps Let_def by (auto split: if_splits)
qed simp

lemma scatter_layers_length:
  assumes c: "kv_cfg_ok c" and u: "u \<le> kv_cols c" and s: "length s = kv_rows c * u * kv_half c"
  shows "set ls \<subseteq> {..<nat (n_layers c)} \<Longrightarrow> length g = kv_rows c * kv_cols c * kv_half c \<Longrightarrow>
    length (snd (scatter_layers ok c (int u) z s ls g)) = kv_rows c * kv_cols c * kv_half c"
proof (induction ls arbitrary: g)
  case (Cons l ls)
  let ?h = "kv_half c" and ?m = "kv_cols c" and ?R = "kv_rows c"
  have cp: "length (blit g (slot ?m r 0 * ?h) (slice (slot u r 0 * ?h) (u * ?h) s)) = ?R * ?m * ?h"
    if "length g = ?R * ?m * ?h" "r < ?R" for g r
    using slot_row_end [OF that(2), of ?m] slot_row_end [OF that(2), of u] u by (intro length_blit_slots [OF that(1) s]) auto
  have zf: "length (zero_fill g ((slot ?m r 0 + u) * ?h) ((?m - u) * ?h)) = ?R * ?m * ?h"
    if "length g = ?R * ?m * ?h" "r < ?R" for g :: "byte list" and r
    using slot_row_end [OF that(2), of ?m] u by (intro length_zero_fill_slots [OF that(1)]) auto
  have r: "2 * l < ?R" "2 * l + 1 < ?R" and sub: "set ls \<subseteq> {..<nat (n_layers c)}"
    using Cons.prems(1) by (auto simp: kv_rows_def)
  define g1 where "g1 = blit g (slot ?m (2 * l) 0 * ?h) (slice (slot u (2 * l) 0 * ?h) (u * ?h) s)"
  define g2 where "g2 = blit g1 (slot ?m (2 * l + 1) 0 * ?h) (slice (slot u (2 * l + 1) 0 * ?h) (u * ?h) s)"
  define g3 where "g3 = zero_fill g2 ((slot ?m (2 * l) 0 + u) * ?h) ((?m - u) * ?h)"
  define g4 where "g4 = zero_fill g3 ((slot ?m (2 * l + 1) 0 + u) * ?h) ((?m - u) * ?h)"
  have len: "length g1 = ?R * ?m * ?h" unfolding g1_def by (rule cp [OF Cons.prems(2) r(1)])
  then have len2: "length g2 = ?R * ?m * ?h" unfolding g2_def by (rule cp [OF _ r(2)])
  then have len3: "length g3 = ?R * ?m * ?h" unfolding g3_def by (rule zf [OF _ r(1)])
  then have len4: "length g4 = ?R * ?m * ?h" unfolding g4_def by (rule zf [OF _ r(2)])
  show ?case unfolding scatter_layers_Cons [OF c u] Let_def g1_def [symmetric] g2_def [symmetric] g3_def [symmetric] g4_def [symmetric]
    using Cons.prems(2) len len2 len3 len4 Cons.IH [OF sub len2] Cons.IH [OF sub len4] by (cases z) simp_all
qed simp

lemma scatter_keeps_pool:
  assumes "kv_pool_at c p" "0 < u" "u \<le> kv_cols c" "length s = nat (packed_used_bytes c (int u))"
  shows "kv_pool_at c (snd (scatter_from_host ok s (int u) z p))"
proof -
  from assms(1) obtain g where g: "kv_cfg_ok c" "gpu_pool p = Some g" "kv_cfg p = c"
      "length g = kv_rows c * kv_cols c * kv_half c" by (rule kv_pool_atE)
  have s: "length s = kv_rows c * u * kv_half c" using assms(4) by (simp only: packed_used_bytes_slots [OF g(1) assms(2)] nat_int)
  note len = scatter_layers_length [OF g(1) assms(3) s layers_upt g(4), of ok z]
  show ?thesis using assms(1-3) g len max_context_cols [OF g(1)]
    by (auto simp: scatter_from_host_def kv_pool_at_def kv_pool_ok_def Let_def split: prod.splits)
qed

lemma scatter_True_packed:
  assumes "scatter_from_host ok s (int u) True p = (True, p')" "kv_pool_at c p" "0 < u" "u \<le> kv_cols c"
    and "length s = nat (packed_used_bytes c (int u))" "l < nat (n_layers c)" "i < u"
  shows "kv_fetch p' l i = packed_at c u s l i"
proof -
  have "scatter_from_host (\<lambda>_. True) s (int u) True p = (True, p')"
    using assms(1) by (auto simp: scatter_from_host_def Let_def dest: scatter_layers_all_ok split: option.splits if_splits prod.splits)
  then show ?thesis using scatter_packed [OF assms(2-4) _ assms(5), of "\<lambda>_. True" True] assms(4,6,7) by auto
qed


section \<open>Compacting the matched prefix\<close>

text \<open>The compaction is a gather from a pool whose context is the number of saved tokens.\<close>

lemma compact_gather:
  assumes c: "kv_cfg_ok c" and U: "0 < U" and m: "m \<le> U" and st: "length staging = kv_rows c * U * kv_half c"
  shows "set ls \<subseteq> {..<nat (n_layers c)} \<Longrightarrow>
    compact_layers (entry_bytes c) (int U) (int m) staging ls d =
      Some (snd (gather_layers (\<lambda>_. True) (c\<lparr>max_context := int U\<rparr>) (int m) staging ls d))"
proof (induction ls arbitrary: d)
  case (Cons l ls)
  have e: "entry_bytes (c\<lparr>max_context := int U\<rparr>) = entry_bytes c" by (simp add: entry_bytes_def)
  have l: "2 * l + 1 < kv_rows c" using Cons.prems by (auto simp: kv_rows_def)
  have "(slot U (2 * l + 1) 0 + m) * kv_half c \<le> length staging" unfolding st
    using slot_row_end [OF l, of U] m by (intro mult_right_mono) auto
  then have "int ((slot U (2 * l + 1) 0 + m) * kv_half c) \<le> int (length staging)" by (rule of_nat_mono)
  moreover have "int l * (int U * entry_bytes c) + int U * (entry_bytes c sdiv 2) + int m * (entry_bytes c sdiv 2) =
      int ((slot U (2 * l + 1) 0 + m) * kv_half c)"
    by (simp add: entry_bytes_half [OF c] half_entry_bytes [OF c] twice_sdiv_2 slot_def algebra_simps)
  ultimately have b: "\<not> int l * (int U * entry_bytes c) + int U * (entry_bytes c sdiv 2) + int m * (entry_bytes c sdiv 2) > int (length staging)" by linarith
  show ?case using Cons.IH Cons.prems b by (simp add: Let_def e)
qed simp

lemma compact_packed:
  assumes c: "kv_cfg_ok c" and m: "0 < m" "m \<le> U" and st: "length staging = nat (packed_used_bytes c (int U))"
  shows "\<exists>d. compact_layers (entry_bytes c) (int U) (int m) staging [0..<nat (n_layers c)]
      (replicate (nat (packed_used_bytes c (int m))) 0) = Some d \<and> length d = nat (packed_used_bytes c (int m)) \<and>
    (\<forall>l < nat (n_layers c). \<forall>i < m. packed_at c m d l i = packed_at c U staging l i)"
proof -
  let ?c = "c\<lparr>max_context := int U\<rparr>"
  have U: "0 < U" using m by simp
  have st': "length staging = kv_rows c * U * kv_half c" using st by (simp only: packed_used_bytes_slots [OF c U] nat_int)
  have pm: "nat (packed_used_bytes c (int m)) = kv_rows c * m * kv_half c" by (simp only: packed_used_bytes_slots [OF c m(1)] nat_int)
  have c': "kv_cfg_ok ?c" "kv_cols ?c = U" "kv_half ?c = kv_half c" "kv_rows ?c = kv_rows c" "n_layers ?c = n_layers c"
    using c U by (auto simp: kv_cfg_ok_def kv_cols_def kv_half_def kv_rows_def)
  obtain d where d: "gather_layers (\<lambda>_. True) ?c (int m) staging [0..<nat (n_layers c)] (replicate (kv_rows c * m * kv_half c) 0) = (True, d)"
    "length d = kv_rows c * m * kv_half c"
    "\<forall>r < kv_rows c. \<forall>i < m. slot_at (kv_half c) d (slot m r i) = slot_at (kv_half c) staging (slot U r i)"
  proof -
    have "\<exists>d'. gather_layers (\<lambda>_. True) ?c (int m) staging [0..<nat (n_layers c)] (replicate (kv_rows c * m * kv_half c) 0) = (True, d') \<and>
       length d' = kv_rows c * m * kv_half c \<and> (\<forall>r < kv_rows c. \<forall>i < m. slot_at (kv_half c) d' (slot m r i) =
         (if r div 2 \<in> set [0..<nat (n_layers c)] then slot_at (kv_half c) staging (slot U r i)
          else slot_at (kv_half c) (replicate (kv_rows c * m * kv_half c) 0) (slot m r i)))"
      using gather_layers_rows [OF c'(1), unfolded c', OF st' m(2) _ distinct_upt layers_upt, of "\<lambda>_. True"] by simp
    moreover have "r div 2 \<in> set [0..<nat (n_layers c)]" if "r < kv_rows c" for r using that by (auto simp: kv_rows_def)
    ultimately show ?thesis using that by auto
  qed
  have "packed_at c m d l i = packed_at c U staging l i" if "l < nat (n_layers c)" "i < m" for l i
    using d(3) that by (simp add: packed_at_def kv_rows_def)
  then show ?thesis using compact_gather [OF c U m(2) st' layers_upt] d(1,2) unfolding pm by (intro exI [of _ d]) simp
qed


section \<open>The cache directory\<close>

text \<open>A file that carries the model's fingerprint and the pool's shape is a complete image, and its
  body holds the reference entries of its token list.\<close>

definition faithful_image ::
  "device \<Rightarrow> (wref \<Rightarrow> half list \<Rightarrow> nat \<Rightarrow> half list) \<Rightarrow> (attn_args \<Rightarrow> nat \<Rightarrow> half list) \<Rightarrow> kv_config \<Rightarrow> engine \<Rightarrow> byte list \<Rightarrow> bool"
where
  "faithful_image d G A c e data \<longleftrightarrow>
     (let hdr = header_of (slice 0 128 data) in
      128 \<le> length data \<and> h_model_hash hdr = en_fingerprint e \<and> shape_matches hdr c \<longrightarrow>
      (\<exists>toks body. data = kv_image hdr toks body \<and> unat (h_used_tokens hdr) = length toks \<and> unat (h_body_bytes hdr) = length body \<and>
         length body = nat (packed_used_bytes c (int (length toks))) \<and>
         (\<forall>l < nat (n_layers c). \<forall>i < length toks.
            packed_at c (length toks) body l i = ref_entry d G A (en_cfg e) (en_mw e) (map uint toks) l i)))"

abbreviation conv_file :: "env \<Rightarrow> string \<Rightarrow> string" where
  "conv_file env conv \<equiv> path_for_conv_id (default_kv_cache_dir env) conv"

definition cache_faithful ::
  "device \<Rightarrow> (wref \<Rightarrow> half list \<Rightarrow> nat \<Rightarrow> half list) \<Rightarrow> (attn_args \<Rightarrow> nat \<Rightarrow> half list) \<Rightarrow> kv_config \<Rightarrow> engine \<Rightarrow> env \<Rightarrow> fs \<Rightarrow> bool"
where
  "cache_faithful d G A c e env f \<longleftrightarrow>
     (\<forall>conv file. conv \<noteq> [] \<and> validate_conversation_id conv \<and> f (c_str (conv_file env conv)) = Some file \<longrightarrow>
        faithful_image d G A c e (f_data file))"

lemma cache_faithfulD:
  assumes "cache_faithful d G A c e env f" "conv \<noteq> []" "validate_conversation_id conv" "f (c_str (conv_file env conv)) = Some file"
  shows "faithful_image d G A c e (f_data file)"
  using assms by (auto simp: cache_faithful_def)

lemma common_prefix_le: "common_prefix cs ts \<le> length cs \<and> common_prefix cs ts \<le> length ts"
  by (induction cs ts rule: common_prefix.induct) auto

lemma common_prefix_nth: "i < common_prefix cs ts \<Longrightarrow> cs ! i = of_int (ts ! i)"
  by (induction cs ts arbitrary: i rule: common_prefix.induct) (auto simp: less_Suc_eq_0_disj nth_Cons' split: if_splits)

text \<open>On tokens of the vocabulary the comparison as \<^verbatim>\<open>uint32_t\<close> is equality.\<close>

lemma common_prefix_take:
  assumes "in_vocab cfg ts" "m_vocab_size cfg < 2 ^ 31" "m \<le> common_prefix cs ts"
  shows "take m (map uint cs) = take m ts"
proof (rule nth_equalityI)
  note le = common_prefix_le [of cs ts]
  show "length (take m (map uint cs)) = length (take m ts)" using le assms(3) by simp
  fix i assume "i < length (take m (map uint cs))"
  then have i: "i < m" "i < length cs" by simp_all
  then have "i < length ts" using le assms(3) by simp
  then have "0 \<le> ts ! i \<and> ts ! i < m_vocab_size cfg" using assms(1) by (simp add: in_vocab_def)
  then have "0 \<le> ts ! i" "ts ! i < 2 ^ 31" using assms(2) by linarith+
  then have "uint (of_int (ts ! i) :: u32) = ts ! i" by (simp add: uint_word_of_int_eq take_bit_int_eq_self)
  then show "take m (map uint cs) ! i = take m ts ! i" using i common_prefix_nth [of i cs ts] assms(3) by simp
qed

lemma peek_Some:
  assumes "peek_kv_header io f path = Some hdr"
  shows "\<exists>file. f (c_str path) = Some file \<and> 128 \<le> length (f_data file) \<and> hdr = header_of (slice 0 128 (f_data file))"
proof -
  obtain fl where f: "f (c_str path) = Some fl" using assms by (auto simp: peek_kv_header_def split: option.splits if_splits)
  obtain n hb where rd: "sys_read io 0 (f_data fl) 0 128 = (n, hb)" by fastforce
  have n: "n = 128" "hdr = header_of hb" using assms f rd by (auto simp: peek_kv_header_def Let_def split: if_splits)
  then show ?thesis using f sys_read_full [of io 0 "f_data fl" 0 128 hb] rd by auto
qed

lemma kv_image_parts:
  assumes "header_ok hdr"
  shows "slice 0 128 (kv_image hdr toks body) = header_bytes hdr"
    "slice 128 (length toks * 4) (kv_image hdr toks body) = tokens_bytes toks"
    "slice (128 + length toks * 4) (length body) (kv_image hdr toks body) = body"
  using length_header_bytes [OF assms] by (simp_all add: kv_image_def slice_def)

text \<open>What a load of a faithful file returns.\<close>

lemma load_faithful:
  assumes load: "load_kv_from_file io f path True cap = Inr (h, ts, body)" and f: "f (c_str path) = Some file"
    and data: "f_data file = kv_image hdr toks kv" "header_ok hdr" "unat (h_used_tokens hdr) = length toks" "unat (h_body_bytes hdr) = length kv"
  shows "ts = Some toks \<and> body = kv"
proof -
  note l = load_Inr [OF load f]
  have "h = hdr" using l header_of_bytes [OF data(2)] kv_image_parts(1) [OF data(2)] data(1) by simp
  then show ?thesis using l kv_image_parts(2,3) [OF data(2), of toks kv] tokens_of_bytes [of toks "[]"] data(1,3,4) by simp
qed

lemma shape_context:
  assumes "shape_matches hdr c" "kv_cfg_ok c" "\<not> h_used_tokens hdr > of_int (max_context c)"
  shows "unat (h_used_tokens hdr) \<le> kv_cols c"
proof -
  have m: "0 < max_context c" "max_context c = sint (h_max_context hdr)" using assms by (auto simp: shape_matches_def kv_cfg_ok_def)
  have "sint (h_max_context hdr) < 2 ^ 31" using sint_lt [of "h_max_context hdr"] by simp
  then have "max_context c < 2 ^ 31" using m by simp
  then have "uint (of_int (max_context c) :: u32) = max_context c" using m(1) by (simp add: uint_word_of_int_eq take_bit_int_eq_self)
  then have "uint (h_used_tokens hdr) \<le> max_context c" using assms(3) unfolding not_less word_le_def by metis
  then show ?thesis unfolding kv_cols_def unat_eq_nat_uint by (rule nat_mono)
qed

lemma packed_used_mono:
  assumes "kv_cfg_ok c" "u \<le> kv_cols c"
  shows "packed_used_bytes c (int u) \<le> gpu_pool_bytes c"
proof -
  have "int u \<le> max_context c" using assms by (auto simp: kv_cfg_ok_def kv_cols_def)
  then have "n_layers c * int u * entry_bytes c \<le> n_layers c * max_context c * entry_bytes c"
    using assms by (intro mult_right_mono mult_left_mono) (auto simp: kv_cfg_ok_def entry_bytes_half)
  moreover have "0 \<le> gpu_pool_bytes c" using assms(1) by (auto simp: gpu_pool_bytes_def entry_bytes_half kv_cfg_ok_def)
  ultimately show ?thesis by (simp add: packed_used_bytes_def gpu_pool_bytes_def)
qed


text \<open>Compacting and scattering the matched prefix of a faithful body.\<close>

lemma restore_prefix:
  assumes ok: "engine_ok d G A c e" and U: "length toks \<le> kv_cols c" and body: "length body = nat (packed_used_bytes c (int (length toks)))"
    and ent: "\<forall>l < nat (n_layers c). \<forall>i < length toks.
      packed_at c (length toks) body l i = ref_entry d G A (en_cfg e) (en_mw e) (map uint toks) l i"
    and voc: "in_vocab (en_cfg e) prompt" and m: "m = common_prefix toks prompt" "0 < m"
  shows "\<exists>x done p. compact_layers (entry_bytes c) (int (length toks)) (int m) body [0..<nat (n_layers c)]
      (replicate (nat (packed_used_bytes c (int m))) 0) = Some x \<and>
    scatter_from_host sok x (int m) True (en_kv e) = (done, p) \<and> kv_pool_at c p \<and>
    (done \<longrightarrow> kv_holds d G A (en_cfg e) (en_mw e) p (take m prompt))"
proof -
  have at: "kv_pool_at c (en_kv e)" and f: "fwd_ok d G A (en_cfg e) (en_mw e) c" and v: "m_vocab_size (en_cfg e) < 2 ^ 31"
    using ok by (simp_all add: engine_ok_def)
  note o = fwd_okD [OF f]
  have le: "m \<le> length toks" "m \<le> length prompt" using common_prefix_le [of toks prompt] m(1) by simp_all
  obtain x where x: "compact_layers (entry_bytes c) (int (length toks)) (int m) body [0..<nat (n_layers c)]
      (replicate (nat (packed_used_bytes c (int m))) 0) = Some x" "length x = nat (packed_used_bytes c (int m))"
    "\<forall>l < nat (n_layers c). \<forall>i < m. packed_at c m x l i = packed_at c (length toks) body l i"
    using compact_packed [OF o(1) m(2) le(1) body] by blast
  obtain r p where p: "scatter_from_host sok x (int m) True (en_kv e) = (r, p)" by fastforce
  have cols: "m \<le> kv_cols c" using le(1) U by simp
  have "kv_pool_at c p" using scatter_keeps_pool [OF at m(2) cols x(2), of sok True] p by simp
  moreover have "kv_holds d G A (en_cfg e) (en_mw e) p (take m prompt)" if r
  proof -
    have "kv_fetch p l i = ref_entry d G A (en_cfg e) (en_mw e) (map uint toks) l i" if "l < nat (n_layers c)" "i < m" for l i
      using scatter_True_packed [OF _ at m(2) cols x(2) that, of sok p] p \<open>r\<close> x(3) ent that le(1) by auto
    moreover have "ref_entry d G A (en_cfg e) (en_mw e) (map uint toks) l i = ref_entry d G A (en_cfg e) (en_mw e) (take m prompt) l i" if "i < m" for l i
    proof (rule ref_entry_prefix)
      show "take (Suc i) (map uint toks) = take (Suc i) (take m prompt)"
        using common_prefix_take [OF voc v, of "Suc i" toks] m(1) that by (simp add: min_def)
    qed (use that le in auto)
    ultimately show ?thesis using le(2) o(7) by (simp add: kv_holds_def)
  qed
  ultimately show ?thesis using x(1) p by blast
qed

text \<open>Whatever the system calls and the copies return, the pool holds the prefix that is reported.\<close>

definition hydrated ::
  "device \<Rightarrow> (wref \<Rightarrow> half list \<Rightarrow> nat \<Rightarrow> half list) \<Rightarrow> (attn_args \<Rightarrow> nat \<Rightarrow> half list) \<Rightarrow> kv_config \<Rightarrow> engine \<Rightarrow> int list \<Rightarrow>
   gen_error + int \<times> engine \<Rightarrow> bool"
where
  "hydrated d G A c e prompt r \<longleftrightarrow> (\<exists>m p. r = Inr (int m, e\<lparr>en_fwd := (en_fwd e)\<lparr>f_kv := p\<rparr>\<rparr>) \<and> m \<le> length prompt \<and>
     kv_pool_at c p \<and> kv_holds d G A (en_cfg e) (en_mw e) p (take m prompt))"

lemma hydrated_zero: "kv_pool_at c (en_kv e) \<Longrightarrow> hydrated d G A c e prompt (Inr (0, e))"
  unfolding hydrated_def by (intro exI [of _ 0] exI [of _ "en_kv e"]) simp

text \<open>The part of the restoration behind the tests on the header, on a faithful file.\<close>

lemma hydrate_image:
  assumes ok: "engine_ok d G A c e" and voc: "in_vocab (en_cfg e) prompt" and alloc: "\<forall>n \<le> gpu_pool_bytes c. w_alloc_ok w n"
    and conv: "conv \<noteq> []" "validate_conversation_id conv" "prompt \<noteq> []"
    and pk: "peek_kv_header (w_peek w) f (conv_file env conv) = Some hdr" and fl: "f (c_str (conv_file env conv)) = Some fl"
    and go: "h_model_hash hdr = en_fingerprint e" "shape_matches hdr c" "h_used_tokens hdr \<noteq> 0" "\<not> h_used_tokens hdr > of_int (max_context c)"
    and im: "f_data fl = kv_image hdr toks body" "header_ok hdr" "unat (h_used_tokens hdr) = length toks" "unat (h_body_bytes hdr) = length body"
      "length body = nat (packed_used_bytes c (int (length toks)))"
      "\<forall>l < nat (n_layers c). \<forall>i < length toks. packed_at c (length toks) body l i = ref_entry d G A (en_cfg e) (en_mw e) (map uint toks) l i"
  shows "hydrated d G A c e prompt (try_hydrate_kv env w f prompt conv e)"
proof -
  have at: "kv_pool_at c (en_kv e)" and cok: "kv_cfg_ok c" and cc: "kv_cfg (en_kv e) = c"
    using ok fwd_okD(1) by (auto simp: engine_ok_def kv_pool_at_def)
  note z = hydrated_zero [OF at, of d G A prompt]
  have U: "length toks \<le> kv_cols c" using shape_context [OF go(2) cok go(4)] im(3) by simp
  have pk_le: "int (length body) \<le> gpu_pool_bytes c"
    using packed_used_mono [OF cok U] im(5) packed_used_mono [OF cok, of 0] by (simp add: packed_used_bytes_def split: if_splits)
  have ub: "uint (h_body_bytes hdr) = int (length body)" "uint (h_used_tokens hdr) = int (length toks)"
    unfolding uint_nat im(3,4) by simp_all
  let ?path = "conv_file env conv" and ?m = "common_prefix toks prompt"
  show ?thesis
  proof (cases "load_kv_from_file (w_load w) f ?path True (h_body_bytes hdr)")
    case (Inl err)
    then show ?thesis using z pk cc conv go alloc pk_le ub unfolding try_hydrate_kv_def Let_def by simp
  next
    case (Inr r)
    obtain h2 ts bd where r: "r = (h2, ts, bd)" by (cases r)
    have tb: "ts = Some toks" "bd = body" using load_faithful [OF Inr [unfolded r] fl im(1-4)] by simp_all
    show ?thesis
    proof (cases "?m = 0")
      case True
      then show ?thesis using z pk cc conv go alloc pk_le ub Inr r tb unfolding try_hydrate_kv_def Let_def by simp
    next
      case m: False
      have cb: "n_layers c * (int ?m * (2 * n_kv_heads c * head_dim c * kv_type_bytes c)) = packed_used_bytes c (int ?m)"
        using m by (simp add: packed_used_bytes_def entry_bytes_def algebra_simps)
      have "packed_used_bytes c (int ?m) \<le> gpu_pool_bytes c"
        using common_prefix_le [of toks prompt] U by (intro packed_used_mono [OF cok]) simp
      then have al: "w_alloc_ok w (packed_used_bytes c (int ?m))" using alloc by blast
      obtain x r1 p where x: "compact_layers (entry_bytes c) (int (length toks)) (int ?m) body [0..<nat (n_layers c)]
          (replicate (nat (packed_used_bytes c (int ?m))) 0) = Some x"
        "scatter_from_host (w_scatter_ok w) x (int ?m) True (en_kv e) = (r1, p)" "kv_pool_at c p"
        "r1 \<longrightarrow> kv_holds d G A (en_cfg e) (en_mw e) p (take ?m prompt)"
        using restore_prefix [OF ok U im(5,6) voc refl, of "w_scatter_ok w"] m by auto
      have "try_hydrate_kv env w f prompt conv e = Inr (if r1 then int ?m else 0, e\<lparr>en_fwd := (en_fwd e)\<lparr>f_kv := p\<rparr>\<rparr>)"
        using pk cc conv go alloc pk_le ub Inr r tb m al x(1,2) cb unfolding try_hydrate_kv_def Let_def
        by (simp add: entry_bytes_def [symmetric])
      then show ?thesis using x(3,4) common_prefix_le [of toks prompt] unfolding hydrated_def
        by (intro exI [of _ "if r1 then ?m else 0"] exI [of _ p]) auto
    qed
  qed
qed

lemma try_hydrate_ref:
  assumes ok: "engine_ok d G A c e" and cf: "cache_faithful d G A c e env f" and voc: "in_vocab (en_cfg e) prompt"
    and alloc: "\<forall>n \<le> gpu_pool_bytes c. w_alloc_ok w n"
  shows "hydrated d G A c e prompt (try_hydrate_kv env w f prompt conv e)"
proof -
  have at: "kv_pool_at c (en_kv e)" and cok: "kv_cfg_ok c" and cc: "kv_cfg (en_kv e) = c"
    using ok fwd_okD(1) by (auto simp: engine_ok_def kv_pool_at_def)
  note z = hydrated_zero [OF at, of d G A prompt]
  show ?thesis
  proof (cases "conv = [] \<or> \<not> validate_conversation_id conv \<or> prompt = [] \<or> peek_kv_header (w_peek w) f (conv_file env conv) = None")
    case True
    then show ?thesis using z by (auto simp: try_hydrate_kv_def Let_def)
  next
    case False
    then obtain hdr where pk: "peek_kv_header (w_peek w) f (conv_file env conv) = Some hdr" by auto
    from peek_Some [OF pk] obtain fl where fl: "f (c_str (conv_file env conv)) = Some fl" "128 \<le> length (f_data fl)"
        "hdr = header_of (slice 0 128 (f_data fl))" by blast
    show ?thesis
    proof (cases "h_model_hash hdr \<noteq> en_fingerprint e \<or> \<not> shape_matches hdr c \<or> h_used_tokens hdr = 0 \<or> h_used_tokens hdr > of_int (max_context c)")
      case True
      then show ?thesis using z pk cc False unfolding try_hydrate_kv_def Let_def by (simp split: if_split)
    next
      case go: False
      have "faithful_image d G A c e (f_data fl)" using cache_faithfulD [OF cf] False fl by blast
      then obtain toks body where im: "f_data fl = kv_image hdr toks body" "unat (h_used_tokens hdr) = length toks" "unat (h_body_bytes hdr) = length body"
        "length body = nat (packed_used_bytes c (int (length toks)))"
        "\<forall>l < nat (n_layers c). \<forall>i < length toks. packed_at c (length toks) body l i = ref_entry d G A (en_cfg e) (en_mw e) (map uint toks) l i"
        using fl go unfolding faithful_image_def Let_def by blast
      have hok: "header_ok hdr" using fl header_of_ok by (simp add: length_slice)
      show ?thesis by (rule hydrate_image [OF ok voc alloc _ _ _ pk fl(1) _ _ _ _ im(1) hok im(2-5)]) (use False go in auto)
    qed
  qed
qed


section \<open>Saving keeps the directory faithful\<close>

text \<open>Not only the present state of the file system but every state of the log, one of which a crash
  leaves behind, is faithful.\<close>

definition log_faithful ::
  "device \<Rightarrow> (wref \<Rightarrow> half list \<Rightarrow> nat \<Rightarrow> half list) \<Rightarrow> (attn_args \<Rightarrow> nat \<Rightarrow> half list) \<Rightarrow> kv_config \<Rightarrow> engine \<Rightarrow> env \<Rightarrow> sys \<Rightarrow> bool"
where
  "log_faithful d G A c e env s \<longleftrightarrow> cache_faithful d G A c e env (sys_fs s) \<and> (\<forall>f \<in> set (sys_log s). cache_faithful d G A c e env f)"

lemma log_faithful_set: "log_faithful d G A c e env s \<Longrightarrow> cache_faithful d G A c e env f \<Longrightarrow> log_faithful d G A c e env (sys_set f s)"
  by (simp add: log_faithful_def sys_set_def)

lemma log_faithful_calls [simp]: "log_faithful d G A c e env (s\<lparr>sys_calls := k\<rparr>) = log_faithful d G A c e env s"
  by (simp add: log_faithful_def)

lemma log_faithful_unlink:
  assumes "log_faithful d G A c e env s"
  shows "log_faithful d G A c e env (snd (sys_unlink io path s))"
proof -
  have "cache_faithful d G A c e env ((sys_fs s)(q := None))" for q
    using assms by (auto simp: log_faithful_def cache_faithful_def split: if_splits)
  then show ?thesis using log_faithful_set [OF assms] assms by (auto simp: sys_unlink_def)
qed

lemma default_dir_nonempty [simp]: "default_kv_cache_dir env \<noteq> []"
  by (simp add: default_kv_cache_dir_def split: option.splits)

lemma log_faithful_touch:
  assumes lf: "log_faithful d G A c e env s" and t: "touches (c_str (kv_tmp_path (conv_file env conv))) s s'"
    and nul: "CHR 0x00 \<notin> set (default_kv_cache_dir env)" and conv: "conv \<noteq> []" "validate_conversation_id conv"
  shows "log_faithful d G A c e env s'"
proof -
  let ?t = "c_str (kv_tmp_path (conv_file env conv))"
  have tmp: "c_str (conv_file env a) \<noteq> ?t" if "a \<noteq> []" "validate_conversation_id a" for a
    using tmp_path_not_conv [OF default_dir_nonempty [of env] conv(1) that(1)] conv_path_c_str [OF nul conv(2)] conv_path_c_str [OF nul that(2)] by metis
  have cf: "cache_faithful d G A c e env f" if "\<forall>q. q \<noteq> ?t \<longrightarrow> f q = sys_fs s q" for f
    using lf that tmp unfolding log_faithful_def cache_faithful_def by metis
  obtain ext where "sys_log s' = sys_log s @ ext" "\<forall>g \<in> set ext. \<forall>q. q \<noteq> ?t \<longrightarrow> g q = sys_fs s q" "\<forall>q. q \<noteq> ?t \<longrightarrow> sys_fs s' q = sys_fs s q"
    using t unfolding touches_def by blast
  then show ?thesis using lf cf by (auto simp: log_faithful_def)
qed

lemma cache_faithful_upd:
  assumes cf: "cache_faithful d G A c e env f" and im: "faithful_image d G A c e (f_data fl)"
  shows "cache_faithful d G A c e env (f(q := None, q' \<mapsto> fl))"
  using assms by (auto simp: cache_faithful_def split: if_splits)

lemma save_header_ok: "length (en_fingerprint e) = 32 \<Longrightarrow> header_ok (save_header e n b)"
  by (simp add: save_header_def header_ok_def Let_def)

lemma uint_of_vocab:
  assumes "in_vocab cfg toks" "m_vocab_size cfg < 2 ^ 31"
  shows "map (uint \<circ> (of_int :: int \<Rightarrow> u32)) toks = toks"
proof -
  have "uint (of_int t :: u32) = t" if "t \<in> set toks" for t
  proof -
    have "0 \<le> t \<and> t < m_vocab_size cfg" using assms(1) that by (simp add: in_vocab_def)
    then have "0 \<le> t" "t < 2 ^ 31" using assms(2) by linarith+
    then show ?thesis by (simp add: uint_word_of_int_eq take_bit_int_eq_self)
  qed
  then show ?thesis by (simp add: map_idI)
qed

text \<open>The image a save writes.\<close>

lemma saved_image_faithful:
  assumes ok: "engine_ok d G A c e" and fpr: "length (en_fingerprint e) = 32"
    and held: "kv_holds d G A (en_cfg e) (en_mw e) (en_kv e) com" and voc: "in_vocab (en_cfg e) com"
    and len: "0 < length com" "length com \<le> kv_cols c"
    and g: "gather_used_to_host gok (en_kv e) (int (length com)) (replicate (nat (packed_used_bytes c (int (length com)))) 0) = (True, staging)"
    and sz: "unat (h_body_bytes hdr) = length staging" "unat (h_used_tokens hdr) = length com" "header_ok hdr"
  shows "faithful_image d G A c e (kv_image hdr (map of_int com) staging)"
proof -
  have at: "kv_pool_at c (en_kv e)" and f: "fwd_ok d G A (en_cfg e) (en_mw e) c" and v: "m_vocab_size (en_cfg e) < 2 ^ 31"
    using ok by (simp_all add: engine_ok_def)
  have p: "length staging = nat (packed_used_bytes c (int (length com)))"
    "\<forall>l < nat (n_layers c). \<forall>i < length com. packed_at c (length com) staging l i = kv_fetch (en_kv e) l i"
    using gather_True_packed [OF g at len] by simp_all
  have "header_of (slice 0 128 (kv_image hdr (map of_int com) staging)) = hdr"
    by (simp add: kv_image_parts(1) [OF sz(3)] header_of_bytes [OF sz(3)])
  moreover have "map uint (map (of_int :: int \<Rightarrow> u32) com) = com" using uint_of_vocab [OF voc v] by simp
  ultimately show ?thesis using p sz held fwd_okD(7) [OF f] unfolding faithful_image_def Let_def
    by (intro impI exI [of _ "map of_int com"] exI [of _ staging]) (auto simp: kv_holds_def)
qed

lemma save_file_faithful:
  assumes ok: "engine_ok d G A c e" and fpr: "length (en_fingerprint e) = 32" and nul: "CHR 0x00 \<notin> set (default_kv_cache_dir env)"
    and held: "kv_holds d G A (en_cfg e) (en_mw e) (en_kv e) com" and voc: "in_vocab (en_cfg e) com"
    and lf: "log_faithful d G A c e env s" and len: "0 < length com" "length com \<le> kv_cols c"
    and conv: "conv \<noteq> []" "validate_conversation_id conv"
    and g: "gather_used_to_host gok (en_kv e) (int (length com)) (replicate (nat (packed_used_bytes c (int (length com)))) 0) = (True, staging)"
    and sv: "save_kv_to_file io (conv_file env conv) (save_header e n b) (Some (map of_int com)) (length com) staging
      (nat (packed_used_bytes c (int (length com)))) s = (sv, s1)"
  shows "log_faithful d G A c e env s1"
proof -
  let ?path = "conv_file env conv" and ?hdr = "save_header e n b"
  have "length staging = nat (packed_used_bytes c (int (length com)))" using gather_True_packed [OF g _ len] ok by (simp add: engine_ok_def)
  then have "save_kv_to_file io ?path ?hdr (Some (map of_int com)) (length (map of_int com :: u32 list)) staging (length staging) s = (sv, s1)"
    using sv by simp
  note o = save_outcome [OF this save_header_ok [OF fpr]]
  show ?thesis
  proof (cases sv)
    case True
    then obtain s' fl where w: "touches (c_str (kv_tmp_path ?path)) s s'" "f_data fl = kv_image ?hdr (map of_int com) staging"
      "s1 = sys_set ((sys_fs s')(c_str (kv_tmp_path ?path) := None, c_str ?path \<mapsto> fl)) s'"
      "unat (h_body_bytes ?hdr) = length staging" "unat (h_used_tokens ?hdr) = length com" using o by auto
    have "faithful_image d G A c e (f_data fl)" unfolding w(2)
      by (rule saved_image_faithful [OF ok fpr held voc len g w(4,5) save_header_ok [OF fpr]])
    then show ?thesis using log_faithful_touch [OF lf w(1) nul conv] cache_faithful_upd unfolding w(3)
      by (intro log_faithful_set) (auto simp: log_faithful_def)
  next
    case False
    then show ?thesis using o log_faithful_touch [OF lf _ nul conv] by blast
  qed
qed

lemma save_turn_faithful:
  assumes ok: "engine_ok d G A c e" and fpr: "length (en_fingerprint e) = 32" and nul: "CHR 0x00 \<notin> set (default_kv_cache_dir env)"
    and held: "kv_holds d G A (en_cfg e) (en_mw e) (en_kv e) com" and voc: "in_vocab (en_cfg e) com"
    and alloc: "\<forall>n \<le> gpu_pool_bytes c. w_alloc_ok w n" and lf: "log_faithful d G A c e env fsys"
  shows "\<exists>fsys'. save_turn env w params (map of_int com) e fsys = Inr fsys' \<and> log_faithful d G A c e env fsys'"
proof -
  let ?n = "int (length com)" and ?conv = "gp_conversation_id params" and ?b = "packed_used_bytes c (int (length com))"
  let ?path = "conv_file env ?conv" and ?hdr = "save_header e (int (length com)) (packed_used_bytes c (int (length com)))"
  have cc: "kv_cfg (en_kv e) = c" and cok: "kv_cfg_ok c" using ok fwd_okD(1) by (auto simp: engine_ok_def kv_pool_at_def)
  show ?thesis
  proof (cases "?conv = [] \<or> \<not> validate_conversation_id ?conv \<or> ?n < 4 \<or> ?n > max_context c \<or> gp_kv_int8 params \<or>
      \<not> ensure_dir (w_mkdir w) (default_kv_cache_dir env)")
    case True
    then have "save_turn env w params (map of_int com) e fsys = Inr fsys" using cc by (auto simp: save_turn_def Let_def)
    then show ?thesis using lf by simp
  next
    case False
    have len: "0 < length com" "length com \<le> kv_cols c" using False by (auto simp: kv_cols_def nat_le_iff)
    have al: "w_alloc_ok w ?b" using alloc packed_used_mono [OF cok len(2)] by blast
    obtain r staging where g: "gather_used_to_host (w_gather_ok w) (en_kv e) ?n (replicate (nat ?b) 0) = (r, staging)" by fastforce
    obtain sv s1 where sv: "save_kv_to_file (w_save w) ?path ?hdr (Some (map of_int com)) (length com) staging (nat ?b) fsys = (sv, s1)" by fastforce
    define s2 where "s2 = cleanup_stale_tmp_files (w_sweep w) (w_dir w) (default_kv_cache_dir env) (default_kv_cache_stale_tmp_s env) (s1\<lparr>sys_calls := 0\<rparr>)"
    define s3 where "s3 = enforce_kv_cache_budget (w_sort w) (w_sweep w) (w_dir w) (default_kv_cache_dir env)
      (default_kv_cache_max_mb env * (1024 * 1024)) ?path s2"
    have run: "save_turn env w params (map of_int com) e fsys = Inr (if \<not> r then fsys else if \<not> sv then s1 else s3)"
      using False cc al g sv by (simp add: save_turn_def Let_def s2_def s3_def)
    have "log_faithful d G A c e env s1" if r
      using save_file_faithful [OF ok fpr nul held voc lf len _ _ g [unfolded that [THEN eqTrueI]] sv] False by blast
    then have "log_faithful d G A c e env s3" if r unfolding s3_def s2_def
      using that by (intro sweeps_keep [where P = "log_faithful d G A c e env"] log_faithful_unlink) auto
    then show ?thesis using run lf \<open>r \<Longrightarrow> log_faithful d G A c e env s1\<close> by auto
  qed
qed

end
