(* ===== verification/Session.thy ===== *)
theory Session
  imports Hydrate
begin

text \<open>
  Whole turns and sessions. A turn restores a prefix of the prompt from the cache directory, prefills
  the rest on one of two paths, samples the first token, runs the decode loop and saves the committed
  tokens. \<^verbatim>\<open>generate_refines_reference\<close> says that what it delivers is what the cache-free
  reference delivers, whichever of these paths were taken, and \<^verbatim>\<open>session_inv\<close> is the invariant
  that carries this from turn to turn: a rule induction over \<^verbatim>\<open>session\<close> shows that no sequence of
  turns, failed restorations, failed saves and rejected requests can break it.
\<close>


section \<open>The prompt\<close>

lemma prefill_prompt_ref:
  assumes ok: "engine_ok d G A c e" and fp16: "\<not> gp_kv_int8 (en_params e)" and voc: "in_vocab (en_cfg e) toks"
    and len: "m \<le> length toks" "length toks \<le> kv_cols c" and held: "kv_holds d G A (en_cfg e) (en_mw e) (en_kv e) (take m toks)"
  shows "\<exists>x s. prefill_prompt d toks (int m) e = Some (x, e\<lparr>en_last_token := last toks, en_fwd := s\<rparr>) \<and>
    kv_pool_at c (f_kv s) \<and> same_scratch (en_fwd e) s \<and> kv_holds d G A (en_cfg e) (en_mw e) (f_kv s) toks \<and>
    (x = None \<or> x = Some (ref_hidden d G A (en_cfg e) (en_mw e) toks))"
proof (cases "m = length toks")
  case True
  then have "prefill_prompt d toks (int m) e = Some (None, e\<lparr>en_last_token := last toks, en_fwd := en_fwd e\<rparr>)"
    by (simp add: prefill_prompt_def Let_def)
  then show ?thesis using True held ok by (intro exI [of _ None] exI [of _ "en_fwd e"]) (simp add: engine_ok_def)
next
  case False
  let ?cfg = "en_cfg e" and ?mw = "en_mw e" and ?s = "en_fwd e" and ?e = "e\<lparr>en_last_token := last toks\<rparr>"
  have m: "m < length toks" "\<not> int (length toks) - int m \<le> 0" using False len(1) by simp_all
  have f: "fwd_ok d G A ?cfg ?mw c" and at: "kv_pool_at c (en_kv e)" and dims: "0 \<le> m_hidden_dim ?cfg" "0 \<le> m_n_heads ?cfg" "0 \<le> m_intermediate_dim ?cfg"
    and sc: "0 < sp_base (f_scratch ?s)" "step_need ?cfg \<le> sp_capacity (f_scratch ?s)" and v: "0 \<le> m_vocab_size ?cfg"
    using ok by (simp_all add: engine_ok_def)
  note o = fwd_okD [OF f]
  have hd: "0 \<le> m_n_kv_heads ?cfg" "0 \<le> m_head_dim ?cfg" using o(1,2) by (auto simp: dims_ok_def kv_cfg_ok_def)
  have need: "token_need ?cfg \<le> sp_capacity (f_scratch ?s)" "0 \<le> sp_capacity (f_scratch ?s)"
    using sc(2) token_need_nonneg [of ?cfg] buf_need_nonneg [of "[hid_dim ?cfg]"] align256_nonneg [of "m_vocab_size ?cfg * 4"] v
    by (simp_all add: step_need_def)
  note em = embeds_rows [OF o(5) in_vocab_drop(1) [OF voc, of m]]
  show ?thesis
  proof (cases "batched_prefill_enabled (d_env d) \<and> batched_fits ?cfg (f_scratch ?s) (int (length toks))")
    case True
    have "\<exists>x s'. prefill_batched d ?cfg ?mw False (int m) (drop m toks) ?s = Some (x, s')"
      by (rule batched_fits_run [OF _ _ sc(1) need(2) dims(1,2) hd dims(3) em o(4)]) (use True in auto)
    then obtain x s where x: "prefill_batched d ?cfg ?mw False (int m) (drop m toks) ?s = Some (x, s)" by blast
    have "prefill_prompt d toks (int m) e = Some (Some x, ?e\<lparr>en_fwd := s\<rparr>)"
      using True m fp16 x by (simp add: prefill_prompt_def Let_def)
    then show ?thesis using prefill_batched_holds [OF f at m(1) len(2) held voc x] prefill_batched_same [OF x] by auto
  next
    case False
    obtain x s where x: "prefill_per_token d ?cfg ?mw False (int m) (drop m toks) (None, ?s) = Some (x, s)"
      using prefill_per_token_fits [OF sc(1) need(1) em, of False "int m" None] by auto
    have "prefill_prompt d toks (int m) e = Some (x, ?e\<lparr>en_fwd := s\<rparr>)"
      using False m fp16 x by (auto simp: prefill_prompt_def Let_def)
    then show ?thesis using prefill_per_token_holds [OF f at m(1) len(2) held voc x] prefill_per_token_same [OF x] by auto
  qed
qed

text \<open>The first token is the reference's, or the loop will recompute it.\<close>

lemma sample_first_ref:
  assumes ok: "engine_ok d G A c e" and voc: "in_vocab (en_cfg e) toks" "toks \<noteq> []"
    and x: "x = None \<or> x = Some (ref_hidden d G A (en_cfg e) (en_mw e) toks)"
  shows "\<exists>s. f_kv s = en_kv e \<and> same_scratch (en_fwd e) s \<and>
    (sample_first d st copy_ok x e = (-1, e\<lparr>en_fwd := s\<rparr>) \<or>
     (\<exists>t rng. ref_next d st G A e toks (en_recent e) (en_rng e) = (t, rng) \<and> sample_first d st copy_ok x e = (t, e\<lparr>en_fwd := s, en_rng := rng\<rparr>)))"
proof (cases x)
  case None
  then show ?thesis by (intro exI [of _ "en_fwd e"]) (simp add: sample_first_def)
next
  case (Some h)
  let ?cfg = "en_cfg e"
  have h: "h = ref_hidden d G A ?cfg (en_mw e) toks" using x Some by simp
  have j: "length (d_junk d n (hid_dim ?cfg)) = hid_dim ?cfg" for n using ok fwd_okD(4) by (auto simp: engine_ok_def junk_ok_def)
  obtain a s1 where a: "scratch_get (int (hid_dim ?cfg) * 2) (f_scratch (en_fwd e)) = (a, s1)" by fastforce
  obtain b s2 where b: "scratch_get (m_vocab_size ?cfg * 4) s1 = (b, s2)" by fastforce
  let ?s = "(en_fwd e)\<lparr>f_scratch := s2\<rparr>"
  have same: "same_scratch (en_fwd e) ?s"
    using scratch_get_frame [of "int (hid_dim ?cfg) * 2" "f_scratch (en_fwd e)"] scratch_get_frame [of "m_vocab_size ?cfg * 4" s1] a b
    by (simp add: same_scratch_def)
  obtain t rng where t: "ref_next d st G A e toks (en_recent e) (en_rng e) = (t, rng)" by fastforce
  have "sample_first d st copy_ok x e = (-1, e\<lparr>en_fwd := ?s\<rparr>) \<or> sample_first d st copy_ok x e = (t, e\<lparr>en_fwd := ?s, en_rng := rng\<rparr>)"
    using t logits_of_ref(1) [OF ok voc j, of a b]
    unfolding Some sample_first_def option.case Let_def dim_folds a b prod.case h by (auto simp: ref_next_def)
  then show ?thesis using same t by (intro exI [of _ ?s]) auto
qed


section \<open>The reference of a turn\<close>

text \<open>When the first token comes from the prefill, no test stands before it.\<close>

definition ref_start ::
  "device \<Rightarrow> stl \<Rightarrow> (wref \<Rightarrow> half list \<Rightarrow> nat \<Rightarrow> half list) \<Rightarrow> (attn_args \<Rightarrow> nat \<Rightarrow> half list) \<Rightarrow> world \<Rightarrow> engine \<Rightarrow> int \<Rightarrow>
   int list \<Rightarrow> nat \<Rightarrow> int list \<times> nat"
where
  "ref_start d st G A w e limit toks rng =
     (case ref_next d st G A e toks [] rng of (t, rng) \<Rightarrow>
        if t = eos_id (en_tok e) then ([t], rng)
        else (case ref_loop d st G A w e limit 1 (toks @ [t]) (push_recent t []) rng of (ids, rng) \<Rightarrow> (t # ids, rng)))"

text \<open>A start at which none of the tests of the loop would stop: the two references agree.\<close>

definition calm_start :: "world \<Rightarrow> engine \<Rightarrow> int \<Rightarrow> bool" where
  "calm_start w e pos \<longleftrightarrow> 1 \<le> gp_max_tokens (en_params e) \<and> \<not> w_stop w 0 \<and> mem_ok w e pos \<and> w_copy_ok w pos"

lemma ref_loop_calm:
  assumes "calm_start w e (int (length toks) - 1)" "int (length toks) \<le> limit"
  shows "ref_loop d st G A w e limit 0 toks [] rng = ref_start d st G A w e limit toks rng"
  using assms by (subst ref_loop.simps) (auto simp: calm_start_def ref_start_def Let_def split: prod.splits)

lemma ref_loop_calm_nonempty:
  assumes "calm_start w e (int (length toks) - 1)" "int (length toks) \<le> limit" "ref_loop d st G A w e limit 0 toks [] rng = (ids, rng')"
  shows "ids \<noteq> []"
  using assms(3) unfolding ref_loop_calm [OF assms(1,2)] by (auto simp: ref_start_def split: prod.splits if_splits)


section \<open>A turn\<close>

text \<open>What a turn needs of the session: a loaded engine, a fingerprint of its declared size, a cache
  directory whose name is a C string, and faithful files in it.\<close>

definition session_inv ::
  "device \<Rightarrow> (wref \<Rightarrow> half list \<Rightarrow> nat \<Rightarrow> half list) \<Rightarrow> (attn_args \<Rightarrow> nat \<Rightarrow> half list) \<Rightarrow> kv_config \<Rightarrow> engine \<Rightarrow> sys \<Rightarrow> bool"
where
  "session_inv d G A c e fsys \<longleftrightarrow> engine_ok d G A c e \<and> length (en_fingerprint e) = 32 \<and> CHR 0x00 \<notin> set (default_kv_cache_dir (d_env d)) \<and>
     log_faithful d G A c e (d_env d) fsys"

lemma session_inv_cong:
  assumes "session_inv d G A c e fsys" "same_model (e\<lparr>en_params := en_params e'\<rparr>) e'" "engine_ok d G A c e'"
  shows "session_inv d G A c e' fsys"
  using assms by (simp add: session_inv_def same_model_def log_faithful_def cache_faithful_def faithful_image_def)

text \<open>What a turn needs of the request and of the outside: FP16, tokens of the vocabulary, and memory
  for a copy of the pool.\<close>

definition turn_ok :: "kv_config \<Rightarrow> world \<Rightarrow> string \<Rightarrow> gen_params \<Rightarrow> engine \<Rightarrow> int \<times> int list \<Rightarrow> bool" where
  "turn_ok c w prompt params e r \<longleftrightarrow> \<not> gp_kv_int8 params \<and> (\<forall>n \<le> gpu_pool_bytes c. w_alloc_ok w n) \<and>
     prompt_tokens_of (en_tok e) (kv_max_tokens c) (gp_max_tokens params) prompt = Inr r \<and> in_vocab (en_cfg e) (snd r)"

abbreviation with_params :: "engine \<Rightarrow> gen_params \<Rightarrow> engine" where
  "with_params e params \<equiv> e\<lparr>en_stop := False, en_params := params, en_recent := []\<rparr>"

text \<open>The state in which the loop starts.\<close>

lemma start_state_rel:
  assumes ok: "engine_ok d G A c e" and voc: "in_vocab (en_cfg e) toks" "toks \<noteq> []" and last: "en_last_token e = last toks"
    and held: "kv_holds d G A (en_cfg e) (en_mw e) (en_kv e) toks" and stop: "\<not> en_stop e"
  shows "loop_rel d G A c e toks toks (start_state n toks (-1) e)"
    and "0 \<le> t \<Longrightarrow> t < m_vocab_size (en_cfg e) \<Longrightarrow> loop_rel d G A c e (toks @ [t]) toks (start_state n toks t e)"
proof -
  have N: "max 0 (int (length toks) - 1) = int (length toks) - 1" using voc(2) by (cases toks) auto
  show "loop_rel d G A c e toks toks (start_state n toks (-1) e)"
    using assms N by (simp add: loop_rel_def start_state_def Let_def same_model_def)
  assume "0 \<le> t" "t < m_vocab_size (en_cfg e)"
  then show "loop_rel d G A c e (toks @ [t]) toks (start_state n toks t e)"
    using assms by (simp add: loop_rel_def start_state_def Let_def same_model_def deliver_def engine_ok_def)
qed

lemma start_state_simps:
  "ls_out (start_state n toks (-1) e) = []" "ls_engine (start_state n toks (-1) e) = e"
  "0 \<le> t \<Longrightarrow> ls_out (start_state n toks t e) = callbacks e [t]"
  "0 \<le> t \<Longrightarrow> ls_engine (start_state n toks t e) = e\<lparr>en_last_token := t, en_recent := push_recent t (en_recent e)\<rparr>"
  by (simp_all add: start_state_def Let_def deliver_def callbacks_def)

text \<open>The turn from the first token to the end of the loop.\<close>

lemma decode_phase_ref:
  assumes ok: "engine_ok d G A c e" and fp16: "\<not> gp_kv_int8 (en_params e)" and st: "stl_ok st"
    and voc: "in_vocab (en_cfg e) toks" "toks \<noteq> []" and last: "en_last_token e = last toks" and recent: "en_recent e = []" and stop: "\<not> en_stop e"
    and held: "kv_holds d G A (en_cfg e) (en_mw e) (en_kv e) toks"
    and c: "overflow_context c = 0" "kv_cfg_ok c"
  shows "ref_loop d st G A w e (kv_max_tokens c) 0 toks [] (en_rng e) = (ids, rng') \<Longrightarrow>
      \<exists>s. decode_phase d st w (kv_max_tokens c) (gp_max_tokens (en_params e)) (-1) (start_state n toks (-1) e) = Inr s \<and>
        ls_out s = callbacks e ids \<and> en_rng (ls_engine s) = rng' \<and> end_rel d G A c e (toks @ butlast ids) s"
    and "ref_next d st G A e toks [] (en_rng e) = (t, rng) \<Longrightarrow> ref_start d st G A w e (kv_max_tokens c) toks (en_rng e) = (ids, rng') \<Longrightarrow>
      \<exists>s. decode_phase d st w (kv_max_tokens c) (gp_max_tokens (en_params e)) t (start_state n toks t (e\<lparr>en_rng := rng\<rparr>)) = Inr s \<and>
        ls_out s = callbacks e ids \<and> en_rng (ls_engine s) = rng' \<and> end_rel d G A c e (toks @ butlast ids) s"
proof -
  let ?s = "start_state n toks (-1) e"
  assume "ref_loop d st G A w e (kv_max_tokens c) 0 toks [] (en_rng e) = (ids, rng')"
  from decode_loop_ref [OF c start_state_rel(1) [OF ok voc last held stop] fp16 st _ _ this, of n] recent
  show "\<exists>s. decode_phase d st w (kv_max_tokens c) (gp_max_tokens (en_params e)) (-1) ?s = Inr s \<and>
        ls_out s = callbacks e ids \<and> en_rng (ls_engine s) = rng' \<and> end_rel d G A c e (toks @ butlast ids) s"
    by (auto simp: decode_phase_def start_state_simps split: if_splits)
next
  assume t: "ref_next d st G A e toks [] (en_rng e) = (t, rng)" and run: "ref_start d st G A w e (kv_max_tokens c) toks (en_rng e) = (ids, rng')"
  let ?e = "e\<lparr>en_rng := rng\<rparr>" and ?s = "start_state n toks t (e\<lparr>en_rng := rng\<rparr>)"
  have tr: "0 \<le> t" "t < m_vocab_size (en_cfg e)" using ref_next_range [OF ok st voc t] by simp_all
  have m: "same_model e ?e" by (simp add: same_model_def)
  have "engine_ok d G A c ?e" using ok by (simp add: engine_ok_def)
  note rel = start_state_rel(2) [OF this, of toks t n]
  have rel: "loop_rel d G A c e (toks @ [t]) toks ?s" using rel voc last held stop tr by (simp add: loop_rel_def same_model_def)
  note sm = start_state_simps(3,4) [OF tr(1), of n toks ?e]
  have cb: "callbacks ?e xs = callbacks e xs" for xs by (simp add: callbacks_def)
  show "\<exists>s. decode_phase d st w (kv_max_tokens c) (gp_max_tokens (en_params e)) t ?s = Inr s \<and>
        ls_out s = callbacks e ids \<and> en_rng (ls_engine s) = rng' \<and> end_rel d G A c e (toks @ butlast ids) s"
  proof (cases "t = eos_id (en_tok e)")
    case True
    then have "ids = [t]" "rng' = rng" using run t by (simp_all add: ref_start_def)
    then show ?thesis using True tr(1) sm cb loop_rel_end [OF rel] by (simp add: decode_phase_def)
  next
    case False
    obtain ids' where ids': "ref_loop d st G A w e (kv_max_tokens c) 1 (toks @ [t]) (push_recent t []) rng = (ids', rng')" "ids = t # ids'"
      using run t False by (auto simp: ref_start_def split: prod.splits)
    from decode_loop_ref [OF c rel fp16 st _ _ ids'(1)] sm recent obtain s
      where "decode_loop d st w (kv_max_tokens c) (gp_max_tokens (en_params e)) 1 ?s = Inr s" "ls_out s = ls_out ?s @ callbacks e ids'"
        "en_rng (ls_engine s) = rng'" "end_rel d G A c e (if ids' = [] then toks else (toks @ [t]) @ butlast ids') s" by auto
    then show ?thesis using False tr(1) sm cb unfolding ids'(2) callbacks_Cons [of e t ids'] by (auto simp: decode_phase_def)
  qed
qed


text \<open>The references depend on the model and the parameters only.\<close>

lemma same_model_trans: "same_model e e' \<Longrightarrow> same_model e' e'' \<Longrightarrow> same_model e e''"
  by (simp add: same_model_def)

lemma ref_loop_same:
  "same_model e e' \<Longrightarrow> ref_loop d st G A w e' limit i toks recent rng = ref_loop d st G A w e limit i toks recent rng"
proof (induction d st G A w e limit i toks recent rng rule: ref_loop.induct)
  case (1 d st G A w e limit i toks recent rng)
  have m: "en_tok e' = en_tok e" "en_params e' = en_params e" "mem_ok w e' pos = mem_ok w e pos" for pos
    using "1.prems" by (simp_all add: same_model_def mem_ok_def)
  note n = ref_next_same [OF "1.prems"]
  let ?stop = "gp_max_tokens (en_params e) \<le> i \<or> w_stop w i \<or> limit \<le> int (length toks) - 1 \<or> \<not> mem_ok w e (int (length toks) - 1)"
  obtain t r where t: "ref_next d st G A e toks recent rng = (t, r)" by fastforce
  have "ref_loop d st G A w e' limit (i + 1) (toks @ [t]) (push_recent t recent) r = ref_loop d st G A w e limit (i + 1) (toks @ [t]) (push_recent t recent) r"
    if "\<not> ?stop" "w_copy_ok w (int (length toks) - 1)" "t \<noteq> eos_id (en_tok e)"
    using "1.IH" [OF refl refl _ _ t [symmetric] _ "1.prems"] that by simp
  then show ?case by (subst (1 2) ref_loop.simps) (simp add: Let_def m n t)
qed

lemma ref_start_same:
  assumes "same_model e e'"
  shows "ref_start d st G A w e' limit toks rng = ref_start d st G A w e limit toks rng"
proof -
  have "en_tok e' = en_tok e" using assms by (simp add: same_model_def)
  then show ?thesis by (simp only: ref_start_def ref_next_same [OF assms] ref_loop_same [OF assms])
qed

lemma callbacks_same: "same_model e e' \<Longrightarrow> callbacks e' ids = callbacks e ids"
  by (simp add: callbacks_def same_model_def)

lemma prompt_tokens_bounds:
  "prompt_tokens_of t limit mx prompt = Inr (n, toks) \<Longrightarrow> toks \<noteq> [] \<and> int (length toks) < limit"
  by (auto simp: prompt_tokens_of_def Let_def split: if_splits option.splits)

text \<open>An engine whose pool holds the prompt.\<close>

definition primed ::
  "device \<Rightarrow> (wref \<Rightarrow> half list \<Rightarrow> nat \<Rightarrow> half list) \<Rightarrow> (attn_args \<Rightarrow> nat \<Rightarrow> half list) \<Rightarrow> kv_config \<Rightarrow> engine \<Rightarrow> int list \<Rightarrow> engine \<Rightarrow> bool"
where
  "primed d G A c e toks e' \<longleftrightarrow> same_model e e' \<and> engine_ok d G A c e' \<and> kv_holds d G A (en_cfg e) (en_mw e) (en_kv e') toks \<and>
     en_last_token e' = last toks \<and> en_recent e' = [] \<and> \<not> en_stop e' \<and> en_rng e' = en_rng e"

lemma prompt_run:
  assumes ok: "engine_ok d G A c e" and cf: "cache_faithful d G A c e env f" and alloc: "\<forall>n \<le> gpu_pool_bytes c. w_alloc_ok w n"
    and fp16: "\<not> gp_kv_int8 (en_params e)" and voc: "in_vocab (en_cfg e) toks" and len: "length toks \<le> kv_cols c"
    and clean: "en_recent e = []" "\<not> en_stop e"
  shows "\<exists>start e1 x e2. try_hydrate_kv env w f toks conv e = Inr (start, e1) \<and> prefill_prompt d toks start e1 = Some (x, e2) \<and>
    primed d G A c e toks e2 \<and> (x = None \<or> x = Some (ref_hidden d G A (en_cfg e) (en_mw e) toks))"
proof -
  obtain m p where h: "try_hydrate_kv env w f toks conv e = Inr (int m, e\<lparr>en_fwd := (en_fwd e)\<lparr>f_kv := p\<rparr>\<rparr>)"
    "m \<le> length toks" "kv_pool_at c p" "kv_holds d G A (en_cfg e) (en_mw e) p (take m toks)"
    using try_hydrate_ref [OF ok cf voc alloc, of conv] by (auto simp: hydrated_def)
  define e1 where "e1 = e\<lparr>en_fwd := (en_fwd e)\<lparr>f_kv := p\<rparr>\<rparr>"
  have m1: "same_model e e1" "same_scratch (en_fwd e) (en_fwd e1)" by (simp_all add: e1_def same_model_def)
  have ok1: "engine_ok d G A c e1" using engine_ok_same [OF ok m1] h(3) by (simp add: e1_def)
  obtain x s where x: "prefill_prompt d toks (int m) e1 = Some (x, e1\<lparr>en_last_token := last toks, en_fwd := s\<rparr>)"
    "kv_pool_at c (f_kv s)" "same_scratch (en_fwd e1) s" "kv_holds d G A (en_cfg e) (en_mw e) (f_kv s) toks"
    "x = None \<or> x = Some (ref_hidden d G A (en_cfg e) (en_mw e) toks)"
    using prefill_prompt_ref [OF ok1, of toks m] fp16 voc h(2,4) len by (auto simp: e1_def)
  define e2 where "e2 = e1\<lparr>en_last_token := last toks, en_fwd := s\<rparr>"
  have m2: "same_model e1 e2" "same_scratch (en_fwd e1) (en_fwd e2)" using x(3) by (simp_all add: e2_def same_model_def)
  have ok2: "engine_ok d G A c e2" using engine_ok_same [OF ok1 m2] x(2) by (simp add: e2_def)
  have "primed d G A c e toks e2" unfolding primed_def
    using same_model_trans [OF m1(1) m2(1)] ok2 x(4) clean by (simp add: e2_def e1_def)
  then show ?thesis using h(1) x(1,5) by (auto simp: e1_def e2_def)
qed

lemma first_run:
  assumes pr: "primed d G A c e toks e2" and x: "x = None \<or> x = Some (ref_hidden d G A (en_cfg e) (en_mw e) toks)"
    and fp16: "\<not> gp_kv_int8 (en_params e)" and st: "stl_ok st" and voc: "in_vocab (en_cfg e) toks" "toks \<noteq> []"
    and c: "overflow_context c = 0" "kv_cfg_ok c"
  shows "\<exists>first e3 s ids rng'. sample_first d st copy_ok x e2 = (first, e3) \<and>
    decode_phase d st w (kv_max_tokens c) (gp_max_tokens (en_params e)) first (start_state n toks first e3) = Inr s \<and>
    ((ids, rng') = ref_loop d st G A w e (kv_max_tokens c) 0 toks [] (en_rng e) \<or> (ids, rng') = ref_start d st G A w e (kv_max_tokens c) toks (en_rng e)) \<and>
    ls_out s = callbacks e ids \<and> en_rng (ls_engine s) = rng' \<and> end_rel d G A c e (toks @ butlast ids) s"
proof -
  have ok2: "engine_ok d G A c e2" and m2: "same_model e e2" using pr by (simp_all add: primed_def)
  have e2: "en_cfg e2 = en_cfg e" "en_mw e2 = en_mw e" "en_recent e2 = []" using pr by (simp_all add: primed_def same_model_def)
  obtain s3 where s3: "f_kv s3 = en_kv e2" "same_scratch (en_fwd e2) s3" and
    sf: "sample_first d st copy_ok x e2 = (-1, e2\<lparr>en_fwd := s3\<rparr>) \<or>
     (\<exists>t rng. ref_next d st G A e2 toks (en_recent e2) (en_rng e2) = (t, rng) \<and>
        sample_first d st copy_ok x e2 = (t, e2\<lparr>en_fwd := s3, en_rng := rng\<rparr>))"
    using sample_first_ref [OF ok2, of toks x st copy_ok] voc x e2 by auto
  define e3 where "e3 = e2\<lparr>en_fwd := s3\<rparr>"
  have m23: "same_model e2 e3" "same_scratch (en_fwd e2) (en_fwd e3)" using s3(2) by (simp_all add: e3_def same_model_def)
  have ok3: "engine_ok d G A c e3" using engine_ok_same [OF ok2 m23] s3(1) ok2 by (simp add: e3_def engine_ok_def)
  have m3: "same_model e e3" using same_model_trans m2 m23(1) by blast
  have e3: "en_cfg e3 = en_cfg e" "en_params e3 = en_params e" "en_recent e3 = []" "\<not> en_stop e3" "en_rng e3 = en_rng e" "en_last_token e3 = last toks"
    "kv_holds d G A (en_cfg e3) (en_mw e3) (en_kv e3) toks" using pr s3(1) e2 m2 by (simp_all add: primed_def e3_def same_model_def)
  have er: "end_rel d G A c e com s" if "end_rel d G A c e3 com s" for com s
    using that m3 by (auto simp: end_rel_def same_model_def)
  have "\<not> gp_kv_int8 (en_params e3)" "in_vocab (en_cfg e3) toks" using fp16 voc(1) e3 by simp_all
  note ph = decode_phase_ref [OF ok3 this(1) st this(2) voc(2) e3(6,3,4,7) c, unfolded e3(2,5) ref_loop_same [OF m3] ref_start_same [OF m3] ref_next_same [OF m3] callbacks_same [OF m3]]
  from sf show ?thesis
  proof
    assume f: "sample_first d st copy_ok x e2 = (-1, e2\<lparr>en_fwd := s3\<rparr>)"
    obtain ids rng' where r: "ref_loop d st G A w e (kv_max_tokens c) 0 toks [] (en_rng e) = (ids, rng')" by fastforce
    from ph(1) [OF r, of n] obtain s where s: "decode_phase d st w (kv_max_tokens c) (gp_max_tokens (en_params e)) (-1) (start_state n toks (-1) e3) = Inr s"
      "ls_out s = callbacks e ids" "en_rng (ls_engine s) = rng'" "end_rel d G A c e3 (toks @ butlast ids) s" by blast
    then show ?thesis using f r er unfolding e3_def [symmetric] by metis
  next
    assume "\<exists>t rng. ref_next d st G A e2 toks (en_recent e2) (en_rng e2) = (t, rng) \<and> sample_first d st copy_ok x e2 = (t, e2\<lparr>en_fwd := s3, en_rng := rng\<rparr>)"
    then obtain t rng where f: "ref_next d st G A e toks [] (en_rng e) = (t, rng)" "sample_first d st copy_ok x e2 = (t, e3\<lparr>en_rng := rng\<rparr>)"
      using e2(3) ref_next_same [OF m2] pr by (auto simp: e3_def primed_def)
    obtain ids rng' where r: "ref_start d st G A w e (kv_max_tokens c) toks (en_rng e) = (ids, rng')" by fastforce
    from ph(2) [OF f(1) r, of n] obtain s where s: "decode_phase d st w (kv_max_tokens c) (gp_max_tokens (en_params e)) t (start_state n toks t (e3\<lparr>en_rng := rng\<rparr>)) = Inr s"
      "ls_out s = callbacks e ids" "en_rng (ls_engine s) = rng'" "end_rel d G A c e3 (toks @ butlast ids) s" by blast
    then show ?thesis using f(2) r er by metis
  qed
qed


text \<open>A whole turn, started calmly or not.\<close>

lemma turn_run:
  assumes inv: "session_inv d G A c e fsys" and st: "stl_ok st" and t: "turn_ok c w prompt params e (n, toks)"
  defines "e1 \<equiv> with_params e params"
  shows "\<exists>s fsys' ids rng'. generate d st w prompt params e fsys = Inr (s, fsys') \<and>
    ((ids, rng') = ref_loop d st G A w e1 (kv_max_tokens c) 0 toks [] (en_rng e) \<or> (ids, rng') = ref_start d st G A w e1 (kv_max_tokens c) toks (en_rng e)) \<and>
    ls_out s = callbacks e1 ids \<and> en_rng (ls_engine s) = rng' \<and> end_rel d G A c e1 (toks @ butlast ids) s \<and>
    session_inv d G A c (ls_engine s) fsys'"
proof -
  let ?env = "d_env d" and ?conv = "gp_conversation_id params"
  have ok: "engine_ok d G A c e1" and lf: "log_faithful d G A c e1 ?env fsys" and e1: "en_params e1 = params" "en_rng e1 = en_rng e"
    and clean: "en_recent e1 = []" "\<not> en_stop e1" and fpr: "length (en_fingerprint e1) = 32" and nul: "CHR 0x00 \<notin> set (default_kv_cache_dir ?env)"
    using inv by (simp_all add: session_inv_def e1_def engine_ok_def log_faithful_def cache_faithful_def faithful_image_def)
  have cf: "cache_faithful d G A c e1 ?env (sys_fs fsys)" using lf by (simp add: log_faithful_def)
  have c: "overflow_context c = 0" "kv_cfg_ok c" "kv_cfg (en_kv e) = c"
    using ok fwd_okD(1) by (auto simp: engine_ok_def kv_pool_at_def e1_def)
  have fp16: "\<not> gp_kv_int8 (en_params e1)" and alloc: "\<forall>n \<le> gpu_pool_bytes c. w_alloc_ok w n" and voc: "in_vocab (en_cfg e1) toks"
    and pt: "prompt_tokens_of (en_tok e) (kv_max_tokens c) (gp_max_tokens params) prompt = Inr (n, toks)"
    using t by (simp_all add: turn_ok_def e1_def)
  have N: "toks \<noteq> []" "length toks \<le> kv_cols c" using prompt_tokens_bounds [OF pt] c by (auto simp: kv_max_tokens_def kv_cols_def)
  obtain start e2 x e3 where p: "try_hydrate_kv ?env w (sys_fs fsys) toks ?conv e1 = Inr (start, e2)" "prefill_prompt d toks start e2 = Some (x, e3)"
    "primed d G A c e1 toks e3" "x = None \<or> x = Some (ref_hidden d G A (en_cfg e1) (en_mw e1) toks)"
    using prompt_run [OF ok cf alloc fp16 voc N(2) clean] by blast
  obtain first e4 s ids rng' where r: "sample_first d st (w_first_copy_ok w) x e3 = (first, e4)"
    "decode_phase d st w (kv_max_tokens c) (gp_max_tokens params) first (start_state n toks first e4) = Inr s"
    "(ids, rng') = ref_loop d st G A w e1 (kv_max_tokens c) 0 toks [] (en_rng e) \<or> (ids, rng') = ref_start d st G A w e1 (kv_max_tokens c) toks (en_rng e)"
    "ls_out s = callbacks e1 ids" "en_rng (ls_engine s) = rng'" and er: "end_rel d G A c e1 (toks @ butlast ids) s"
    using first_run [OF p(3,4) fp16 st voc N(1) c(1,2), of "w_first_copy_ok w" w n] unfolding e1 by blast
  let ?es = "ls_engine s" and ?com = "toks @ butlast ids"
  have es: "same_model e1 ?es" "engine_ok d G A c ?es" "in_vocab (en_cfg ?es) ?com" "kv_holds d G A (en_cfg ?es) (en_mw ?es) (en_kv ?es) ?com"
    "ls_kv_tokens s = map of_int ?com" using er by (auto simp: end_rel_def same_model_def)
  have lf': "log_faithful d G A c ?es ?env f \<longleftrightarrow> log_faithful d G A c e1 ?env f" for f
    using es(1) by (simp add: log_faithful_def cache_faithful_def faithful_image_def same_model_def)
  have fpr': "length (en_fingerprint ?es) = 32" using es(1) fpr by (simp add: same_model_def)
  obtain fsys' where sv: "save_turn ?env w params (map of_int ?com) ?es fsys = Inr fsys'" "log_faithful d G A c ?es ?env fsys'"
    using save_turn_faithful [OF es(2) fpr' nul es(4,3) alloc] lf lf' by blast
  have "generate d st w prompt params e fsys = Inr (s, fsys')"
    using pt p(1,2) r(1,2) sv(1) unfolding generate_def Let_def e1_def [symmetric] es(5) [symmetric]
    by (simp add: e1_def c(3) access_of_def)
  then show ?thesis using r(3-5) er sv(2) es(2) fpr' nul by (auto simp: session_inv_def)
qed


section \<open>Sessions\<close>

text \<open>The life of a server: turns in any order over any conversations, requests that are rejected
  with an exception, and crashes in the middle of a turn, after which the same model is loaded again
  and the file system is one of the states the turn went through.\<close>

definition reloaded :: "device \<Rightarrow> (wref \<Rightarrow> half list \<Rightarrow> nat \<Rightarrow> half list) \<Rightarrow> (attn_args \<Rightarrow> nat \<Rightarrow> half list) \<Rightarrow> kv_config \<Rightarrow> engine \<Rightarrow> engine \<Rightarrow> bool" where
  "reloaded d G A c e e' \<longleftrightarrow> same_model (e\<lparr>en_params := en_params e'\<rparr>) e' \<and> engine_ok d G A c e'"

inductive session ::
  "device \<Rightarrow> stl \<Rightarrow> (wref \<Rightarrow> half list \<Rightarrow> nat \<Rightarrow> half list) \<Rightarrow> (attn_args \<Rightarrow> nat \<Rightarrow> half list) \<Rightarrow> kv_config \<Rightarrow> engine \<Rightarrow> sys \<Rightarrow> engine \<Rightarrow> sys \<Rightarrow> bool"
  for d st G A c e0 fsys0
where
  start: "session d st G A c e0 fsys0 e0 fsys0"
| turn: "session d st G A c e0 fsys0 e fsys \<Longrightarrow> turn_ok c w prompt params e r \<Longrightarrow>
    generate d st w prompt params e fsys = Inr (s, fsys') \<Longrightarrow> session d st G A c e0 fsys0 (ls_engine s) (fsys'\<lparr>sys_calls := k\<rparr>)"
| rejected: "session d st G A c e0 fsys0 e fsys \<Longrightarrow>
    prompt_tokens_of (en_tok e) (kv_max_tokens (kv_cfg (en_kv e))) (gp_max_tokens params) prompt = Inl err \<Longrightarrow>
    session d st G A c e0 fsys0 (with_params e params) fsys"
| crash: "session d st G A c e0 fsys0 e fsys \<Longrightarrow> turn_ok c w prompt params e r \<Longrightarrow>
    generate d st w prompt params e fsys = Inr (s, fsys') \<Longrightarrow> f \<in> set (sys_log fsys') \<Longrightarrow> reloaded d G A c e e' \<Longrightarrow>
    session d st G A c e0 fsys0 e' \<lparr>sys_fs = f, sys_log = [], sys_calls = 0\<rparr>"

inductive_cases sessionE: "session d st G A c e0 fsys0 e fsys"

lemma session_inv_params: "session_inv d G A c (with_params e params) fsys = session_inv d G A c e fsys"
  by (simp add: session_inv_def engine_ok_def log_faithful_def cache_faithful_def faithful_image_def)

lemma turn_keeps_inv:
  assumes "session_inv d G A c e fsys" "stl_ok st" "turn_ok c w prompt params e r" "generate d st w prompt params e fsys = Inr (s, fsys')"
  shows "session_inv d G A c (ls_engine s) fsys' \<and> same_model (with_params e params) (ls_engine s)"
proof -
  obtain n toks where r: "r = (n, toks)" by fastforce
  show ?thesis using turn_run [OF assms(1,2) assms(3) [unfolded r]] assms(4) by (auto simp: end_rel_def)
qed

lemma session_induct_inv:
  assumes "session d st G A c e0 fsys0 e fsys" "session_inv d G A c e0 fsys0" "stl_ok st"
  shows "session_inv d G A c e fsys \<and> same_model (e0\<lparr>en_params := en_params e\<rparr>) e"
  using assms
proof (induction rule: session.induct)
  case start
  then show ?case by (simp add: same_model_def)
next
  case (turn e fsys w prompt params r s fsys' k)
  then have "session_inv d G A c (ls_engine s) fsys' \<and> same_model (with_params e params) (ls_engine s)"
    using turn_keeps_inv by blast
  then show ?case using turn by (auto simp: session_inv_def same_model_def)
next
  case (rejected e fsys params prompt err)
  then show ?case unfolding session_inv_params by (auto simp: same_model_def)
next
  case (crash e fsys w prompt params r s fsys' f e')
  then have inv: "session_inv d G A c (ls_engine s) fsys'" and m: "same_model (with_params e params) (ls_engine s)" "same_model (e0\<lparr>en_params := en_params e\<rparr>) e"
    using turn_keeps_inv by blast+
  have m': "same_model ((ls_engine s)\<lparr>en_params := en_params e'\<rparr>) e'" "engine_ok d G A c e'"
    using crash.hyps(5) m(1) by (auto simp: reloaded_def same_model_def)
  have "session_inv d G A c (ls_engine s) \<lparr>sys_fs = f, sys_log = [], sys_calls = 0\<rparr>"
    using inv crash.hyps(4) by (simp add: session_inv_def log_faithful_def)
  then show ?case using session_inv_cong [OF _ m'] crash.hyps(5) m(2) by (auto simp: reloaded_def same_model_def)
qed




section \<open>A session of the small model\<close>

abbreviation (input) demo_G :: "wref \<Rightarrow> half list \<Rightarrow> nat \<Rightarrow> half list" where
  "demo_G \<equiv> \<lambda>w x K. replicate (wf_rows w) (sum_list x)"

abbreviation (input) demo_A :: "attn_args \<Rightarrow> nat \<Rightarrow> half list" where
  "demo_A \<equiv> \<lambda>a n. replicate (aa_n_heads a * aa_head_dim a) (of_nat n)"

definition demo_kv8 :: kv_config where "demo_kv8 = demo_kv\<lparr>max_context := 8\<rparr>"

lemma demo_emb_ok: "emb_ok demo_dev demo_cfg demo_mw"
  by (simp add: emb_ok_def dequant_embedding_def dequant_embedding_row_def demo_dev_def demo_mw_def demo_cfg_def hid_dim_def
      infer_of_def fast_embedding_enabled_def env_opt_out_def)

lemma demo_engine_ok: "engine_ok demo_dev demo_G demo_A demo_kv8 demo_engine"
proof -
  have "hid_dim demo_cfg = 2" "q_dim demo_cfg = 2" "kv_dims demo_cfg = 2" "ffn_dim demo_cfg = 2" "m_n_layers demo_cfg = 1" "m_vocab_size demo_cfg = 8"
    by (simp_all add: hid_dim_def q_dim_def kv_dims_def ffn_dim_def demo_cfg_def)
  then have "step_need demo_cfg \<le> 67108864" by (simp add: step_need_def token_need_def layer_need_def align256_eq)
  moreover have "fwd_ok demo_dev demo_G demo_A demo_cfg demo_mw demo_kv8" unfolding fwd_ok_def
    using demo_facts(2,3,7) demo_emb_ok by (simp add: kv_cfg_ok_def demo_kv8_def demo_kv_def dims_ok_def)
  moreover have "logits_ok demo_dev" by (simp add: logits_ok_def demo_dev_def infer_of_def)
  moreover have "kv_pool_at demo_kv8 (en_kv demo_engine)"
    by (simp add: kv_pool_at_def kv_pool_ok_def kv_cfg_ok_def kv_rows_def kv_cols_def kv_half_def demo_engine_def demo_kv8_def demo_kv_def)
  ultimately show ?thesis by (simp add: engine_ok_def demo_engine_def demo_kv8_def demo_kv_def demo_cfg_def)
qed

lemma demo_session_inv: "session_inv demo_dev demo_G demo_A demo_kv8 demo_engine demo_empty"
  using demo_engine_ok by (simp add: session_inv_def log_faithful_def cache_faithful_def demo_empty_def demo_engine_def demo_dev_def default_kv_cache_dir_def)

lemma demo_turn_ok: "turn_ok demo_kv8 demo_world ''abcd'' demo_params demo_engine (4, [0, 1, 2, 3])"
proof -
  have "prompt_tokens_of demo_tok (kv_max_tokens demo_kv8) (gp_max_tokens demo_params) ''abcd'' = Inr (4, [0, 1, 2, 3])" by code_simp
  then show ?thesis by (simp add: turn_ok_def demo_engine_def demo_world_def demo_cfg_def demo_params_def)
qed

lemma demo_calm: "calm_start demo_world (with_params demo_engine demo_params) 3"
proof -
  have "can_extend 256 (Some (''MemAvailable: 4000000 kB'' @ [CHR 0x0A])) (kv_per_token_bytes demo_cfg 2)" by code_simp
  then show ?thesis by (simp add: calm_start_def mem_ok_def demo_world_def demo_params_def demo_engine_def)
qed


definition demo_ids :: "int list" where
  "demo_ids = fst (ref_loop demo_dev demo_stl demo_G demo_A demo_world (with_params demo_engine demo_params) (kv_max_tokens demo_kv8) 0 [0, 1, 2, 3] [] 0)"


text \<open>A turn of the small model, for the properties of \<^verbatim>\<open>generate\<close>.\<close>

lemma demo_generate:
  obtains s fsys' where "generate demo_dev demo_stl demo_world ''abcd'' demo_params demo_engine demo_empty = Inr (s, fsys')"
    "session_inv demo_dev demo_G demo_A demo_kv8 (ls_engine s) fsys'"
  using turn_run [OF demo_session_inv demo_stl_ok demo_turn_ok] by blast

end
