(* ===== verification/Resume.thy ===== *)
theory Resume
  imports Session
begin

text \<open>
  Resuming a conversation. When the kernel cooperates, the tokens a turn has committed are on disk
  after it (the sweeps never remove the file that was just written), and the next turn of the
  conversation, on this engine or on one loaded again from the same model, restores the longest common
  prefix of the committed tokens and its prompt.
\<close>


section \<open>The sweeps keep the file of the turn\<close>

lemma evict_loop_file:
  assumes "\<forall>x \<in> set es. ce_path x \<noteq> keep \<longrightarrow> c_str (ce_path x) \<noteq> q"
  shows "sys_fs (snd (evict_loop io mx keep es tot s)) q = sys_fs s q"
  using assms
proof (induction es arbitrary: tot s)
  case (Cons x es)
  have "sys_fs (snd (sys_unlink io (ce_path x) s)) q = sys_fs s q" if "ce_path x \<noteq> keep"
    using Cons.prems that by (auto simp: sys_unlink_def sys_set_def)
  then show ?case using Cons by (auto simp: case_prod_beta)
qed simp

lemma cleanup_loop_file:
  assumes "\<forall>x \<in> set es. c_str (ce_path x) \<noteq> q"
  shows "sys_fs (cleanup_loop io age es s) q = sys_fs s q"
  using assms
proof (induction es arbitrary: s)
  case (Cons x es)
  then show ?case by (auto simp: sys_unlink_def sys_set_def)
qed simp

text \<open>Directory entries are file names: they contain no terminator.\<close>

definition names_ok :: "dir_env \<Rightarrow> string \<Rightarrow> bool" where
  "names_ok de dir \<longleftrightarrow> (case de_names de dir of None \<Rightarrow> True | Some ns \<Rightarrow> \<forall>n \<in> set ns. CHR 0x00 \<notin> set n)"

lemma listed_path:
  assumes "names_ok de dir" "CHR 0x00 \<notin> set dir" "x \<in> set (list_kv_files de f dir suffix)"
  shows "c_str (ce_path x) = ce_path x" "\<exists>name. ce_path x = path_join dir name \<and> path_extension name = suffix"
proof -
  obtain ns n where n: "de_names de dir = Some ns" "n \<in> set ns" "list_entry de f dir suffix n = Some x"
    using assms(3) that by (force simp: list_kv_files_def map_filter_def split: option.splits)
  then have "ce_path x = path_join dir n" "path_extension n = suffix"
    by (auto simp: list_entry_def Let_def split: option.splits if_splits)
  moreover have "CHR 0x00 \<notin> set n" using assms(1) n by (simp add: names_ok_def)
  ultimately show "c_str (ce_path x) = ce_path x" "\<exists>name. ce_path x = path_join dir name \<and> path_extension name = suffix"
    using assms(2) by (auto simp: path_join_def intro!: c_str_no_nul)
qed

lemma sweeps_keep_file:
  assumes nm: "names_ok de dir" "CHR 0x00 \<notin> set dir" "dir \<noteq> []" and conv: "conv \<noteq> []" "validate_conversation_id conv"
    and srt: "\<And>es. set (srt es) \<subseteq> set es"
  defines "path \<equiv> path_for_conv_id dir conv"
  shows "sys_fs (enforce_kv_cache_budget srt io de dir mx path s) (c_str path) = sys_fs s (c_str path)"
    and "sys_fs (cleanup_stale_tmp_files io de dir age s) (c_str path) = sys_fs s (c_str path)"
proof -
  have p: "c_str path = path" "path = path_join dir (conv @ ''.bin'')"
    unfolding path_def using conv_path_c_str(1) [OF nm(2) conv(2)] path_for_conv_id_join [OF nm(3) conv(1)] by simp_all
  have "\<forall>x \<in> set (srt (list_kv_files de (sys_fs s) dir ''.bin'')). ce_path x \<noteq> path \<longrightarrow> c_str (ce_path x) \<noteq> c_str path"
    using listed_path(1) [OF nm(1,2)] srt p(1) by fastforce
  then show "sys_fs (enforce_kv_cache_budget srt io de dir mx path s) (c_str path) = sys_fs s (c_str path)"
    by (simp add: enforce_kv_cache_budget_def Let_def evict_loop_file)
  have "ce_path x \<noteq> path" if x: "x \<in> set (list_kv_files de (sys_fs s) dir ''.tmp'')" for x
  proof
    assume "ce_path x = path"
    then have "path_extension (conv @ ''.bin'') = ''.tmp''" using listed_path(2) [OF nm(1,2) x] p(2) path_join_inj by metis
    moreover have "path_extension (conv @ ''.bin'') = ''.bin''" using path_extension_dot [of "''bin''" conv] conv(1) by simp
    ultimately show False by simp
  qed
  then have "\<forall>x \<in> set (list_kv_files de (sys_fs s) dir ''.tmp''). c_str (ce_path x) \<noteq> c_str path"
    using listed_path(1) [OF nm(1,2)] p(1) by metis
  then show "sys_fs (cleanup_stale_tmp_files io de dir age s) (c_str path) = sys_fs s (c_str path)"
    by (simp add: cleanup_stale_tmp_files_def Let_def cleanup_loop_file)
qed


section \<open>The tokens of a turn are on disk\<close>

text \<open>The kernel lets a save through: every call succeeds, the header is written in one piece, and the
  rest in pieces of any size.\<close>

definition saves_ok :: "env \<Rightarrow> world \<Rightarrow> sys \<Rightarrow> bool" where
  "saves_ok env w fsys \<longleftrightarrow> w_mkdir w (default_kv_cache_dir env) \<and> (\<forall>i. w_gather_ok w i) \<and> io_open_ok (w_save w) \<and>
     (\<forall>k. 0 < io_write (w_save w) k) \<and> 128 \<le> io_write (w_save w) (sys_calls fsys) \<and> io_fsync_ok (w_save w) \<and> io_rename_ok (w_save w) \<and>
     (\<forall>es. set (w_sort w es) \<subseteq> set es) \<and> names_ok (w_dir w) (default_kv_cache_dir env)"

text \<open>The shape fits the header: the fields of \<^verbatim>\<open>KVCacheConfig\<close> are \<^verbatim>\<open>int\<close>s, sizes are \<^verbatim>\<open>int64_t\<close>.\<close>

definition fits_header :: "kv_config \<Rightarrow> bool" where
  "fits_header c \<longleftrightarrow> n_layers c < 2 ^ 31 \<and> n_kv_heads c < 2 ^ 31 \<and> head_dim c < 2 ^ 31 \<and> max_context c < 2 ^ 31 \<and> gpu_pool_bytes c < 2 ^ 63"

lemma sint_of_int: "0 \<le> n \<Longrightarrow> n < 2 ^ 31 \<Longrightarrow> sint (of_int n :: u32) = n"
  by (simp add: sint_sbintrunc' signed_take_bit_int_eq_self)

lemma save_header_shape:
  assumes "kv_cfg_ok c" "fits_header c" "kv_cfg (en_kv e) = c"
  shows "shape_matches (save_header e n b) c" "h_model_hash (save_header e n b) = en_fingerprint e"
    "h_magic (save_header e n b) = KVCACHE_MAGIC" "h_version (save_header e n b) = KVCACHE_VERSION"
proof -
  have "kv_type_bytes c < 2 ^ 31" using assms(1) by (auto simp: kv_cfg_ok_def)
  then show "shape_matches (save_header e n b) c"
    using assms by (auto simp: shape_matches_def save_header_def Let_def fits_header_def kv_cfg_ok_def intro!: sint_of_int)
qed (simp_all add: save_header_def Let_def)

lemma save_turn_saves:
  assumes ok: "engine_ok d G A c e" and fpr: "length (en_fingerprint e) = 32" and nul: "CHR 0x00 \<notin> set (default_kv_cache_dir env)"
    and c: "fits_header c" and alloc: "\<forall>n \<le> gpu_pool_bytes c. w_alloc_ok w n" and w: "saves_ok env w fsys"
    and conv: "conv = gp_conversation_id params" "conv \<noteq> []" "validate_conversation_id conv" and fp16: "\<not> gp_kv_int8 params"
    and len: "4 \<le> length com" "length com \<le> kv_cols c"
    and save: "save_turn env w params com e fsys = Inr fsys'"
  shows "\<exists>fl hdr body. sys_fs fsys' (c_str (conv_file env conv)) = Some fl \<and> f_data fl = kv_image hdr com body \<and> header_ok hdr \<and>
    h_model_hash hdr = en_fingerprint e \<and> shape_matches hdr c \<and> h_magic hdr = KVCACHE_MAGIC \<and> h_version hdr = KVCACHE_VERSION \<and>
    unat (h_used_tokens hdr) = length com \<and> unat (h_body_bytes hdr) = length body"
proof -
  let ?b = "packed_used_bytes c (int (length com))" and ?dir = "default_kv_cache_dir env" and ?path = "conv_file env conv"
  let ?hdr = "save_header e (int (length com)) ?b"
  have cc: "kv_cfg (en_kv e) = c" and at: "kv_pool_at c (en_kv e)" and cok: "kv_cfg_ok c" using ok fwd_okD(1) by (auto simp: engine_ok_def kv_pool_at_def)
  have ne: "0 < length com" using len(1) by linarith
  have bnd: "int (length com) \<le> max_context c" "\<not> int (length com) < 4" using len cok by (auto simp: kv_cols_def kv_cfg_ok_def)
  have b: "0 \<le> ?b" "?b < 2 ^ 63" using packed_used_mono [OF cok len(2)] c cok
    by (auto simp: fits_header_def packed_used_bytes_def entry_bytes_half kv_cfg_ok_def)
  obtain body where g: "gather_used_to_host (w_gather_ok w) (en_kv e) (int (length com)) (replicate (nat ?b) 0) = (True, body)" "length body = nat ?b"
    using gather_packed [OF at ne len(2), of "w_gather_ok w" "replicate (nat ?b) 0"] w by (auto simp: saves_ok_def)
  have ui: "uint (of_int ?b :: u64) = ?b" "uint (of_int (int (length com)) :: u32) = int (length com)"
    using b bnd(1) c by (simp_all only: uint_word_of_int_eq fits_header_def) (simp_all add: take_bit_int_eq_self)
  have h: "h_body_bytes ?hdr = of_int ?b" "h_used_tokens ?hdr = of_int (int (length com))" by (simp_all add: save_header_def Let_def)
  have u: "unat (h_body_bytes ?hdr) = length body" "unat (h_used_tokens ?hdr) = length com"
    unfolding h unat_eq_nat_uint ui g(2) by simp_all
  have "fst (save_kv_to_file (w_save w) ?path ?hdr (Some com) (length com) body (length body) fsys)"
    using w by (intro save_succeeds [OF save_header_ok [OF fpr] u]) (auto simp: saves_ok_def)
  then obtain s1 where s1: "save_kv_to_file (w_save w) ?path ?hdr (Some com) (length com) body (length body) fsys = (True, s1)" by (metis (full_types) prod.collapse)
  obtain fl where fl: "sys_fs s1 (c_str ?path) = Some fl" "f_data fl = kv_image ?hdr com body"
    using save_outcome [OF s1 save_header_ok [OF fpr]] by (auto simp: sys_set_def)
  define s2 where "s2 = cleanup_stale_tmp_files (w_sweep w) (w_dir w) ?dir (default_kv_cache_stale_tmp_s env) (s1\<lparr>sys_calls := 0\<rparr>)"
  define s3 where "s3 = enforce_kv_cache_budget (w_sort w) (w_sweep w) (w_dir w) ?dir (default_kv_cache_max_mb env * (1024 * 1024)) ?path s2"
  have al: "w_alloc_ok w ?b" using alloc packed_used_mono [OF cok len(2)] by blast
  have "save_turn env w params com e fsys = Inr s3"
    using w bnd fp16 conv cc al g s1 by (simp add: save_turn_def Let_def saves_ok_def ensure_dir_def s3_def s2_def)
  then have "fsys' = s3" using save by simp
  moreover have "sys_fs s3 (c_str ?path) = sys_fs s1 (c_str ?path)"
    using sweeps_keep_file [OF _ nul default_dir_nonempty conv(2,3), of "w_dir w" "w_sort w" "w_sweep w"] w
    unfolding s3_def s2_def saves_ok_def by simp
  ultimately show ?thesis using fl u save_header_ok [OF fpr] save_header_shape [OF cok c cc] by metis
qed


section \<open>The next turn restores them\<close>

text \<open>The kernel lets a load through: the header is read in one piece, and the rest in pieces of any
  size.\<close>

definition loads_ok :: "world \<Rightarrow> bool" where
  "loads_ok w \<longleftrightarrow> (\<forall>i. w_scatter_ok w i) \<and> (\<forall>io \<in> {w_peek w, w_load w}. io_open_ok io \<and> io_fstat_ok io \<and> (\<forall>k. 0 < io_read io k) \<and> 128 \<le> io_read io 0)"

lemma peek_kv_image:
  assumes f: "f (c_str path) = Some fl" "f_data fl = kv_image hdr toks body" and ok: "header_ok hdr"
    and sz: "unat (h_body_bytes hdr) = length body" "unat (h_used_tokens hdr) = length toks"
    and mv: "h_magic hdr = KVCACHE_MAGIC" "h_version hdr = KVCACHE_VERSION" and rd: "io_open_ok io" "io_fstat_ok io" "128 \<le> io_read io 0"
  shows "peek_kv_header io f path = Some hdr"
proof -
  let ?d = "kv_image hdr toks body"
  have len: "length ?d = 128 + length toks * 4 + length body" using ok by (rule length_kv_image)
  have r0: "sys_read io 0 ?d 0 128 = (128, header_bytes hdr)"
    using rd(3) len length_header_bytes [OF ok] by (simp add: sys_read_def Let_def kv_image_def slice_def)
  have "of_nat (length ?d) = expected_size hdr" by (simp only: len expected_size_nat sz)
  then show ?thesis unfolding peek_kv_header_def using rd f r0 header_of_bytes [OF ok] mv by (simp add: Let_def)
qed

lemma hydrate_restores:
  assumes ok: "engine_ok d G A c e" and cf: "cache_faithful d G A c e env f" and w: "loads_ok w" and alloc: "\<forall>n \<le> gpu_pool_bytes c. w_alloc_ok w n"
    and conv: "conv \<noteq> []" "validate_conversation_id conv" and voc: "in_vocab (en_cfg e) prompt"
    and fl: "f (c_str (conv_file env conv)) = Some fl" "f_data fl = kv_image hdr com body" "header_ok hdr"
    and hdr: "h_model_hash hdr = en_fingerprint e" "shape_matches hdr c" "h_magic hdr = KVCACHE_MAGIC" "h_version hdr = KVCACHE_VERSION"
    and sz: "unat (h_used_tokens hdr) = length com" "unat (h_body_bytes hdr) = length body"
    and len: "0 < length com" "\<not> h_used_tokens hdr > of_int (max_context c)"
  shows "\<exists>p. try_hydrate_kv env w f prompt conv e = Inr (int (common_prefix com prompt), e\<lparr>en_fwd := (en_fwd e)\<lparr>f_kv := p\<rparr>\<rparr>) \<and>
    kv_pool_at c p \<and> kv_holds d G A (en_cfg e) (en_mw e) p (take (common_prefix com prompt) prompt)"
proof -
  let ?m = "common_prefix com prompt" and ?path = "conv_file env conv"
  have cc: "kv_cfg (en_kv e) = c" and cok: "kv_cfg_ok c" and at: "kv_pool_at c (en_kv e)" using ok fwd_okD(1) by (auto simp: engine_ok_def kv_pool_at_def)
  have U: "length com \<le> kv_cols c" using shape_context [OF hdr(2) cok len(2)] sz(1) by simp
  have "header_of (slice 0 128 (f_data fl)) = hdr" "128 \<le> length (f_data fl)"
    unfolding fl(2) by (simp_all add: kv_image_parts(1) [OF fl(3)] header_of_bytes [OF fl(3)] length_kv_image [OF fl(3)])
  then obtain toks kv where im: "kv_image hdr com body = kv_image hdr toks kv" "length toks = length com" "length kv = length body"
      "length kv = nat (packed_used_bytes c (int (length toks)))"
    using cache_faithfulD [where f = f, OF cf conv fl(1)] hdr(1,2) sz fl(2) by (auto simp: faithful_image_def Let_def)
  then have body: "length body = nat (packed_used_bytes c (int (length com)))" by simp
  have pk: "peek_kv_header (w_peek w) f ?path = Some hdr" using w by (intro peek_kv_image [where f = f and path = ?path, OF fl sz(2,1) hdr(3,4)]) (auto simp: loads_ok_def)
  have ld: "load_kv_from_file (w_load w) f ?path True (h_body_bytes hdr) = Inr (hdr, Some com, body)"
    using w by (intro load_kv_image [where f = f and path = ?path, OF fl sz(2,1) hdr(3,4)]) (auto simp: loads_ok_def)
  have "h_used_tokens hdr \<noteq> 0" using len(1) sz(1) by auto
  moreover have "uint (h_body_bytes hdr) = int (length body)" "uint (h_used_tokens hdr) = int (length com)"
    unfolding uint_nat sz by auto
  moreover note ub = calculation
  have "packed_used_bytes c (int k) \<le> gpu_pool_bytes c" if "k \<le> length com" for k using that U by (intro packed_used_mono [OF cok]) simp
  then have al: "w_alloc_ok w (int (length body))" "w_alloc_ok w (packed_used_bytes c (int ?m))"
    using alloc body common_prefix_le [of com prompt] packed_used_bytes_slots [OF cok len(1)] by (metis int_nat_eq nat_int order.refl)+
  have "\<exists>p. try_hydrate_kv env w f prompt conv e = Inr (int ?m, e\<lparr>en_fwd := (en_fwd e)\<lparr>f_kv := p\<rparr>\<rparr>)"
  proof (cases "?m = 0")
    case True
    then have "try_hydrate_kv env w f prompt conv e = Inr (0, e)"
      using conv pk ld hdr cc len(2) ub al unfolding try_hydrate_kv_def Let_def by simp
    then show ?thesis using True by (intro exI [of _ "en_kv e"]) simp
  next
    case False
    then have m: "0 < ?m" "?m \<le> length com" "?m \<le> kv_cols c" "prompt \<noteq> []" using common_prefix_le [of com prompt] U by auto
    obtain x where x: "compact_layers (entry_bytes c) (int (length com)) (int ?m) body [0..<nat (n_layers c)]
        (replicate (nat (packed_used_bytes c (int ?m))) 0) = Some x" "length x = nat (packed_used_bytes c (int ?m))"
      using compact_packed [OF cok m(1,2) body] by blast
    obtain p where p: "scatter_from_host (w_scatter_ok w) x (int ?m) True (en_kv e) = (True, p)"
      using scatter_packed [OF at m(1,3) _ x(2), of "w_scatter_ok w" True] w by (auto simp: loads_ok_def)
    have cb: "n_layers c * (int ?m * (2 * n_kv_heads c * head_dim c * kv_type_bytes c)) = packed_used_bytes c (int ?m)"
      using False by (simp add: packed_used_bytes_def entry_bytes_def algebra_simps)
    have "try_hydrate_kv env w f prompt conv e = Inr (int ?m, e\<lparr>en_fwd := (en_fwd e)\<lparr>f_kv := p\<rparr>\<rparr>)"
      using conv pk ld hdr cc len(2) ub al x(1) p cb m(4) False unfolding try_hydrate_kv_def Let_def by (simp add: entry_bytes_def [symmetric])
    then show ?thesis by blast
  qed
  then show ?thesis using try_hydrate_ref [OF ok cf voc alloc, of conv] unfolding hydrated_def
    by (metis (no_types, lifting) of_nat_eq_iff prod.inject sum.inject(2))
qed




section \<open>A body that is too short\<close>

text \<open>The compaction fails as soon as one layer's values do not lie inside the loaded body.\<close>

lemma compact_None:
  assumes "\<exists>l \<in> set ls. int l * (used * eb) + used * (eb sdiv 2) + matched * (eb sdiv 2) > int (length staging)"
  shows "compact_layers eb used matched staging ls d = None"
  using assms by (induction ls arbitrary: d) (auto simp: Let_def)



section \<open>The small model\<close>

lemma demo_io: "saves_ok (d_env demo_dev) demo_world demo_empty" "loads_ok demo_world" "fits_header demo_kv8" "\<forall>n \<le> gpu_pool_bytes demo_kv8. w_alloc_ok demo_world n"
  by (simp_all add: saves_ok_def loads_ok_def fits_header_def names_ok_def demo_world_def demo_env_def demo_empty_def demo_kv8_def demo_kv_def gpu_pool_bytes_def entry_bytes_def)

lemma demo_conv: "''c1'' = gp_conversation_id demo_params" "''c1'' \<noteq> []" "validate_conversation_id ''c1''"
  by (simp_all add: demo_params_def validate_conversation_id_def conv_id_char_def less_eq_char_def)

text \<open>The first turn of the small model and what it leaves behind.\<close>

lemma demo_turn:
  obtains s fsys' where "generate demo_dev demo_stl demo_world ''abcd'' demo_params demo_engine demo_empty = Inr (s, fsys')"
    "reloaded demo_dev demo_G demo_A demo_kv8 (ls_engine s) (ls_engine s)" "\<exists>ids. ls_kv_tokens s = map of_int ([0, 1, 2, 3] @ ids)"
    "en_cfg (ls_engine s) = demo_cfg" "en_fingerprint (ls_engine s) = en_fingerprint demo_engine" "en_mw (ls_engine s) = demo_mw"
  using turn_run [OF demo_session_inv demo_stl_ok demo_turn_ok]
  by (fastforce simp: end_rel_def reloaded_def same_model_def demo_engine_def)

theorem generation_is_bounded_witness:
  "\<exists>s fsys'. generate demo_dev demo_stl demo_world ''abcd'' demo_params demo_engine demo_empty = Inr (s, fsys') \<and>
     gs_completion_tokens (ls_stats s) = int (length (ls_out s)) \<and> int (length (ls_out s)) \<le> 2 \<and> ls_pos s \<le> 8"
proof -
  obtain s fsys' where g: "generate demo_dev demo_stl demo_world ''abcd'' demo_params demo_engine demo_empty = Inr (s, fsys')" by (rule demo_turn)
  have "kv_max_tokens (kv_cfg (en_kv demo_engine)) = 8" "gp_max_tokens demo_params = 2" by (simp_all add: demo_engine_def demo_kv_def demo_params_def kv_max_tokens_def)
  then show ?thesis using g generation_is_bounded [OF g] by simp
qed




definition demo_short_hdr :: kv_header where
  "demo_short_hdr = \<lparr>h_magic = KVCACHE_MAGIC, h_version = KVCACHE_VERSION, h_n_layers = 1, h_n_kv_heads = 1, h_head_dim = 2,
     h_kv_type_bytes = 2, h_max_context = 8, h_used_tokens = 1, h_body_bytes = 3, h_model_hash = replicate 32 1, h_reserved = replicate 56 0\<rparr>"


end
