(* ===== verification/Think_Split.thy ===== *)
theory Think_Split
  imports C_Text
begin

text \<open>
  \<^verbatim>\<open>ThinkSplit\<close> of \<^verbatim>\<open>src/server/http_server.cpp\<close>: the state machine that divides the text of a model
  into the part between \<^verbatim>\<open><think>\<close> and \<^verbatim>\<open></think>\<close> and the rest while the text arrives in chunks.

  The calls of \<^verbatim>\<open>emit\<close> are the list of segments an operation returns. The reference
  \<^verbatim>\<open>think_ref\<close> divides a whole text; the properties relate the two for every way of cutting the text.
\<close>


section \<open>The splitter\<close>

datatype split_mode = INIT | THINKING | CONTENT

datatype segment = Reasoning string | Content string

record think_split =
  tk_mode :: split_mode
  tk_buf :: string

definition think_split_init :: think_split where "think_split_init = \<lparr>tk_mode = INIT, tk_buf = []\<rparr>"

definition OPEN :: string where "OPEN = ''<think>''"
definition CLOSE :: string where "CLOSE = ''</think>''"

definition is_separator :: "char \<Rightarrow> bool" where "is_separator c \<longleftrightarrow> c = CHR 0x0A \<or> c = CHR '' ''"

text \<open>The loop of \<^verbatim>\<open>feed\<close>: it goes round at most three times, because the mode only moves on.\<close>

fun mode_rank :: "split_mode \<Rightarrow> nat" where
  "mode_rank INIT = 2" | "mode_rank THINKING = 1" | "mode_rank CONTENT = 0"

function feed_loop :: "think_split \<Rightarrow> segment list \<times> think_split" where
  "feed_loop sp =
     (let buf = tk_buf sp in
      case tk_mode sp of
        INIT \<Rightarrow>
          if length buf < length OPEN \<and> take (length buf) OPEN = buf then ([], sp)
          else if starts_with OPEN buf then feed_loop \<lparr>tk_mode = THINKING, tk_buf = drop (length OPEN) buf\<rparr>
          else feed_loop \<lparr>tk_mode = CONTENT, tk_buf = buf\<rparr>
      | THINKING \<Rightarrow>
          (case str_find CLOSE buf of
             Some pos \<Rightarrow>
               (case feed_loop \<lparr>tk_mode = CONTENT, tk_buf = dropWhile is_separator (drop (pos + length CLOSE) buf)\<rparr> of
                  (out, sp) \<Rightarrow> ((if pos > 0 then [Reasoning (take pos buf)] else []) @ out, sp))
           | None \<Rightarrow>
               if length buf > length CLOSE then
                 (let safe = length buf - (length CLOSE - 1)
                  in ([Reasoning (take safe buf)], \<lparr>tk_mode = THINKING, tk_buf = drop safe buf\<rparr>))
               else ([], sp))
      | CONTENT \<Rightarrow> if buf \<noteq> [] then ([Content buf], \<lparr>tk_mode = CONTENT, tk_buf = []\<rparr>) else ([], sp))"
  by pat_completeness auto
termination
  by (relation "measure (\<lambda>sp. mode_rank (tk_mode sp))") auto

declare feed_loop.simps [simp del]

definition feed :: "string \<Rightarrow> think_split \<Rightarrow> segment list \<times> think_split" where
  "feed chunk sp = feed_loop (sp\<lparr>tk_buf := tk_buf sp @ c_str chunk\<rparr>)"

definition split_flush :: "think_split \<Rightarrow> segment list \<times> think_split" where
  "split_flush sp =
     (if tk_buf sp = [] then ([], sp)
      else ([if tk_mode sp = THINKING then Reasoning (tk_buf sp) else Content (tk_buf sp)], sp\<lparr>tk_buf := []\<rparr>))"

fun feed_all :: "string list \<Rightarrow> think_split \<Rightarrow> segment list \<times> think_split" where
  "feed_all [] sp = ([], sp)"
| "feed_all (c # cs) sp = (case feed c sp of (o1, sp) \<Rightarrow> case feed_all cs sp of (o2, sp) \<Rightarrow> (o1 @ o2, sp))"

definition split_text :: "string list \<Rightarrow> segment list" where
  "split_text cs = (case feed_all cs think_split_init of (out, sp) \<Rightarrow> out @ fst (split_flush sp))"

fun reasoning_of :: "segment list \<Rightarrow> string" where
  "reasoning_of [] = []"
| "reasoning_of (Reasoning s # segs) = s @ reasoning_of segs"
| "reasoning_of (Content s # segs) = reasoning_of segs"

fun content_of :: "segment list \<Rightarrow> string" where
  "content_of [] = []"
| "content_of (Reasoning s # segs) = content_of segs"
| "content_of (Content s # segs) = s @ content_of segs"


section \<open>The reference\<close>

definition think_ref :: "string \<Rightarrow> string \<times> string" where
  "think_ref text_all =
     (if starts_with OPEN text_all then
        (let r = drop (length OPEN) text_all in
         case str_find CLOSE r of
           None \<Rightarrow> (r, [])
         | Some pos \<Rightarrow> (take pos r, drop (pos + length CLOSE) r))
      else ([], text_all))"

lemma segs_append [simp]: "reasoning_of (a @ b) = reasoning_of a @ reasoning_of b" "content_of (a @ b) = content_of a @ content_of b"
  by (induction a rule: reasoning_of.induct) simp_all

lemma str_find_append: "str_find t s = Some n \<Longrightarrow> str_find t (s @ x) = Some n"
proof (rule str_find_eq_SomeI)
  assume f: "str_find t s = Some n"
  note n = str_find_Some [OF f]
  show "starts_with t (drop n (s @ x))" using starts_with_mono [of t "drop n s" x] n by simp
  show "n \<le> length (s @ x)" using n by simp
  fix q assume q: "q < n"
  have "length t \<le> length (drop q s)" using starts_with_length [of t "drop n s"] n q by simp
  then show "\<not> starts_with t (drop q (s @ x))" using starts_with_append_long [of t "drop q s" x] str_find_least [OF f q] q n by simp
qed

lemma str_find_NoneI: "(\<And>q. q \<le> length s \<Longrightarrow> \<not> starts_with t (drop q s)) \<Longrightarrow> str_find t s = None"
  using str_find_Some [of t s] by (cases "str_find t s") auto

text \<open>Nothing starts in the first part, so the search is the one in the second.\<close>

lemma str_find_skip:
  assumes "\<forall>m < length R. \<not> starts_with t (drop m (R @ B))"
  shows "str_find t (R @ B) = map_option ((+) (length R)) (str_find t B)"
proof (cases "str_find t B")
  case None
  have "\<not> starts_with t (drop q (R @ B))" for q
    using assms str_find_None [OF None, of "q - length R"] by (cases "q < length R") auto
  then have "str_find t (R @ B) = None" by (rule str_find_NoneI)
  then show ?thesis using None by simp
next
  case (Some n)
  have "str_find t (R @ B) = Some (length R + n)"
  proof (rule str_find_eq_SomeI)
    fix q assume "q < length R + n"
    then show "\<not> starts_with t (drop q (R @ B))"
      using assms str_find_least [OF Some, of "q - length R"] by (cases "q < length R") auto
  qed (use str_find_Some [OF Some] in auto)
  then show ?thesis using Some by simp
qed

lemma think_ref_open: "think_ref (OPEN @ r) = (case str_find CLOSE r of None \<Rightarrow> (r, []) | Some pos \<Rightarrow> (take pos r, drop (pos + length CLOSE) r))"
  by (simp add: think_ref_def Let_def)


section \<open>The state after every chunk\<close>

text \<open>\<^verbatim>\<open>T\<close> is the text so far and \<^verbatim>\<open>out\<close> the segments so far. Once the mode is \<^verbatim>\<open>CONTENT\<close>, what follows is
  content whatever it is.\<close>

definition settled :: "string \<Rightarrow> bool" where
  "settled T \<longleftrightarrow> (\<forall>x. think_ref (T @ x) = (fst (think_ref T), snd (think_ref T) @ x))"

definition split_inv :: "string \<Rightarrow> segment list \<Rightarrow> think_split \<Rightarrow> bool" where
  "split_inv T out sp \<longleftrightarrow> (case tk_mode sp of
     INIT \<Rightarrow> reasoning_of out = [] \<and> content_of out = [] \<and> tk_buf sp = T \<and> length T < length OPEN \<and> take (length T) OPEN = T
   | THINKING \<Rightarrow> T = OPEN @ reasoning_of out @ tk_buf sp \<and> content_of out = [] \<and> str_find CLOSE (reasoning_of out @ tk_buf sp) = None \<and>
       (reasoning_of out = [] \<or> length CLOSE \<le> Suc (length (tk_buf sp)))
   | CONTENT \<Rightarrow> tk_buf sp = [] \<and> settled T \<and> reasoning_of out = fst (think_ref T) \<and>
       (\<exists>ws. (\<forall>c \<in> set ws. is_separator c) \<and> snd (think_ref T) = ws @ content_of out))"

lemma content_step:
  assumes "settled T" "reasoning_of out = fst (think_ref T)" "\<forall>c \<in> set ws. is_separator c" "snd (think_ref T) = ws @ content_of out @ buf"
    and "feed_loop \<lparr>tk_mode = CONTENT, tk_buf = buf\<rparr> = (o1, sp')"
  shows "split_inv T (out @ o1) sp'"
  using assms by (subst (asm) feed_loop.simps) (auto simp: split_inv_def split: if_splits)

lemma thinking_step:
  assumes T: "T = OPEN @ R @ B" and out: "reasoning_of out = R" "content_of out = []" and B: "R = [] \<or> length CLOSE \<le> Suc (length B)"
    and no: "\<forall>m < length R. \<not> starts_with CLOSE (drop m (R @ B))" and run: "feed_loop \<lparr>tk_mode = THINKING, tk_buf = B\<rparr> = (o1, sp')"
  shows "split_inv T (out @ o1) sp'"
proof (cases "str_find CLOSE B")
  case None
  have find: "str_find CLOSE (R @ B) = None" using str_find_skip [OF no] None by simp
  show ?thesis
  proof (cases "length B > length CLOSE")
    case True
    then show ?thesis using run None find T out by (subst (asm) feed_loop.simps) (auto simp: split_inv_def Let_def CLOSE_def)
  next
    case False
    then show ?thesis using run None find T out B by (subst (asm) feed_loop.simps) (auto simp: split_inv_def)
  qed
next
  case (Some pos)
  have find: "str_find CLOSE (R @ B) = Some (length R + pos)" using str_find_skip [OF no] Some by simp
  define rest where "rest = drop (pos + length CLOSE) B"
  have "pos + length CLOSE \<le> length B" using str_find_Some [OF Some] starts_with_length [of CLOSE "drop pos B"] by auto
  then have len: "length R + pos + length CLOSE \<le> length (R @ B)" by simp
  have "think_ref (T @ x) = (R @ take pos B, rest @ x)" for x
    using think_ref_open [of "(R @ B) @ x"] str_find_append [OF find, of x] len by (simp add: T rest_def)
  from this [of "[]"] this have ref: "think_ref T = (R @ take pos B, rest)" "settled T" by (simp_all add: settled_def)
  obtain o2 where c: "feed_loop \<lparr>tk_mode = CONTENT, tk_buf = dropWhile is_separator rest\<rparr> = (o2, sp')"
    and o1: "o1 = (if pos > 0 then [Reasoning (take pos B)] else []) @ o2"
    using run Some by (subst (asm) feed_loop.simps) (auto simp: rest_def split: prod.splits)
  define out' where "out' = out @ (if pos > 0 then [Reasoning (take pos B)] else [])"
  have "split_inv T (out' @ o2) sp'"
    by (rule content_step [OF ref(2) _ _ _ c, of out' "takeWhile is_separator rest"])
       (use ref(1) out in \<open>auto simp: out'_def dest: set_takeWhileD\<close>)
  then show ?thesis by (simp add: o1 out'_def)
qed

lemma init_step:
  assumes out: "reasoning_of out = []" "content_of out = []" and run: "feed_loop \<lparr>tk_mode = INIT, tk_buf = T\<rparr> = (o1, sp')"
  shows "split_inv T (out @ o1) sp'"
proof -
  consider (wait) "length T < length OPEN" "take (length T) OPEN = T" | (opened) "starts_with OPEN T" | (content) "\<not> (length T < length OPEN \<and> take (length T) OPEN = T)" "\<not> starts_with OPEN T"
    by blast
  then show ?thesis
  proof cases
    case wait
    then show ?thesis using run out by (subst (asm) feed_loop.simps) (auto simp: split_inv_def)
  next
    case opened
    then obtain r where T: "T = OPEN @ r" using starts_withE by blast
    then have "feed_loop \<lparr>tk_mode = THINKING, tk_buf = r\<rparr> = (o1, sp')" using run by (subst (asm) feed_loop.simps) simp
    then show ?thesis using thinking_step [of T "[]" r out o1 sp'] T out by simp
  next
    case content
    have "\<not> starts_with OPEN (T @ x)" for x
    proof
      assume "starts_with OPEN (T @ x)"
      then obtain r where e: "T @ x = OPEN @ r" using starts_withE by blast
      show False
      proof (cases "length T < length OPEN")
        case True
        then have "take (length T) OPEN = T" using arg_cong [OF e, of "take (length T)"] by simp
        then show False using content(1) True by simp
      next
        case False
        then show False using content(2) arg_cong [OF e, of "take (length OPEN)"] by (simp add: starts_with_def)
      qed
    qed
    then have ref: "think_ref (T @ x) = ([], T @ x)" for x by (simp add: think_ref_def)
    have "feed_loop \<lparr>tk_mode = CONTENT, tk_buf = T\<rparr> = (o1, sp')" using run content by (subst (asm) feed_loop.simps) simp
    then show ?thesis using content_step [of T out "[]" T o1 sp'] ref [of "[]"] ref out by (simp add: settled_def)
  qed
qed

lemma feed_step:
  assumes inv: "split_inv T out sp" and run: "feed c sp = (o1, sp')"
  shows "split_inv (T @ c_str c) (out @ o1) sp'"
proof (cases "tk_mode sp")
  case INIT
  then have "feed_loop \<lparr>tk_mode = INIT, tk_buf = T @ c_str c\<rparr> = (o1, sp')" "reasoning_of out = []" "content_of out = []"
    using inv run by (cases sp; simp add: split_inv_def feed_def)+
  then show ?thesis using init_step by blast
next
  case THINKING
  let ?R = "reasoning_of out" and ?B = "tk_buf sp @ c_str c"
  have i: "T = OPEN @ ?R @ tk_buf sp" "content_of out = []" "str_find CLOSE (?R @ tk_buf sp) = None" "?R = [] \<or> length CLOSE \<le> Suc (length (tk_buf sp))"
    using inv THINKING by (simp_all add: split_inv_def)
  have "\<not> starts_with CLOSE (drop m (?R @ ?B))" if "m < length ?R" for m
  proof -
    have "length CLOSE \<le> length (drop m (?R @ tk_buf sp))" using that i(4) by auto
    then show ?thesis using starts_with_append_long [of CLOSE "drop m (?R @ tk_buf sp)" "c_str c"] str_find_None [OF i(3), of m] that by simp
  qed
  moreover have "feed_loop \<lparr>tk_mode = THINKING, tk_buf = ?B\<rparr> = (o1, sp')" using run THINKING by (cases sp) (simp add: feed_def)
  ultimately show ?thesis using thinking_step [of "T @ c_str c" ?R ?B out o1 sp'] i by auto
next
  case CONTENT
  obtain ws where i: "tk_buf sp = []" "settled T" "reasoning_of out = fst (think_ref T)" "\<forall>c \<in> set ws. is_separator c" "snd (think_ref T) = ws @ content_of out"
    using inv CONTENT by (auto simp: split_inv_def)
  have "settled (T @ c_str c)" using i(2) by (simp add: settled_def)
  moreover have "feed_loop \<lparr>tk_mode = CONTENT, tk_buf = c_str c\<rparr> = (o1, sp')" using run CONTENT i(1) by (cases sp) (simp add: feed_def)
  moreover have "think_ref (T @ c_str c) = (fst (think_ref T), snd (think_ref T) @ c_str c)" using i(2) by (simp add: settled_def)
  ultimately show ?thesis using content_step [of "T @ c_str c" out ws "c_str c" o1 sp'] i(3-5) by simp
qed

lemma feed_all_step:
  "split_inv T out sp \<Longrightarrow> feed_all cs sp = (o1, sp') \<Longrightarrow> split_inv (T @ concat (map c_str cs)) (out @ o1) sp'"
proof (induction cs arbitrary: T out sp o1)
  case (Cons c cs)
  obtain o2 sp2 where f: "feed c sp = (o2, sp2)" by fastforce
  obtain o3 where a: "feed_all cs sp2 = (o3, sp')" "o1 = o2 @ o3" using Cons.prems(2) f by (auto split: prod.splits)
  show ?case using Cons.IH [OF feed_step [OF Cons.prems(1) f] a(1)] a(2) by simp
qed simp

lemma split_text_parts:
  "reasoning_of (split_text cs) = fst (think_ref (concat (map c_str cs))) \<and>
   (\<exists>ws. (\<forall>c \<in> set ws. is_separator c) \<and> snd (think_ref (concat (map c_str cs))) = ws @ content_of (split_text cs))"
proof -
  let ?T = "concat (map c_str cs)"
  obtain out sp where f: "feed_all cs think_split_init = (out, sp)" by fastforce
  have "split_inv [] [] think_split_init" by (simp add: split_inv_def think_split_init_def OPEN_def)
  from feed_all_step [OF this f] have inv: "split_inv ?T out sp" by simp
  have split: "split_text cs = out @ fst (split_flush sp)" using f by (simp add: split_text_def)
  show ?thesis
  proof (cases "tk_mode sp")
    case INIT
    then have "\<not> starts_with OPEN ?T" using inv starts_with_length [of OPEN ?T] by (auto simp: split_inv_def)
    then show ?thesis using inv INIT by (auto simp: split split_inv_def split_flush_def think_ref_def)
  next
    case THINKING
    then have T: "?T = OPEN @ reasoning_of out @ tk_buf sp" and n: "str_find CLOSE (reasoning_of out @ tk_buf sp) = None"
      using inv by (simp_all add: split_inv_def)
    show ?thesis unfolding T using inv THINKING n think_ref_open [of "reasoning_of out @ tk_buf sp"]
      by (auto simp: split split_inv_def split_flush_def)
  next
    case CONTENT
    then show ?thesis using inv by (simp add: split split_inv_def split_flush_def)
  qed
qed

text \<open>Dividing a reply: however the text is cut into chunks, what \<^verbatim>\<open>ThinkSplit\<close> emits as reasoning is exactly
  the text between the tags (or up to the end when the closing tag is missing), and what it emits as
  content is the text after the closing tag without some leading newlines and spaces, or the whole text
  when it does not begin with the opening tag.\<close>

theorem split_text_divides:
  "reasoning_of (split_text cs) = fst (think_ref (concat (map c_str cs))) \<and>
   (\<exists>ws. (\<forall>c \<in> set ws. is_separator c) \<and> snd (think_ref (concat (map c_str cs))) = ws @ content_of (split_text cs))"
  by (rule split_text_parts)

theorem split_text_divides_witness:
  "reasoning_of (split_text [''<thi'', ''nk>a<b</'', ''think> '', ''c'']) = ''a<b'' \<and>
   (\<exists>ws. '' c'' = ws @ content_of (split_text [''<thi'', ''nk>a<b</'', ''think> '', ''c'']))"
proof -
  have "think_ref (concat (map c_str [''<thi'', ''nk>a<b</'', ''think> '', ''c''])) = (''a<b'', '' c'')" by code_simp
  then show ?thesis using split_text_divides [of "[''<thi'', ''nk>a<b</'', ''think> '', ''c'']"] by auto
qed

text \<open>The separator after the closing tag is dropped only when it arrives in the same chunk: a blank
  line that comes as a token of its own after \<^verbatim>\<open></think>\<close> stays in the content.\<close>

theorem separator_depends_on_chunks:
  "content_of (split_text [OPEN, ''why'', CLOSE @ [CHR 0x0A, CHR 0x0A], ''yes'']) = ''yes'' \<and>
   content_of (split_text [OPEN, ''why'', CLOSE, [CHR 0x0A, CHR 0x0A], ''yes'']) = [CHR 0x0A, CHR 0x0A] @ ''yes''"
  by code_simp

end
