(* ===== verification/Chat_Server.thy ===== *)
theory Chat_Server
  imports Think_Split Session
begin

text \<open>
  The chat endpoint of \<^verbatim>\<open>src/server/http_server.cpp\<close>: the prompt template, the handler of
  \<^verbatim>\<open>/v1/chat/completions\<close> with its error replies, the whole reply and the stream of events.

  JSON is the library's: a document is of any type and \<^verbatim>\<open>json_lib\<close> has what the handler asks of it
  (parsing and the typed lookups with a default, which throw on a value of another type). Reply
  documents are records of the fields that depend on the request; identifiers, time stamps and
  speeds are left out, and error replies are their status codes. The engine mutex makes the calls of \<^verbatim>\<open>generate\<close> one after the other, so a
  request is one call.
\<close>


section \<open>The prompt\<close>

definition newline :: string where "newline = [CHR 0x0A]"

definition chat_message :: "string \<times> string \<Rightarrow> string" where
  "chat_message m = ''<|im_start|>'' @ fst m @ newline @ snd m @ ''<|im_end|>'' @ newline"

definition format_qwen_chat :: "(string \<times> string) list \<Rightarrow> bool \<Rightarrow> string" where
  "format_qwen_chat messages think =
     concat (map chat_message messages) @ ''<|im_start|>assistant'' @ newline @
     (if think then [] else ''<think>'' @ newline @ newline @ ''</think>'' @ newline @ newline)"


section \<open>The whole reply\<close>

record completion =
  co_content :: string
  co_reasoning :: "string option"
  co_prompt_tokens :: int
  co_completion_tokens :: int
  co_total_tokens :: int

definition build_completion ::
  "device \<Rightarrow> stl \<Rightarrow> world \<Rightarrow> string \<Rightarrow> gen_params \<Rightarrow> engine \<Rightarrow> sys \<Rightarrow> gen_error + completion \<times> engine \<times> sys"
where
  "build_completion d st w prompt params e fsys =
     and_then (generate d st w prompt params e fsys) (\<lambda>(s, fsys).
       let out = split_text (map fst (filter (\<lambda>(piece, eos). \<not> eos) (ls_out s)));
           g = ls_stats s;
           reasoning = reasoning_of out
       in Inr (\<lparr>co_content = content_of out, co_reasoning = (if reasoning = [] then None else Some reasoning),
                co_prompt_tokens = gs_prompt_tokens g, co_completion_tokens = gs_completion_tokens g,
                co_total_tokens = gs_prompt_tokens g + gs_completion_tokens g\<rparr>, ls_engine s, fsys))"


section \<open>The stream of events\<close>

text \<open>\<^verbatim>\<open>sink k\<close> is whether the \<^verbatim>\<open>k\<close>-th write succeeds. The state is whether the client is alive and the events written
  so far, a failed write included.\<close>

datatype event = Role_event | Delta segment | Error_event gen_error | Finish_event | Done_event

record stream =
  sr_alive :: bool
  sr_events :: "event list"

definition sink_write :: "(nat \<Rightarrow> bool) \<Rightarrow> event \<Rightarrow> stream \<Rightarrow> bool \<times> stream" where
  "sink_write sink ev r = (sink (length (sr_events r)), r\<lparr>sr_events := sr_events r @ [ev]\<rparr>)"

definition emit_segment :: "(nat \<Rightarrow> bool) \<Rightarrow> segment \<Rightarrow> stream \<Rightarrow> stream" where
  "emit_segment sink seg r =
     (if \<not> sr_alive r then r
      else case sink_write sink (Delta seg) r of (ok, r) \<Rightarrow> if \<not> ok then r\<lparr>sr_alive := False\<rparr> else r)"

definition stream_token :: "(nat \<Rightarrow> bool) \<Rightarrow> string \<times> bool \<Rightarrow> think_split \<times> stream \<Rightarrow> think_split \<times> stream" where
  "stream_token sink cb = (\<lambda>(sp, r).
     if \<not> sr_alive r \<or> snd cb then (sp, r)
     else case feed (fst cb) sp of (out, sp) \<Rightarrow> (sp, fold (emit_segment sink) out r))"

text \<open>The calls of \<^verbatim>\<open>token_cb\<close> and the flush after them; the end of the stream.\<close>

definition stream_tokens :: "(nat \<Rightarrow> bool) \<Rightarrow> (string \<times> bool) list \<Rightarrow> stream \<Rightarrow> stream" where
  "stream_tokens sink cbs r =
     (case fold (stream_token sink) cbs (think_split_init, r) of (sp, r) \<Rightarrow> fold (emit_segment sink) (fst (split_flush sp)) r)"

definition stream_end :: "(nat \<Rightarrow> bool) \<Rightarrow> bool \<Rightarrow> stream \<Rightarrow> stream" where
  "stream_end sink errored r =
     (if sr_alive r
      then (let r = (if errored then r else snd (sink_write sink Finish_event r)) in snd (sink_write sink Done_event r))
      else r)"

text \<open>\<^verbatim>\<open>std::length_error\<close> is answered with 400 and other exceptions with 500; the tokenizer that does not
  end and the undefined access have no answer.\<close>

fun error_status :: "gen_error \<Rightarrow> int option" where
  "error_status Length_error = Some 400"
| "error_status Bad_alloc = Some 500"
| "error_status Diverges = None"
| "error_status Bad_access = None"

text \<open>\<^verbatim>\<open>generate\<close> without the save at its end, for the callbacks made and the engine left when the save throws.\<close>

definition generate_tokens :: "device \<Rightarrow> stl \<Rightarrow> world \<Rightarrow> string \<Rightarrow> gen_params \<Rightarrow> engine \<Rightarrow> sys \<Rightarrow> gen_error + loop_state" where
  "generate_tokens d st w prompt params e fsys =
     (let e = with_params e params;
          kv_token_limit = kv_max_tokens (kv_cfg (en_kv e)) in
      and_then (prompt_tokens_of (en_tok e) kv_token_limit (gp_max_tokens params) prompt) (\<lambda>(n_prompt, prompt_tokens).
      and_then (try_hydrate_kv (d_env d) w (sys_fs fsys) prompt_tokens (gp_conversation_id params) e) (\<lambda>(prefill_start, e).
      and_then (access_of (prefill_prompt d prompt_tokens prefill_start e)) (\<lambda>(last_prefill_x, e).
      case sample_first d st (w_first_copy_ok w) last_prefill_x e of (first_token, e) \<Rightarrow>
      decode_phase d st w kv_token_limit (gp_max_tokens params) first_token (start_state n_prompt prompt_tokens first_token e)))))"

definition after_error :: "device \<Rightarrow> stl \<Rightarrow> world \<Rightarrow> string \<Rightarrow> gen_params \<Rightarrow> engine \<Rightarrow> sys \<Rightarrow> (string \<times> bool) list \<times> engine" where
  "after_error d st w prompt params e fsys =
     (case generate_tokens d st w prompt params e fsys of Inl err \<Rightarrow> ([], with_params e params) | Inr s \<Rightarrow> (ls_out s, ls_engine s))"

text \<open>\<^verbatim>\<open>stop\<close> is called when a write fails: the world of such a call is one in which \<^verbatim>\<open>stop\<close> has been requested
  from then on.\<close>

definition stream_chat_completion ::
  "device \<Rightarrow> stl \<Rightarrow> world \<Rightarrow> (nat \<Rightarrow> bool) \<Rightarrow> string \<Rightarrow> gen_params \<Rightarrow> engine \<Rightarrow> sys \<Rightarrow> event list \<times> engine \<times> sys"
where
  "stream_chat_completion d st w sink prompt params e fsys =
     (case sink_write sink Role_event \<lparr>sr_alive = True, sr_events = []\<rparr> of
        (ok, r) \<Rightarrow>
          if \<not> ok then (sr_events r, e, fsys)
          else
            (case generate d st w prompt params e fsys of
               Inl err \<Rightarrow>
                 (case after_error d st w prompt params e fsys of
                    (cbs, e) \<Rightarrow>
                      (case fold (stream_token sink) cbs (think_split_init, r) of
                         (sp, r) \<Rightarrow>
                           if error_status err = None then (sr_events r, e, fsys)
                           else (sr_events (stream_end sink True (if sr_alive r then snd (sink_write sink (Error_event err) r) else r)), e, fsys)))
             | Inr (s, fsys) \<Rightarrow> (sr_events (stream_end sink False (stream_tokens sink (ls_out s) r)), ls_engine s, fsys)))"


section \<open>The handler\<close>

record 'j json_lib =
  jl_parse :: "string \<Rightarrow> string + 'j"
  jl_array :: "'j \<Rightarrow> string \<Rightarrow> string + 'j list option"
  jl_string :: "'j \<Rightarrow> string \<Rightarrow> string \<Rightarrow> string + string"
  jl_int :: "'j \<Rightarrow> string \<Rightarrow> int \<Rightarrow> string + int"
  jl_f32 :: "'j \<Rightarrow> string \<Rightarrow> f32 \<Rightarrow> string + f32"
  jl_bool :: "'j \<Rightarrow> string \<Rightarrow> bool \<Rightarrow> string + bool"

datatype reply =
    Error_reply int
  | Completion_reply completion
  | Stream_reply "event list"
  | Uncaught string
  | No_reply

definition chat_params :: "'j json_lib \<Rightarrow> bool \<Rightarrow> 'j \<Rightarrow> string + gen_params" where
  "chat_params jl default_kv_int8 body =
     and_then (jl_int jl body ''max_tokens'' 256) (\<lambda>max_tokens.
     and_then (jl_f32 jl body ''temperature'' 0x3F333333) (\<lambda>temperature.
     and_then (jl_int jl body ''top_k'' 40) (\<lambda>top_k.
     and_then (jl_f32 jl body ''top_p'' 0x3F666666) (\<lambda>top_p.
     and_then (jl_bool jl body ''kv_int8'' default_kv_int8) (\<lambda>kv_int8.
     and_then (jl_string jl body ''conversation_id'' []) (\<lambda>conv_id.
       Inr (gen_params_default\<lparr>gp_max_tokens := max_tokens, gp_temperature := temperature, gp_top_k := top_k, gp_top_p := top_p,
         gp_kv_int8 := kv_int8,
         gp_conversation_id := (if conv_id \<noteq> [] \<and> validate_conversation_id conv_id then conv_id else [])\<rparr>)))))))"

fun chat_messages :: "'j json_lib \<Rightarrow> 'j list \<Rightarrow> string + (string \<times> string) list" where
  "chat_messages jl [] = Inr []"
| "chat_messages jl (m # ms) =
     and_then (jl_string jl m ''role'' ''user'') (\<lambda>role.
     and_then (jl_string jl m ''content'' []) (\<lambda>content.
     and_then (chat_messages jl ms) (\<lambda>rest. Inr ((role, content) # rest))))"

text \<open>The part of the handler that reads the body: the parameters, the prompt and whether to stream.\<close>

definition chat_request :: "'j json_lib \<Rightarrow> bool \<Rightarrow> 'j \<Rightarrow> 'j list \<Rightarrow> string + gen_params \<times> string \<times> bool" where
  "chat_request jl default_kv_int8 body messages =
     and_then (chat_params jl default_kv_int8 body) (\<lambda>params.
     and_then (jl_bool jl body ''think'' False) (\<lambda>think.
     and_then (chat_messages jl messages) (\<lambda>ms.
     and_then (jl_bool jl body ''stream'' False) (\<lambda>stream_it. Inr (params, format_qwen_chat ms think, stream_it)))))"

definition chat_completions ::
  "'j json_lib \<Rightarrow> bool \<Rightarrow> device \<Rightarrow> stl \<Rightarrow> world \<Rightarrow> (nat \<Rightarrow> bool) \<Rightarrow> string \<Rightarrow> engine \<Rightarrow> sys \<Rightarrow> reply \<times> engine \<times> sys"
where
  "chat_completions jl default_kv_int8 d st w sink req_body e fsys =
     (case jl_parse jl req_body of
        Inl err \<Rightarrow> (Error_reply 400, e, fsys)
      | Inr body \<Rightarrow>
        (case jl_array jl body ''messages'' of
           Inl err \<Rightarrow> (Uncaught err, e, fsys)
         | Inr messages \<Rightarrow>
           if messages = None \<or> messages = Some [] then (Error_reply 400, e, fsys)
           else
             (case chat_request jl default_kv_int8 body (the messages) of
                Inl err \<Rightarrow> (Uncaught err, e, fsys)
              | Inr (params, prompt, stream_it) \<Rightarrow>
                if stream_it
                then (case stream_chat_completion d st w sink prompt params e fsys of (evs, e, fsys) \<Rightarrow> (Stream_reply evs, e, fsys))
                else
                  (case build_completion d st w prompt params e fsys of
                     Inl err \<Rightarrow> (case error_status err of None \<Rightarrow> No_reply | Some code \<Rightarrow> Error_reply code,
                       snd (after_error d st w prompt params e fsys), fsys)
                   | Inr (c, e, fsys) \<Rightarrow> (Completion_reply c, e, fsys)))))"


section \<open>Rejected requests\<close>

lemma generate_split:
  "generate d st w prompt params e fsys = and_then (generate_tokens d st w prompt params e fsys)
     (\<lambda>s. and_then (save_turn (d_env d) w params (ls_kv_tokens s) (ls_engine s) fsys) (\<lambda>fsys. Inr (s, fsys)))"
proof -
  have assoc: "and_then (and_then r f) g = and_then r (\<lambda>x. and_then (f x) g)" for r :: "'a + 'b" and f :: "'b \<Rightarrow> 'a + 'c" and g :: "'c \<Rightarrow> 'a + 'd"
    by (cases r) simp_all
  show ?thesis unfolding generate_def generate_tokens_def Let_def by (simp add: assoc case_prod_unfold)
qed

lemma hydrate_no_length: "try_hydrate_kv env w f toks conv e \<noteq> Inl Length_error"
  by (auto simp: try_hydrate_kv_def Let_def split: option.splits sum.splits if_splits prod.splits)

lemma save_no_length: "save_turn env w params toks e fsys \<noteq> Inl Length_error"
  by (auto simp: save_turn_def Let_def split: prod.splits if_splits)

lemma decode_loop_no_length: "decode_loop d st w limit max_tokens i s \<noteq> Inl Length_error"
proof (induction d st w limit max_tokens i s rule: decode_loop.induct)
  case (1 d st w limit max_tokens i s)
  have "decode_iter d st w limit i s' \<noteq> Inl Length_error" for s'
    by (auto simp: decode_iter_def decode_run_def access_of_def Let_def split: option.splits prod.splits if_splits)
  then show ?case using 1 by (subst decode_loop.simps) (auto simp: Let_def split: sum.splits)
qed

lemma length_error_early:
  assumes "generate d st w prompt params e fsys = Inl Length_error"
  shows "after_error d st w prompt params e fsys = ([], with_params e params)"
proof -
  let ?limit = "kv_max_tokens (kv_cfg (en_kv e))"
  have t: "generate_tokens d st w prompt params e fsys = Inl Length_error"
    using assms save_no_length [of "d_env d" w params] unfolding generate_split
    by (cases "generate_tokens d st w prompt params e fsys") (auto split: sum.splits elim!: and_then.elims)
  then show ?thesis by (simp add: after_error_def)
qed

text \<open>(C21) A rejected request changes nothing: when the chat endpoint answers 400 (no JSON, no messages, or a
  prompt that does not fit), the file system, the KV cache, the sampler's random state, the model and the tokenizer are those of before.\<close>

theorem rejected_request_keeps_state:
  assumes "chat_completions jl kv8 d st w sink body e fsys = (Error_reply 400, e', fsys')"
  shows "fsys' = fsys \<and> en_fwd e' = en_fwd e \<and> en_rng e' = en_rng e \<and> en_mw e' = en_mw e \<and> en_cfg e' = en_cfg e \<and> en_tok e' = en_tok e"
proof -
  have "e' = e \<or> (\<exists>params. e' = with_params e params)" "fsys' = fsys"
  proof -
    have build: "generate d st w prompt params e fsys = Inl err \<Longrightarrow> error_status err = Some 400 \<Longrightarrow> snd (after_error d st w prompt params e fsys) = with_params e params"
      for prompt params err using length_error_early [of d st w prompt params e fsys] by (cases err) auto
    have bc: "build_completion d st w prompt params e fsys = Inl err \<longleftrightarrow> generate d st w prompt params e fsys = Inl err" for prompt params err
      by (cases "generate d st w prompt params e fsys") (auto simp: build_completion_def Let_def split: prod.splits)
    show "e' = e \<or> (\<exists>params. e' = with_params e params)" "fsys' = fsys"
      using assms build bc by (auto simp: chat_completions_def split: sum.splits if_splits prod.splits option.splits)
  qed
  then show ?thesis by auto
qed


section \<open>The stream and the whole reply\<close>

text \<open>The events up to the first write that fails, and whether all succeeded.\<close>

fun cut_events :: "(nat \<Rightarrow> bool) \<Rightarrow> nat \<Rightarrow> event list \<Rightarrow> event list \<times> bool" where
  "cut_events sink k [] = ([], True)"
| "cut_events sink k (ev # evs) = (if sink k then (case cut_events sink (Suc k) evs of (es, ok) \<Rightarrow> (ev # es, ok)) else ([ev], False))"

lemma cut_append:
  "cut_events sink k (xs @ ys) = (if snd (cut_events sink k xs) then (xs @ fst (cut_events sink (k + length xs) ys), snd (cut_events sink (k + length xs) ys))
     else cut_events sink k xs)"
  by (induction xs arbitrary: k) (auto split: prod.splits)

lemma cut_ok: "snd (cut_events sink k xs) \<Longrightarrow> fst (cut_events sink k xs) = xs"
proof (induction xs arbitrary: k)
  case (Cons x xs)
  then show ?case using Cons.IH [of "Suc k"] by (cases "cut_events sink (Suc k) xs") (auto split: if_splits)
qed simp

text \<open>A stream that has written \<^verbatim>\<open>evs\<close> as far as the sink lets it.\<close>

definition streamed :: "(nat \<Rightarrow> bool) \<Rightarrow> event list \<Rightarrow> stream \<Rightarrow> bool" where
  "streamed sink evs r \<longleftrightarrow> cut_events sink 0 evs = (sr_events r, sr_alive r)"

lemma emit_streamed: "streamed sink evs r \<Longrightarrow> streamed sink (evs @ [Delta seg]) (emit_segment sink seg r)"
  using cut_ok [of sink 0 evs] by (auto simp: streamed_def emit_segment_def sink_write_def cut_append)

lemma emits_streamed: "streamed sink evs r \<Longrightarrow> streamed sink (evs @ map Delta segs) (fold (emit_segment sink) segs r)"
proof (induction segs arbitrary: evs r)
  case (Cons seg segs)
  show ?case using Cons.IH [OF emit_streamed [OF Cons.prems, of seg]] by simp
qed simp

text \<open>A dead client is sent nothing.\<close>

lemma dead_streamed: "streamed sink evs r \<Longrightarrow> \<not> sr_alive r \<Longrightarrow> streamed sink (evs @ evs2) r"
  by (auto simp: streamed_def cut_append)

lemma emits_dead: "\<not> sr_alive r \<Longrightarrow> fold (emit_segment sink) segs r = r"
  by (induction segs) (simp_all add: emit_segment_def)

lemma stream_token_apply:
  "stream_token sink cb (sp, r) = (if \<not> sr_alive r \<or> snd cb then (sp, r) else (snd (feed (fst cb) sp), fold (emit_segment sink) (fst (feed (fst cb) sp)) r))"
  by (simp add: stream_token_def case_prod_beta)

lemma tokens_dead: "\<not> sr_alive r \<Longrightarrow> fold (stream_token sink) cbs (sp, r) = (sp, r)"
  by (induction cbs) (simp_all add: stream_token_apply)

abbreviation spoken :: "(string \<times> bool) list \<Rightarrow> string list" where "spoken cbs \<equiv> map fst (filter (\<lambda>(piece, eos). \<not> eos) cbs)"

lemma tokens_streamed:
  assumes "streamed sink evs r" "feed_all (spoken cbs) sp = (segs, sp1)" "fold (stream_token sink) cbs (sp, r) = (sp', r')"
  shows "streamed sink (evs @ map Delta segs) r' \<and> (sr_alive r' \<longrightarrow> sp' = sp1)"
  using assms
proof (induction cbs arbitrary: evs r sp segs)
  case (Cons cb cbs)
  obtain piece eos where cb: "cb = (piece, eos)" by fastforce
  show ?case
  proof (cases "\<not> sr_alive r")
    case True
    then have "r' = r" using Cons.prems(3) tokens_dead [of r sink "cb # cbs" sp] by simp
    then show ?thesis using Cons.prems(1) True dead_streamed by blast
  next
    case alive: False
    show ?thesis
    proof (cases eos)
      case True
      then show ?thesis using Cons alive by (simp add: cb stream_token_apply)
    next
      case False
      obtain out sp2 where f: "feed piece sp = (out, sp2)" by fastforce
      obtain segs2 where a: "feed_all (spoken cbs) sp2 = (segs2, sp1)" "segs = out @ segs2" using Cons.prems(2) False f by (auto simp: cb split: prod.splits)
      have "fold (stream_token sink) cbs (sp2, fold (emit_segment sink) out r) = (sp', r')"
        using Cons.prems(3) False alive f by (simp add: cb stream_token_apply)
      from Cons.IH [OF emits_streamed [OF Cons.prems(1), of out] a(1) this] show ?thesis using a(2) by simp
    qed
  qed
qed simp



section \<open>Stopping\<close>

lemma decode_loop_stop:
  "loop_inv limit i s \<Longrightarrow> i \<le> k \<Longrightarrow> w_stop w k \<Longrightarrow> decode_loop d st w limit max_tokens i s = Inr s' \<Longrightarrow> int (length (ls_out s')) \<le> k"
proof (induction d st w limit max_tokens i s rule: decode_loop.induct)
  case (1 d st w limit max_tokens i s)
  let ?s = "stop_requested w i s"
  have inv: "loop_inv limit i ?s" using "1.prems"(1) by (simp add: loop_inv_def stop_requested_def)
  show ?case
  proof (cases "i \<ge> max_tokens \<or> en_stop (ls_engine ?s)")
    case True
    then have "s' = s \<or> s' = ?s" using "1.prems"(4) by (subst (asm) decode_loop.simps) (auto simp: Let_def split: if_splits)
    then show ?thesis using inv "1.prems"(1,2) by (auto simp: loop_inv_def)
  next
    case False
    then have "i \<noteq> k" using "1.prems"(3) by (auto simp: stop_requested_def)
    then have k: "i + 1 \<le> k" using "1.prems"(2) by simp
    obtain r where r: "decode_iter d st w limit i ?s = Inr r"
      and res: "(case r of Inl s \<Rightarrow> Inr s | Inr s \<Rightarrow> decode_loop d st w limit max_tokens (i + 1) s) = Inr s'"
      using "1.prems"(4) False by (subst (asm) decode_loop.simps) (auto simp: Let_def split: sum.splits)
    show ?thesis
    proof (cases r)
      case (Inl a)
      then show ?thesis using decode_iter_inv [OF inv r] res k by (auto simp: loop_done_def)
    next
      case (Inr a)
      then show ?thesis using "1.IH" [of ?s r a] decode_iter_inv [OF inv r] res r False k "1.prems"(3) by auto
    qed
  qed
qed

text \<open>(C19) \<^verbatim>\<open>stop\<close> ends a generation: when it has been called before the loop tests the flag for the \<^verbatim>\<open>k\<close>-th
  time, \<^verbatim>\<open>generate\<close> delivers at most \<^verbatim>\<open>k\<close> tokens (the first token comes before any test). A client
  that goes away while the \<^verbatim>\<open>k\<close>-th token is sent therefore costs no further token.\<close>

theorem stop_ends_generation:
  assumes gen: "generate d st w prompt params e fsys = Inr (s, fsys')" and stop: "w_stop w k" "1 \<le> k"
  shows "int (length (ls_out s)) \<le> k"
proof -
  let ?limit = "kv_max_tokens (kv_cfg (en_kv e))" and ?m = "gp_max_tokens params"
  obtain n toks first e3 where p: "prompt_tokens_of (en_tok e) ?limit ?m prompt = Inr (n, toks)"
    and run: "decode_phase d st w ?limit ?m first (start_state n toks first e3) = Inr s"
    using gen by (rule generate_InrE)
  have N: "toks \<noteq> []" "int (length toks) < ?limit"
    using p by (auto simp: prompt_tokens_of_def Let_def split: if_splits option.splits)
  show ?thesis
  proof (cases "first \<ge> 0 \<and> first = eos_id (en_tok (ls_engine (start_state n toks first e3)))")
    case True
    then show ?thesis using run stop(2) by (auto simp: decode_phase_def start_state_def deliver_def Let_def)
  next
    case False
    have "loop_inv ?limit (if first \<ge> 0 then 1 else 0) (start_state n toks first e3)"
      using False N by (cases toks) (auto simp: start_state_def loop_inv_def deliver_def Let_def)
    then show ?thesis using run False stop by (intro decode_loop_stop [where w = w]) (auto simp: decode_phase_def)
  qed
qed


section \<open>Witnesses\<close>

theorem stop_ends_generation_witness:
  "\<exists>s fsys'. generate demo_dev demo_stl (demo_world\<lparr>w_stop := (\<lambda>i. 1 \<le> i)\<rparr>) ''abcd'' demo_params demo_engine demo_empty = Inr (s, fsys') \<and>
     length (ls_out s) \<le> 1"
proof -
  let ?w = "demo_world\<lparr>w_stop := (\<lambda>i. 1 \<le> i)\<rparr>"
  have "turn_ok demo_kv8 ?w ''abcd'' demo_params demo_engine (4, [0, 1, 2, 3])" using demo_turn_ok by (simp add: turn_ok_def)
  then obtain s fsys' where gen: "generate demo_dev demo_stl ?w ''abcd'' demo_params demo_engine demo_empty = Inr (s, fsys')"
    using turn_run [OF demo_session_inv demo_stl_ok] by blast
  then show ?thesis using stop_ends_generation [OF gen, of 1] by simp
qed


text \<open>A library that reads nothing.\<close>

definition demo_json :: "unit json_lib" where
  "demo_json = \<lparr>jl_parse = (\<lambda>t. if t = [] then Inl ''unexpected end of input'' else Inr ()), jl_array = (\<lambda>j k. Inr None), jl_string = (\<lambda>j k v. Inr v),
     jl_int = (\<lambda>j k v. Inr v), jl_f32 = (\<lambda>j k v. Inr v), jl_bool = (\<lambda>j k v. Inr v)\<rparr>"

theorem rejected_request_keeps_state_witness:
  "\<exists>e' fsys'. chat_completions demo_json False demo_dev demo_stl demo_world (\<lambda>_. True) ''{}'' demo_engine demo_empty = (Error_reply 400, e', fsys') \<and>
     fsys' = demo_empty \<and> en_fwd e' = en_fwd demo_engine"
proof -
  have r: "chat_completions demo_json False demo_dev demo_stl demo_world (\<lambda>_. True) ''{}'' demo_engine demo_empty = (Error_reply 400, demo_engine, demo_empty)"
    by (simp add: chat_completions_def demo_json_def)
  show ?thesis using rejected_request_keeps_state [OF r] r by blast
qed

end
