(* ===== verification/Weight_Placement.thy ===== *)
theory Weight_Placement
  imports "HOL-Library.Multiset" Gguf_Model Memory_Budget Embedding
begin

unbundle bit_operations_syntax

text \<open>
  Placing the weights: the part of \<^verbatim>\<open>decode.cu\<close> that copies norm vectors, the output projection and
  whole layers into device memory, or maps them for the GPU, while a model is loaded.

  Memory is one address space of bytes, as with unified addressing; the state \<^verbatim>\<open>cuda\<close> also has the
  list of live device blocks, the page ranges given back with \<^verbatim>\<open>madvise\<close>, the host ranges registered
  with \<^verbatim>\<open>cudaHostRegister\<close>, whether something was freed that is not a live block, and a call counter. What CUDA answers is the record
  \<^verbatim>\<open>cuda_env\<close>: the \<^verbatim>\<open>k\<close>-th call may fail.
\<close>


section \<open>Device memory\<close>

record cuda =
  cu_mem :: "int \<Rightarrow> byte"
  cu_live :: "(int \<times> int) list"
  cu_released :: "(int \<times> int) list"
  cu_registered :: "int list"
  cu_bad_free :: bool
  cu_calls :: nat

record cuda_env =
  ce_malloc :: "nat \<Rightarrow> (int \<times> int) list \<Rightarrow> int \<Rightarrow> int option"
  ce_copy_ok :: "nat \<Rightarrow> bool"
  ce_page_size :: int
  ce_register_ok :: "nat \<Rightarrow> bool"
  ce_device_ptr :: "nat \<Rightarrow> int option"

definition cuda_malloc :: "cuda_env \<Rightarrow> int \<Rightarrow> cuda \<Rightarrow> int option \<times> cuda" where
  "cuda_malloc ce n s =
     (let s' = s\<lparr>cu_calls := Suc (cu_calls s)\<rparr> in
      case ce_malloc ce (cu_calls s) (cu_live s) n of
        None \<Rightarrow> (None, s')
      | Some p \<Rightarrow> (Some p, s'\<lparr>cu_live := (p, n) # cu_live s\<rparr>))"

definition cuda_free :: "int \<Rightarrow> cuda \<Rightarrow> cuda" where
  "cuda_free p s =
     (if p \<in> fst ` set (cu_live s) then s\<lparr>cu_live := filter (\<lambda>b. fst b \<noteq> p) (cu_live s)\<rparr> else s\<lparr>cu_bad_free := True\<rparr>)"

definition mem_copy :: "int \<Rightarrow> int \<Rightarrow> int \<Rightarrow> (int \<Rightarrow> byte) \<Rightarrow> int \<Rightarrow> byte" where
  "mem_copy dst src n m = (\<lambda>a. if dst \<le> a \<and> a < dst + n then m (src + (a - dst)) else m a)"

definition cuda_memcpy :: "cuda_env \<Rightarrow> int \<Rightarrow> int \<Rightarrow> int \<Rightarrow> cuda \<Rightarrow> bool \<times> cuda" where
  "cuda_memcpy ce dst src n s =
     (let s' = s\<lparr>cu_calls := Suc (cu_calls s)\<rparr> in
      if ce_copy_ok ce (cu_calls s) then (True, s'\<lparr>cu_mem := mem_copy dst src n (cu_mem s)\<rparr>) else (False, s'))"

definition copy_weight_to_device :: "cuda_env \<Rightarrow> int \<Rightarrow> int \<Rightarrow> cuda \<Rightarrow> int option \<times> cuda" where
  "copy_weight_to_device ce src bytes s =
     (if src = 0 \<or> bytes = 0 then (None, s)
      else
        (case cuda_malloc ce bytes s of
           (None, s) \<Rightarrow> (None, s)
         | (Some p, s) \<Rightarrow>
             (case cuda_memcpy ce p src bytes s of
                (ok, s) \<Rightarrow> if \<not> ok then (None, cuda_free p s) else (Some p, s))))"


section \<open>The environment switches\<close>

definition profile_enabled :: "env \<Rightarrow> bool" where "profile_enabled e = env_opt_in e ''JLLM_PROFILE''"

definition device_output_enabled :: "env \<Rightarrow> bool" where "device_output_enabled e = env_opt_out e ''JLLM_DEVICE_OUTPUT''"

definition release_host_weight_pages_enabled :: "env \<Rightarrow> bool" where
  "release_host_weight_pages_enabled e = (\<not> mapped_weight_device_enabled e \<and> env_opt_out e ''JLLM_RELEASE_HOST_WEIGHTS'')"

definition fast_gemv_enabled_for_device_weights :: "env \<Rightarrow> bool" where
  "fast_gemv_enabled_for_device_weights e = env_opt_out e ''JLLM_FAST_GEMV''"

definition c_atoi :: "string \<Rightarrow> int" where "c_atoi v = to_int32 (strtoll10 v)"

definition device_layer_limit :: "env \<Rightarrow> int" where
  "device_layer_limit e =
     (case e ''JLLM_DEVICE_LAYERS'' of
        None \<Rightarrow> if mapped_weight_device_enabled e then 0 else -1
      | Some v \<Rightarrow> (let n = c_atoi v in if n < 0 then -1 else n))"

definition kv_overflow_context :: "env \<Rightarrow> int \<Rightarrow> int" where
  "kv_overflow_context e ctx =
     (case e ''JLLM_KV_OVERFLOW'' of
        None \<Rightarrow> 0
      | Some v \<Rightarrow> if v = ''0'' then 0 else if v = ''1'' then ctx sdiv 4
          else (let requested = c_atoi v in if requested < 0 then 0 else requested))"


section \<open>Norm vectors\<close>

text \<open>One layer: the flag, the layer, the owned blocks and the device state. A layer that fails keeps
  what was already replaced in it.\<close>

definition norm_layer ::
  "cuda_env \<Rightarrow> int \<Rightarrow> int \<Rightarrow> layer_weights \<Rightarrow> int list \<Rightarrow> cuda \<Rightarrow> bool \<times> layer_weights \<times> int list \<times> cuda"
where
  "norm_layer ce norm_bytes qk_norm_bytes lw owned s =
     (if lw_rms_type lw \<noteq> 0 then (False, lw, owned, s)
      else
        (case copy_weight_to_device ce (lw_rms_attn lw) norm_bytes s of
           (None, s) \<Rightarrow> (False, lw, owned, s)
         | (Some attn, s) \<Rightarrow>
           (case copy_weight_to_device ce (lw_rms_ffn lw) norm_bytes s of
              (None, s) \<Rightarrow> (False, lw, owned, cuda_free attn s)
            | (Some ffn, s) \<Rightarrow>
              (let owned = owned @ [attn, ffn];
                   lw = lw\<lparr>lw_rms_attn := attn, lw_rms_ffn := ffn\<rparr> in
               if lw_q_norm lw \<noteq> 0 \<and> lw_k_norm lw \<noteq> 0 then
                 (if lw_qk_norm_type lw \<noteq> 0 then (False, lw, owned, s)
                  else
                    (case copy_weight_to_device ce (lw_q_norm lw) qk_norm_bytes s of
                       (None, s) \<Rightarrow> (False, lw, owned, s)
                     | (Some qn, s) \<Rightarrow>
                       (case copy_weight_to_device ce (lw_k_norm lw) qk_norm_bytes s of
                          (None, s) \<Rightarrow> (False, lw, owned, cuda_free qn s)
                        | (Some kn, s) \<Rightarrow> (True, lw\<lparr>lw_q_norm := qn, lw_k_norm := kn\<rparr>, owned @ [qn, kn], s))))
               else (True, lw, owned, s)))))"

fun norm_layers ::
  "cuda_env \<Rightarrow> int \<Rightarrow> int \<Rightarrow> layer_weights list \<Rightarrow> int list \<Rightarrow> cuda \<Rightarrow> bool \<times> layer_weights list \<times> int list \<times> cuda"
where
  "norm_layers ce nb qb [] owned s = (True, [], owned, s)"
| "norm_layers ce nb qb (lw # lws) owned s =
     (case norm_layer ce nb qb lw owned s of
        (ok, lw, owned, s) \<Rightarrow>
          if \<not> ok then (False, lw # lws, owned, s)
          else (case norm_layers ce nb qb lws owned s of (ok, lws, owned, s) \<Rightarrow> (ok, lw # lws, owned, s)))"

definition materialize_norm_weights ::
  "cuda_env \<Rightarrow> model_weights \<Rightarrow> int \<Rightarrow> int \<Rightarrow> int list \<Rightarrow> cuda \<Rightarrow> bool \<times> model_weights \<times> int list \<times> cuda"
where
  "materialize_norm_weights ce mw hidden_dim head_dim owned s =
     (let norm_bytes = hidden_dim * 4; qk_norm_bytes = head_dim * 4 in
      case norm_layers ce norm_bytes qk_norm_bytes (mw_layers mw) owned s of
        (ok, lws, owned, s) \<Rightarrow>
          let mw = mw\<lparr>mw_layers := lws\<rparr> in
          if \<not> ok then (False, mw, owned, s)
          else
            (case copy_weight_to_device ce (mw_output_norm mw) norm_bytes s of
               (None, s) \<Rightarrow> (False, mw, owned, s)
             | (Some p, s) \<Rightarrow> (True, mw\<lparr>mw_output_norm := p\<rparr>, owned @ [p], s)))"


section \<open>Host pages\<close>

text \<open>The page range around a block, rounded outwards.\<close>

definition page_range :: "int \<Rightarrow> int \<Rightarrow> int \<Rightarrow> int \<times> int" where
  "page_range page_size ptr bytes =
     (ptr AND NOT (page_size - 1), (ptr + bytes + page_size - 1) AND NOT (page_size - 1))"

text \<open>\<^verbatim>\<open>map_host_weight_range_for_gpu\<close>; \<^verbatim>\<open>outs\<close> is whether the two out-pointers are given. The result is
  the mapped range; the region is what \<^verbatim>\<open>register_mapped_weight_region\<close> leaves.\<close>

definition map_host_weight_range_for_gpu ::
  "cuda_env \<Rightarrow> int \<Rightarrow> int \<Rightarrow> bool \<Rightarrow> weight_region \<Rightarrow> cuda \<Rightarrow> (int \<times> int) option \<times> weight_region \<times> cuda"
where
  "map_host_weight_range_for_gpu ce ptr bytes outs r s =
     (if ptr = 0 \<or> bytes = 0 \<or> \<not> outs then (None, r, s)
      else if ce_page_size ce \<le> 0 then (None, r, s)
      else
        (case page_range (ce_page_size ce) ptr bytes of
           (start, fin) \<Rightarrow>
             if fin \<le> start then (None, r, s)
             else
               (let s' = s\<lparr>cu_calls := Suc (cu_calls s)\<rparr> in
                if \<not> ce_register_ok ce (cu_calls s) then (None, r, s')
                else
                  (case ce_device_ptr ce (cu_calls s) of
                     None \<Rightarrow> (None, r, s')
                   | Some device \<Rightarrow>
                       if device = 0 then (None, r, s')
                       else (Some (start, fin - start), register_mapped_weight_region start device (fin - start),
                        s'\<lparr>cu_registered := start # cu_registered s\<rparr>)))))"

definition release_host_weight_pages :: "env \<Rightarrow> cuda_env \<Rightarrow> int \<Rightarrow> int \<Rightarrow> cuda \<Rightarrow> cuda" where
  "release_host_weight_pages e ce ptr bytes s =
     (if \<not> release_host_weight_pages_enabled e \<or> ptr = 0 \<or> bytes = 0 then s
      else if ce_page_size ce \<le> 0 then s
      else
        (case page_range (ce_page_size ce) ptr bytes of
           (start, fin) \<Rightarrow> if fin > start then s\<lparr>cu_released := cu_released s @ [(start, fin - start)]\<rparr> else s))"


section \<open>Sizes\<close>

definition kquant_tensor_bytes :: "int \<Rightarrow> int \<Rightarrow> int \<Rightarrow> int" where
  "kquant_tensor_bytes ggml_type rows cols =
     (if rows \<le> 0 \<or> cols \<le> 0 \<or> cols mod 256 \<noteq> 0 then 0
      else
        (let block_bytes = (if ggml_type = 12 then 144 else if ggml_type = 13 then 176 else if ggml_type = 14 then 210 else 0)
         in rows * (cols div 256) * block_bytes))"

definition align_up_size :: "int \<Rightarrow> int \<Rightarrow> int" where
  "align_up_size v alignment = ((v + alignment - 1) div alignment) * alignment"

text \<open>The seven matrices of a layer: address, type, rows and columns.\<close>

definition layer_specs :: "layer_weights \<Rightarrow> model_config \<Rightarrow> (int \<times> int \<times> int \<times> int) list" where
  "layer_specs lw cfg =
     (let H = m_hidden_dim cfg; Q = m_n_heads cfg * m_head_dim cfg; KV = m_n_kv_heads cfg * m_head_dim cfg; I = m_intermediate_dim cfg
      in [(lw_wq lw, lw_type_wq lw, Q, H), (lw_wk lw, lw_type_wk lw, KV, H), (lw_wv lw, lw_type_wv lw, KV, H),
          (lw_wo lw, lw_type_wo lw, H, Q), (lw_w_gate lw, lw_type_w_gate lw, I, H), (lw_w_up lw, lw_type_w_up lw, I, H),
          (lw_w_down lw, lw_type_w_down lw, H, I)])"

definition spec_bytes :: "int \<times> int \<times> int \<times> int \<Rightarrow> int" where
  "spec_bytes sp = (case sp of (src, ty, rows, cols) \<Rightarrow> kquant_tensor_bytes ty rows cols)"

definition layer_quant_weight_bytes :: "layer_weights \<Rightarrow> model_config \<Rightarrow> int" where
  "layer_quant_weight_bytes lw cfg = sum_list (map spec_bytes (layer_specs lw cfg))"


section \<open>The output projection\<close>

text \<open>\<^verbatim>\<open>outs\<close> is whether the caller passes the two out-pointers for a mapped range. The result is the
  size, or 0 when the projection stays where it is.\<close>

record placement =
  pl_mw :: model_weights
  pl_owned :: "int list"
  pl_mapped :: "(int \<times> int) option"
  pl_region :: weight_region
  pl_cuda :: cuda

definition try_map_output :: "env \<Rightarrow> cuda_env \<Rightarrow> int \<Rightarrow> int \<Rightarrow> bool \<Rightarrow> placement \<Rightarrow> bool \<times> placement" where
  "try_map_output e ce src bytes outs pl =
     (if mapped_weight_device_enabled e then (False, pl)
      else
        (case map_host_weight_range_for_gpu ce src bytes outs (pl_region pl) (pl_cuda pl) of
           (None, r, s) \<Rightarrow> (False, pl\<lparr>pl_region := r, pl_cuda := s\<rparr>)
         | (Some m, r, s) \<Rightarrow> (True, pl\<lparr>pl_mapped := Some m, pl_region := r, pl_cuda := s\<rparr>)))"

definition copy_output :: "env \<Rightarrow> cuda_env \<Rightarrow> int \<Rightarrow> int \<Rightarrow> placement \<Rightarrow> int \<times> placement" where
  "copy_output e ce bytes device pl =
     (let mw = pl_mw pl; src = mw_output mw; tied = (src = mw_tok_embd mw) in
      case cuda_memcpy ce device src bytes (pl_cuda pl) of
        (ok, s) \<Rightarrow>
          if \<not> ok then (0, pl\<lparr>pl_cuda := cuda_free device s\<rparr>)
          else
            (let mw = mw\<lparr>mw_output := device\<rparr>;
                 mw = (if tied \<and> fast_embedding_enabled e then mw\<lparr>mw_tok_embd := device\<rparr> else mw);
                 s = (if \<not> tied \<or> fast_embedding_enabled e then release_host_weight_pages e ce src bytes s else s)
             in (bytes, pl\<lparr>pl_mw := mw, pl_owned := pl_owned pl @ [device], pl_cuda := s\<rparr>)))"

definition materialize_output_weight ::
  "env \<Rightarrow> cuda_env \<Rightarrow> model_config \<Rightarrow> memory_budget \<Rightarrow> bool \<Rightarrow> placement \<Rightarrow> int \<times> placement"
where
  "materialize_output_weight e ce cfg budget outs pl =
     (let mw = pl_mw pl; bytes = kquant_tensor_bytes (mw_output_type mw) (m_vocab_size cfg) (m_hidden_dim cfg);
          src = mw_output mw;
          mb = (bytes + 1024 * 1024 - 1) div (1024 * 1024) in
      if \<not> device_output_enabled e \<or> \<not> fast_gemv_enabled_for_device_weights e \<or> src = 0 then (0, pl)
      else if bytes = 0 then (0, pl)
      else
        (case (if src = mw_tok_embd mw \<and> outs \<and> e ''JLLM_DEVICE_OUTPUT_COPY'' \<noteq> Some ''1''
               then try_map_output e ce src bytes outs pl else (False, pl)) of
           (done, pl) \<Rightarrow>
             if done then (bytes, pl)
             else if free_mb budget < mb + 128 then
               (case try_map_output e ce src bytes outs pl of (done, pl) \<Rightarrow> (if done then bytes else 0, pl))
             else
               (case cuda_malloc ce bytes (pl_cuda pl) of
                  (None, s) \<Rightarrow>
                    (case try_map_output e ce src bytes outs (pl\<lparr>pl_cuda := s\<rparr>) of (done, pl) \<Rightarrow> (if done then bytes else 0, pl))
                | (Some device, s) \<Rightarrow> copy_output e ce bytes device (pl\<lparr>pl_cuda := s\<rparr>))))"


section \<open>Whole layers\<close>

text \<open>The layout of the arena: source, offset and size of each matrix, and the bytes used.\<close>

fun arena_layout :: "(int \<times> int \<times> int \<times> int) list \<Rightarrow> int \<Rightarrow> ((int \<times> int \<times> int) list \<times> int) option" where
  "arena_layout [] arena_bytes = Some ([], arena_bytes)"
| "arena_layout (sp # sps) arena_bytes =
     (let bytes = spec_bytes sp in
      if bytes = 0 \<or> fst sp = 0 then None
      else map_option (\<lambda>(items, total_bytes). ((fst sp, arena_bytes, bytes) # items, total_bytes))
             (arena_layout sps (arena_bytes + align_up_size bytes 256)))"

fun arena_copy :: "cuda_env \<Rightarrow> int \<Rightarrow> (int \<times> int \<times> int) list \<Rightarrow> cuda \<Rightarrow> bool \<times> cuda" where
  "arena_copy ce arena [] s = (True, s)"
| "arena_copy ce arena ((src, off, bytes) # items) s =
     (case cuda_memcpy ce (arena + off) src bytes s of
        (ok, s) \<Rightarrow> if \<not> ok then (False, cuda_free arena s) else arena_copy ce arena items s)"

definition set_layer_ptrs :: "int list \<Rightarrow> layer_weights \<Rightarrow> layer_weights" where
  "set_layer_ptrs ps lw =
     lw\<lparr>lw_wq := ps ! 0, lw_wk := ps ! 1, lw_wv := ps ! 2, lw_wo := ps ! 3, lw_w_gate := ps ! 4, lw_w_up := ps ! 5, lw_w_down := ps ! 6\<rparr>"

definition copy_layer_quant_weights_to_device ::
  "env \<Rightarrow> cuda_env \<Rightarrow> layer_weights \<Rightarrow> model_config \<Rightarrow> int list \<Rightarrow> cuda \<Rightarrow> bool \<times> layer_weights \<times> int list \<times> cuda"
where
  "copy_layer_quant_weights_to_device e ce lw cfg owned s =
     (case arena_layout (layer_specs lw cfg) 0 of
        None \<Rightarrow> (False, lw, owned, s)
      | Some (items, arena_bytes) \<Rightarrow>
        (case cuda_malloc ce arena_bytes s of
           (None, s) \<Rightarrow> (False, lw, owned, s)
         | (Some arena, s) \<Rightarrow>
           (case arena_copy ce arena items s of
              (ok, s) \<Rightarrow>
                if \<not> ok then (False, lw, owned, s)
                else (True, set_layer_ptrs (map (\<lambda>(src, off, bytes). arena + off) items) lw, owned @ [arena],
                      fold (\<lambda>(src, off, bytes). release_host_weight_pages e ce src bytes) items s))))"

text \<open>The loop over the layers: how many were copied and the bytes.\<close>

fun layers_to_device ::
  "env \<Rightarrow> cuda_env \<Rightarrow> model_config \<Rightarrow> int \<Rightarrow> nat \<Rightarrow> layer_weights list \<Rightarrow> int list \<Rightarrow> cuda \<Rightarrow>
   int \<times> int \<times> layer_weights list \<times> int list \<times> cuda"
where
  "layers_to_device e ce cfg avail_mb (Suc cap) (lw # lws) owned s =
     (let bytes = layer_quant_weight_bytes lw cfg; mb = (bytes + 1024 * 1024 - 1) div (1024 * 1024) in
      if bytes = 0 then (0, 0, lw # lws, owned, s)
      else if avail_mb < mb + 128 then (0, 0, lw # lws, owned, s)
      else
        (case copy_layer_quant_weights_to_device e ce lw cfg owned s of
           (ok, lw, owned, s) \<Rightarrow>
             if \<not> ok then (0, 0, lw # lws, owned, s)
             else
               (case layers_to_device e ce cfg (avail_mb - mb) cap lws owned s of
                  (n, total_bytes, lws, owned, s) \<Rightarrow> (n + 1, total_bytes + bytes, lw # lws, owned, s))))"
| "layers_to_device e ce cfg avail_mb cap lws owned s = (0, 0, lws, owned, s)"

text \<open>\<^verbatim>\<open>None\<close> is \<^verbatim>\<open>(size_t)-1\<close>.\<close>

definition materialize_layer_weights ::
  "env \<Rightarrow> cuda_env \<Rightarrow> model_config \<Rightarrow> memory_budget \<Rightarrow> placement \<Rightarrow> int option \<times> placement"
where
  "materialize_layer_weights e ce cfg budget pl =
     (let mw = pl_mw pl; requested = device_layer_limit e;
          layer_cap = (if requested < 0 then mw_n_layers mw else min requested (mw_n_layers mw)) in
      if \<not> fast_gemv_enabled_for_device_weights e then (Some 0, pl)
      else if requested = 0 then (Some 0, pl)
      else if \<not> mapped_weight_device_enabled e \<and> layer_cap < mw_n_layers mw then (None, pl)
      else
        (case layers_to_device e ce cfg (free_mb budget) (nat layer_cap) (mw_layers mw) (pl_owned pl) (pl_cuda pl) of
           (copied, total_bytes, lws, owned, s) \<Rightarrow>
             let pl = pl\<lparr>pl_mw := mw\<lparr>mw_layers := lws\<rparr>, pl_owned := owned, pl_cuda := s\<rparr> in
             if \<not> mapped_weight_device_enabled e \<and> copied < mw_n_layers mw then (None, pl) else (Some total_bytes, pl)))"


section \<open>Registered ranges\<close>

lemma registered_simps [simp]:
  "cu_registered (cuda_free p s) = cu_registered s" "cu_registered (release_host_weight_pages e ce p n s) = cu_registered s"
  "cu_registered (snd (cuda_malloc ce n s)) = cu_registered s" "cu_registered (snd (cuda_memcpy ce a b n s)) = cu_registered s"
  by (auto simp: cuda_free_def release_host_weight_pages_def cuda_malloc_def cuda_memcpy_def Let_def case_prod_beta split: option.splits)

lemma registered_pairs:
  "cuda_malloc ce n s = (q, s') \<Longrightarrow> cu_registered s' = cu_registered s" "cuda_memcpy ce a b n s = (ok, s') \<Longrightarrow> cu_registered s' = cu_registered s"
  using registered_simps(3) [of ce n s] registered_simps(4) [of ce a b n s] by simp_all

lemma copy_weight_registered: "copy_weight_to_device ce src n s = (q, s') \<Longrightarrow> cu_registered s' = cu_registered s"
  by (auto simp: copy_weight_to_device_def registered_pairs split: prod.splits option.splits if_splits)

lemma norm_layer_registered: "norm_layer ce nb qb lw owned s = (ok, lw', owned', s') \<Longrightarrow> cu_registered s' = cu_registered s"
  by (auto simp: norm_layer_def Let_def copy_weight_registered split: prod.splits option.splits if_splits)

lemma norm_layers_registered: "norm_layers ce nb qb lws owned s = (ok, lws', owned', s') \<Longrightarrow> cu_registered s' = cu_registered s"
  by (induction lws arbitrary: owned s ok lws' owned' s') (force simp: norm_layer_registered split: prod.splits if_splits)+

lemma materialize_norm_registered: "materialize_norm_weights ce mw H D owned s = (ok, mw', owned', s') \<Longrightarrow> cu_registered s' = cu_registered s"
  by (auto simp: materialize_norm_weights_def Let_def norm_layers_registered copy_weight_registered split: prod.splits option.splits if_splits)

lemma arena_copy_registered: "arena_copy ce arena items s = (ok, s') \<Longrightarrow> cu_registered s' = cu_registered s"
  by (induction ce arena items s rule: arena_copy.induct) (auto simp: registered_pairs split: prod.splits if_splits)

lemma release_all_registered [simp]:
  "cu_registered (fold (\<lambda>(src, off, bytes). release_host_weight_pages e ce src bytes) items s) = cu_registered s"
  by (induction items arbitrary: s) (simp_all add: case_prod_beta)

lemma copy_layer_registered:
  "copy_layer_quant_weights_to_device e ce lw cfg owned s = (ok, lw', owned', s') \<Longrightarrow> cu_registered s' = cu_registered s"
  by (auto simp: copy_layer_quant_weights_to_device_def registered_pairs arena_copy_registered split: prod.splits option.splits if_splits)

lemma layers_to_device_registered:
  "layers_to_device e ce cfg mb cap lws owned s = (n, b, lws', owned', s') \<Longrightarrow> cu_registered s' = cu_registered s"
  by (induction e ce cfg mb cap lws owned s arbitrary: n b lws' owned' s' rule: layers_to_device.induct)
     (force simp: Let_def copy_layer_registered split: prod.splits if_splits)+

lemma materialize_layers_registered:
  "materialize_layer_weights e ce cfg budget pl = (b, pl') \<Longrightarrow>
   cu_registered (pl_cuda pl') = cu_registered (pl_cuda pl) \<and> pl_region pl' = pl_region pl \<and> pl_mapped pl' = pl_mapped pl"
  by (auto simp: materialize_layer_weights_def Let_def layers_to_device_registered split: prod.splits if_splits)

text \<open>The output projection either leaves the registrations or adds the one it reports.\<close>

definition output_mapped :: "env \<Rightarrow> placement \<Rightarrow> placement \<Rightarrow> bool" where
  "output_mapped e pl pl' \<longleftrightarrow>
     (cu_registered (pl_cuda pl') = cu_registered (pl_cuda pl) \<and> pl_region pl' = pl_region pl \<and> pl_mapped pl' = pl_mapped pl) \<or>
     (\<not> mapped_weight_device_enabled e \<and> (\<exists>base n. pl_mapped pl' = Some (base, n) \<and> wr_host (pl_region pl') = base \<and>
        cu_registered (pl_cuda pl') = base # cu_registered (pl_cuda pl)))"

lemma try_map_mapped:
  assumes "try_map_output e ce src n outs pl = (done, pl')"
  shows "output_mapped e pl pl'" "\<not> done \<Longrightarrow> cu_registered (pl_cuda pl') = cu_registered (pl_cuda pl) \<and> pl_region pl' = pl_region pl \<and> pl_mapped pl' = pl_mapped pl"
  using assms
  by (auto simp: output_mapped_def try_map_output_def map_host_weight_range_for_gpu_def register_mapped_weight_region_def page_range_def Let_def
      split: if_splits option.splits)

lemma copy_output_mapped: "copy_output e ce n device pl = (b, pl') \<Longrightarrow> output_mapped e pl pl'"
  by (auto simp: output_mapped_def copy_output_def Let_def registered_pairs split: prod.splits if_splits)

lemma materialize_output_mapped:
  assumes run: "materialize_output_weight e ce cfg budget outs pl = (b, pl')"
  shows "output_mapped e pl pl'"
proof -
  define n src where "n = kquant_tensor_bytes (mw_output_type (pl_mw pl)) (m_vocab_size cfg) (m_hidden_dim cfg)" and "src = mw_output (pl_mw pl)"
  define first where "first \<longleftrightarrow> src = mw_tok_embd (pl_mw pl) \<and> outs \<and> e ''JLLM_DEVICE_OUTPUT_COPY'' \<noteq> Some ''1''"
  obtain d1 pl1 where f: "(if first then try_map_output e ce src n outs pl else (False, pl)) = (d1, pl1)" by fastforce
  have refl: "output_mapped e pl pl" by (simp add: output_mapped_def)
  have m1: "output_mapped e pl pl1" using f refl try_map_mapped(1) [of e ce src n outs pl] by (auto split: if_splits)
  have same: "cu_registered (pl_cuda pl1) = cu_registered (pl_cuda pl) \<and> pl_region pl1 = pl_region pl \<and> pl_mapped pl1 = pl_mapped pl" if "\<not> d1"
    using f that try_map_mapped(2) [of e ce src n outs pl] by (auto split: if_splits)
  obtain q s1 where c: "cuda_malloc ce n (pl_cuda pl1) = (q, s1)" by fastforce
  obtain d2 pl2 where t2: "try_map_output e ce src n outs pl1 = (d2, pl2)" by fastforce
  obtain d3 pl3 where t3: "try_map_output e ce src n outs (pl1\<lparr>pl_cuda := s1\<rparr>) = (d3, pl3)" by fastforce
  obtain b4 pl4 where t4: "copy_output e ce n (the q) (pl1\<lparr>pl_cuda := s1\<rparr>) = (b4, pl4)" by fastforce
  have "output_mapped e pl1 pl2" "output_mapped e (pl1\<lparr>pl_cuda := s1\<rparr>) pl3" "output_mapped e (pl1\<lparr>pl_cuda := s1\<rparr>) pl4"
    using try_map_mapped(1) [OF t2] try_map_mapped(1) [OF t3] copy_output_mapped [OF t4] by simp_all
  then have m2: "output_mapped e pl pl2 \<and> output_mapped e pl pl3 \<and> output_mapped e pl pl4" if "\<not> d1"
    using same [OF that] registered_pairs(1) [OF c] by (simp add: output_mapped_def)
  have "pl' \<in> {pl, pl1} \<or> \<not> d1 \<and> pl' \<in> {pl2, pl3, pl4}"
    using run f c t2 t3 t4 unfolding materialize_output_weight_def Let_def n_def [symmetric] src_def [symmetric] first_def [symmetric]
    by (cases q) (auto split: if_splits)
  then show ?thesis using refl m1 m2 by auto
qed


section \<open>Every block has one owner\<close>

text \<open>The contract between the code that places weights and the allocator: \<^verbatim>\<open>holds\<close> says of which blocks a
  client is the owner. A block is gained by a successful \<^verbatim>\<open>alloc\<close>, lost by \<^verbatim>\<open>dealloc\<close>, and the
  order in which the blocks are listed does not matter.\<close>

locale allocator =
  fixes alloc :: "'n \<Rightarrow> 's \<Rightarrow> 'p option \<times> 's" and dealloc :: "'p \<Rightarrow> 's \<Rightarrow> 's" and holds :: "'p list \<Rightarrow> 's \<Rightarrow> bool"
  assumes alloc_fails: "holds ps s \<Longrightarrow> alloc n s = (None, s') \<Longrightarrow> holds ps s'"
    and alloc_gives: "holds ps s \<Longrightarrow> alloc n s = (Some p, s') \<Longrightarrow> holds (ps @ [p]) s'"
    and dealloc_takes: "holds (ps @ [p]) s \<Longrightarrow> holds ps (dealloc p s)"
    and holds_perm: "holds ps s \<Longrightarrow> mset qs = mset ps \<Longrightarrow> holds qs s"
begin

lemma dealloc_all: "holds ps s \<Longrightarrow> holds [] (fold dealloc ps s)"
proof (induction ps arbitrary: s)
  case (Cons p ps)
  have "holds (ps @ [p]) s" using holds_perm [OF Cons.prems] by simp
  then show ?case using Cons.IH dealloc_takes by simp
qed simp

text \<open>The shape of every copy in the loader: allocate, work on the block, and give it back when the work
  fails.\<close>

lemma alloc_or_undo:
  assumes "holds ps s" and work: "\<And>p s1 ok s2. holds (ps @ [p]) s1 \<Longrightarrow> f p s1 = (ok, s2) \<Longrightarrow> holds (ps @ [p]) s2"
    and run: "(case alloc n s of (None, s) \<Rightarrow> (None, s) | (Some p, s) \<Rightarrow> (case f p s of (ok, s) \<Rightarrow> if \<not> ok then (None, dealloc p s) else (Some p, s))) = (r, s')"
  shows "holds (case r of None \<Rightarrow> ps | Some p \<Rightarrow> ps @ [p]) s'"
proof -
  obtain q s1 where a: "alloc n s = (q, s1)" by fastforce
  show ?thesis
  proof (cases q)
    case None
    then show ?thesis using alloc_fails assms(1) a run by auto
  next
    case (Some p)
    obtain ok s2 where f: "f p s1 = (ok, s2)" by fastforce
    have "holds (ps @ [p]) s2" using work [OF _ f] alloc_gives [OF assms(1)] a Some by simp
    then show ?thesis using run a Some f dealloc_takes by (auto split: if_splits)
  qed
qed

end

text \<open>What \<^verbatim>\<open>cudaMalloc\<close> promises: a new block does not overlap a live one.\<close>

definition malloc_ok :: "cuda_env \<Rightarrow> bool" where
  "malloc_ok ce \<longleftrightarrow> (\<forall>k live n p. ce_malloc ce k live n = Some p \<longrightarrow>
     p \<noteq> 0 \<and> p \<notin> fst ` set live \<and> (\<forall>b \<in> set live. p + n \<le> fst b \<or> fst b + snd b \<le> p))"

text \<open>The live blocks are those of before and the owned ones, each exactly once, and nothing was freed
  twice.\<close>

definition accounts :: "int set \<Rightarrow> int list \<Rightarrow> cuda \<Rightarrow> bool" where
  "accounts pre owned s \<longleftrightarrow> distinct (map fst (cu_live s)) \<and> fst ` set (cu_live s) = pre \<union> set owned \<and> pre \<inter> set owned = {} \<and>
     distinct owned \<and> \<not> cu_bad_free s"

lemma accounts_calls [simp]:
  "accounts pre owned (s\<lparr>cu_calls := k\<rparr>) = accounts pre owned s" "accounts pre owned (s\<lparr>cu_mem := m\<rparr>) = accounts pre owned s"
  "accounts pre owned (s\<lparr>cu_released := r\<rparr>) = accounts pre owned s"
  "accounts pre owned (s\<lparr>cu_registered := g\<rparr>) = accounts pre owned s"
  by (simp_all add: accounts_def)

lemma malloc_accounts:
  assumes "malloc_ok ce" "accounts pre owned s"
  shows "cuda_malloc ce n s = (None, s') \<Longrightarrow> accounts pre owned s'"
    and "cuda_malloc ce n s = (Some p, s') \<Longrightarrow> accounts pre (owned @ [p]) s'"
proof -
  show "accounts pre owned s'" if "cuda_malloc ce n s = (None, s')"
    using that assms by (auto simp: cuda_malloc_def Let_def split: option.splits)
  assume "cuda_malloc ce n s = (Some p, s')"
  then have p: "ce_malloc ce (cu_calls s) (cu_live s) n = Some p" and s': "s' = s\<lparr>cu_calls := Suc (cu_calls s), cu_live := (p, n) # cu_live s\<rparr>"
    by (auto simp: cuda_malloc_def Let_def split: option.splits)
  have "p \<notin> fst ` set (cu_live s)" using assms(1) p unfolding malloc_ok_def by blast
  then show "accounts pre (owned @ [p]) s'" using assms(2) unfolding accounts_def s' by auto
qed

lemma free_accounts: "accounts pre (owned @ [p]) s \<Longrightarrow> accounts pre owned (cuda_free p s)"
  by (auto simp: accounts_def cuda_free_def distinct_map_filter image_iff)

lemma memcpy_accounts: "accounts pre owned s \<Longrightarrow> cuda_memcpy ce a b n s = (ok, s') \<Longrightarrow> accounts pre owned s'"
  by (auto simp: cuda_memcpy_def Let_def split: if_splits)

text \<open>The device memory is such an allocator.\<close>

interpretation cu: allocator "cuda_malloc ce" cuda_free "\<lambda>owned s. malloc_ok ce \<and> accounts pre owned s"
proof unfold_locales
  fix ps s n s'
  assume h: "malloc_ok ce \<and> accounts pre ps s"
  show "malloc_ok ce \<and> accounts pre ps s'" if "cuda_malloc ce n s = (None, s')" using h malloc_accounts(1) that by blast
  show "malloc_ok ce \<and> accounts pre (ps @ [p]) s'" if "cuda_malloc ce n s = (Some p, s')" for p using h malloc_accounts(2) that by blast
  show "malloc_ok ce \<and> accounts pre qs s" if "mset qs = mset ps" for qs
    using h that mset_eq_setD [OF that] mset_eq_imp_distinct_iff [OF that] by (simp add: accounts_def)
next
  show "malloc_ok ce \<and> accounts pre (ps @ [p]) s \<Longrightarrow> malloc_ok ce \<and> accounts pre ps (cuda_free p s)" for ps p s using free_accounts by blast
qed

lemma copy_weight_accounts:
  assumes m: "malloc_ok ce" and a: "accounts pre owned s"
  shows "copy_weight_to_device ce src n s = (None, s') \<Longrightarrow> accounts pre owned s'"
    and "copy_weight_to_device ce src n s = (Some p, s') \<Longrightarrow> accounts pre (owned @ [p]) s'"
proof -
  have "accounts pre (case r of None \<Rightarrow> owned | Some p \<Rightarrow> owned @ [p]) s'" if "copy_weight_to_device ce src n s = (r, s')" for r
  proof (cases "src = 0 \<or> n = 0")
    case True
    then show ?thesis using that a by (auto simp: copy_weight_to_device_def)
  next
    case False
    show ?thesis
      by (rule cu.alloc_or_undo [of ce pre owned s "\<lambda>p. cuda_memcpy ce p src n" n r s', THEN conjunct2])
         (use that False m a memcpy_accounts in \<open>auto simp: copy_weight_to_device_def\<close>)
  qed
  from this [of None] this [of "Some p"]
  show "copy_weight_to_device ce src n s = (None, s') \<Longrightarrow> accounts pre owned s'"
    "copy_weight_to_device ce src n s = (Some p, s') \<Longrightarrow> accounts pre (owned @ [p]) s'" by simp_all
qed

lemma norm_layer_accounts:
  assumes m: "malloc_ok ce" and a: "accounts pre owned s" and run: "norm_layer ce nb qb lw owned s = (ok, lw', owned', s')"
  shows "accounts pre owned' s'"
proof (cases "lw_rms_type lw = 0")
  case False
  then show ?thesis using run a by (simp add: norm_layer_def)
next
  case True
  obtain p1 s1 where c1: "copy_weight_to_device ce (lw_rms_attn lw) nb s = (p1, s1)" by fastforce
  show ?thesis
  proof (cases p1)
    case None
    then show ?thesis using run True c1 copy_weight_accounts(1) [OF m a] by (simp add: norm_layer_def)
  next
    case (Some attn)
    note a1 = copy_weight_accounts(2) [OF m a c1 [unfolded Some]]
    obtain p2 s2 where c2: "copy_weight_to_device ce (lw_rms_ffn lw) nb s1 = (p2, s2)" by fastforce
    show ?thesis
    proof (cases p2)
      case None
      then show ?thesis using run True c1 c2 \<open>p1 = Some attn\<close> free_accounts [OF copy_weight_accounts(1) [OF m a1]] by (auto simp: norm_layer_def)
    next
      case (Some ffn)
      have a2: "accounts pre (owned @ [attn, ffn]) s2" using copy_weight_accounts(2) [OF m a1 c2 [unfolded Some]] by simp
      obtain p3 s3 where c3: "copy_weight_to_device ce (lw_q_norm lw) qb s2 = (p3, s3)" by fastforce
      obtain p4 s4 where c4: "copy_weight_to_device ce (lw_k_norm lw) qb s3 = (p4, s4)" by fastforce
      have a3: "accounts pre ((owned @ [attn, ffn]) @ [qn]) s3" if "p3 = Some qn" for qn using copy_weight_accounts(2) [OF m a2] c3 that by simp
      have n3: "accounts pre (owned @ [attn, ffn]) s3" if "p3 = None" using copy_weight_accounts(1) [OF m a2] c3 that by simp
      have a4: "accounts pre (((owned @ [attn, ffn]) @ [qn]) @ [kn]) s4" if "p3 = Some qn" "p4 = Some kn" for qn kn
        using copy_weight_accounts(2) [OF m a3] c4 that by simp
      have n4: "accounts pre (owned @ [attn, ffn]) (cuda_free qn s4)" if "p3 = Some qn" "p4 = None" for qn
        using free_accounts [OF copy_weight_accounts(1) [OF m a3]] c4 that by simp
      show ?thesis using run True c1 c2 \<open>p1 = Some attn\<close> Some c3 c4 a2 a3 n3 a4 n4
        by (auto simp: norm_layer_def Let_def split: if_splits option.splits)
    qed
  qed
qed

lemma norm_layers_accounts:
  assumes "malloc_ok ce"
  shows "accounts pre owned s \<Longrightarrow> norm_layers ce nb qb lws owned s = (ok, lws', owned', s') \<Longrightarrow> accounts pre owned' s'"
  by (induction lws arbitrary: owned s ok lws' owned' s')
     (auto dest: norm_layer_accounts [OF assms] split: prod.splits if_splits)

lemma materialize_norm_accounts:
  assumes m: "malloc_ok ce" and a: "accounts pre owned s" and run: "materialize_norm_weights ce mw H D owned s = (ok, mw', owned', s')"
  shows "accounts pre owned' s'"
proof -
  obtain ok1 lws o1 s1 where n: "norm_layers ce (H * 4) (D * 4) (mw_layers mw) owned s = (ok1, lws, o1, s1)" by (metis prod_cases4)
  note a1 = norm_layers_accounts [OF m a n]
  obtain p s2 where c: "copy_weight_to_device ce (mw_output_norm mw) (H * 4) s1 = (p, s2)" by fastforce
  show ?thesis using run n c a1 copy_weight_accounts [OF m a1]
    by (auto simp: materialize_norm_weights_def Let_def split: if_splits option.splits)
qed

lemma arena_copy_accounts:
  "accounts pre (owned @ [arena]) s \<Longrightarrow> arena_copy ce arena items s = (ok, s') \<Longrightarrow> accounts pre (if ok then owned @ [arena] else owned) s'"
proof (induction items arbitrary: s)
  case (Cons it items)
  obtain src off n where it: "it = (src, off, n)" by (cases it)
  obtain ok1 s1 where c: "cuda_memcpy ce (arena + off) src n s = (ok1, s1)" by fastforce
  note a1 = memcpy_accounts [OF Cons.prems(1) c]
  show ?case using Cons.IH [OF a1] Cons.prems(2) c free_accounts [OF a1] by (auto simp: it split: if_splits)
qed simp

lemma release_accounts [simp]: "accounts pre owned (release_host_weight_pages e ce p n s) = accounts pre owned s"
  by (simp add: release_host_weight_pages_def case_prod_beta)

lemma release_all_accounts [simp]:
  "accounts pre owned (fold (\<lambda>(src, off, bytes). release_host_weight_pages e ce src bytes) items s) = accounts pre owned s"
  by (induction items arbitrary: s) (simp_all add: case_prod_beta)

lemma copy_layer_accounts:
  assumes m: "malloc_ok ce" and a: "accounts pre owned s" and run: "copy_layer_quant_weights_to_device e ce lw cfg owned s = (ok, lw', owned', s')"
  shows "accounts pre owned' s'"
proof (cases "arena_layout (layer_specs lw cfg) 0")
  case None
  then show ?thesis using run a by (simp add: copy_layer_quant_weights_to_device_def)
next
  case (Some r)
  obtain items n where r: "r = (items, n)" by fastforce
  obtain q s1 where c: "cuda_malloc ce n s = (q, s1)" by fastforce
  obtain ok1 s2 where k: "arena_copy ce (the q) items s1 = (ok1, s2)" by fastforce
  note m1 = malloc_accounts [OF m a, of n]
  have "accounts pre (if ok1 then owned @ [the q] else owned) s2" if "q \<noteq> None"
    using arena_copy_accounts [OF _ k, of pre owned] m1(2) [of "the q"] c that by auto
  then show ?thesis using run Some r c k m1(1)
    by (cases q) (auto simp: copy_layer_quant_weights_to_device_def split: if_splits)
qed

lemma layers_to_device_accounts:
  assumes m: "malloc_ok ce"
  shows "accounts pre owned s \<Longrightarrow> layers_to_device e ce cfg mb cap lws owned s = (n, b, lws', owned', s') \<Longrightarrow> accounts pre owned' s'"
proof (induction cap arbitrary: mb lws owned s n b lws' owned' s')
  case (Suc cap)
  show ?case
  proof (cases lws)
    case (Cons lw rest)
    obtain ok lw1 o1 s1 where c: "copy_layer_quant_weights_to_device e ce lw cfg owned s = (ok, lw1, o1, s1)" by (metis prod_cases4)
    note a1 = copy_layer_accounts [OF m Suc.prems(1) c]
    define mb' where "mb' = mb - (layer_quant_weight_bytes lw cfg + 1024 * 1024 - 1) div (1024 * 1024)"
    obtain n2 b2 l2 o2 s2 where r: "layers_to_device e ce cfg mb' cap rest o1 s1 = (n2, b2, l2, o2, s2)" by (metis prod_cases5)
    note a2 = Suc.IH [OF a1 r]
    show ?thesis using Suc.prems c r [unfolded mb'_def] a1 a2 by (simp add: Cons Let_def split: if_splits)
  qed (use Suc.prems in simp)
qed simp

lemma try_map_accounts:
  assumes "accounts pre (pl_owned pl) (pl_cuda pl)" "try_map_output e ce src n outs pl = (done, pl')"
  shows "accounts pre (pl_owned pl') (pl_cuda pl')"
  using assms by (auto simp: try_map_output_def map_host_weight_range_for_gpu_def case_prod_beta Let_def split: if_splits option.splits)

lemma copy_output_accounts:
  assumes "accounts pre (pl_owned pl @ [device]) (pl_cuda pl)" "copy_output e ce n device pl = (b, pl')"
  shows "accounts pre (pl_owned pl') (pl_cuda pl')"
proof -
  obtain ok s where c: "cuda_memcpy ce device (mw_output (pl_mw pl)) n (pl_cuda pl) = (ok, s)" by fastforce
  note a = memcpy_accounts [OF assms(1) c]
  show ?thesis using assms(2) c a free_accounts [OF a] by (auto simp: copy_output_def Let_def split: if_splits)
qed

lemma materialize_output_accounts:
  assumes m: "malloc_ok ce" and a: "accounts pre (pl_owned pl) (pl_cuda pl)"
    and run: "materialize_output_weight e ce cfg budget outs pl = (b, pl')"
  shows "accounts pre (pl_owned pl') (pl_cuda pl')"
proof -
  define n src where "n = kquant_tensor_bytes (mw_output_type (pl_mw pl)) (m_vocab_size cfg) (m_hidden_dim cfg)" and "src = mw_output (pl_mw pl)"
  define first where "first \<longleftrightarrow> src = mw_tok_embd (pl_mw pl) \<and> outs \<and> e ''JLLM_DEVICE_OUTPUT_COPY'' \<noteq> Some ''1''"
  obtain d1 pl1 where f: "(if first then try_map_output e ce src n outs pl else (False, pl)) = (d1, pl1)" by fastforce
  have a1: "accounts pre (pl_owned pl1) (pl_cuda pl1)" using f a try_map_accounts [OF a] by (auto split: if_splits)
  obtain q s1 where c: "cuda_malloc ce n (pl_cuda pl1) = (q, s1)" by fastforce
  obtain d2 pl2 where t2: "try_map_output e ce src n outs pl1 = (d2, pl2)" by fastforce
  obtain d3 pl3 where t3: "try_map_output e ce src n outs (pl1\<lparr>pl_cuda := s1\<rparr>) = (d3, pl3)" by fastforce
  obtain b4 pl4 where t4: "copy_output e ce n (the q) (pl1\<lparr>pl_cuda := s1\<rparr>) = (b4, pl4)" by fastforce
  have a2: "accounts pre (pl_owned pl2) (pl_cuda pl2)" using try_map_accounts [OF a1 t2] .
  have a3: "accounts pre (pl_owned pl3) (pl_cuda pl3)" if "q = None"
    by (rule try_map_accounts [OF _ t3]) (use malloc_accounts(1) [OF m a1] c that in simp)
  have a4: "accounts pre (pl_owned pl4) (pl_cuda pl4)" if "q \<noteq> None"
    by (rule copy_output_accounts [OF _ t4]) (use malloc_accounts(2) [OF m a1] c that in auto)
  have "pl' \<in> {pl, pl1, pl2} \<or> q = None \<and> pl' = pl3 \<or> q \<noteq> None \<and> pl' = pl4"
    using run f c t2 t3 t4 unfolding materialize_output_weight_def Let_def n_def [symmetric] src_def [symmetric] first_def [symmetric]
    by (cases q) (auto split: if_splits)
  then show ?thesis using a a1 a2 a3 a4 by auto
qed

lemma materialize_layers_accounts:
  assumes m: "malloc_ok ce" and a: "accounts pre (pl_owned pl) (pl_cuda pl)"
    and run: "materialize_layer_weights e ce cfg budget pl = (b, pl')"
  shows "accounts pre (pl_owned pl') (pl_cuda pl')"
proof -
  define cap where "cap = (if device_layer_limit e < 0 then mw_n_layers (pl_mw pl) else min (device_layer_limit e) (mw_n_layers (pl_mw pl)))"
  obtain n t lws o1 s1 where r: "layers_to_device e ce cfg (free_mb budget) (nat cap) (mw_layers (pl_mw pl)) (pl_owned pl) (pl_cuda pl) = (n, t, lws, o1, s1)"
    by (metis prod_cases5)
  have "accounts pre o1 s1" using layers_to_device_accounts [OF m a r] .
  then show ?thesis using run a r unfolding materialize_layer_weights_def Let_def cap_def [symmetric] by (auto split: if_splits)
qed


section \<open>The arena of a layer\<close>

lemma spec_bytes_nonneg: "0 \<le> spec_bytes sp"
  by (auto simp: spec_bytes_def kquant_tensor_bytes_def Let_def split: prod.splits)

lemma align_up_256: "v \<le> align_up_size v 256" "256 dvd align_up_size v 256"
  by (simp_all add: align_up_size_def)

definition in_order :: "int \<times> int \<times> int \<Rightarrow> int \<times> int \<times> int \<Rightarrow> bool" where
  "in_order x y \<longleftrightarrow> fst (snd x) + snd (snd x) \<le> fst (snd y)"

lemma arena_layout_facts:
  assumes "arena_layout sps a = Some (items, n)" "256 dvd a"
  shows "map (\<lambda>it. (fst it, snd (snd it))) items = map (\<lambda>sp. (fst sp, spec_bytes sp)) sps \<and> sorted_wrt in_order items \<and> a \<le> n \<and>
     (\<forall>it \<in> set items. a \<le> fst (snd it) \<and> 0 < snd (snd it) \<and> fst (snd it) + snd (snd it) \<le> n \<and> 256 dvd fst (snd it))"
  using assms
proof (induction sps arbitrary: a items)
  case (Cons sp sps)
  let ?b = "spec_bytes sp"
  obtain rest where r: "arena_layout sps (a + align_up_size ?b 256) = Some (rest, n)" and items: "items = (fst sp, a, ?b) # rest"
    and b: "?b \<noteq> 0" "fst sp \<noteq> 0"
    using Cons.prems(1) by (auto simp: Let_def split: if_splits)
  have "0 < ?b" using b(1) spec_bytes_nonneg [of sp] by linarith
  moreover have "256 dvd a + align_up_size ?b 256" using Cons.prems(2) align_up_256(2) by (rule dvd_add)
  note ih = Cons.IH [OF r this]
  moreover have "in_order (fst sp, a, ?b) it" if "it \<in> set rest" for it
    using ih align_up_256(1) [of ?b] that by (force simp: in_order_def)
  ultimately show ?case using ih align_up_256(1) [of ?b] Cons.prems(2) by (force simp: items)
qed simp

lemma arena_copy_mem:
  "arena_copy ce arena items s = (True, s') \<Longrightarrow>
   cu_mem s' = fold (\<lambda>it. mem_copy (arena + fst (snd it)) (fst it) (snd (snd it))) items (cu_mem s)"
  by (induction ce arena items s rule: arena_copy.induct) (auto simp: cuda_memcpy_def Let_def split: if_splits)

lemma fold_mem_copy:
  assumes "sorted_wrt in_order items" "\<forall>it \<in> set items. 0 < snd (snd it)"
    and "\<forall>it \<in> set items. \<forall>j \<in> set items. \<forall>k. 0 \<le> k \<and> k < snd (snd it) \<longrightarrow> \<not> (arena + fst (snd j) \<le> fst it + k \<and> fst it + k < arena + fst (snd j) + snd (snd j))"
  shows "(\<forall>it \<in> set items. \<forall>k. 0 \<le> k \<and> k < snd (snd it) \<longrightarrow>
        fold (\<lambda>it. mem_copy (arena + fst (snd it)) (fst it) (snd (snd it))) items m (arena + fst (snd it) + k) = m (fst it + k)) \<and>
     (\<forall>a. (\<forall>it \<in> set items. \<not> (arena + fst (snd it) \<le> a \<and> a < arena + fst (snd it) + snd (snd it))) \<longrightarrow>
        fold (\<lambda>it. mem_copy (arena + fst (snd it)) (fst it) (snd (snd it))) items m a = m a)"
  using assms
proof (induction items arbitrary: m)
  case (Cons x items)
  define m' where "m' = mem_copy (arena + fst (snd x)) (fst x) (snd (snd x)) m"
  have ih: "\<forall>it \<in> set items. \<forall>k. 0 \<le> k \<and> k < snd (snd it) \<longrightarrow>
        fold (\<lambda>it. mem_copy (arena + fst (snd it)) (fst it) (snd (snd it))) items m' (arena + fst (snd it) + k) = m' (fst it + k)"
    "\<forall>a. (\<forall>it \<in> set items. \<not> (arena + fst (snd it) \<le> a \<and> a < arena + fst (snd it) + snd (snd it))) \<longrightarrow>
        fold (\<lambda>it. mem_copy (arena + fst (snd it)) (fst it) (snd (snd it))) items m' a = m' a"
    using Cons.IH [of m'] Cons.prems by auto
  have out: "m' a = m a" if "\<not> (arena + fst (snd x) \<le> a \<and> a < arena + fst (snd x) + snd (snd x))" for a
    using that by (auto simp: m'_def mem_copy_def)
  have apart: "\<not> (arena + fst (snd it) \<le> a \<and> a < arena + fst (snd it) + snd (snd it))"
    if "it \<in> set items" "a < arena + fst (snd x) + snd (snd x)" for it a
    using Cons.prems(1) that by (auto simp: in_order_def)
  have "fold (\<lambda>it. mem_copy (arena + fst (snd it)) (fst it) (snd (snd it))) items m' (arena + fst (snd x) + k) = m (fst x + k)"
    if "0 \<le> k" "k < snd (snd x)" for k
  proof -
    have "m' (arena + fst (snd x) + k) = m (fst x + k)" using that by (simp add: m'_def mem_copy_def)
    then show ?thesis using ih(2) [rule_format, OF apart, of "arena + fst (snd x) + k"] that(2) by simp
  qed
  moreover have "m' (fst it + k) = m (fst it + k)" if "it \<in> set items" "0 \<le> k" "k < snd (snd it)" for it k
    using out Cons.prems(3) that by (meson list.set_intros)
  ultimately show ?case using ih out by (auto simp: m'_def [symmetric])
qed simp

lemma release_mem [simp]: "cu_mem (release_host_weight_pages e ce p n s) = cu_mem s"
  by (simp add: release_host_weight_pages_def case_prod_beta)

lemma release_all_mem [simp]: "cu_mem (fold (\<lambda>(src, off, bytes). release_host_weight_pages e ce src bytes) items s) = cu_mem s"
  by (induction items arbitrary: s) (simp_all add: case_prod_beta)

lemma malloc_mem: "cuda_malloc ce n s = (Some p, s') \<Longrightarrow> cu_mem s' = cu_mem s \<and> ce_malloc ce (cu_calls s) (cu_live s) n = Some p"
  by (auto simp: cuda_malloc_def Let_def split: option.splits)

lemma length_layer_specs [simp]: "length (layer_specs lw cfg) = 7"
  by (simp add: layer_specs_def Let_def)

lemma layer_specs_ptrs:
  assumes "length ps = 7" "i < 7"
  shows "fst (layer_specs (set_layer_ptrs ps lw) cfg ! i) = ps ! i" "snd (layer_specs (set_layer_ptrs ps lw) cfg ! i) = snd (layer_specs lw cfg ! i)"
proof -
  have "i \<in> {0, 1, 2, 3, 4, 5, 6}" using assms(2) by auto
  then show "fst (layer_specs (set_layer_ptrs ps lw) cfg ! i) = ps ! i" "snd (layer_specs (set_layer_ptrs ps lw) cfg ! i) = snd (layer_specs lw cfg ! i)"
    by (auto simp: layer_specs_def set_layer_ptrs_def Let_def)
qed

text \<open>\<^verbatim>\<open>cudaMalloc\<close> does not hand out memory of the mapped file.\<close>

definition malloc_avoids :: "cuda_env \<Rightarrow> int \<Rightarrow> int \<Rightarrow> bool" where
  "malloc_avoids ce host n \<longleftrightarrow> (\<forall>k live m p. ce_malloc ce k live m = Some p \<longrightarrow> p + m \<le> host \<or> host + n \<le> p)"

definition layer_inside :: "int \<Rightarrow> int \<Rightarrow> layer_weights \<Rightarrow> model_config \<Rightarrow> bool" where
  "layer_inside host n lw cfg \<longleftrightarrow> (\<forall>sp \<in> set (layer_specs lw cfg). host \<le> fst sp \<and> fst sp + spec_bytes sp \<le> host + n)"

text \<open>What a successful copy of a layer leaves: \<^verbatim>\<open>p\<close> is the address and \<^verbatim>\<open>b\<close> the size of a matrix.\<close>

definition layer_copied :: "layer_weights \<Rightarrow> layer_weights \<Rightarrow> model_config \<Rightarrow> cuda \<Rightarrow> cuda \<Rightarrow> int \<Rightarrow> int \<Rightarrow> bool" where
  "layer_copied lw lw' cfg s s' arena n \<longleftrightarrow>
     (\<forall>i < 7. let p = fst (layer_specs lw' cfg ! i); b = spec_bytes (layer_specs lw' cfg ! i) in
        b = spec_bytes (layer_specs lw cfg ! i) \<and> arena \<le> p \<and> p + b \<le> arena + n \<and> 256 dvd p - arena \<and>
        (\<forall>k. 0 \<le> k \<and> k < b \<longrightarrow> cu_mem s' (p + k) = cu_mem s (fst (layer_specs lw cfg ! i) + k)) \<and>
        (\<forall>j < 7. i < j \<longrightarrow> p + b \<le> fst (layer_specs lw' cfg ! j))) \<and>
     (\<forall>a. a < arena \<or> arena + n \<le> a \<longrightarrow> cu_mem s' a = cu_mem s a)"

lemma layer_copy_parts:
  assumes run: "copy_layer_quant_weights_to_device e ce lw cfg owned s = (True, lw', owned', s')"
  obtains items n arena where "arena_layout (layer_specs lw cfg) 0 = Some (items, n)" "ce_malloc ce (cu_calls s) (cu_live s) n = Some arena"
    "cu_mem s' = fold (\<lambda>it. mem_copy (arena + fst (snd it)) (fst it) (snd (snd it))) items (cu_mem s)"
    "lw' = set_layer_ptrs (map (\<lambda>it. arena + fst (snd it)) items) lw" "owned' = owned @ [arena]"
proof -
  obtain items n where l: "arena_layout (layer_specs lw cfg) 0 = Some (items, n)"
    using run by (cases "arena_layout (layer_specs lw cfg) 0") (auto simp: copy_layer_quant_weights_to_device_def)
  obtain q s1 where c: "cuda_malloc ce n s = (q, s1)" by fastforce
  obtain arena where q: "q = Some arena" using run l c by (cases q) (auto simp: copy_layer_quant_weights_to_device_def)
  obtain ok s2 where k: "arena_copy ce arena items s1 = (ok, s2)" by fastforce
  have ok: ok using run l c q k by (auto simp: copy_layer_quant_weights_to_device_def split: if_splits)
  have eq: "(\<lambda>(src, off, bytes). arena + off) = (\<lambda>it :: int \<times> int \<times> int. arena + fst (snd it))" by auto
  show ?thesis
    by (rule that [OF l, of arena]) (use run l c q k ok eq malloc_mem [OF c [unfolded q]] arena_copy_mem [of ce arena items s1 s2] in
      \<open>auto simp: copy_layer_quant_weights_to_device_def case_prod_beta\<close>)
qed

text \<open>(C22) Copying a layer to the device: when it succeeds, the layer's seven pointers are 256-byte aligned
  places in one new block that do not overlap, each holding the bytes of the matrix it replaces, and no
  byte outside the block has changed.\<close>

theorem layer_copy_exact:
  assumes "copy_layer_quant_weights_to_device e ce lw cfg owned s = (True, lw', owned', s')"
    and "malloc_avoids ce host size_bytes" "layer_inside host size_bytes lw cfg"
  shows "\<exists>arena n. owned' = owned @ [arena] \<and> layer_copied lw lw' cfg s s' arena n"
proof -
  obtain items n arena where l: "arena_layout (layer_specs lw cfg) 0 = Some (items, n)" and p: "ce_malloc ce (cu_calls s) (cu_live s) n = Some arena"
    and mem: "cu_mem s' = fold (\<lambda>it. mem_copy (arena + fst (snd it)) (fst it) (snd (snd it))) items (cu_mem s)"
    and lw': "lw' = set_layer_ptrs (map (\<lambda>it. arena + fst (snd it)) items) lw" and o': "owned' = owned @ [arena]"
    using layer_copy_parts [OF assms(1)] .
  note lf = arena_layout_facts [OF l, simplified]
  have items: "map (\<lambda>it. (fst it, snd (snd it))) items = map (\<lambda>sp. (fst sp, spec_bytes sp)) (layer_specs lw cfg)" using lf by blast
  have len: "length items = 7" using arg_cong [OF items, of length] by simp
  have it: "fst (items ! i) = fst (layer_specs lw cfg ! i)" "snd (snd (items ! i)) = spec_bytes (layer_specs lw cfg ! i)" if "i < 7" for i
    using arg_cong [OF items, of "\<lambda>xs. xs ! i"] that len by simp_all
  have ord: "fst (snd (items ! i)) + snd (snd (items ! i)) \<le> fst (snd (items ! j))" if "i < j" "j < 7" for i j
    using lf that len by (auto simp: in_order_def sorted_wrt_iff_nth_less)
  have apart: "\<not> (arena + fst (snd j) \<le> fst it + k \<and> fst it + k < arena + fst (snd j) + snd (snd j))"
    if ij: "it \<in> set items" "j \<in> set items" and k: "0 \<le> k \<and> k < snd (snd it)" for it j k
  proof -
    obtain i where "i < 7" "it = items ! i" using ij(1) len by (auto simp: in_set_conv_nth)
    then have "host \<le> fst it" "fst it + snd (snd it) \<le> host + size_bytes"
      using assms(3) it [of i] by (auto simp: layer_inside_def)
    moreover have "arena + n \<le> host \<or> host + size_bytes \<le> arena" using assms(2) p by (auto simp: malloc_avoids_def)
    moreover have "0 \<le> fst (snd j)" "fst (snd j) + snd (snd j) \<le> n" using lf ij(2) by auto
    ultimately show ?thesis using k by linarith
  qed
  have fm: "cu_mem s' (arena + fst (snd it) + k) = cu_mem s (fst it + k)" if "it \<in> set items" "0 \<le> k" "k < snd (snd it)" for it k
    using fold_mem_copy [of items arena "cu_mem s"] lf apart that unfolding mem by blast
  have out: "cu_mem s' a = cu_mem s a" if "\<forall>it \<in> set items. \<not> (arena + fst (snd it) \<le> a \<and> a < arena + fst (snd it) + snd (snd it))" for a
    using fold_mem_copy [of items arena "cu_mem s"] lf apart that unfolding mem by blast
  have ptr: "fst (layer_specs lw' cfg ! i) = arena + fst (snd (items ! i))" "spec_bytes (layer_specs lw' cfg ! i) = spec_bytes (layer_specs lw cfg ! i)"
    if "i < 7" for i
    using that len layer_specs_ptrs [of "map (\<lambda>it. arena + fst (snd it)) items" i lw cfg]
    by (simp_all add: lw' spec_bytes_def case_prod_beta)
  have one: "arena \<le> arena + fst (snd (items ! i)) \<and> fst (snd (items ! i)) + snd (snd (items ! i)) \<le> n \<and> 256 dvd fst (snd (items ! i)) \<and>
      (\<forall>k. 0 \<le> k \<and> k < snd (snd (items ! i)) \<longrightarrow> cu_mem s' (arena + fst (snd (items ! i)) + k) = cu_mem s (fst (items ! i) + k))" if "i < 7" for i
    using lf nth_mem [of i items] fm [of "items ! i"] that len by simp
  have rest: "cu_mem s' a = cu_mem s a" if "a < arena \<or> arena + n \<le> a" for a
    by (rule out) (use lf that in force)
  have "layer_copied lw lw' cfg s s' arena n"
    unfolding layer_copied_def Let_def
    using one ord by (auto simp: ptr it rest)
  then show ?thesis using o' by blast
qed

definition demo_layer :: layer_weights where
  "demo_layer = layer_weights_zero\<lparr>lw_wq := 4096, lw_wk := 45056, lw_wv := 86016, lw_wo := 126976, lw_w_gate := 167936, lw_w_up := 208896,
     lw_w_down := 249856, lw_type_wq := 12, lw_type_wk := 12, lw_type_wv := 12, lw_type_wo := 12, lw_type_w_gate := 12, lw_type_w_up := 12,
     lw_type_w_down := 12\<rparr>"

definition demo_model_dims :: model_config where
  "demo_model_dims = model_config_default\<lparr>m_n_layers := 1, m_n_heads := 2, m_n_kv_heads := 1, m_head_dim := 128, m_hidden_dim := 256,
     m_intermediate_dim := 256, m_vocab_size := 256\<rparr>"

definition demo_cuda_env :: cuda_env where
  "demo_cuda_env = \<lparr>ce_malloc = (\<lambda>k live n. Some (1000000 + fold (\<lambda>b. max (fst b + \<bar>snd b\<bar> + 1)) live 0)), ce_copy_ok = (\<lambda>k. True), ce_page_size = 4096,
     ce_register_ok = (\<lambda>k. True), ce_device_ptr = (\<lambda>k. Some 7)\<rparr>"

definition demo_cuda :: cuda where
  "demo_cuda = \<lparr>cu_mem = (\<lambda>a. of_int a), cu_live = [], cu_released = [], cu_registered = [], cu_bad_free = False, cu_calls = 0\<rparr>"

lemma fold_max_ge: "v \<le> fold (\<lambda>b. max (g b)) live (v :: int)"
  by (induction live arbitrary: v) (auto intro: order_trans [OF max.cobounded2])

lemma fold_max_ge_elem: "b \<in> set live \<Longrightarrow> g b \<le> fold (\<lambda>b. max (g b)) live (v :: int)"
  by (induction live arbitrary: v) (auto intro: order_trans [OF max.cobounded1 fold_max_ge])

lemma demo_malloc:
  assumes "ce_malloc demo_cuda_env k live n = Some p"
  shows "1000000 \<le> p" "b \<in> set live \<Longrightarrow> fst b + \<bar>snd b\<bar> < p"
  using assms fold_max_ge [of 0 "\<lambda>b. fst b + \<bar>snd b\<bar> + 1" live] fold_max_ge_elem [of b live "\<lambda>b. fst b + \<bar>snd b\<bar> + 1" 0]
  by (auto simp: demo_cuda_env_def)

lemma demo_malloc_ok: "malloc_ok demo_cuda_env"
  unfolding malloc_ok_def using demo_malloc by fastforce

lemma demo_malloc_avoids: "host + n \<le> 1000000 \<Longrightarrow> malloc_avoids demo_cuda_env host n"
  unfolding malloc_avoids_def using demo_malloc(1) by fastforce

theorem layer_copy_exact_witness:
  "\<exists>lw' s' arena n. copy_layer_quant_weights_to_device (\<lambda>_. None) demo_cuda_env demo_layer demo_model_dims [] demo_cuda = (True, lw', [arena], s') \<and>
     layer_copied demo_layer lw' demo_model_dims demo_cuda s' arena n"
proof -
  obtain ok lw' o' s' where run: "copy_layer_quant_weights_to_device (\<lambda>_. None) demo_cuda_env demo_layer demo_model_dims [] demo_cuda = (ok, lw', o', s')"
    by (metis prod_cases4)
  have "fst (copy_layer_quant_weights_to_device (\<lambda>_. None) demo_cuda_env demo_layer demo_model_dims [] demo_cuda)" by code_simp
  then have ok: "ok = True" using run by simp
  have "layer_inside 4096 300000 demo_layer demo_model_dims" by code_simp
  then show ?thesis using layer_copy_exact [OF run [unfolded ok] demo_malloc_avoids, of 4096 300000] run ok by auto
qed

end
