(* ===== verification/Engine_Load.thy ===== *)
theory Engine_Load
  imports Weight_Placement Tokenizer_Load Resume
begin

unbundle bit_operations_syntax

text \<open>
  \<^verbatim>\<open>Engine::load\<close> and \<^verbatim>\<open>Engine::unload\<close> of \<^verbatim>\<open>decode.cu\<close>: the stages of loading in the order of the
  code, with every early return, and what unloading gives back.

  The state \<^verbatim>\<open>loader\<close> has the engine, the fields only loading and unloading use, the one global
  weight region and, beside the device memory of \<^verbatim>\<open>cuda\<close>, the list of live file mappings of the
  process. The size field of the mapping is kept with the address. A CUDA graph is never built by the
  program, so the two graph handles are flags. What the outside answers is \<^verbatim>\<open>load_env\<close>.
\<close>


section \<open>State\<close>

record loader =
  ld_engine :: engine
  ld_loaded :: bool
  ld_path :: string
  ld_weights :: int
  ld_weights_size :: int
  ld_mapped_output :: "(int \<times> int) option"
  ld_owned :: "int list"
  ld_stream :: bool
  ld_graph :: bool
  ld_graph_exec :: bool
  ld_graph_captured :: bool
  ld_region :: weight_region
  ld_cuda :: cuda
  ld_maps :: "int list"

record load_env =
  le_env :: env
  le_meminfo :: "string option"
  le_io :: io_env
  le_fs :: fs
  le_config_file :: "byte list option"
  le_weights_file :: "byte list option"
  le_tokenizer_file :: "byte list option"
  le_map :: map_env
  le_cuda :: cuda_env
  le_kv :: kv_init_env
  le_scratch :: "int option"
  le_sort :: "(string \<times> int) list \<Rightarrow> (string \<times> int) list"
  le_stream_ok :: bool
  le_logits :: "int option"


section \<open>Sizes\<close>

definition choose_context :: "gen_params \<Rightarrow> model_config \<Rightarrow> int \<Rightarrow> int" where
  "choose_context params cfg auto_ctx =
     (let DEFAULT_AUTO_CONTEXT_CAP = (if m_head_dim cfg \<ge> 128 then 4096 else 8192) in
      if gp_context_limit params > 0 then min (min (gp_context_limit params) (m_max_seq_len cfg)) auto_ctx
      else min (min auto_ctx (m_max_seq_len cfg)) DEFAULT_AUTO_CONTEXT_CAP)"

text \<open>The sum is taken in \<^verbatim>\<open>size_t\<close> and added to an \<^verbatim>\<open>int64_t\<close>, which for dimensions of 32 bits is the sum
  of integers.\<close>

definition scratch_bytes_of :: "model_config \<Rightarrow> int" where
  "scratch_bytes_of cfg =
     (let q_dim = m_n_heads cfg * m_head_dim cfg; kv_dim = m_n_kv_heads cfg * m_head_dim cfg;
          b = m_hidden_dim cfg * 2 * 8 + q_dim * 2 * 2 + kv_dim * 2 * 2 + m_intermediate_dim cfg * 2 * 4 + m_vocab_size cfg * 4;
          b = max b (64 * 1024 * 1024)
      in (b + 4095) AND NOT 4095)"


section \<open>Loading\<close>

text \<open>The budget, the fingerprint and the configuration.\<close>

definition load_config :: "load_env \<Rightarrow> string \<Rightarrow> gen_params \<Rightarrow> loader \<Rightarrow> loader option" where
  "load_config le path params L = do {
     let fp = compute_model_fingerprint (le_io le) (le_fs le) path;
     cfg \<leftarrow> load_gguf_config path (le_config_file le);
     Some (L\<lparr>ld_path := path,
             ld_engine := (ld_engine L)\<lparr>en_params := params, en_budget := probe_system_memory (le_meminfo le),
               en_fingerprint := (if fst fp then snd fp else replicate 32 0), en_cfg := cfg\<rparr>\<rparr>)
   }"

text \<open>Whether \<^verbatim>\<open>load_gguf_weights\<close> leaves the mapping registered with CUDA.\<close>

definition weights_registered :: "env \<Rightarrow> map_env \<Rightarrow> bool" where
  "weights_registered e me \<longleftrightarrow> mapped_weight_device_enabled e \<and> me_host_register me"

definition set_mw :: "model_weights \<Rightarrow> loader \<Rightarrow> loader" where
  "set_mw mw L = L\<lparr>ld_engine := (ld_engine L)\<lparr>en_mw := mw\<rparr>\<rparr>"

definition set_budget :: "(memory_budget \<Rightarrow> memory_budget) \<Rightarrow> loader \<Rightarrow> loader" where
  "set_budget f L = L\<lparr>ld_engine := (ld_engine L)\<lparr>en_budget := f (en_budget (ld_engine L))\<rparr>\<rparr>"

definition load_weights :: "load_env \<Rightarrow> loader \<Rightarrow> (bool \<times> loader) option" where
  "load_weights le L = do {
     (ok, blob, mw, r) \<leftarrow> load_and_map_weights (le_env le) (le_map le) (le_weights_file le) (en_cfg (ld_engine L))
        (en_mw (ld_engine L)) (ld_region L);
     let L = set_mw mw (L\<lparr>ld_region := r\<rparr>);
     let L = (case blob of
                None \<Rightarrow> L
              | Some (p, n) \<Rightarrow> L\<lparr>ld_weights := p, ld_weights_size := n, ld_maps := p # ld_maps L,
                  ld_cuda := (ld_cuda L)\<lparr>cu_registered :=
                    (if weights_registered (le_env le) (le_map le) then p # cu_registered (ld_cuda L) else cu_registered (ld_cuda L))\<rparr>\<rparr>);
     Some (ok, L)
   }"

definition load_norms :: "load_env \<Rightarrow> loader \<Rightarrow> bool \<times> loader" where
  "load_norms le L =
     (let cfg = en_cfg (ld_engine L) in
      case materialize_norm_weights (le_cuda le) (en_mw (ld_engine L)) (m_hidden_dim cfg) (m_head_dim cfg) (ld_owned L) (ld_cuda L) of
        (ok, mw, owned, s) \<Rightarrow> (ok, set_mw mw (L\<lparr>ld_owned := owned, ld_cuda := s\<rparr>)))"

text \<open>The context, the KV pool and the scratch pool.\<close>

definition load_buffers :: "load_env \<Rightarrow> loader \<Rightarrow> bool \<times> loader" where
  "load_buffers le L =
     (let L = set_budget (\<lambda>b. b\<lparr>model_mb := (if mapped_weight_device_enabled (le_env le) then ld_weights_size L sdiv (1024 * 1024) else 0)\<rparr>) L;
          E = ld_engine L; cfg = en_cfg E; params = en_params E;
          kv_bytes = (if gp_kv_int8 params then 1 else 2);
          auto_ctx = budget_max_context (en_budget E) (m_n_layers cfg) (m_n_kv_heads cfg) (m_head_dim cfg) kv_bytes;
          ctx = choose_context params cfg auto_ctx;
          c = \<lparr>n_layers = m_n_layers cfg, n_kv_heads = m_n_kv_heads cfg, head_dim = m_head_dim cfg, max_context = ctx,
               overflow_context = kv_overflow_context (le_env le) ctx, kv_type_bytes = kv_bytes\<rparr> in
      case kv_init (le_kv le) c (en_kv E) of
        (ok, kv) \<Rightarrow>
          let L = L\<lparr>ld_engine := E\<lparr>en_fwd := (en_fwd E)\<lparr>f_kv := kv\<rparr>\<rparr>\<rparr> in
          if \<not> ok then (False, L)
          else
            (let L = set_budget (\<lambda>b. b\<lparr>kv_cache_mb := capacity_bytes (kv_cfg kv) sdiv (1024 * 1024)\<rparr>) L;
                 E = ld_engine L;
                 scratch_bytes = scratch_bytes_of cfg in
             case scratch_init (le_scratch le) scratch_bytes (f_scratch (en_fwd E)) of
               (ok, sc) \<Rightarrow>
                 let L = L\<lparr>ld_engine := E\<lparr>en_fwd := (en_fwd E)\<lparr>f_scratch := sc\<rparr>\<rparr>\<rparr> in
                 if \<not> ok then (False, L)
                 else (True, set_budget (\<lambda>b. b\<lparr>scratch_mb := scratch_bytes sdiv (1024 * 1024)\<rparr>) L)))"

text \<open>The placement of the layers and of the output projection.\<close>

definition placement_of :: "loader \<Rightarrow> placement" where
  "placement_of L = \<lparr>pl_mw = en_mw (ld_engine L), pl_owned = ld_owned L, pl_mapped = ld_mapped_output L, pl_region = ld_region L,
     pl_cuda = ld_cuda L\<rparr>"

definition set_placement :: "placement \<Rightarrow> loader \<Rightarrow> loader" where
  "set_placement pl L = set_mw (pl_mw pl) (L\<lparr>ld_owned := pl_owned pl, ld_mapped_output := pl_mapped pl, ld_region := pl_region pl,
     ld_cuda := pl_cuda pl\<rparr>)"

definition add_model_mb :: "int \<Rightarrow> loader \<Rightarrow> loader" where
  "add_model_mb bytes L = set_budget (\<lambda>b. b\<lparr>model_mb := model_mb b + bytes sdiv (1024 * 1024)\<rparr>) L"

definition place_layers :: "load_env \<Rightarrow> loader \<Rightarrow> bool \<times> loader" where
  "place_layers le L =
     (case materialize_layer_weights (le_env le) (le_cuda le) (en_cfg (ld_engine L)) (en_budget (ld_engine L)) (placement_of L) of
        (None, pl) \<Rightarrow> (False, set_placement pl L)
      | (Some bytes, pl) \<Rightarrow> (True, add_model_mb bytes (set_placement pl L)))"

definition place_output :: "load_env \<Rightarrow> bool \<Rightarrow> loader \<Rightarrow> int \<times> loader" where
  "place_output le outs L =
     (case materialize_output_weight (le_env le) (le_cuda le) (en_cfg (ld_engine L)) (en_budget (ld_engine L)) outs (placement_of L) of
        (bytes, pl) \<Rightarrow> (bytes, set_placement pl L))"

definition release_mapping :: "loader \<Rightarrow> loader" where
  "release_mapping L =
     (if ld_weights L \<noteq> 0
      then L\<lparr>ld_cuda := (ld_cuda L)\<lparr>cu_released := cu_released (ld_cuda L) @ [(ld_weights L, ld_weights_size L)]\<rparr>\<rparr> else L)"

definition load_placement :: "load_env \<Rightarrow> loader \<Rightarrow> bool \<times> loader" where
  "load_placement le L =
     (if \<not> mapped_weight_device_enabled (le_env le) then
        (case place_layers le L of
           (ok, L) \<Rightarrow>
             if \<not> ok then (False, L)
             else
               (case place_output le True (release_mapping L) of
                  (bytes, L) \<Rightarrow> if bytes = 0 then (False, L) else (True, add_model_mb bytes L)))
      else
        (case place_output le False L of (bytes, L) \<Rightarrow> place_layers le (add_model_mb bytes L)))"

text \<open>The stream, the tokenizer and the page-locked buffer for the logits.\<close>

definition load_finish :: "load_env \<Rightarrow> loader \<Rightarrow> (bool \<times> loader) option" where
  "load_finish le L = do {
     let L = L\<lparr>ld_stream := le_stream_ok le\<rparr>;
     (ok, t) \<leftarrow> load_from_gguf (le_sort le) (le_tokenizer_file le) (en_tok (ld_engine L));
     let E = (ld_engine L)\<lparr>en_tok := t\<rparr>;
     case le_logits le of
       None \<Rightarrow> Some (False, L\<lparr>ld_engine := E\<rparr>)
     | Some p \<Rightarrow> Some (True, L\<lparr>ld_engine := E\<lparr>en_host_logits := p, en_host_logits_capacity := m_vocab_size (en_cfg E)\<rparr>, ld_loaded := True\<rparr>)
   }"

definition engine_load :: "load_env \<Rightarrow> string \<Rightarrow> gen_params \<Rightarrow> loader \<Rightarrow> (bool \<times> loader) option" where
  "engine_load le path params L = do {
     L \<leftarrow> load_config le path params L;
     (ok, L) \<leftarrow> load_weights le L;
     if \<not> ok then Some (False, L)
     else case load_norms le L of
       (ok, L) \<Rightarrow> if \<not> ok then Some (False, L)
       else case load_buffers le L of
         (ok, L) \<Rightarrow> if \<not> ok then Some (False, L)
         else case load_placement le L of
           (ok, L) \<Rightarrow> if \<not> ok then Some (False, L) else load_finish le L
   }"


section \<open>Unloading\<close>

definition host_unregister :: "int \<Rightarrow> cuda \<Rightarrow> cuda" where
  "host_unregister p s = s\<lparr>cu_registered := remove1 p (cu_registered s)\<rparr>"

definition unload_output :: "loader \<Rightarrow> loader" where
  "unload_output L =
     (case ld_mapped_output L of
        None \<Rightarrow> L
      | Some (base, n) \<Rightarrow> L\<lparr>ld_region := clear_mapped_weight_region base (ld_region L), ld_cuda := host_unregister base (ld_cuda L),
          ld_mapped_output := None\<rparr>)"

definition unload_weights :: "loader \<Rightarrow> loader" where
  "unload_weights L =
     (if ld_weights L = 0 then L
      else
        (let p = ld_weights L;
             s = (if resolve_mapped_weight_device_ptr (ld_region L) p \<noteq> 0 then host_unregister p (ld_cuda L) else ld_cuda L)
         in L\<lparr>ld_region := clear_mapped_weight_region p (ld_region L), ld_cuda := s, ld_maps := remove1 p (ld_maps L), ld_weights := 0\<rparr>))"

definition unload_memory :: "loader \<Rightarrow> loader" where
  "unload_memory L =
     (let L = L\<lparr>ld_graph_exec := False, ld_graph := False, ld_stream := False\<rparr>;
          E = ld_engine L;
          E = (if en_host_logits E \<noteq> 0 then E\<lparr>en_host_logits := 0, en_host_logits_capacity := 0\<rparr> else E);
          E = E\<lparr>en_fwd := (en_fwd E)\<lparr>f_kv := kv_destroy (f_kv (en_fwd E)), f_scratch := scratch_destroy (f_scratch (en_fwd E))\<rparr>\<rparr>
      in L\<lparr>ld_engine := E, ld_cuda := fold cuda_free (ld_owned L) (ld_cuda L), ld_owned := []\<rparr>)"

definition engine_unload :: "loader \<Rightarrow> loader" where
  "engine_unload L =
     (let L = unload_weights (unload_output (unload_memory L));
          E = ld_engine L
      in L\<lparr>ld_engine := E\<lparr>en_mw := (en_mw E)\<lparr>mw_layers := []\<rparr>\<rparr>, ld_loaded := False, ld_graph_captured := False\<rparr>)"


section \<open>What is held\<close>

text \<open>An engine that holds nothing.\<close>

definition nothing_held :: "loader \<Rightarrow> bool" where
  "nothing_held L \<longleftrightarrow> \<not> ld_loaded L \<and> ld_weights L = 0 \<and> ld_maps L = [] \<and> ld_mapped_output L = None \<and> ld_region L = weight_region_none \<and>
     ld_owned L = [] \<and> \<not> ld_stream L \<and> \<not> ld_graph L \<and> \<not> ld_graph_exec L \<and> en_host_logits (ld_engine L) = 0 \<and>
     gpu_pool (en_kv (ld_engine L)) = None \<and> cpu_pool (en_kv (ld_engine L)) = None \<and> kv_scales (en_kv (ld_engine L)) = None \<and>
     sp_base (f_scratch (en_fwd (ld_engine L))) = 0 \<and> mw_layers (en_mw (ld_engine L)) = []"

text \<open>The mapping is registered with CUDA but has no device address, so that nothing was recorded.\<close>

definition lost_registration :: "load_env \<Rightarrow> bool" where
  "lost_registration le \<longleftrightarrow> weights_registered (le_env le) (le_map le) \<and> me_device_ptr (le_map le) \<in> {None, Some 0}"

text \<open>Registered ranges are those the engine knows of.\<close>

definition reg_ok :: "load_env \<Rightarrow> loader \<Rightarrow> bool" where
  "reg_ok le L \<longleftrightarrow>
     (ld_mapped_output L = None \<and> ld_region L = weight_region_none \<and>
        cu_registered (ld_cuda L) = (if lost_registration le \<and> ld_weights L \<noteq> 0 then [ld_weights L] else [])) \<or>
     (mapped_weight_device_enabled (le_env le) \<and> \<not> lost_registration le \<and> ld_mapped_output L = None \<and> ld_weights L \<noteq> 0 \<and> wr_host (ld_region L) = ld_weights L \<and>
        wr_device (ld_region L) \<noteq> 0 \<and> 0 < wr_bytes (ld_region L) \<and> cu_registered (ld_cuda L) = [ld_weights L]) \<or>
     (\<not> mapped_weight_device_enabled (le_env le) \<and> (\<exists>base n. ld_mapped_output L = Some (base, n) \<and> wr_host (ld_region L) = base \<and>
        cu_registered (ld_cuda L) = [base]))"

lemma reg_ok_cong:
  "ld_mapped_output L' = ld_mapped_output L \<Longrightarrow> ld_region L' = ld_region L \<Longrightarrow> ld_weights L' = ld_weights L \<Longrightarrow>
   cu_registered (ld_cuda L') = cu_registered (ld_cuda L) \<Longrightarrow> reg_ok le L' = reg_ok le L"
  by (simp add: reg_ok_def)

definition held :: "load_env \<Rightarrow> int set \<Rightarrow> loader \<Rightarrow> bool" where
  "held le pre L \<longleftrightarrow> malloc_ok (le_cuda le) \<and> accounts pre (ld_owned L) (ld_cuda L) \<and> reg_ok le L \<and> ld_maps L = (if ld_weights L = 0 then [] else [ld_weights L])"

lemma fold_free_registered [simp]: "cu_registered (fold cuda_free owned s) = cu_registered s"
  by (induction owned arbitrary: s) simp_all

lemma host_unregister_simps [simp]:
  "accounts pre owned (host_unregister p s) = accounts pre owned s" "cu_registered (host_unregister p s) = remove1 p (cu_registered s)"
  by (simp_all add: host_unregister_def)

text \<open>Unloading in two halves: the memory, and the mappings with the weight region.\<close>

definition memory_free :: "loader \<Rightarrow> bool" where
  "memory_free L \<longleftrightarrow> ld_owned L = [] \<and> \<not> ld_stream L \<and> \<not> ld_graph L \<and> \<not> ld_graph_exec L \<and> en_host_logits (ld_engine L) = 0 \<and>
     gpu_pool (en_kv (ld_engine L)) = None \<and> cpu_pool (en_kv (ld_engine L)) = None \<and> kv_scales (en_kv (ld_engine L)) = None \<and>
     sp_base (f_scratch (en_fwd (ld_engine L))) = 0"

lemma unload_memory_frees:
  assumes "held le pre L"
  shows "memory_free (unload_memory L)" "accounts pre [] (ld_cuda (unload_memory L))" "reg_ok le (unload_memory L)"
    "ld_maps (unload_memory L) = (if ld_weights L = 0 then [] else [ld_weights L])" "ld_weights (unload_memory L) = ld_weights L"
proof -
  have "reg_ok le (unload_memory L) = reg_ok le L" by (rule reg_ok_cong) (simp_all add: unload_memory_def Let_def)
  then show "reg_ok le (unload_memory L)" using assms by (simp add: held_def)
qed (use assms cu.dealloc_all [of "le_cuda le" pre "ld_owned L" "ld_cuda L"] in
  \<open>simp_all add: unload_memory_def Let_def memory_free_def kv_destroy_def scratch_destroy_def held_def\<close>)

definition finish_unload :: "loader \<Rightarrow> loader" where
  "finish_unload L = L\<lparr>ld_engine := (ld_engine L)\<lparr>en_mw := (en_mw (ld_engine L))\<lparr>mw_layers := []\<rparr>\<rparr>, ld_loaded := False, ld_graph_captured := False\<rparr>"

lemma finish_unload_cuda [simp]: "ld_cuda (finish_unload L) = ld_cuda L"
  by (simp add: finish_unload_def)

lemma nothing_held_finish:
  "memory_free L \<Longrightarrow> ld_weights L = 0 \<Longrightarrow> ld_maps L = [] \<Longrightarrow> ld_mapped_output L = None \<Longrightarrow> ld_region L = weight_region_none \<Longrightarrow> nothing_held (finish_unload L)"
  by (simp add: memory_free_def nothing_held_def finish_unload_def)

lemma unload_mappings:
  assumes m: "memory_free L" and a: "accounts pre [] (ld_cuda L)" and r: "reg_ok le L" and maps: "ld_maps L = (if ld_weights L = 0 then [] else [ld_weights L])"
  defines "U \<equiv> unload_weights (unload_output L)"
  shows "memory_free U \<and> accounts pre [] (ld_cuda U) \<and> ld_weights U = 0 \<and> ld_maps U = [] \<and> ld_mapped_output U = None \<and> ld_region U = weight_region_none \<and>
    cu_registered (ld_cuda U) = (if lost_registration le \<and> ld_weights L \<noteq> 0 then [ld_weights L] else [])"
proof -
  have res: "resolve_mapped_weight_device_ptr weight_region_none p = 0" "clear_mapped_weight_region p weight_region_none = weight_region_none" for p
    by (simp_all add: resolve_mapped_weight_device_ptr_def clear_mapped_weight_region_def weight_region_none_def)
  have clr: "clear_mapped_weight_region (wr_host r) r = weight_region_none" for r by (simp add: clear_mapped_weight_region_def)
  note defs = U_def unload_weights_def unload_output_def memory_free_def Let_def
  show ?thesis using r unfolding reg_ok_def
  proof (elim disjE)
    assume "ld_mapped_output L = None \<and> ld_region L = weight_region_none \<and>
      cu_registered (ld_cuda L) = (if lost_registration le \<and> ld_weights L \<noteq> 0 then [ld_weights L] else [])"
    then show ?thesis using m a maps by (simp add: defs res)
  next
    assume c: "mapped_weight_device_enabled (le_env le) \<and> \<not> lost_registration le \<and> ld_mapped_output L = None \<and> ld_weights L \<noteq> 0 \<and>
      wr_host (ld_region L) = ld_weights L \<and> wr_device (ld_region L) \<noteq> 0 \<and> 0 < wr_bytes (ld_region L) \<and> cu_registered (ld_cuda L) = [ld_weights L]"
    then have "resolve_mapped_weight_device_ptr (ld_region L) (ld_weights L) \<noteq> 0" by (simp add: resolve_mapped_weight_device_ptr_def)
    then show ?thesis using c clr [of "ld_region L"] m a maps by (simp add: defs)
  next
    assume c: "\<not> mapped_weight_device_enabled (le_env le) \<and> (\<exists>base n. ld_mapped_output L = Some (base, n) \<and> wr_host (ld_region L) = base \<and>
      cu_registered (ld_cuda L) = [base])"
    then obtain base n where b: "ld_mapped_output L = Some (base, n)" "wr_host (ld_region L) = base" "cu_registered (ld_cuda L) = [base]" by blast
    have "\<not> lost_registration le" using c by (simp add: lost_registration_def weights_registered_def)
    then show ?thesis using b clr [of "ld_region L"] m a maps by (simp add: defs res)
  qed
qed

lemma unload_of_held:
  assumes "held le pre L"
  shows "nothing_held (engine_unload L) \<and> accounts pre [] (ld_cuda (engine_unload L)) \<and>
    cu_registered (ld_cuda (engine_unload L)) = (if lost_registration le \<and> ld_weights L \<noteq> 0 then [ld_weights L] else [])"
proof -
  note f = unload_memory_frees [OF assms]
  have "engine_unload L = finish_unload (unload_weights (unload_output (unload_memory L)))"
    by (simp add: engine_unload_def finish_unload_def Let_def)
  then show ?thesis using unload_mappings [OF f(1-3)] f(4,5) nothing_held_finish by simp
qed


section \<open>Every stage keeps track\<close>

lemma load_config_cuda: "load_config le path params L = Some L' \<Longrightarrow> ld_cuda L' = ld_cuda L"
  by (auto simp: load_config_def Let_def bind_eq_Some_conv)

lemma load_config_nothing: "nothing_held L \<Longrightarrow> load_config le path params L = Some L' \<Longrightarrow> nothing_held L'"
  by (auto simp: load_config_def Let_def bind_eq_Some_conv nothing_held_def)

lemma load_and_map_cases:
  assumes "load_and_map_weights e me gguf cfg mw0 r = Some (ok, blob, mw, r')"
  shows "\<not> ok \<and> blob = None \<and> mw = mw0 \<and> r' = r \<or>
    (\<exists>p n. blob = Some (p, n) \<and> me_mmap me = Some p \<and> 0 < n \<and>
       r' = (if weights_registered e me \<and> me_device_ptr me \<notin> {None, Some 0} then register_mapped_weight_region p (the (me_device_ptr me)) n else r))"
proof -
  obtain off ts where t: "parse_tensor_infos gguf = Some (off, ts)" using assms by (auto simp: load_and_map_weights_def bind_eq_Some_conv)
  show ?thesis
  proof (cases gguf)
    case None
    then show ?thesis using assms t by (auto simp: load_and_map_weights_def parse_tensor_infos_def)
  next
    case (Some d)
    have "0 < length d" using t Some by (auto simp: parse_tensor_infos_def rd32_def rd_def bind_eq_Some_conv split: if_splits)
    then show ?thesis using assms t Some
      by (cases "me_mmap me"; cases "me_device_ptr me")
         (auto simp: load_and_map_weights_def load_gguf_weights_def weights_registered_def Let_def split: if_splits prod.splits)
  qed
qed

lemma load_weights_held:
  assumes al: "malloc_ok (le_cuda le)" and h: "nothing_held L" "cu_registered (ld_cuda L) = []" "accounts pre [] (ld_cuda L)" and mm: "\<forall>p. me_mmap (le_map le) = Some p \<longrightarrow> p \<noteq> 0"
    and run: "load_weights le L = Some (ok, L')"
  shows "held le pre L' \<and> ld_mapped_output L' = None \<and> (ok \<longrightarrow> ld_weights L' \<noteq> 0)"
proof -
  obtain blob mw r where m: "load_and_map_weights (le_env le) (le_map le) (le_weights_file le) (en_cfg (ld_engine L)) (en_mw (ld_engine L)) (ld_region L) = Some (ok, blob, mw, r)"
    using run by (auto simp: load_weights_def Let_def bind_eq_Some_conv)
  show ?thesis
    using load_and_map_cases [OF m]
  proof (elim disjE exE conjE)
    assume "\<not> ok" "blob = None" "mw = en_mw (ld_engine L)" "r = ld_region L"
    then show ?thesis using run m h al by (simp add: load_weights_def set_mw_def held_def reg_ok_def nothing_held_def)
  next
    fix p n
    assume b: "blob = Some (p, n)" "me_mmap (le_map le) = Some p" "0 < n"
      and r: "r = (if weights_registered (le_env le) (le_map le) \<and> me_device_ptr (le_map le) \<notin> {None, Some 0}
        then register_mapped_weight_region p (the (me_device_ptr (le_map le))) n else ld_region L)"
    have "p \<noteq> 0" using mm b by blast
    have f: "ld_weights L' = p" "ld_maps L' = [p]" "ld_mapped_output L' = None" "ld_region L' = r" "ld_owned L' = []"
      "cu_registered (ld_cuda L') = (if weights_registered (le_env le) (le_map le) then [p] else [])" "accounts pre [] (ld_cuda L')"
      using run m h b by (auto simp: load_weights_def Let_def set_mw_def nothing_held_def)
    have none: "ld_region L = weight_region_none" using h(1) by (simp add: nothing_held_def)
    have "reg_ok le L'"
    proof (cases "weights_registered (le_env le) (le_map le) \<and> me_device_ptr (le_map le) \<notin> {None, Some 0}")
      case True
      then have "mapped_weight_device_enabled (le_env le)" "\<not> lost_registration le" by (auto simp: weights_registered_def lost_registration_def)
      then show ?thesis using True f r \<open>p \<noteq> 0\<close> b(3) by (auto simp: reg_ok_def register_mapped_weight_region_def)
    next
      case False
      then have "lost_registration le = weights_registered (le_env le) (le_map le)" by (auto simp: lost_registration_def)
      moreover have "r = weight_region_none" unfolding r none using False by (rule if_not_P)
      ultimately show ?thesis using f \<open>p \<noteq> 0\<close> by (simp add: reg_ok_def)
    qed
    then show ?thesis using f \<open>p \<noteq> 0\<close> al by (simp add: held_def)
  qed
qed

definition same_maps :: "loader \<Rightarrow> loader \<Rightarrow> bool" where
  "same_maps L L' \<longleftrightarrow> ld_maps L' = ld_maps L \<and> ld_weights L' = ld_weights L \<and> ld_region L' = ld_region L \<and> ld_mapped_output L' = ld_mapped_output L \<and>
     cu_registered (ld_cuda L') = cu_registered (ld_cuda L)"

lemma held_same: "held le pre L \<Longrightarrow> same_maps L L' \<Longrightarrow> accounts pre (ld_owned L') (ld_cuda L') \<Longrightarrow> held le pre L'"
  using reg_ok_cong [of L' L le] by (simp add: held_def same_maps_def)

lemma load_norms_held:
  assumes "malloc_ok (le_cuda le)" "held le pre L" "load_norms le L = (ok, L')"
  shows "held le pre L' \<and> same_maps L L'"
proof -
  let ?cfg = "en_cfg (ld_engine L)"
  obtain ok' mw o1 s where m: "materialize_norm_weights (le_cuda le) (en_mw (ld_engine L)) (m_hidden_dim ?cfg) (m_head_dim ?cfg) (ld_owned L) (ld_cuda L) = (ok', mw, o1, s)"
    by (metis prod_cases4)
  have L': "L' = set_mw mw (L\<lparr>ld_owned := o1, ld_cuda := s\<rparr>)" using assms(3) m by (simp add: load_norms_def)
  have same: "same_maps L L'" using materialize_norm_registered [OF m] by (simp add: L' same_maps_def set_mw_def)
  have "accounts pre (ld_owned L') (ld_cuda L')" using materialize_norm_accounts [OF assms(1) _ m] assms(2) by (simp add: L' set_mw_def held_def)
  then show ?thesis using held_same [OF assms(2) same] same by simp
qed

lemma load_buffers_same: "load_buffers le L = (ok, L') \<Longrightarrow> same_maps L L' \<and> ld_owned L' = ld_owned L \<and> ld_cuda L' = ld_cuda L"
  by (auto simp: load_buffers_def Let_def set_budget_def same_maps_def split: prod.splits if_splits)

lemma placement_fields [simp]:
  "pl_owned (placement_of L) = ld_owned L" "pl_cuda (placement_of L) = ld_cuda L" "pl_region (placement_of L) = ld_region L"
  "pl_mapped (placement_of L) = ld_mapped_output L" "ld_owned (set_placement pl L) = pl_owned pl" "ld_cuda (set_placement pl L) = pl_cuda pl"
  "ld_region (set_placement pl L) = pl_region pl" "ld_mapped_output (set_placement pl L) = pl_mapped pl"
  "ld_maps (set_placement pl L) = ld_maps L" "ld_weights (set_placement pl L) = ld_weights L"
  by (simp_all add: placement_of_def set_placement_def set_mw_def)

lemma add_model_mb_fields [simp]:
  "ld_owned (add_model_mb b L) = ld_owned L" "ld_cuda (add_model_mb b L) = ld_cuda L" "ld_region (add_model_mb b L) = ld_region L"
  "ld_mapped_output (add_model_mb b L) = ld_mapped_output L" "ld_maps (add_model_mb b L) = ld_maps L" "ld_weights (add_model_mb b L) = ld_weights L"
  by (simp_all add: add_model_mb_def set_budget_def)

lemma held_add_model_mb [simp]: "held le pre (add_model_mb b L) = held le pre L"
  using reg_ok_cong [of "add_model_mb b L" L le] by (simp add: held_def)

lemma place_layers_held:
  assumes "malloc_ok (le_cuda le)" "held le pre L" "place_layers le L = (ok, L')"
  shows "held le pre L' \<and> same_maps L L'"
proof -
  obtain q pl where m: "materialize_layer_weights (le_env le) (le_cuda le) (en_cfg (ld_engine L)) (en_budget (ld_engine L)) (placement_of L) = (q, pl)"
    by fastforce
  have L': "L' = set_placement pl L \<or> (\<exists>b. L' = add_model_mb b (set_placement pl L))"
    using assms(3) m by (cases q) (auto simp: place_layers_def)
  have same: "same_maps L L'" using L' materialize_layers_registered [OF m] by (auto simp: same_maps_def)
  have "accounts pre (ld_owned L') (ld_cuda L')"
    using L' materialize_layers_accounts [OF assms(1) _ m] assms(2) by (auto simp: held_def)
  then show ?thesis using held_same [OF assms(2) same] same by simp
qed

lemma release_mapping_held: "held le pre L \<Longrightarrow> held le pre (release_mapping L) \<and> same_maps L (release_mapping L)"
proof -
  assume h: "held le pre L"
  have s: "same_maps L (release_mapping L)" by (simp add: release_mapping_def same_maps_def)
  have "accounts pre (ld_owned (release_mapping L)) (ld_cuda (release_mapping L))" using h by (simp add: held_def release_mapping_def)
  then show ?thesis using held_same [OF h s] s by simp
qed

lemma place_output_held:
  assumes m: "malloc_ok (le_cuda le)" and h: "held le pre L" "ld_mapped_output L = None" and run: "place_output le outs L = (b, L')"
  shows "held le pre L'"
proof -
  obtain pl where o: "materialize_output_weight (le_env le) (le_cuda le) (en_cfg (ld_engine L)) (en_budget (ld_engine L)) outs (placement_of L) = (b, pl)"
    and L': "L' = set_placement pl L"
    using run by (auto simp: place_output_def split: prod.splits)
  have a: "accounts pre (ld_owned L') (ld_cuda L')" using materialize_output_accounts [OF m _ o, of pre] h by (simp add: L' held_def)
  have "same_maps L L' \<or> \<not> mapped_weight_device_enabled (le_env le) \<and> (\<exists>base n. ld_mapped_output L' = Some (base, n) \<and>
      wr_host (ld_region L') = base \<and> cu_registered (ld_cuda L') = base # cu_registered (ld_cuda L))"
    using materialize_output_mapped [OF o] by (auto simp: output_mapped_def same_maps_def L')
  then show ?thesis
  proof
    assume "same_maps L L'"
    then show ?thesis using held_same [OF h(1) _ a] by blast
  next
    assume c: "\<not> mapped_weight_device_enabled (le_env le) \<and> (\<exists>base n. ld_mapped_output L' = Some (base, n) \<and>
      wr_host (ld_region L') = base \<and> cu_registered (ld_cuda L') = base # cu_registered (ld_cuda L))"
    then have "cu_registered (ld_cuda L) = []"
      using h by (auto simp: held_def reg_ok_def lost_registration_def weights_registered_def split: if_splits)
    then have "reg_ok le L'" using c by (auto simp: reg_ok_def)
    then show ?thesis using a h(1) by (simp add: held_def L')
  qed
qed

lemma load_placement_held:
  assumes m: "malloc_ok (le_cuda le)" and h: "held le pre L" "ld_mapped_output L = None" and run: "load_placement le L = (ok, L')"
  shows "held le pre L'"
proof (cases "mapped_weight_device_enabled (le_env le)")
  case True
  obtain b L1 where p: "place_output le False L = (b, L1)" by fastforce
  have "held le pre (add_model_mb b L1)" using place_output_held [OF m h p] by simp
  then show ?thesis using place_layers_held [OF m, of pre "add_model_mb b L1"] run True p by (simp add: load_placement_def)
next
  case False
  obtain ok1 L1 where l: "place_layers le L = (ok1, L1)" by fastforce
  obtain b L2 where p: "place_output le True (release_mapping L1) = (b, L2)" by fastforce
  note h1 = place_layers_held [OF m h(1) l]
  note h2 = release_mapping_held [OF h1 [THEN conjunct1]]
  have "held le pre L2" by (rule place_output_held [OF m _ _ p]) (use h1 h2 h(2) in \<open>auto simp: same_maps_def\<close>)
  then show ?thesis using run False l p h1 by (auto simp: load_placement_def split: if_splits)
qed

lemma load_finish_same: "load_finish le L = Some (ok, L') \<Longrightarrow> same_maps L L' \<and> ld_owned L' = ld_owned L \<and> ld_cuda L' = ld_cuda L"
  by (auto simp: load_finish_def Let_def bind_eq_Some_conv same_maps_def split: option.splits)

lemma held_unchanged: "held le pre L \<Longrightarrow> same_maps L L' \<and> ld_owned L' = ld_owned L \<and> ld_cuda L' = ld_cuda L \<Longrightarrow> held le pre L'"
  using held_same [of le pre L L'] by (simp add: held_def)

lemma engine_load_held:
  assumes m: "malloc_ok (le_cuda le)" and h: "nothing_held L" "cu_registered (ld_cuda L) = []" "accounts pre [] (ld_cuda L)"
    and mm: "\<forall>p. me_mmap (le_map le) = Some p \<longrightarrow> p \<noteq> 0" and run: "engine_load le path params L = Some (ok, L')"
  shows "held le pre L'"
proof -
  obtain L1 where c: "load_config le path params L = Some L1" using run by (auto simp: engine_load_def bind_eq_Some_conv)
  obtain ok2 L2 where w: "load_weights le L1 = Some (ok2, L2)" using run c by (auto simp: engine_load_def bind_eq_Some_conv)
  obtain ok3 L3 where n: "load_norms le L2 = (ok3, L3)" by fastforce
  obtain ok4 L4 where b: "load_buffers le L3 = (ok4, L4)" by fastforce
  obtain ok5 L5 where p: "load_placement le L4 = (ok5, L5)" by fastforce
  have h2: "held le pre L2 \<and> ld_mapped_output L2 = None"
    by (rule load_weights_held [OF m load_config_nothing [OF h(1) c] _ _ mm w, THEN conjE]) (use h load_config_cuda [OF c] in auto)
  have h3: "held le pre L3 \<and> ld_mapped_output L3 = None" using load_norms_held [OF m _ n, of pre] h2 by (simp add: same_maps_def)
  have h4: "held le pre L4 \<and> ld_mapped_output L4 = None"
    using load_buffers_same [OF b] held_unchanged [of le pre L3 L4] h3 by (simp add: same_maps_def)
  have h5: "held le pre L5" using load_placement_held [OF m _ _ p] h4 by blast
  have "L' \<in> {L2, L3, L4, L5} \<or> load_finish le L5 = Some (ok, L')"
    using run c w n b p by (auto simp: engine_load_def split: if_splits)
  then show ?thesis using h2 h3 h4 h5 held_unchanged [OF h5 load_finish_same] by auto
qed

text \<open>(C13) Loading and unloading: from an engine that holds nothing, after \<^verbatim>\<open>load\<close> has succeeded or has failed
  at whatever point, \<^verbatim>\<open>unload\<close> leaves an engine that holds nothing; the live device blocks are those of
  before, no block was freed twice, and the host ranges are no longer registered unless CUDA registered
  the file mapping without giving it a device address.\<close>

theorem load_unload_releases:
  assumes "malloc_ok (le_cuda le)" "\<forall>p. me_mmap (le_map le) = Some p \<longrightarrow> p \<noteq> 0"
    and "nothing_held L" "cu_registered (ld_cuda L) = []" "distinct (map fst (cu_live (ld_cuda L)))" "\<not> cu_bad_free (ld_cuda L)"
    and "engine_load le path params L = Some (ok, L')"
  shows "let U = engine_unload L' in nothing_held U \<and> fst ` set (cu_live (ld_cuda U)) = fst ` set (cu_live (ld_cuda L)) \<and>
    \<not> cu_bad_free (ld_cuda U) \<and> (lost_registration le \<or> cu_registered (ld_cuda U) = [])"
proof -
  have "accounts (fst ` set (cu_live (ld_cuda L))) [] (ld_cuda L)" using assms(5,6) by (simp add: accounts_def)
  then have "held le (fst ` set (cu_live (ld_cuda L))) L'" using engine_load_held assms by blast
  then show ?thesis using unload_of_held by (auto simp: Let_def accounts_def)
qed

lemma engine_load_success:
  assumes "engine_load le path params L = Some (True, L')"
  obtains L1 L2 L3 L4 L5 where "load_config le path params L = Some L1" "load_weights le L1 = Some (True, L2)" "load_norms le L2 = (True, L3)"
    "load_buffers le L3 = (True, L4)" "load_placement le L4 = (True, L5)" "load_finish le L5 = Some (True, L')"
proof -
  obtain L1 where c: "load_config le path params L = Some L1" using assms by (auto simp: engine_load_def bind_eq_Some_conv)
  obtain ok2 L2 where w: "load_weights le L1 = Some (ok2, L2)" using assms c by (auto simp: engine_load_def bind_eq_Some_conv)
  obtain ok3 L3 where n: "load_norms le L2 = (ok3, L3)" by fastforce
  obtain ok4 L4 where b: "load_buffers le L3 = (ok4, L4)" by fastforce
  obtain ok5 L5 where p: "load_placement le L4 = (ok5, L5)" by fastforce
  show ?thesis using that c w n b p assms by (auto simp: engine_load_def split: if_splits)
qed

lemma place_weights [simp]:
  "place_layers le L = (ok, L') \<Longrightarrow> ld_weights L' = ld_weights L" "place_output le outs L = (b, L') \<Longrightarrow> ld_weights L' = ld_weights L"
  "ld_weights (release_mapping L) = ld_weights L"
  by (auto simp: place_layers_def place_output_def release_mapping_def split: prod.splits option.splits)

lemma load_placement_weights: "load_placement le L = (ok, L') \<Longrightarrow> ld_weights L' = ld_weights L"
  by (auto simp: load_placement_def split: prod.splits if_splits)

lemma load_weights_mapping:
  assumes "load_weights le L = Some (True, L')"
  shows "me_mmap (le_map le) = Some (ld_weights L')"
proof -
  obtain blob mw r where m: "load_and_map_weights (le_env le) (le_map le) (le_weights_file le) (en_cfg (ld_engine L)) (en_mw (ld_engine L)) (ld_region L) = Some (True, blob, mw, r)"
    using assms by (auto simp: load_weights_def Let_def bind_eq_Some_conv)
  then show ?thesis using load_and_map_cases [OF m] assms by (auto simp: load_weights_def Let_def set_mw_def)
qed

text \<open>(C39) The exception is real: when CUDA registers the file mapping but gives no device address, a
  successful \<^verbatim>\<open>load\<close> followed by \<^verbatim>\<open>unload\<close> unmaps the file while its range is still registered.\<close>

theorem unload_forgets_registration:
  assumes "malloc_ok (le_cuda le)" "\<forall>p. me_mmap (le_map le) = Some p \<longrightarrow> p \<noteq> 0"
    and "nothing_held L" "cu_registered (ld_cuda L) = []" "distinct (map fst (cu_live (ld_cuda L)))" "\<not> cu_bad_free (ld_cuda L)"
    and "engine_load le path params L = Some (True, L')" "lost_registration le"
  shows "\<exists>p. me_mmap (le_map le) = Some p \<and> cu_registered (ld_cuda (engine_unload L')) = [p] \<and> p \<notin> set (ld_maps (engine_unload L'))"
proof -
  have "accounts (fst ` set (cu_live (ld_cuda L))) [] (ld_cuda L)" using assms(5,6) by (simp add: accounts_def)
  then have h: "held le (fst ` set (cu_live (ld_cuda L))) L'" using engine_load_held assms by blast
  obtain L1 L2 L3 L4 L5 where s: "load_weights le L1 = Some (True, L2)" "load_norms le L2 = (True, L3)" "load_buffers le L3 = (True, L4)"
    "load_placement le L4 = (True, L5)" "load_finish le L5 = Some (True, L')"
    using engine_load_success [OF assms(7)] by metis
  have n: "ld_weights L3 = ld_weights L2" using s(2) by (auto simp: load_norms_def Let_def set_mw_def split: prod.splits)
  have "me_mmap (le_map le) = Some (ld_weights L')"
    using load_weights_mapping [OF s(1)] n load_buffers_same [OF s(3)] load_placement_weights [OF s(4)] load_finish_same [OF s(5)]
    by (simp add: same_maps_def)
  then show ?thesis using unload_of_held [OF h] assms(2,8) by (simp add: nothing_held_def)
qed


section \<open>A loaded engine\<close>

text \<open>The parts that the placement of the weights leaves alone.\<close>

definition core_of :: "engine \<Rightarrow> model_config \<times> gen_params \<times> byte list \<times> fwd" where
  "core_of E = (en_cfg E, en_params E, en_fingerprint E, en_fwd E)"

lemma core_simps [simp]:
  "core_of (ld_engine (set_placement pl L)) = core_of (ld_engine L)" "core_of (ld_engine (add_model_mb b L)) = core_of (ld_engine L)"
  "core_of (ld_engine (release_mapping L)) = core_of (ld_engine L)"
  by (simp_all add: core_of_def set_placement_def set_mw_def add_model_mb_def set_budget_def release_mapping_def)

lemma place_core:
  "place_layers le L = (ok, L') \<Longrightarrow> core_of (ld_engine L') = core_of (ld_engine L)"
  "place_output le outs L = (b, L') \<Longrightarrow> core_of (ld_engine L') = core_of (ld_engine L)"
  by (auto simp: place_layers_def place_output_def split: prod.splits option.splits)

lemma load_placement_core: "load_placement le L = (ok, L') \<Longrightarrow> core_of (ld_engine L') = core_of (ld_engine L)"
  by (auto simp: load_placement_def place_core split: prod.splits if_splits)

lemma load_finish_engine:
  "load_finish le L = Some (True, L') \<Longrightarrow> core_of (ld_engine L') = core_of (ld_engine L) \<and>
     le_logits le = Some (en_host_logits (ld_engine L')) \<and> en_host_logits_capacity (ld_engine L') = m_vocab_size (en_cfg (ld_engine L'))"
  by (auto simp: load_finish_def Let_def bind_eq_Some_conv core_of_def split: option.splits)

text \<open>The budget when the context is chosen, and the shape of the KV pool.\<close>

definition context_budget :: "load_env \<Rightarrow> loader \<Rightarrow> memory_budget" where
  "context_budget le L = (probe_system_memory (le_meminfo le))\<lparr>model_mb :=
     (if mapped_weight_device_enabled (le_env le) then ld_weights_size L sdiv (1024 * 1024) else 0)\<rparr>"

definition kv_shape :: "env \<Rightarrow> gen_params \<Rightarrow> model_config \<Rightarrow> memory_budget \<Rightarrow> kv_config" where
  "kv_shape e params cfg b =
     (let kv_bytes = (if gp_kv_int8 params then 1 else 2);
          ctx = choose_context params cfg (budget_max_context b (m_n_layers cfg) (m_n_kv_heads cfg) (m_head_dim cfg) kv_bytes)
      in \<lparr>n_layers = m_n_layers cfg, n_kv_heads = m_n_kv_heads cfg, head_dim = m_head_dim cfg, max_context = ctx,
          overflow_context = kv_overflow_context e ctx, kv_type_bytes = kv_bytes\<rparr>)"

lemma load_buffers_engine:
  assumes "load_buffers le L = (True, L')"
  defines "E \<equiv> ld_engine L" and "E' \<equiv> ld_engine L'"
  shows "en_cfg E' = en_cfg E \<and> en_params E' = en_params E \<and> en_fingerprint E' = en_fingerprint E \<and>
    kv_init (le_kv le) (kv_shape (le_env le) (en_params E) (en_cfg E) ((en_budget E)\<lparr>model_mb :=
        (if mapped_weight_device_enabled (le_env le) then ld_weights_size L sdiv (1024 * 1024) else 0)\<rparr>)) (en_kv E) = (True, en_kv E') \<and>
    scratch_init (le_scratch le) (scratch_bytes_of (en_cfg E)) (f_scratch (en_fwd E)) = (True, f_scratch (en_fwd E'))"
  using assms unfolding load_buffers_def kv_shape_def Let_def set_budget_def
  by (auto split: prod.splits if_splits)

lemma buffers_weights_size: "load_buffers le L = (ok, L') \<Longrightarrow> ld_weights_size L' = ld_weights_size L"
  by (auto simp: load_buffers_def Let_def set_budget_def split: prod.splits if_splits)

lemma place_weights_size [simp]:
  "place_layers le L = (ok, L') \<Longrightarrow> ld_weights_size L' = ld_weights_size L" "place_output le outs L = (b, L') \<Longrightarrow> ld_weights_size L' = ld_weights_size L"
  "ld_weights_size (release_mapping L) = ld_weights_size L" "ld_weights_size (add_model_mb b L) = ld_weights_size L"
  by (auto simp: place_layers_def place_output_def release_mapping_def set_placement_def set_mw_def add_model_mb_def set_budget_def
      split: prod.splits option.splits)

lemma placement_weights_size: "load_placement le L = (ok, L') \<Longrightarrow> ld_weights_size L' = ld_weights_size L"
  by (auto simp: load_placement_def split: prod.splits if_splits)

lemma finish_weights_size: "load_finish le L = Some (ok, L') \<Longrightarrow> ld_weights_size L' = ld_weights_size L"
  by (auto simp: load_finish_def Let_def bind_eq_Some_conv split: option.splits)

lemma load_norms_engine:
  "load_norms le L = (ok, L') \<Longrightarrow> core_of (ld_engine L') = core_of (ld_engine L) \<and> en_budget (ld_engine L') = en_budget (ld_engine L) \<and>
     ld_weights_size L' = ld_weights_size L"
  by (auto simp: load_norms_def Let_def set_mw_def core_of_def split: prod.splits)

lemma load_weights_engine:
  "load_weights le L = Some (ok, L') \<Longrightarrow> core_of (ld_engine L') = core_of (ld_engine L) \<and> en_budget (ld_engine L') = en_budget (ld_engine L)"
  by (auto simp: load_weights_def Let_def bind_eq_Some_conv set_mw_def core_of_def split: option.splits)

lemma fingerprint_length: "length (if fst (compute_model_fingerprint io f p) then snd (compute_model_fingerprint io f p) else replicate 32 0) = 32"
  by (auto simp: compute_model_fingerprint_def Let_def split: option.splits prod.splits if_splits)

lemma load_config_engine:
  assumes "load_config le path params L = Some L'"
  shows "en_params (ld_engine L') = params \<and> length (en_fingerprint (ld_engine L')) = 32 \<and> en_fwd (ld_engine L') = en_fwd (ld_engine L) \<and>
     en_budget (ld_engine L') = probe_system_memory (le_meminfo le) \<and> load_gguf_config path (le_config_file le) = Some (en_cfg (ld_engine L'))"
proof -
  obtain cfg where c: "load_gguf_config path (le_config_file le) = Some cfg" using assms by (auto simp: load_config_def Let_def bind_eq_Some_conv)
  then show ?thesis using assms fingerprint_length [of "le_io le" "le_fs le" path] by (auto simp: load_config_def Let_def)
qed

text \<open>The facts of a successful load.\<close>

lemma engine_load_facts:
  assumes "engine_load le path params L = Some (True, L')"
  defines "E \<equiv> ld_engine L'"
  shows "en_params E = params \<and> length (en_fingerprint E) = 32 \<and> load_gguf_config path (le_config_file le) = Some (en_cfg E) \<and>
    le_logits le = Some (en_host_logits E) \<and> en_host_logits_capacity E = m_vocab_size (en_cfg E) \<and>
    scratch_init (le_scratch le) (scratch_bytes_of (en_cfg E)) (f_scratch (en_fwd (ld_engine L))) = (True, f_scratch (en_fwd E)) \<and>
    kv_init (le_kv le) (kv_shape (le_env le) params (en_cfg E) (context_budget le L')) (en_kv (ld_engine L)) = (True, en_kv E)"
proof -
  obtain L1 L2 L3 L4 L5 where s: "load_config le path params L = Some L1" "load_weights le L1 = Some (True, L2)" "load_norms le L2 = (True, L3)"
    "load_buffers le L3 = (True, L4)" "load_placement le L4 = (True, L5)" "load_finish le L5 = Some (True, L')"
    using engine_load_success [OF assms(1)] by metis
  have "core_of E = core_of (ld_engine L4)" using load_placement_core [OF s(5)] load_finish_engine [OF s(6)] by (simp add: E_def)
  then have E: "en_cfg E = en_cfg (ld_engine L4)" "en_params E = en_params (ld_engine L4)" "en_fingerprint E = en_fingerprint (ld_engine L4)"
    "en_fwd E = en_fwd (ld_engine L4)" by (simp_all add: core_of_def)
  have "core_of (ld_engine L3) = core_of (ld_engine L1)" "en_budget (ld_engine L3) = en_budget (ld_engine L1)"
    using load_weights_engine [OF s(2)] load_norms_engine [OF s(3)] by simp_all
  then have E3: "en_cfg (ld_engine L3) = en_cfg (ld_engine L1)" "en_params (ld_engine L3) = params"
    "en_fingerprint (ld_engine L3) = en_fingerprint (ld_engine L1)" "en_fwd (ld_engine L3) = en_fwd (ld_engine L)"
    "en_budget (ld_engine L3) = probe_system_memory (le_meminfo le)"
    using load_config_engine [OF s(1)] by (simp_all add: core_of_def)
  note b = load_buffers_engine [OF s(4), unfolded E3] and f = load_finish_engine [OF s(6), folded E_def] and c = load_config_engine [OF s(1)]
  moreover have "ld_weights_size L' = ld_weights_size L3"
    using buffers_weights_size [OF s(4)] placement_weights_size [OF s(5)] finish_weights_size [OF s(6)] by simp
  ultimately show ?thesis unfolding E context_budget_def by (cases "mapped_weight_device_enabled (le_env le)") simp_all
qed

lemma kv_init_cfg: "kv_init ke c p = (True, p') \<Longrightarrow> overflow_context c = 0 \<Longrightarrow> kv_cfg p' = c"
  by (auto simp: kv_init_def Let_def split: if_splits)

lemma scratch_init_done: "scratch_init m n p0 = (True, p') \<Longrightarrow> \<exists>p. m = Some p \<and> sp_base p' = p \<and> sp_capacity p' = n"
  by (auto simp: scratch_init_def split: option.splits)

text \<open>The models the refinement of generation speaks of.\<close>

definition model_sane :: "model_config \<Rightarrow> bool" where
  "model_sane cfg \<longleftrightarrow> 0 < m_n_layers cfg \<and> 0 < m_n_kv_heads cfg \<and> 0 < m_head_dim cfg \<and> even (m_head_dim cfg) \<and> 0 \<le> m_n_heads cfg \<and>
     0 \<le> m_hidden_dim cfg \<and> 0 \<le> m_intermediate_dim cfg \<and> 0 < m_vocab_size cfg \<and> m_vocab_size cfg < 2 ^ 31 \<and> step_need cfg \<le> scratch_bytes_of cfg"

definition device_sane ::
  "device \<Rightarrow> (wref \<Rightarrow> half list \<Rightarrow> nat \<Rightarrow> half list) \<Rightarrow> (attn_args \<Rightarrow> nat \<Rightarrow> half list) \<Rightarrow> load_env \<Rightarrow> bool"
where
  "device_sane d G A le \<longleftrightarrow> infer_contract (d_fp d) (d_inf d) G A \<and> junk_ok d \<and> logits_ok d \<and> d_env d = le_env le \<and>
     CHR 0x00 \<notin> set (default_kv_cache_dir (le_env le)) \<and> (\<forall>p. le_scratch le = Some p \<longrightarrow> 0 < p) \<and> (\<forall>p. le_logits le = Some p \<longrightarrow> p \<noteq> 0)"

definition no_cache_files :: "env \<Rightarrow> sys \<Rightarrow> bool" where
  "no_cache_files e fsys \<longleftrightarrow> (\<forall>f \<in> {sys_fs fsys} \<union> set (sys_log fsys). \<forall>conv. f (c_str (conv_file e conv)) = None)"

lemma load_session_inv:
  assumes load: "engine_load le path params L = Some (True, L')"
    and dev: "device_sane d G A le" and model: "model_sane (en_cfg (ld_engine L'))"
    and fp16: "\<not> gp_kv_int8 params" "le_env le ''JLLM_KV_OVERFLOW'' = None"
    and ctx: "0 < max_context (kv_cfg (en_kv (ld_engine L')))"
    and emb: "emb_ok d (en_cfg (ld_engine L')) (en_mw (ld_engine L'))" and cache: "no_cache_files (le_env le) fsys"
  shows "session_inv d G A (kv_cfg (en_kv (ld_engine L'))) (ld_engine L') fsys \<and> used_tokens (en_kv (ld_engine L')) = 0"
proof -
  define E where "E = ld_engine L'"
  note f = engine_load_facts [OF load, folded E_def]
  obtain c0 where kv: "kv_init (le_kv le) c0 (en_kv (ld_engine L)) = (True, en_kv E)"
    and c0: "\<exists>b. c0 = kv_shape (le_env le) params (en_cfg E) b" using f by blast
  have ov: "overflow_context c0 = 0" using c0 fp16(2) by (auto simp: kv_shape_def kv_overflow_context_def Let_def)
  have c: "kv_cfg (en_kv E) = c0" using kv_init_cfg [OF kv ov] .
  have ok: "kv_cfg_ok c0" "dims_ok (en_cfg E) c0"
    using c0 model ctx [folded E_def] ov fp16(1) unfolding c by (auto simp: kv_shape_def kv_cfg_ok_def dims_ok_def model_sane_def Let_def E_def)
  have at: "kv_pool_at c0 (en_kv E)" "used_tokens (en_kv E) = 0" using kv_init_ok [OF kv ok(1)] c by auto
  obtain p where p: "le_scratch le = Some p" "sp_base (f_scratch (en_fwd E)) = p" "sp_capacity (f_scratch (en_fwd E)) = scratch_bytes_of (en_cfg E)"
    using f scratch_init_done by blast
  have "engine_ok d G A c0 E"
    using ok at ov p f dev model emb by (auto simp: engine_ok_def fwd_ok_def device_sane_def model_sane_def E_def [symmetric])
  moreover have "log_faithful d G A c0 E (d_env d) fsys"
    using cache dev by (auto simp: log_faithful_def cache_faithful_def no_cache_files_def device_sane_def)
  ultimately show ?thesis using at f dev unfolding E_def [symmetric] c by (simp add: session_inv_def device_sane_def)
qed

text \<open>Loading establishes the invariant of a session: after a successful \<^verbatim>\<open>load\<close> with the FP16 cache and no
  overflow pool, of a model with sane dimensions whose embedding rows can be read and with no cache files
  yet, the engine is in a state from which every session of turns and crashes keeps to the reference;
  the cache is empty.\<close>

theorem load_establishes_session:
  assumes load: "engine_load le path params L = Some (True, L')"
    and dev: "device_sane d G A le" and model: "model_sane (en_cfg (ld_engine L'))"
    and fp16: "\<not> gp_kv_int8 params" "le_env le ''JLLM_KV_OVERFLOW'' = None"
    and ctx: "0 < max_context (kv_cfg (en_kv (ld_engine L')))"
    and emb: "emb_ok d (en_cfg (ld_engine L')) (en_mw (ld_engine L'))" and cache: "no_cache_files (le_env le) fsys"
  shows "session_inv d G A (kv_cfg (en_kv (ld_engine L'))) (ld_engine L') fsys \<and> used_tokens (en_kv (ld_engine L')) = 0"
  by (rule load_session_inv [OF assms])

lemma to_int32_le: "0 \<le> v \<Longrightarrow> to_int32 v \<le> v"
proof (cases "v < 2 ^ 31")
  case False
  then show ?thesis using to_int32_range [of v] by linarith
qed (simp add: to_int32_id)

lemma auto_context_fits:
  assumes "0 \<le> max_kv_mb b" "0 < ly" "0 < kh" "0 < dm" "0 < kb"
  shows "budget_max_context b ly kh dm kb * (2 * ly * kh * dm * kb) \<le> max_kv_mb b * 1024 * 1024"
proof -
  define per M where "per = 2 * ly * kh * dm * kb" and "M = max_kv_mb b * 1024 * 1024"
  have per: "0 < per" using assms by (simp add: per_def)
  have M: "0 \<le> M" using assms(1) by (simp add: M_def)
  then have q: "M sdiv per = M div per" using per by (cases "M = 0") (simp_all add: signed_divide_int_def)
  have "budget_max_context b ly kh dm kb = to_int32 (M div per)"
    using per q by (simp add: budget_max_context_def Let_def per_def [symmetric] M_def [symmetric])
  also have "\<dots> \<le> M div per" using M per by (intro to_int32_le) (simp add: pos_imp_zdiv_nonneg_iff)
  finally have "budget_max_context b ly kh dm kb * per \<le> M div per * per" using per by (intro mult_right_mono) simp_all
  also have "\<dots> \<le> M" using div_mult_mod_eq [of M per] pos_mod_sign [OF per, of M] by linarith
  finally show ?thesis by (simp add: per_def M_def)
qed

lemma choose_context_le: "choose_context params cfg a \<le> a" "choose_context params cfg a \<le> m_max_seq_len cfg"
  "0 < gp_context_limit params \<Longrightarrow> choose_context params cfg a \<le> gp_context_limit params"
  by (auto simp: choose_context_def Let_def)


end
