(* ===== verification/Cli.thy ===== *)
theory Cli
  imports Chat_Server Engine_Load
begin

text \<open>
  The two programs: \<^verbatim>\<open>src/main.cpp\<close> (the command line) and the argument loop of
  \<^verbatim>\<open>src/main_server.cpp\<close>.

  Arguments are the list after the program name. \<^verbatim>\<open>atof\<close> is a parameter. Messages to
  the user are left out; what the command line does is its exit status, or an abort on an exception
  that nothing catches, and the calls of \<^verbatim>\<open>generate\<close> it makes.
\<close>


section \<open>Arguments\<close>

record args =
  a_model_path :: string
  a_prompt :: string
  a_max_tokens :: int
  a_context :: int
  a_temperature :: f32
  a_top_k :: int
  a_top_p :: f32
  a_interactive :: bool
  a_verbose :: bool
  a_kv_int8 :: bool
  a_chat :: bool
  a_raw_prompt :: bool
  a_think :: bool
  a_conversation_id :: string

definition args_default :: args where
  "args_default = \<lparr>a_model_path = [], a_prompt = [], a_max_tokens = 256, a_context = 0, a_temperature = 0x3F333333, a_top_k = 40, a_top_p = 0x3F666666,
     a_interactive = False, a_verbose = False, a_kv_int8 = True, a_chat = False, a_raw_prompt = False, a_think = False, a_conversation_id = []\<rparr>"

text \<open>The options with a value, which they take only if there is one; the flags. \<^verbatim>\<open>None\<close> is an option that is not
  of the kind.\<close>

definition value_option :: "(string \<Rightarrow> f32) \<Rightarrow> string \<Rightarrow> string \<Rightarrow> args \<Rightarrow> args option" where
  "value_option atof opt v a =
     (if opt = ''-m'' then Some (a\<lparr>a_model_path := v\<rparr>)
      else if opt = ''-p'' then Some (a\<lparr>a_prompt := v\<rparr>)
      else if opt = ''-n'' then Some (a\<lparr>a_max_tokens := c_atoi v\<rparr>)
      else if opt = ''-c'' then Some (a\<lparr>a_context := c_atoi v\<rparr>)
      else if opt = ''-t'' then Some (a\<lparr>a_temperature := atof v\<rparr>)
      else if opt = ''--conv-id'' then Some (a\<lparr>a_conversation_id := v\<rparr>)
      else None)"

definition flag_option :: "string \<Rightarrow> args \<Rightarrow> args option" where
  "flag_option opt a =
     (if opt = ''-i'' then Some (a\<lparr>a_interactive := True\<rparr>)
      else if opt = ''-v'' then Some (a\<lparr>a_verbose := True\<rparr>)
      else if opt = ''--int8-kv'' then Some (a\<lparr>a_kv_int8 := True\<rparr>)
      else if opt = ''--fp16-kv'' then Some (a\<lparr>a_kv_int8 := False\<rparr>)
      else if opt = ''--chat'' then Some (a\<lparr>a_chat := True\<rparr>)
      else if opt = ''--raw'' then Some (a\<lparr>a_raw_prompt := True\<rparr>)
      else if opt = ''--think'' then Some (a\<lparr>a_think := True\<rparr>)
      else if opt = ''--no-think'' then Some (a\<lparr>a_think := False\<rparr>)
      else None)"

text \<open>\<^verbatim>\<open>None\<close> is the exit of \<^verbatim>\<open>--version\<close> and \<^verbatim>\<open>--help\<close>.\<close>

function parse_args_from :: "(string \<Rightarrow> f32) \<Rightarrow> string list \<Rightarrow> args \<Rightarrow> args option" where
  "parse_args_from atof [] a = Some a"
| "parse_args_from atof (opt # rest) a =
     (case (if rest \<noteq> [] then value_option atof opt (hd rest) a else None) of
        Some a \<Rightarrow> parse_args_from atof (tl rest) a
      | None \<Rightarrow>
          (case flag_option opt a of
             Some a \<Rightarrow> parse_args_from atof rest a
           | None \<Rightarrow>
               if opt \<in> {''-V'', ''--version'', ''-h'', ''--help''} then None
               else parse_args_from atof rest a))"
  by pat_completeness auto
termination
  by (relation "measure (\<lambda>(atof, argv, a). length argv)") auto

definition parse_args :: "(string \<Rightarrow> f32) \<Rightarrow> string list \<Rightarrow> args option" where
  "parse_args atof argv = parse_args_from atof argv args_default"

text \<open>The server's arguments: the model, the port, the context and the cache format.\<close>

function server_args :: "string list \<Rightarrow> string \<times> int \<times> int \<times> bool \<Rightarrow> (string \<times> int \<times> int \<times> bool) option" where
  "server_args [] a = Some a"
| "server_args (opt # rest) (model_path, port, context, kv_int8) =
     (if opt = ''-m'' \<and> rest \<noteq> [] then server_args (tl rest) (hd rest, port, context, kv_int8)
      else if opt = ''-p'' \<and> rest \<noteq> [] then server_args (tl rest) (model_path, c_atoi (hd rest), context, kv_int8)
      else if opt = ''-c'' \<and> rest \<noteq> [] then server_args (tl rest) (model_path, port, c_atoi (hd rest), kv_int8)
      else if opt = ''--int8-kv'' then server_args rest (model_path, port, context, True)
      else if opt = ''--fp16-kv'' then server_args rest (model_path, port, context, False)
      else if opt \<in> {''-V'', ''--version'', ''-h''} then None
      else server_args rest (model_path, port, context, kv_int8))"
  by pat_completeness auto
termination
  by (relation "measure (\<lambda>(argv, a). length argv)") auto

definition server_params :: "int \<Rightarrow> bool \<Rightarrow> gen_params" where
  "server_params context kv_int8 = gen_params_default\<lparr>gp_context_limit := context, gp_kv_int8 := kv_int8\<rparr>"


section \<open>The prompt\<close>

definition lower_copy :: "string \<Rightarrow> string" where
  "lower_copy s = map (\<lambda>c. if CHR ''A'' \<le> c \<and> c \<le> CHR ''Z'' then char_of (of_char c + (32 :: nat)) else c) s"

definition contains_ci :: "string \<Rightarrow> string \<Rightarrow> bool" where
  "contains_ci haystack needle \<longleftrightarrow> str_find needle (lower_copy haystack) \<noteq> None"

definition already_chat_formatted :: "string \<Rightarrow> bool" where
  "already_chat_formatted prompt \<longleftrightarrow> str_find ''<|im_start|>'' prompt \<noteq> None \<or> str_find ''<|start_header_id|>'' prompt \<noteq> None \<or>
     str_find ''[INST]'' prompt \<noteq> None"

definition should_apply_chat_template :: "args \<Rightarrow> model_config \<Rightarrow> bool" where
  "should_apply_chat_template a cfg =
     (if a_raw_prompt a then False
      else if a_chat a then True
      else contains_ci (m_name cfg) ''instruct'' \<or> contains_ci (m_name cfg) ''chat'')"

definition qwen_chat_prompt :: "string \<Rightarrow> bool \<Rightarrow> string" where
  "qwen_chat_prompt user_prompt think =
     ''<|im_start|>user'' @ newline @ user_prompt @ ''<|im_end|>'' @ newline @ ''<|im_start|>assistant'' @ newline @
     (if think then [] else ''<think>'' @ newline @ newline @ ''</think>'' @ newline @ newline)"

definition format_prompt :: "string \<Rightarrow> args \<Rightarrow> model_config \<Rightarrow> string" where
  "format_prompt prompt a cfg =
     (if \<not> should_apply_chat_template a cfg \<or> already_chat_formatted prompt then prompt else qwen_chat_prompt prompt (a_think a))"


section \<open>The command line\<close>

definition cli_params :: "args \<Rightarrow> gen_params" where
  "cli_params a =
     (let params = gen_params_default\<lparr>gp_max_tokens := a_max_tokens a, gp_temperature := a_temperature a, gp_top_k := a_top_k a, gp_top_p := a_top_p a,
            gp_context_limit := a_context a, gp_kv_int8 := a_kv_int8 a\<rparr> in
      if a_conversation_id a \<noteq> [] \<and> validate_conversation_id (a_conversation_id a)
      then params\<lparr>gp_conversation_id := a_conversation_id a\<rparr> else params)"

text \<open>The lines of the interactive mode that become prompts; \<^verbatim>\<open>fgets\<close> reads at most 4095 bytes.\<close>

function interactive_lines :: "string \<Rightarrow> string list" where
  "interactive_lines inp =
     (if inp = [] then []
      else case fgets_chunk 4095 inp of
        (line, rest) \<Rightarrow>
          (let line = takeWhile (\<lambda>c. c \<noteq> CHR 0x0A) (c_str line) in
           if line = ''quit'' \<or> line = ''exit'' then []
           else if line = [] then interactive_lines rest
           else line # interactive_lines rest))"
  by pat_completeness auto
termination
  by (relation "measure length") (auto, (metis fgets_chunk_shrinks snd_conv zero_less_numeral)+)

declare interactive_lines.simps [simp del]

definition cli_prompts :: "args \<Rightarrow> model_config \<Rightarrow> string \<Rightarrow> string list" where
  "cli_prompts a cfg inp =
     (if a_interactive a then map (\<lambda>line. format_prompt line a cfg) (interactive_lines inp)
      else if a_prompt a \<noteq> [] then [format_prompt (a_prompt a) a cfg]
      else [])"

text \<open>The calls of \<^verbatim>\<open>generate\<close>, one world for each.\<close>

fun run_prompts :: "device \<Rightarrow> stl \<Rightarrow> gen_params \<Rightarrow> (nat \<Rightarrow> world) \<Rightarrow> nat \<Rightarrow> string list \<Rightarrow> engine \<Rightarrow> sys \<Rightarrow> gen_error + string \<times> engine \<times> sys" where
  "run_prompts d st params ws k [] e fsys = Inr ([], e, fsys)"
| "run_prompts d st params ws k (p # ps) e fsys =
     and_then (generate d st (ws k) p params e fsys) (\<lambda>(s, fsys).
     and_then (run_prompts d st params ws (Suc k) ps (ls_engine s) fsys) (\<lambda>(out, e, fsys). Inr (concat (map fst (ls_out s)) @ out, e, fsys)))"

datatype cli_result = Exit int | Abort gen_error | Undefined

definition model_fits :: "string option \<Rightarrow> byte list \<Rightarrow> bool" where
  "model_fits meminfo d = can_allocate (probe_system_memory meminfo) (int (length d) div (1024 * 1024) + 200)"

definition cli_main ::
  "(string \<Rightarrow> f32) \<Rightarrow> load_env \<Rightarrow> string option \<Rightarrow> byte list option \<Rightarrow> loader \<Rightarrow> device \<Rightarrow> stl \<Rightarrow> (nat \<Rightarrow> world) \<Rightarrow> string \<Rightarrow> string list \<Rightarrow> sys \<Rightarrow>
   cli_result \<times> string \<times> loader \<times> sys"
where
  "cli_main atof le meminfo gguf L d st ws inp argv fsys =
     (case parse_args atof argv of
        None \<Rightarrow> (Exit 0, [], L, fsys)
      | Some a \<Rightarrow>
        if a_model_path a = [] then (Exit 1, [], L, fsys)
        else (case gguf of
          None \<Rightarrow> (Exit 1, [], L, fsys)
        | Some data \<Rightarrow>
          if \<not> model_fits meminfo data then (Exit 1, [], L, fsys)
          else (case engine_load le (a_model_path a) (cli_params a) L of
            None \<Rightarrow> (Undefined, [], L, fsys)
          | Some (ok, L) \<Rightarrow>
            if \<not> ok then (Exit 1, [], engine_unload L, fsys)
            else (case run_prompts d st (cli_params a) ws 0 (cli_prompts a (en_cfg (ld_engine L)) inp) (ld_engine L) fsys of
              Inl err \<Rightarrow> (if err \<in> {Length_error, Bad_alloc} then Abort err else Undefined, [], L, fsys)
            | Inr (out, E, fsys) \<Rightarrow> (Exit 0, out, engine_unload (L\<lparr>ld_engine := E\<rparr>), fsys)))))"


section \<open>Arguments round trip\<close>

lemma dec_nat_digits: "list_all is_digit (dec_nat n) \<and> dec_nat n \<noteq> [] \<and> digits_value (dec_nat n) = int n"
proof (induction n rule: dec_nat.induct)
  case (1 n)
  have dig: "is_digit (char_of (48 + m :: nat))" "(of_char (char_of (48 + m :: nat)) :: int) = 48 + int m" if "m < 10" for m
    using that of_nat_of_char [of "char_of (48 + m)", where 'a = int] by (simp_all add: is_digit_def of_char_of)
  show ?case
  proof (cases "n < 10")
    case True
    then show ?thesis using dig [OF True] by (subst (1 2 3) dec_nat.simps) (simp add: digits_value_def)
  next
    case False
    have m: "n mod 10 < 10" by simp
    show ?thesis using 1 [OF False] dig [OF m] False
      by (subst (1 2 3) dec_nat.simps) (simp add: digits_value_def, presburger)
  qed
qed

lemma c_atoi_dec: "- (2 ^ 31) \<le> i \<Longrightarrow> i < 2 ^ 31 \<Longrightarrow> c_atoi (dec_string i) = i"
proof -
  assume i: "- (2 ^ 31) \<le> i" "i < 2 ^ 31"
  define ds where "ds = dec_nat (nat \<bar>i\<bar>)"
  have ds: "list_all is_digit ds" "ds \<noteq> []" "digits_value ds = \<bar>i\<bar>" using dec_nat_digits [of "nat \<bar>i\<bar>"] by (simp_all add: ds_def)
  have tw: "takeWhile is_digit ds = ds" using ds(1) by (simp add: takeWhile_eq_all_conv list_all_iff)
  obtain c cs where c: "ds = c # cs" "is_digit c" using ds by (cases ds) auto
  have "dec_string i = (if i < 0 then CHR ''-'' # ds else ds)" by (simp add: dec_string_def ds_def)
  then have "strtoll10 (dec_string i) = clamp_i64 i"
    using tw [unfolded c(1)] ds(3) [unfolded c(1)] digit_chars [OF c(2)] by (auto simp: strtoll10_def c(1) is_c_space_def)
  then show ?thesis using i by (simp add: c_atoi_def clamp_i64_def to_int32_id)
qed

text \<open>A command line that says everything the record says.\<close>

definition flag :: "bool \<Rightarrow> string \<Rightarrow> string list" where "flag b opt = (if b then [opt] else [])"

definition args_line :: "(f32 \<Rightarrow> string) \<Rightarrow> args \<Rightarrow> string list" where
  "args_line ftoa a = [''-m'', a_model_path a, ''-p'', a_prompt a, ''-n'', dec_string (a_max_tokens a), ''-c'', dec_string (a_context a),
      ''-t'', ftoa (a_temperature a)] @ flag (a_interactive a) ''-i'' @ flag (a_verbose a) ''-v'' @ flag (\<not> a_kv_int8 a) ''--fp16-kv'' @
     flag (a_chat a) ''--chat'' @ flag (a_raw_prompt a) ''--raw'' @ flag (a_think a) ''--think'' @ [''--conv-id'', a_conversation_id a]"

text \<open>Every setting the command line has can be given: parsing the arguments written from a record gives
  the record back, whatever its strings are (also strings that look like options), for integers of 32 bits and temperatures that
  \<^verbatim>\<open>atof\<close> reads back.\<close>

theorem parse_args_roundtrip:
  assumes "- (2 ^ 31) \<le> a_max_tokens a" "a_max_tokens a < 2 ^ 31" "- (2 ^ 31) \<le> a_context a" "a_context a < 2 ^ 31"
    and "atof (ftoa (a_temperature a)) = a_temperature a" "a_top_k a = 40" "a_top_p a = 0x3F666666"
  shows "parse_args atof (args_line ftoa a) = Some a"
proof -
  have opt: "parse_args_from atof (opt # v # rest) b = parse_args_from atof rest b'" if "value_option atof opt v b = Some b'" for opt v rest b b'
    using that by simp
  have fl: "parse_args_from atof (flag c opt @ rest) b = parse_args_from atof rest (if c then b' else b)"
    if "flag_option opt b = Some b'" "opt \<notin> {''-m'', ''-p'', ''-n'', ''-c'', ''-t'', ''--conv-id''}" for c opt rest b b'
    using that by (auto simp: flag_def value_option_def)
  show ?thesis
    using assms unfolding parse_args_def args_line_def append_Cons append_Nil append_assoc
    by (simp add: opt fl value_option_def flag_option_def c_atoi_dec args_default_def)
qed

text \<open>Formatting a prompt twice is formatting it once: the template is not wrapped around a prompt that
  already has it.\<close>

theorem format_prompt_idempotent: "format_prompt (format_prompt p a cfg) a cfg = format_prompt p a cfg"
proof -
  have "already_chat_formatted (qwen_chat_prompt p think)" for think
    by (simp add: already_chat_formatted_def qwen_chat_prompt_def starts_with_def)
  then show ?thesis by (simp add: format_prompt_def)
qed

text \<open>A prompt that does not fit ends the command line: the exception that the server turns into an answer with
  status 400 is not caught, so a first prompt that has too many bytes or tokens for the cache aborts the program.\<close>

theorem long_prompt_aborts_cli:
  assumes "parse_args atof argv = Some a" "a_model_path a \<noteq> []" "model_fits meminfo data"
    and "engine_load le (a_model_path a) (cli_params a) L = Some (True, L')" "cli_prompts a (en_cfg (ld_engine L')) inp = p # ps"
    and "prompt_tokens_of (en_tok (ld_engine L')) (kv_max_tokens (kv_cfg (en_kv (ld_engine L')))) (a_max_tokens a) p = Inl Length_error"
  shows "fst (cli_main atof le meminfo (Some data) L d st ws inp argv fsys) = Abort Length_error"
proof -
  have "gp_max_tokens (cli_params a) = a_max_tokens a" by (simp add: cli_params_def Let_def)
  then have "generate d st (ws 0) p (cli_params a) (ld_engine L') fsys = Inl Length_error"
    using assms(6) by (simp add: generate_def Let_def)
  then show ?thesis using assms(1-5) by (simp add: cli_main_def)
qed

theorem parse_args_roundtrip_witness:
  "let a = args_default\<lparr>a_model_path := ''m.gguf'', a_prompt := ''-n'', a_max_tokens := -5, a_temperature := 0, a_think := True\<rparr>
   in parse_args (\<lambda>_. 0) (args_line (\<lambda>_. ''0'') a) = Some a"
  using parse_args_roundtrip [of "args_default\<lparr>a_model_path := ''m.gguf'', a_prompt := ''-n'', a_max_tokens := -5, a_temperature := 0, a_think := True\<rparr>"
      "\<lambda>_. 0" "\<lambda>_. ''0''"]
  by (simp add: args_default_def Let_def)

end
