(* ===== verification/Load_Example.thy ===== *)
theory Load_Example
  imports Cli
begin

text \<open>
  A small GGUF file that \<^verbatim>\<open>Engine::load\<close> loads, and the properties of loading applied to it.
\<close>


section \<open>The file\<close>

text \<open>The metadata of a model of one layer, its embedding and its norm vectors.\<close>

definition demo_load_kvs :: "gguf_kv list" where
  "demo_load_kvs = [(''q.block_count'', GScalar 4 (le32 1)), (''q.head_count'', GScalar 4 (le32 1)), (''q.embedding_length'', GScalar 4 (le32 2)),
     (''q.feed_forward_length'', GScalar 4 (le32 2)), (''q.vocab_size'', GScalar 4 (le32 8)), (''q.context_length'', GScalar 4 (le32 8))]"

definition demo_load_tensors :: "tensor_info list" where
  "demo_load_tensors =
     [\<lparr>ti_name = ''token_embd.weight'', ti_n_dims = 2, ti_shape = [2, 8, 1, 1], ti_type = 12, ti_offset = 0\<rparr>,
      \<lparr>ti_name = ''blk.0.attn_norm.weight'', ti_n_dims = 1, ti_shape = [2, 1, 1, 1], ti_type = 0, ti_offset = 32\<rparr>,
      \<lparr>ti_name = ''blk.0.ffn_norm.weight'', ti_n_dims = 1, ti_shape = [2, 1, 1, 1], ti_type = 0, ti_offset = 64\<rparr>,
      \<lparr>ti_name = ''output_norm.weight'', ti_n_dims = 1, ti_shape = [2, 1, 1, 1], ti_type = 0, ti_offset = 96\<rparr>]"

definition demo_model_file :: "byte list" where
  "demo_model_file = gguf_bytes 3 demo_load_kvs demo_load_tensors @ replicate 160 0"

lemma demo_file_ok: "list_all config_kv_ok demo_load_kvs" "list_all kv_ok demo_load_kvs" "list_all tensor_info_ok demo_load_tensors"
proof -
  show "list_all config_kv_ok demo_load_kvs" "list_all kv_ok demo_load_kvs"
    by (simp_all add: demo_load_kvs_def config_kv_ok_def kv_ok_def gguf_scalar_size_def)
  show "list_all tensor_info_ok demo_load_tensors"
    by (simp add: demo_load_tensors_def tensor_info_ok_def) (simp add: numeral_2_eq_2 numeral_3_eq_3)
qed

definition demo_load_cfg :: model_config where
  "demo_load_cfg = model_config_default\<lparr>m_name := ''m.gguf'', m_n_layers := 1, m_n_heads := 1, m_n_kv_heads := 1, m_head_dim := 2, m_hidden_dim := 2,
     m_intermediate_dim := 2, m_vocab_size := 8, m_max_seq_len := 8, m_rope_theta := 0x461C4000\<rparr>"

lemma demo_config: "load_gguf_config ''m.gguf'' (Some demo_model_file) = Some demo_load_cfg"
proof -
  have "config_defaults (config_of_metadata demo_load_kvs (model_config_default\<lparr>m_name := ''m.gguf''\<rparr>)) = demo_load_cfg"
    by (simp add: config_of_metadata_def demo_load_kvs_def config_u32_def strstr_def starts_with_def config_defaults_def model_config_default_def
        int_of_u32_def to_int32_def Let_def signed_divide_int_def demo_load_cfg_def u32_of_le32 [of 1, simplified] u32_of_le32 [of 2, simplified]
        u32_of_le32 [of 8, simplified])
  moreover have "take 256 demo_load_kvs = demo_load_kvs" "length demo_load_kvs < 2 ^ 64" "length demo_load_tensors < 2 ^ 64"
    by (simp_all add: demo_load_kvs_def demo_load_tensors_def)
  ultimately show ?thesis
    using load_gguf_config_at [of demo_load_kvs demo_load_tensors "''m.gguf''" 3 "replicate 160 0"] demo_file_ok
    by (simp add: demo_model_file_def demo_load_cfg_def)
qed

lemma demo_length: "length (gguf_bytes 3 demo_load_kvs demo_load_tensors) = 426"
  by (simp add: gguf_bytes_def demo_load_kvs_def demo_load_tensors_def kv_bytes_def tensor_info_bytes_def i64_bytes_def)

lemma demo_parse: "parse_tensor_infos (Some demo_model_file) = Some (448, demo_load_tensors)"
  using parse_tensor_infos_at [of demo_load_kvs demo_load_tensors 3 "replicate 160 0"] demo_file_ok demo_length
  by (simp add: demo_model_file_def demo_load_kvs_def demo_load_tensors_def)


section \<open>Loading it\<close>

definition demo_load_env :: "map_env \<Rightarrow> byte list option \<Rightarrow> load_env" where
  "demo_load_env me f = \<lparr>le_env = Map.empty, le_meminfo = Some (''MemTotal: 8000000 kB'' @ [CHR 0x0A] @ ''MemAvailable: 6000000 kB'' @ [CHR 0x0A]),
     le_io = demo_env, le_fs = Map.empty, le_config_file = f, le_weights_file = f, le_tokenizer_file = None, le_map = me, le_cuda = demo_cuda_env,
     le_kv = \<lparr>gpu_malloc_ok = True, gpu_memset_ok = True, cpu_malloc_ok = True, scales_malloc_ok = True\<rparr>, le_scratch = Some 4096,
     le_sort = (\<lambda>ps. ps), le_stream_ok = True, le_logits = Some 8192\<rparr>"

definition demo_unloaded :: loader where
  "demo_unloaded = \<lparr>ld_engine = demo_engine\<lparr>en_mw := model_weights_empty, en_fwd := \<lparr>f_kv = kv_pool_empty, f_scratch = scratch_empty\<rparr>, en_host_logits := 0\<rparr>,
     ld_loaded = False, ld_path = [], ld_weights = 0, ld_weights_size = 0, ld_mapped_output = None, ld_owned = [], ld_stream = False, ld_graph = False,
     ld_graph_exec = False, ld_graph_captured = False, ld_region = weight_region_none, ld_cuda = demo_cuda, ld_maps = []\<rparr>"

definition demo_mapped_mw :: model_weights where
  "demo_mapped_mw = \<lparr>mw_tok_embd = 65984, mw_output_norm = 66080, mw_embd_type = 12, mw_output = 65984, mw_output_type = 12,
     mw_layers = [layer_weights_zero\<lparr>lw_rms_attn := 66016, lw_rms_ffn := 66048\<rparr>], mw_n_layers = 1\<rparr>"

lemma demo_map_tensors:
  "fold (map_tensor 1 (65536 + 448)) demo_load_tensors (model_weights_empty\<lparr>mw_n_layers := 1, mw_layers := [layer_weights_zero]\<rparr>, 0) =
     (demo_mapped_mw\<lparr>mw_output := 0, mw_output_type := 12\<rparr>, 4)"
  by code_simp

lemma demo_map_weights:
  assumes "me_mmap me = Some 65536"
  shows "\<exists>r. load_and_map_weights Map.empty me (Some demo_model_file) demo_load_cfg model_weights_empty weight_region_none =
    Some (True, Some (65536, 586), demo_mapped_mw, r)"
proof -
  have n: "length demo_model_file = 586" using demo_length by (simp add: demo_model_file_def)
  have "tie_output (demo_mapped_mw\<lparr>mw_output := 0, mw_output_type := 12\<rparr>) = demo_mapped_mw" by code_simp
  then show ?thesis using assms n demo_parse demo_map_tensors
    by (simp add: load_and_map_weights_def load_gguf_weights_def demo_load_cfg_def model_config_default_def)
qed

definition demo_configured :: "gen_params \<Rightarrow> loader" where
  "demo_configured p = demo_unloaded\<lparr>ld_path := ''m.gguf'', ld_engine := (ld_engine demo_unloaded)\<lparr>en_params := p,
     en_budget := probe_system_memory (Some (''MemTotal: 8000000 kB'' @ [CHR 0x0A] @ ''MemAvailable: 6000000 kB'' @ [CHR 0x0A])),
     en_fingerprint := replicate 32 0, en_cfg := demo_load_cfg\<rparr>\<rparr>"

definition demo_with_weights :: "gen_params \<Rightarrow> weight_region \<Rightarrow> int list \<Rightarrow> loader" where
  "demo_with_weights p r regs = set_mw demo_mapped_mw ((demo_configured p)\<lparr>ld_region := r, ld_weights := 65536, ld_weights_size := 586, ld_maps := [65536],
     ld_cuda := demo_cuda\<lparr>cu_registered := regs\<rparr>\<rparr>)"

lemma demo_load_start:
  assumes "me_mmap me = Some 65536"
  shows "load_config (demo_load_env me (Some demo_model_file)) ''m.gguf'' p demo_unloaded = Some (demo_configured p)"
    "\<exists>r regs. load_weights (demo_load_env me (Some demo_model_file)) (demo_configured p) = Some (True, demo_with_weights p r regs)"
proof -
  have e: "le_env (demo_load_env me f) = Map.empty" "le_map (demo_load_env me f) = me" "le_weights_file (demo_load_env me f) = f"
    "le_config_file (demo_load_env me f) = f" "le_fs (demo_load_env me f) = Map.empty" for f by (simp_all add: demo_load_env_def)
  have "compute_model_fingerprint (le_io (demo_load_env me (Some demo_model_file))) Map.empty ''m.gguf'' = (False, replicate 32 0)"
    by (simp add: compute_model_fingerprint_def)
  then show "load_config (demo_load_env me (Some demo_model_file)) ''m.gguf'' p demo_unloaded = Some (demo_configured p)"
    using demo_config by (simp add: load_config_def e Let_def demo_configured_def) (simp add: demo_load_env_def)
  obtain r where "load_and_map_weights Map.empty me (Some demo_model_file) demo_load_cfg model_weights_empty weight_region_none =
      Some (True, Some (65536, 586), demo_mapped_mw, r)" using demo_map_weights [OF assms] by blast
  then show "\<exists>r regs. load_weights (demo_load_env me (Some demo_model_file)) (demo_configured p) = Some (True, demo_with_weights p r regs)"
    by (auto simp: load_weights_def e Let_def demo_with_weights_def demo_configured_def demo_unloaded_def set_mw_def demo_cuda_def)
qed

lemma demo_norms:
  "fst (load_norms (demo_load_env me f) (demo_with_weights p r regs))"
  "mw_embd_type (en_mw (ld_engine (snd (load_norms (demo_load_env me f) (demo_with_weights p r regs))))) = 12"
  "mw_output_type (en_mw (ld_engine (snd (load_norms (demo_load_env me f) (demo_with_weights p r regs))))) = 12"
  by code_simp+

lemma demo_buffers: "fst (load_buffers (demo_load_env me f) L)" "en_mw (ld_engine (snd (load_buffers (demo_load_env me f) L))) = en_mw (ld_engine L)"
  by (simp_all add: load_buffers_def demo_load_env_def kv_init_def scratch_init_def set_budget_def Let_def case_prod_beta)

lemma demo_placement:
  assumes "mw_output_type (en_mw (ld_engine L)) = 12" "en_cfg (ld_engine L) = demo_load_cfg"
  shows "fst (load_placement (demo_load_env me f) L)" "en_mw (ld_engine (snd (load_placement (demo_load_env me f) L))) = en_mw (ld_engine L)"
proof -
  let ?le = "demo_load_env me f"
  have e: "mapped_weight_device_enabled (le_env ?le)" "device_layer_limit (le_env ?le) = 0"
    by (simp_all add: demo_load_env_def mapped_weight_device_enabled_def env_opt_out_def device_layer_limit_def)
  have "kquant_tensor_bytes 12 (m_vocab_size demo_load_cfg) (m_hidden_dim demo_load_cfg) = 0" by code_simp
  then have out: "place_output ?le False L = (0, set_placement (placement_of L) L)"
    using assms by (simp add: place_output_def materialize_output_weight_def placement_of_def Let_def)
  have "place_layers ?le L' = (True, add_model_mb 0 (set_placement (placement_of L') L'))" for L'
    using e(2) by (simp add: place_layers_def materialize_layer_weights_def Let_def)
  then have "load_placement ?le L = (let L1 = add_model_mb 0 (set_placement (placement_of L) L) in (True, add_model_mb 0 (set_placement (placement_of L1) L1)))"
    using e(1) out by (simp add: load_placement_def Let_def)
  then show "fst (load_placement ?le L)" "en_mw (ld_engine (snd (load_placement ?le L))) = en_mw (ld_engine L)"
    by (simp_all add: Let_def add_model_mb_def set_budget_def set_placement_def set_mw_def placement_of_def)
qed

lemma demo_finish:
  "\<exists>L'. load_finish (demo_load_env me f) L = Some (True, L') \<and> en_mw (ld_engine L') = en_mw (ld_engine L)"
  by (simp add: load_finish_def demo_load_env_def load_from_gguf_def Let_def)

lemma demo_load:
  assumes "me_mmap me = Some 65536"
  obtains L' where "engine_load (demo_load_env me (Some demo_model_file)) ''m.gguf'' p demo_unloaded = Some (True, L')"
    "en_cfg (ld_engine L') = demo_load_cfg" "mw_embd_type (en_mw (ld_engine L')) = 12" "ld_weights_size L' = 586"
proof -
  let ?le = "demo_load_env me (Some demo_model_file)"
  obtain r regs where w: "load_weights ?le (demo_configured p) = Some (True, demo_with_weights p r regs)" using demo_load_start(2) [OF assms, of p] by blast
  obtain L3 where n: "load_norms ?le (demo_with_weights p r regs) = (True, L3)" "mw_embd_type (en_mw (ld_engine L3)) = 12" "mw_output_type (en_mw (ld_engine L3)) = 12"
    using demo_norms [of me "Some demo_model_file" p r regs] by (cases "load_norms ?le (demo_with_weights p r regs)") auto
  obtain L4 where b: "load_buffers ?le L3 = (True, L4)" "en_mw (ld_engine L4) = en_mw (ld_engine L3)"
    using demo_buffers [of me "Some demo_model_file" L3] by (cases "load_buffers ?le L3") auto
  have "en_cfg (ld_engine L3) = en_cfg (ld_engine (demo_with_weights p r regs))" using load_norms_engine [OF n(1)] by (simp add: core_of_def)
  then have "en_cfg (ld_engine L4) = demo_load_cfg"
    using load_buffers_engine [OF b(1)] by (simp add: demo_with_weights_def demo_configured_def set_mw_def)
  then obtain L5 where p: "load_placement ?le L4 = (True, L5)" "en_mw (ld_engine L5) = en_mw (ld_engine L4)"
    using demo_placement [of L4 me "Some demo_model_file"] b(2) n(3) by (cases "load_placement ?le L4") auto
  obtain L' where f: "load_finish ?le L5 = Some (True, L')" "en_mw (ld_engine L') = en_mw (ld_engine L5)" using demo_finish by blast
  have run: "engine_load ?le ''m.gguf'' p demo_unloaded = Some (True, L')"
    using demo_load_start(1) [OF assms, of p] w n(1) b(1) p(1) f(1) by (simp add: engine_load_def)
  have "ld_weights_size L' = 586"
    using load_norms_engine [OF n(1)] buffers_weights_size [OF b(1)] placement_weights_size [OF p(1)] finish_weights_size [OF f(1)]
    by (simp add: demo_with_weights_def set_mw_def)
  moreover have "en_cfg (ld_engine L') = demo_load_cfg"
    using engine_load_facts [OF run] demo_config by (simp add: demo_load_env_def)
  ultimately show ?thesis using that [OF run] n(2) b(2) p(2) f(2) by simp
qed


section \<open>The properties on it\<close>

definition demo_map :: map_env where "demo_map = \<lparr>me_mmap = Some 65536, me_host_register = True, me_device_ptr = Some 7340032\<rparr>"

abbreviation demo_le :: "map_env \<Rightarrow> load_env" where "demo_le me \<equiv> demo_load_env me (Some demo_model_file)"

lemma demo_unloaded_facts:
  "nothing_held demo_unloaded" "cu_registered (ld_cuda demo_unloaded) = []" "distinct (map fst (cu_live (ld_cuda demo_unloaded)))"
  "\<not> cu_bad_free (ld_cuda demo_unloaded)" "fst ` set (cu_live (ld_cuda demo_unloaded)) = {}" "malloc_ok (le_cuda (demo_le me))"
  using demo_malloc_ok
  by (simp_all add: nothing_held_def demo_unloaded_def demo_cuda_def demo_engine_def kv_pool_empty_def scratch_empty_def model_weights_empty_def demo_load_env_def)

theorem load_unload_releases_witness:
  "\<exists>L'. engine_load (demo_le demo_map) ''m.gguf'' demo_params demo_unloaded = Some (True, L') \<and>
     (let U = engine_unload L' in nothing_held U \<and> cu_live (ld_cuda U) = [] \<and> cu_registered (ld_cuda U) = [])"
proof -
  obtain L' where run: "engine_load (demo_le demo_map) ''m.gguf'' demo_params demo_unloaded = Some (True, L')"
    using demo_load [of demo_map, where p = demo_params] by (auto simp: demo_map_def)
  have "\<forall>p. me_mmap (le_map (demo_le demo_map)) = Some p \<longrightarrow> p \<noteq> 0" "\<not> lost_registration (demo_le demo_map)"
    by (simp_all add: demo_load_env_def demo_map_def lost_registration_def)
  then show ?thesis using load_unload_releases [OF demo_unloaded_facts(6) _ demo_unloaded_facts(1-4) run] run demo_unloaded_facts(5)
    by (simp add: Let_def)
qed

theorem unload_forgets_registration_witness:
  "\<exists>L'. engine_load (demo_le (demo_map\<lparr>me_device_ptr := None\<rparr>)) ''m.gguf'' demo_params demo_unloaded = Some (True, L') \<and>
     cu_registered (ld_cuda (engine_unload L')) = [65536] \<and> 65536 \<notin> set (ld_maps (engine_unload L'))"
proof -
  let ?me = "demo_map\<lparr>me_device_ptr := None\<rparr>"
  obtain L' where run: "engine_load (demo_le ?me) ''m.gguf'' demo_params demo_unloaded = Some (True, L')"
    using demo_load [of ?me, where p = demo_params] by (auto simp: demo_map_def)
  have "\<forall>p. me_mmap (le_map (demo_le ?me)) = Some p \<longrightarrow> p \<noteq> 0" "lost_registration (demo_le ?me)" "le_map (demo_le ?me) = ?me"
    by (simp_all add: demo_load_env_def demo_map_def lost_registration_def weights_registered_def mapped_weight_device_enabled_def env_opt_out_def)
  then show ?thesis using unload_forgets_registration [OF demo_unloaded_facts(6) _ demo_unloaded_facts(1-4) run] run
    by (simp add: demo_map_def)
qed

lemma demo_model_sane: "model_sane demo_load_cfg"
proof -
  have "hid_dim demo_load_cfg = 2" "q_dim demo_load_cfg = 2" "kv_dims demo_load_cfg = 2" "ffn_dim demo_load_cfg = 2" "m_n_layers demo_load_cfg = 1"
    "m_vocab_size demo_load_cfg = 8"
    by (simp_all add: hid_dim_def q_dim_def kv_dims_def ffn_dim_def demo_load_cfg_def)
  then have "step_need demo_load_cfg \<le> 67108864" by (simp add: step_need_def token_need_def layer_need_def align256_eq)
  moreover have "scratch_bytes_of demo_load_cfg = 67108864" by code_simp
  ultimately show ?thesis by (simp add: model_sane_def demo_load_cfg_def)
qed

lemma demo_params_kv: "\<not> gp_kv_int8 demo_params" "gp_context_limit demo_params = 0"
  by (simp_all add: demo_params_def gen_params_default_def)

lemma demo_context:
  assumes "engine_load (demo_le demo_map) ''m.gguf'' p demo_unloaded = Some (True, L')" "en_cfg (ld_engine L') = demo_load_cfg" "ld_weights_size L' = 586"
    and p: "\<not> gp_kv_int8 p" "gp_context_limit p = 0"
  shows "max_context (kv_cfg (en_kv (ld_engine L'))) = 8" "max_kv_mb (context_budget (demo_le demo_map) L') = 5303"
    "overflow_context (kv_cfg (en_kv (ld_engine L'))) = 0"
proof -
  have b: "context_budget (demo_le demo_map) L' = context_budget (demo_load_env demo_map None) (demo_unloaded\<lparr>ld_weights_size := 586\<rparr>)"
    using assms(3) by (simp add: context_budget_def demo_load_env_def)
  have env: "le_env (demo_le demo_map) = Map.empty" by (simp add: demo_load_env_def)
  show "max_kv_mb (context_budget (demo_le demo_map) L') = 5303" unfolding b by code_simp
  have same: "kv_shape Map.empty p = kv_shape Map.empty demo_params"
    using p by (intro ext) (simp add: kv_shape_def choose_context_def Let_def demo_params_def gen_params_default_def)
  have kv: "kv_init (le_kv (demo_le demo_map)) (kv_shape Map.empty demo_params demo_load_cfg (context_budget (demo_le demo_map) L'))
      (en_kv (ld_engine demo_unloaded)) = (True, en_kv (ld_engine L'))"
    using engine_load_facts [OF assms(1)] by (simp only: assms(2) env same)
  have c: "kv_cfg (en_kv (ld_engine L')) = kv_shape Map.empty demo_params demo_load_cfg (context_budget (demo_le demo_map) L')"
    by (rule kv_init_cfg [OF kv]) (simp add: kv_shape_def kv_overflow_context_def Let_def)
  show "overflow_context (kv_cfg (en_kv (ld_engine L'))) = 0" unfolding c by (simp add: kv_shape_def kv_overflow_context_def Let_def)
  have "max_context (kv_shape Map.empty demo_params demo_load_cfg (context_budget (demo_load_env demo_map None) (demo_unloaded\<lparr>ld_weights_size := 586\<rparr>))) = 8"
    by code_simp
  then show "max_context (kv_cfg (en_kv (ld_engine L'))) = 8" unfolding c b by simp
qed


lemma demo_load_conditions:
  assumes "en_cfg (ld_engine L') = demo_load_cfg" "mw_embd_type (en_mw (ld_engine L')) = 12"
  shows "device_sane demo_dev demo_G demo_A (demo_le demo_map)"
    "emb_ok demo_dev (en_cfg (ld_engine L')) (en_mw (ld_engine L'))" "no_cache_files (le_env (demo_le demo_map)) demo_empty"
proof -
  show "emb_ok demo_dev (en_cfg (ld_engine L')) (en_mw (ld_engine L'))"
    using assms by (simp add: emb_ok_def dequant_embedding_def dequant_embedding_row_def demo_dev_def demo_load_cfg_def hid_dim_def
        infer_of_def fast_embedding_enabled_def env_opt_out_def)
  show "device_sane demo_dev demo_G demo_A (demo_le demo_map)"
    using demo_facts(3,7) by (simp add: device_sane_def logits_ok_def demo_load_env_def) (simp add: demo_dev_def infer_of_def default_kv_cache_dir_def)
  show "no_cache_files (le_env (demo_le demo_map)) demo_empty" by (simp add: no_cache_files_def demo_empty_def)
qed

theorem load_establishes_session_witness:
  "\<exists>L' c. engine_load (demo_le demo_map) ''m.gguf'' demo_params demo_unloaded = Some (True, L') \<and>
     session_inv demo_dev demo_G demo_A c (ld_engine L') demo_empty \<and> max_context c = 8"
proof -
  have "me_mmap demo_map = Some 65536" by (simp add: demo_map_def)
  then obtain L' where L': "engine_load (demo_le demo_map) ''m.gguf'' demo_params demo_unloaded = Some (True, L')" "en_cfg (ld_engine L') = demo_load_cfg"
    "mw_embd_type (en_mw (ld_engine L')) = 12" "ld_weights_size L' = 586" using demo_load [of demo_map, where p = demo_params] by metis
  have "\<not> gp_kv_int8 demo_params" "le_env (demo_le demo_map) ''JLLM_KV_OVERFLOW'' = None" by (simp_all add: demo_params_def demo_load_env_def)
  then have "session_inv demo_dev demo_G demo_A (kv_cfg (en_kv (ld_engine L'))) (ld_engine L') demo_empty"
    using load_establishes_session [OF L'(1)] demo_load_conditions [OF L'(2,3)] demo_model_sane demo_context(1) [OF L'(1,2,4) demo_params_kv] L'(2) by auto
  then show ?thesis using L'(1) demo_context(1) [OF L'(1,2,4) demo_params_kv] by blast
qed

definition demo_argv :: "string \<Rightarrow> string list" where
  "demo_argv p = [''-m'', ''m.gguf'', ''-n'', ''2'', ''-t'', ''0'', ''--fp16-kv'', ''--conv-id'', ''c1'', ''-p'', p]"

theorem long_prompt_aborts_cli_witness:
  "fst (cli_main (\<lambda>_. 0) (demo_le demo_map) (le_meminfo (demo_le demo_map)) (Some demo_model_file) demo_unloaded demo_dev demo_stl (\<lambda>_. demo_world) []
     (demo_argv (replicate 4097 CHR ''a'')) demo_empty) = Abort Length_error"
proof -
  define p where "p = replicate 4097 CHR ''a''"
  define a where "a = args_default\<lparr>a_model_path := ''m.gguf'', a_max_tokens := 2, a_temperature := 0, a_kv_int8 := False, a_conversation_id := ''c1'', a_prompt := p\<rparr>"
  have atoi: "c_atoi ''2'' = 2" by code_simp
  have parse: "parse_args (\<lambda>_. 0) (demo_argv p) = Some a"
    by (simp add: parse_args_def demo_argv_def value_option_def flag_option_def a_def atoi args_default_def)
  have conv: "validate_conversation_id ''c1''" by code_simp
  have params: "cli_params a = demo_params"
    using conv by (simp add: cli_params_def a_def demo_params_def gen_params_default_def args_default_def Let_def)
  have "me_mmap demo_map = Some 65536" by (simp add: demo_map_def)
  then obtain L' where L': "engine_load (demo_le demo_map) ''m.gguf'' demo_params demo_unloaded = Some (True, L')" "en_cfg (ld_engine L') = demo_load_cfg"
    "ld_weights_size L' = 586" using demo_load [of demo_map, where p = demo_params] by metis
  have "\<not> contains_ci ''m.gguf'' ''instruct''" "\<not> contains_ci ''m.gguf'' ''chat''" by code_simp+
  then have prompts: "cli_prompts a (en_cfg (ld_engine L')) [] = p # []"
    by (simp add: cli_prompts_def L'(2) format_prompt_def should_apply_chat_template_def demo_load_cfg_def a_def args_default_def p_def)
  have "model_fits (le_meminfo (demo_le demo_map)) demo_model_file"
  proof -
    have "length demo_model_file = 586" using demo_length by (simp add: demo_model_file_def)
    moreover have "can_allocate (probe_system_memory (le_meminfo (demo_load_env demo_map None))) 200" by code_simp
    ultimately show ?thesis by (simp add: model_fits_def demo_load_env_def)
  qed
  moreover have "prompt_tokens_of t (kv_max_tokens (kv_cfg (en_kv (ld_engine L')))) n p = Inl Length_error" for t n
    using demo_context [OF L' demo_params_kv] by (simp add: prompt_tokens_of_def kv_max_tokens_def p_def)
  moreover have "a_model_path a = ''m.gguf''" by (simp add: a_def)
  ultimately show ?thesis
    unfolding p_def [symmetric] using long_prompt_aborts_cli [OF parse _ _ _ prompts] L'(1) params by simp
qed

end
