(* ===== verification/Server.thy ===== *)
theory Server
  imports Cli
begin

text \<open>
  The server as a whole: \<^verbatim>\<open>main_server.cpp\<close> from the arguments to the loaded engine, the routes of
  \<^verbatim>\<open>run_server\<close>, and what a sequence of requests does to the engine and the cache directory.

  The HTTP library calls the handlers from several threads, but every \<^verbatim>\<open>generate\<close> holds the engine
  mutex and the other routes only read, so a run of the server is a sequence of requests. What the
  environment does during a request (the kernel's files, the failures of calls, the client) is a
  record \<^verbatim>\<open>moment\<close> chosen anew for each.
\<close>


section \<open>The routes\<close>

record health =
  he_model :: string
  he_total_mb :: int
  he_free_mb :: int
  he_model_mb :: int
  he_kv_mb :: int
  he_gpu_c :: f32
  he_cpu_c :: f32
  he_throttling :: bool
  he_watts :: int
  he_gpu_mhz :: int
  he_gpu_max_mhz :: int
  he_gpu_util_pct :: int

definition build_health :: "fpu \<Rightarrow> sysfs \<Rightarrow> engine \<Rightarrow> health" where
  "build_health fp sf e =
     (let ls = read_live_stats fp sf; ts = read_thermal fp sf; ps = read_power_state sf; budget = en_budget e
      in \<lparr>he_model = m_name (en_cfg e), he_total_mb = total_mb budget, he_free_mb = free_mb budget, he_model_mb = model_mb budget,
          he_kv_mb = kv_cache_mb budget, he_gpu_c = ts_gpu_temp_c ts, he_cpu_c = ts_cpu_temp_c ts, he_throttling = ts_throttling ts,
          he_watts = ps_watts ps, he_gpu_mhz = ps_gpu_freq_mhz ps, he_gpu_max_mhz = ps_gpu_freq_max_mhz ps,
          he_gpu_util_pct = ls_gpu_util_pct ls\<rparr>)"

datatype request = Get_health | Get_models | Post_chat string | Options

datatype answer = Health health | Model_list "string list" | Chat_reply reply | No_content

record moment =
  mo_sysfs :: sysfs
  mo_world :: world
  mo_sink :: "nat \<Rightarrow> bool"

definition handle :: "'j json_lib \<Rightarrow> bool \<Rightarrow> device \<Rightarrow> stl \<Rightarrow> moment \<Rightarrow> request \<Rightarrow> engine \<Rightarrow> sys \<Rightarrow> answer \<times> engine \<times> sys" where
  "handle jl default_kv_int8 d st m rq e fsys =
     (case rq of
        Get_health \<Rightarrow> (Health (build_health (d_fp d) (mo_sysfs m) e), e, fsys)
      | Get_models \<Rightarrow> (Model_list [m_name (en_cfg e)], e, fsys)
      | Post_chat body \<Rightarrow>
          (case chat_completions jl default_kv_int8 d st (mo_world m) (mo_sink m) body e fsys of (r, e, fsys) \<Rightarrow> (Chat_reply r, e, fsys))
      | Options \<Rightarrow> (No_content, e, fsys))"

text \<open>A run of the server: the requests with the moments they came at, and their answers.\<close>

inductive serves ::
  "'j json_lib \<Rightarrow> bool \<Rightarrow> device \<Rightarrow> stl \<Rightarrow> engine \<Rightarrow> sys \<Rightarrow> (moment \<times> request \<times> answer) list \<Rightarrow> engine \<Rightarrow> sys \<Rightarrow> bool"
  for jl kv8 d st e0 fsys0
where
  listening: "serves jl kv8 d st e0 fsys0 [] e0 fsys0"
| answered: "serves jl kv8 d st e0 fsys0 log e fsys \<Longrightarrow> handle jl kv8 d st m rq e fsys = (a, e', fsys') \<Longrightarrow>
    serves jl kv8 d st e0 fsys0 (log @ [(m, rq, a)]) e' fsys'"

inductive_cases servesE: "serves jl kv8 d st e0 fsys0 log e fsys"


section \<open>The program\<close>

datatype server_result = Server_exit int loader | Server_undefined | Listening loader int bool

definition server_main :: "load_env \<Rightarrow> string list \<Rightarrow> loader \<Rightarrow> server_result" where
  "server_main le argv L =
     (case server_args argv ([], 8080, 0, False) of
        None \<Rightarrow> Server_exit 0 L
      | Some (model_path, port, context, kv_int8) \<Rightarrow>
        if model_path = [] then Server_exit 1 L
        else (case engine_load le model_path (server_params context kv_int8) L of
            None \<Rightarrow> Server_undefined
          | Some (ok, L) \<Rightarrow> if \<not> ok then Server_exit 1 (engine_unload L) else Listening L port kv_int8))"

lemma server_main_load:
  assumes "server_main le argv L = Listening L' port kv8"
  shows "\<exists>path lim. engine_load le path (server_params lim kv8) L = Some (True, L')"
  using assms by (auto simp: server_main_def split: option.splits prod.splits if_splits)


section \<open>The prompts are in the vocabulary\<close>

text \<open>The tokenizer and the model agree on the vocabulary.\<close>

definition tok_fits :: "model_config \<Rightarrow> tokenizer \<Rightarrow> bool" where
  "tok_fits cfg t \<longleftrightarrow> int (length (vocab t)) \<le> m_vocab_size cfg \<and> 0 \<le> bos_id t \<and> bos_id t < m_vocab_size cfg \<and>
     (add_eos t \<longrightarrow> 0 \<le> eos_id t \<and> eos_id t < m_vocab_size cfg)"

lemma prompt_in_vocab:
  assumes "tok_ok t" "tok_fits cfg t" "prompt_tokens_of t limit n prompt = Inr r"
  shows "in_vocab cfg (snd r)"
proof -
  obtain ids where "encode t prompt = Some ((if add_bos t then [bos_id t] else []) @ ids @ (if add_eos t then [eos_id t] else []))" "vocab_ids t ids"
    using encode_typed [OF assms(1)] by blast
  then show ?thesis using assms(2,3)
    by (auto simp: prompt_tokens_of_def tok_fits_def in_vocab_def vocab_ids_def Let_def split: if_splits) fastforce+
qed

lemma prompt_error:
  assumes "tok_ok t" "prompt_tokens_of t limit n prompt = Inl err"
  shows "err = Length_error"
proof -
  obtain ids where "encode t prompt = Some ids" using encode_typed [OF assms(1)] by blast
  then show ?thesis using assms(2) by (auto simp: prompt_tokens_of_def Let_def split: if_splits)
qed


section \<open>A request is a step of the session\<close>

text \<open>What is asked of a moment and a request: the copies of a hydration can be allocated, and the request
  does not ask for the other cache format.\<close>

definition moment_ok :: "kv_config \<Rightarrow> moment \<Rightarrow> bool" where
  "moment_ok c m \<longleftrightarrow> (\<forall>n \<le> gpu_pool_bytes c. w_alloc_ok (mo_world m) n)"

definition keeps_format :: "'j json_lib \<Rightarrow> bool \<Rightarrow> request \<Rightarrow> bool" where
  "keeps_format jl kv8 rq =
     (case rq of
        Post_chat body \<Rightarrow>
          (case jl_parse jl body of Inl err \<Rightarrow> True | Inr j \<Rightarrow> (case jl_bool jl j ''kv_int8'' kv8 of Inl err \<Rightarrow> True | Inr b \<Rightarrow> b = kv8))
      | _ \<Rightarrow> True)"

lemma chat_request_format:
  "chat_request jl kv8 body messages = Inr (params, prompt, str) \<Longrightarrow> jl_bool jl body ''kv_int8'' kv8 = Inr (gp_kv_int8 params)"
  by (auto simp: chat_request_def chat_params_def and_then_Inr)

lemma turn_or_rejected:
  assumes inv: "session_inv d G A c e fsys" and st: "stl_ok st" and tok: "tok_ok (en_tok e)" "tok_fits (en_cfg e) (en_tok e)"
    and fp16: "\<not> gp_kv_int8 params" and w: "\<forall>n \<le> gpu_pool_bytes c. w_alloc_ok w n"
  shows "(\<exists>r s fsys'. turn_ok c w prompt params e r \<and> generate d st w prompt params e fsys = Inr (s, fsys')) \<or>
    (prompt_tokens_of (en_tok e) (kv_max_tokens (kv_cfg (en_kv e))) (gp_max_tokens params) prompt = Inl Length_error \<and>
     generate d st w prompt params e fsys = Inl Length_error)"
proof -
  have c: "kv_cfg (en_kv e) = c" using inv by (simp add: session_inv_def engine_ok_def kv_pool_at_def)
  show ?thesis
  proof (cases "prompt_tokens_of (en_tok e) (kv_max_tokens c) (gp_max_tokens params) prompt")
    case (Inl err)
    then show ?thesis using prompt_error [OF tok(1) Inl] c by (simp add: generate_def Let_def)
  next
    case (Inr r)
    then have t: "turn_ok c w prompt params e r" using fp16 w prompt_in_vocab [OF tok Inr] by (simp add: turn_ok_def)
    then show ?thesis using turn_run [OF inv st, of w prompt params "fst r" "snd r"] by (metis prod.collapse)
  qed
qed

lemma session_turn: "session d st G A c e0 fsys0 e fsys \<Longrightarrow> turn_ok c w prompt params e r \<Longrightarrow>
    generate d st w prompt params e fsys = Inr (s, fsys') \<Longrightarrow> session d st G A c e0 fsys0 (ls_engine s) fsys'"
  using session.turn [of d st G A c e0 fsys0 e fsys w prompt params r s fsys' "sys_calls fsys'"] by simp

text \<open>Both ways of answering a chat request.\<close>

lemma reply_steps:
  assumes sess: "session d st G A c e0 fsys0 e fsys" and inv: "session_inv d G A c e fsys" and st: "stl_ok st"
    and tok: "tok_ok (en_tok e)" "tok_fits (en_cfg e) (en_tok e)"
    and fp16: "\<not> gp_kv_int8 params" and w: "\<forall>n \<le> gpu_pool_bytes c. w_alloc_ok w n"
  shows "stream_chat_completion d st w sink prompt params e fsys = (evs, e', fsys') \<Longrightarrow> session d st G A c e0 fsys0 e' fsys'"
    "build_completion d st w prompt params e fsys = Inr (co, e', fsys') \<Longrightarrow> session d st G A c e0 fsys0 e' fsys'"
    "build_completion d st w prompt params e fsys = Inl err \<Longrightarrow>
       err = Length_error \<and> session d st G A c e0 fsys0 (snd (after_error d st w prompt params e fsys)) fsys"
proof -
  consider (turn) r s f where "turn_ok c w prompt params e r" "generate d st w prompt params e fsys = Inr (s, f)"
    | (rejected) "prompt_tokens_of (en_tok e) (kv_max_tokens (kv_cfg (en_kv e))) (gp_max_tokens params) prompt = Inl Length_error"
      "generate d st w prompt params e fsys = Inl Length_error"
    using turn_or_rejected [OF inv st tok fp16 w, of prompt] by blast
  then have "(stream_chat_completion d st w sink prompt params e fsys = (evs, e', fsys') \<longrightarrow> session d st G A c e0 fsys0 e' fsys') \<and>
    (build_completion d st w prompt params e fsys = Inr (co, e', fsys') \<longrightarrow> session d st G A c e0 fsys0 e' fsys') \<and>
    (build_completion d st w prompt params e fsys = Inl err \<longrightarrow>
       err = Length_error \<and> session d st G A c e0 fsys0 (snd (after_error d st w prompt params e fsys)) fsys)"
  proof cases
    case turn
    have "session d st G A c e0 fsys0 (ls_engine s) f" by (rule session_turn [OF sess turn])
    then show ?thesis using turn(2) sess
      by (auto simp: stream_chat_completion_def build_completion_def Let_def split: prod.splits if_splits)
  next
    case rejected
    have r: "session d st G A c e0 fsys0 (with_params e params) fsys" by (rule session.rejected [OF sess rejected(1)])
    have a: "after_error d st w prompt params e fsys = ([], with_params e params)" by (rule length_error_early [OF rejected(2)])
    show ?thesis using rejected(2) sess r a
      by (auto simp: stream_chat_completion_def build_completion_def split: prod.splits if_splits)
  qed
  then show "stream_chat_completion d st w sink prompt params e fsys = (evs, e', fsys') \<Longrightarrow> session d st G A c e0 fsys0 e' fsys'"
    "build_completion d st w prompt params e fsys = Inr (co, e', fsys') \<Longrightarrow> session d st G A c e0 fsys0 e' fsys'"
    "build_completion d st w prompt params e fsys = Inl err \<Longrightarrow>
       err = Length_error \<and> session d st G A c e0 fsys0 (snd (after_error d st w prompt params e fsys)) fsys"
    by blast+
qed

lemma handle_step:
  assumes sess: "session d st G A c e0 fsys0 e fsys" and inv: "session_inv d G A c e fsys" and st: "stl_ok st"
    and tok: "tok_ok (en_tok e)" "tok_fits (en_cfg e) (en_tok e)"
    and ok: "moment_ok c m" "keeps_format jl False rq" and run: "handle jl False d st m rq e fsys = (a, e', fsys')"
  shows "session d st G A c e0 fsys0 e' fsys' \<and> a \<noteq> Chat_reply No_reply"
proof (cases rq)
  case (Post_chat req)
  obtain r where a: "a = Chat_reply r" and c: "chat_completions jl False d st (mo_world m) (mo_sink m) req e fsys = (r, e', fsys')"
    using run Post_chat by (auto simp: handle_def split: prod.splits)
  have w: "\<forall>n \<le> gpu_pool_bytes c. w_alloc_ok (mo_world m) n" using ok(1) by (simp add: moment_ok_def)
  consider (early) "e' = e" "fsys' = fsys" "r \<noteq> No_reply"
    | (chat) body messages params prompt str where "jl_parse jl req = Inr body" "jl_array jl body ''messages'' = Inr (Some messages)" "messages \<noteq> []"
        "chat_request jl False body messages = Inr (params, prompt, str)"
    using c by (fastforce simp: chat_completions_def split: sum.splits option.splits if_splits)
  then show ?thesis
  proof cases
    case early
    then show ?thesis using sess a by simp
  next
    case chat
    have fp16: "\<not> gp_kv_int8 params" using ok(2) Post_chat chat(1) chat_request_format [OF chat(4)] by (simp add: keeps_format_def)
    note steps = reply_steps [OF sess inv st tok fp16 w]
    show ?thesis
      using c chat steps(1) [of "mo_sink m" prompt] steps(2,3) [of prompt]
      by (auto simp: a chat_completions_def split: prod.splits sum.splits if_splits)
  qed
qed (use run sess in \<open>auto simp: handle_def\<close>)


section \<open>A run of the server\<close>

lemma serves_session:
  assumes "serves jl False d st e0 fsys0 log e fsys" and inv: "session_inv d G A c e0 fsys0" and st: "stl_ok st"
    and tok: "tok_ok (en_tok e0)" "tok_fits (en_cfg e0) (en_tok e0)"
    and ok: "\<forall>(m, rq, a) \<in> set log. moment_ok c m \<and> keeps_format jl False rq"
  shows "session d st G A c e0 fsys0 e fsys \<and> (\<forall>(m, rq, a) \<in> set log. a \<noteq> Chat_reply No_reply)"
  using assms(1) ok
proof (induction rule: serves.induct)
  case listening
  then show ?case by (simp add: session.start)
next
  case (answered log e fsys m rq a e' fsys')
  then have sess: "session d st G A c e0 fsys0 e fsys" by simp
  have i: "session_inv d G A c e fsys" "same_model (e0\<lparr>en_params := en_params e\<rparr>) e" using session_induct_inv [OF sess inv st] by simp_all
  then have "tok_ok (en_tok e)" "tok_fits (en_cfg e) (en_tok e)" using tok by (simp_all add: same_model_def)
  from handle_step [OF sess i(1) st this _ _ answered.hyps(2)] answered show ?case by auto
qed

text \<open>The tokenizer an engine ends up with, also when \<^verbatim>\<open>load_from_gguf\<close> failed: its result is not looked at.\<close>

lemma load_tok_ok_any:
  assumes load: "load_from_gguf srt file t0 = Some (ok, t)" and perm: "\<And>xs. set (srt xs) = set xs" and t0: "tok_ok t0"
  shows "tok_ok t"
proof (cases "t = t0")
  case False
  then obtain t1 where t: "t = build_tables srt t1"
    using load by (auto simp: load_from_gguf_def Let_def bind_eq_Some_conv split: option.splits if_splits)
  then show ?thesis by (simp add: build_tables_tok_ok [OF perm])
qed (use t0 in simp)

lemma engine_load_tok:
  assumes "engine_load le path params L = Some (True, L')"
  shows "\<exists>ok. load_from_gguf (le_sort le) (le_tokenizer_file le) (en_tok (ld_engine L)) = Some (ok, en_tok (ld_engine L'))"
proof -
  obtain L1 L2 L3 L4 L5 where s: "load_config le path params L = Some L1" "load_weights le L1 = Some (True, L2)" "load_norms le L2 = (True, L3)"
    "load_buffers le L3 = (True, L4)" "load_placement le L4 = (True, L5)" "load_finish le L5 = Some (True, L')"
    using engine_load_success [OF assms] by metis
  have "en_tok (ld_engine L1) = en_tok (ld_engine L)" using s(1) by (auto simp: load_config_def Let_def bind_eq_Some_conv)
  moreover have "en_tok (ld_engine L2) = en_tok (ld_engine L1)" using s(2)
    by (auto simp: load_weights_def Let_def bind_eq_Some_conv set_mw_def split: option.splits)
  moreover have "en_tok (ld_engine L3) = en_tok (ld_engine L2)" using s(3) by (auto simp: load_norms_def Let_def set_mw_def split: prod.splits)
  moreover have "en_tok (ld_engine L4) = en_tok (ld_engine L3)" using s(4)
    by (auto simp: load_buffers_def Let_def set_budget_def split: prod.splits if_splits)
  moreover have "en_tok (ld_engine L5) = en_tok (ld_engine L4)" using s(5)
    by (auto simp: load_placement_def place_layers_def place_output_def set_placement_def set_mw_def add_model_mb_def set_budget_def release_mapping_def
        split: prod.splits option.splits if_splits)
  ultimately show ?thesis using s(6) by (auto simp: load_finish_def Let_def bind_eq_Some_conv split: option.splits)
qed

end
