(* ===== verification/Softmax.thy ===== *)
theory Softmax
  imports Gpu_Kernels
begin

text \<open>
  The softmax kernel of \<^verbatim>\<open>softmax.cu\<close>: one block of 256 threads, a maximum, a sum and a
  normalisation, with the partial results of the eight warps in shared memory.

  Between the second and the third barrier every thread reads the maximum from \<^verbatim>\<open>smem[0]\<close> and every
  warp writes its partial sum to \<^verbatim>\<open>smem[warp]\<close>, and nothing orders the reads of one warp and the write
  of another. The kernel is therefore run on an order of these accesses, any one in which the threads
  of a warp read before the warp writes (the shuffles are in between). The other phases touch
  different cells in different threads.
\<close>


section \<open>The kernel\<close>

definition NEG_FLT_MAX :: f32 where "NEG_FLT_MAX = 0xFF7FFFFF"

definition SOFTMAX_BLOCK :: nat where "SOFTMAX_BLOCK = 256"

definition softmax_local_max :: "fpu \<Rightarrow> f32 list \<Rightarrow> nat \<Rightarrow> nat \<Rightarrow> nat \<Rightarrow> f32" where
  "softmax_local_max fp x n stride tid = fold (\<lambda>i m. f_max fp m (x ! i)) (strided tid stride n) NEG_FLT_MAX"

text \<open>Shared memory after the second barrier: the maxima of the warps, and in front the maximum of all.\<close>

definition softmax_max :: "fpu \<Rightarrow> f32 list \<Rightarrow> nat \<Rightarrow> nat \<Rightarrow> f32 list \<Rightarrow> f32 list" where
  "softmax_max fp x n stride smem =
     (let smem = fold (\<lambda>w smem. smem[w := warp_value (f_max fp) (softmax_local_max fp x n stride) w]) [0..<stride div 32] smem;
          m = fold (\<lambda>w m. f_max fp m (smem ! w)) [0..<(stride + 31) div 32] NEG_FLT_MAX
      in smem[0 := m])"

text \<open>The second pass of a thread: its elements replaced by their exponentials, and the sum of these.\<close>

definition softmax_pass2 :: "fpu \<Rightarrow> nat \<Rightarrow> nat \<Rightarrow> f32 \<Rightarrow> nat \<Rightarrow> f32 list \<Rightarrow> f32 list \<times> f32" where
  "softmax_pass2 fp n stride max_val tid x =
     fold (\<lambda>i (x, s). let e = f_exp fp (f_sub fp (x ! i) max_val) in (x[i := e], f_add fp s e)) (strided tid stride n) (x, 0)"

text \<open>The accesses to shared memory between the barriers: thread \<^verbatim>\<open>t\<close> reads the maximum (and runs its second
  pass on it), warp \<^verbatim>\<open>w\<close> writes its partial sum.\<close>

datatype smem_access = Read_max nat | Write_sum nat

record softmax_state =
  sm_x :: "f32 list"
  sm_smem :: "f32 list"
  sm_sums :: "f32 list"

fun softmax_access :: "fpu \<Rightarrow> nat \<Rightarrow> nat \<Rightarrow> smem_access \<Rightarrow> softmax_state \<Rightarrow> softmax_state" where
  "softmax_access fp n stride (Read_max t) s =
     (case softmax_pass2 fp n stride (sm_smem s ! 0) t (sm_x s) of (x, local_sum) \<Rightarrow> s\<lparr>sm_x := x, sm_sums := (sm_sums s)[t := local_sum]\<rparr>)"
| "softmax_access fp n stride (Write_sum w) s = s\<lparr>sm_smem := (sm_smem s)[w := warp_value (f_add fp) (\<lambda>t. sm_sums s ! t) w]\<rparr>"

definition softmax_pass3 :: "fpu \<Rightarrow> nat \<Rightarrow> nat \<Rightarrow> f32 \<Rightarrow> nat \<Rightarrow> f32 list \<Rightarrow> f32 list" where
  "softmax_pass3 fp n stride inv_sum tid x = fold (\<lambda>i x. x[i := f_mul fp (x ! i) inv_sum]) (strided tid stride n) x"

definition softmax_kernel :: "fpu \<Rightarrow> nat \<Rightarrow> smem_access list \<Rightarrow> f32 list \<Rightarrow> f32 list \<Rightarrow> nat \<Rightarrow> f32 list" where
  "softmax_kernel fp stride order smem x n =
     (let s = fold (softmax_access fp n stride) order
                \<lparr>sm_x = x, sm_smem = softmax_max fp x n stride smem, sm_sums = replicate stride 0\<rparr>;
          tot = fold (\<lambda>w t. f_add fp t (sm_smem s ! w)) [0..<(stride + 31) div 32] 0;
          inv_sum = f_div fp f32_one tot
      in fold (softmax_pass3 fp n stride inv_sum) [0..<stride] (sm_x s))"

text \<open>\<^verbatim>\<open>garbage\<close> is what the shared memory of the launch holds at first.\<close>

definition softmax_inplace :: "fpu \<Rightarrow> smem_access list \<Rightarrow> (nat \<Rightarrow> f32) \<Rightarrow> f32 list \<Rightarrow> nat \<Rightarrow> f32 list" where
  "softmax_inplace fp order garbage x n = softmax_kernel fp SOFTMAX_BLOCK order (map garbage [0..<SOFTMAX_BLOCK div 32 + 1]) x n"

text \<open>The orders the kernel allows.\<close>

definition possible_order :: "smem_access list \<Rightarrow> bool" where
  "possible_order order \<longleftrightarrow> distinct order \<and> set order = Read_max ` {..<256} \<union> Write_sum ` {..<8} \<and>
     (\<forall>t < 256. Read_max t \<in> set (takeWhile (\<lambda>a. a \<noteq> Write_sum (t div 32)) order))"

text \<open>A thread is late when the first warp has written before it reads.\<close>

definition late :: "smem_access list \<Rightarrow> nat \<Rightarrow> bool" where
  "late order t \<longleftrightarrow> Write_sum 0 \<in> set (takeWhile (\<lambda>a. a \<noteq> Read_max t) order)"


section \<open>The reference\<close>

text \<open>The maximum of the block, and the softmax in which thread \<^verbatim>\<open>t\<close> subtracts \<^verbatim>\<open>mv t\<close>.\<close>

definition block_max :: "fpu \<Rightarrow> f32 list \<Rightarrow> nat \<Rightarrow> f32" where
  "block_max fp x n = fold (\<lambda>w m. f_max fp m (warp_value (f_max fp) (softmax_local_max fp x n 256) w)) [0..<8] NEG_FLT_MAX"

definition exps :: "fpu \<Rightarrow> (nat \<Rightarrow> f32) \<Rightarrow> f32 list \<Rightarrow> nat \<Rightarrow> f32" where
  "exps fp mv x i = f_exp fp (f_sub fp (x ! i) (mv (i mod 256)))"

definition part_sum :: "fpu \<Rightarrow> (nat \<Rightarrow> f32) \<Rightarrow> f32 list \<Rightarrow> nat \<Rightarrow> nat \<Rightarrow> f32" where
  "part_sum fp mv x n t = fold (\<lambda>i s. f_add fp s (exps fp mv x i)) (strided t 256 n) 0"

definition softmax_with :: "fpu \<Rightarrow> (nat \<Rightarrow> f32) \<Rightarrow> f32 list \<Rightarrow> nat \<Rightarrow> f32 list" where
  "softmax_with fp mv x n =
     (let inv_sum = f_div fp f32_one (fold (\<lambda>w t. f_add fp t (warp_value (f_add fp) (part_sum fp mv x n) w)) [0..<8] 0)
      in map (\<lambda>i. f_mul fp (exps fp mv x i) inv_sum) [0..<n] @ drop n x)"


section \<open>One thread\<close>

lemma strided_mod: "t < st \<Longrightarrow> set (strided t st n) = {i. i < n \<and> i mod st = t}"
proof -
  assume t: "t < st"
  have eq: "t \<le> j \<and> (j - t) mod st = 0 \<longleftrightarrow> j mod st = t" for j
  proof
    assume j: "t \<le> j \<and> (j - t) mod st = 0"
    then obtain k where "j - t = st * k" by (auto simp: mod_eq_0_iff_dvd)
    then have "j = t + st * k" using j by linarith
    then show "j mod st = t" using t by simp
  next
    assume "j mod st = t"
    then have "j - t = st * (j div st)" "t \<le> j" using minus_mod_eq_mult_div [of j st] mod_less_eq_dividend [of j st] by simp_all
    then show "t \<le> j \<and> (j - t) mod st = 0" by simp
  qed
  have "set (strided t st n) = {j. j < n \<and> (t \<le> j \<and> (j - t) mod st = 0)}"
    unfolding strided_set [OF le_less_trans [OF le0 t]] by (rule Collect_cong) blast
  then show ?thesis unfolding eq .
qed

lemma strided_distinct: "distinct (strided i st n)"
proof (induction i st n rule: strided.induct)
  case (1 i st n)
  then show ?case using strided.simps [of i st n] by (auto simp: strided_set)
qed

lemma fold_update_at:
  "distinct is \<Longrightarrow> \<forall>i \<in> set is. i < length x \<Longrightarrow>
   length (fold (\<lambda>i x. x[i := g (x ! i)]) is x) = length x \<and>
   (j < length x \<longrightarrow> fold (\<lambda>i x. x[i := g (x ! i)]) is x ! j = (if j \<in> set is then g (x ! j) else x ! j))"
  by (induction "is" arbitrary: x) (auto simp: nth_list_update)

lemma pass2_fold:
  "distinct is \<Longrightarrow> \<forall>i \<in> set is. i < length x \<Longrightarrow>
   fold (\<lambda>i (x, s). let e = h (x ! i) in (x[i := e], f s e)) is (x, s) =
     (fold (\<lambda>i x. x[i := h (x ! i)]) is x, fold (\<lambda>i s. f s (h (x ! i))) is s)"
proof (induction "is" arbitrary: x s)
  case (Cons i "is")
  have "x[i := v] ! j = x ! j" if "j \<in> set is" for v j using Cons.prems(1) that by (cases "j = i") auto
  then have "fold (\<lambda>j s. f s (h (x[i := h (x ! i)] ! j))) is s' = fold (\<lambda>j s. f s (h (x ! j))) is s'" for s'
    by (intro fold_cong) auto
  then show ?case using Cons by (simp add: Let_def)
qed simp

lemma pass2_thread:
  assumes "t < 256" "n \<le> length x" "softmax_pass2 fp n 256 m t x = (x', s)"
  shows "length x' = length x" "j < length x \<Longrightarrow> x' ! j = (if j < n \<and> j mod 256 = t then f_exp fp (f_sub fp (x ! j) m) else x ! j)"
    "s = fold (\<lambda>i s. f_add fp s (f_exp fp (f_sub fp (x ! i) m))) (strided t 256 n) 0"
proof -
  let ?is = "strided t 256 n" and ?h = "\<lambda>v. f_exp fp (f_sub fp v m)"
  have b: "\<forall>i \<in> set ?is. i < length x" using strided_bound assms(2) by fastforce
  have "x' = fold (\<lambda>i x. x[i := ?h (x ! i)]) ?is x \<and> s = fold (\<lambda>i s. f_add fp s (?h (x ! i))) ?is 0"
    using assms(3) pass2_fold [OF strided_distinct b, of ?h "f_add fp" 0] unfolding softmax_pass2_def by simp
  then show "length x' = length x" "j < length x \<Longrightarrow> x' ! j = (if j < n \<and> j mod 256 = t then ?h (x ! j) else x ! j)"
    "s = fold (\<lambda>i s. f_add fp s (?h (x ! i))) ?is 0"
    using fold_update_at [OF strided_distinct b, of ?h j] strided_mod [OF assms(1), of n] by auto
qed

lemma pass3_threads:
  assumes "T \<le> 256" "n \<le> length x"
  shows "length (fold (softmax_pass3 fp n 256 v) [0..<T] x) = length x \<and>
    (\<forall>j < length x. fold (softmax_pass3 fp n 256 v) [0..<T] x ! j = (if j < n \<and> j mod 256 < T then f_mul fp (x ! j) v else x ! j))"
  using assms(1)
proof (induction T)
  case (Suc T)
  define y where "y = fold (softmax_pass3 fp n 256 v) [0..<T] x"
  have y: "length y = length x" "\<forall>j < length x. y ! j = (if j < n \<and> j mod 256 < T then f_mul fp (x ! j) v else x ! j)"
    using Suc by (simp_all add: y_def)
  have b: "\<forall>i \<in> set (strided T 256 n). i < length y" using strided_bound assms(2) y(1) by fastforce
  have s: "set (strided T 256 n) = {i. i < n \<and> i mod 256 = T}" using strided_mod [of T 256 n] Suc.prems by simp
  have z: "fold (softmax_pass3 fp n 256 v) [0..<Suc T] x = softmax_pass3 fp n 256 v T y" by (simp add: y_def)
  show ?case unfolding z using fold_update_at [OF strided_distinct b, of "\<lambda>u. f_mul fp u v"] s y by (auto simp: softmax_pass3_def less_Suc_eq)
qed simp


section \<open>All orders\<close>

text \<open>What the state is after the accesses \<^verbatim>\<open>pre\<close>.\<close>

definition softmax_inv :: "fpu \<Rightarrow> (nat \<Rightarrow> f32) \<Rightarrow> f32 \<Rightarrow> f32 list \<Rightarrow> nat \<Rightarrow> smem_access list \<Rightarrow> softmax_state \<Rightarrow> bool" where
  "softmax_inv fp mv m x n pre s \<longleftrightarrow> length (sm_x s) = length x \<and> length (sm_smem s) = 9 \<and> length (sm_sums s) = 256 \<and>
     (\<forall>i < length x. sm_x s ! i = (if i < n \<and> Read_max (i mod 256) \<in> set pre then exps fp mv x i else x ! i)) \<and>
     (\<forall>t < 256. Read_max t \<in> set pre \<longrightarrow> sm_sums s ! t = part_sum fp mv x n t) \<and>
     (\<forall>w < 8. Write_sum w \<in> set pre \<longrightarrow> sm_smem s ! w = warp_value (f_add fp) (part_sum fp mv x n) w) \<and>
     (Write_sum 0 \<notin> set pre \<longrightarrow> sm_smem s ! 0 = m)"

lemma warp_value_cong: "(\<And>t. t div 32 = w \<Longrightarrow> g t = h t) \<Longrightarrow> warp_value f g w = warp_value f h w"
proof -
  assume *: "\<And>t. t div 32 = w \<Longrightarrow> g t = h t"
  have "map g [32 * w..<32 * w + 32] = map h [32 * w..<32 * w + 32]"
  proof (rule map_cong [OF refl])
    fix t assume "t \<in> set [32 * w..<32 * w + 32]"
    then have "t div 32 = w" by (intro div_nat_eqI) auto
    then show "g t = h t" by (rule *)
  qed
  then show ?thesis unfolding warp_value_def by (rule arg_cong)
qed

lemma read_step:
  assumes inv: "softmax_inv fp mv m x n pre s" and t: "t < 256" "Read_max t \<notin> set pre" and n: "n \<le> length x"
    and mv: "mv t = sm_smem s ! 0"
  shows "softmax_inv fp mv m x n (pre @ [Read_max t]) (softmax_access fp n 256 (Read_max t) s)"
proof -
  obtain x' v where p: "softmax_pass2 fp n 256 (sm_smem s ! 0) t (sm_x s) = (x', v)" by fastforce
  have len: "length (sm_x s) = length x" and old: "\<And>i. i < length x \<Longrightarrow> i mod 256 = t \<Longrightarrow> sm_x s ! i = x ! i"
    using inv t(2) by (auto simp: softmax_inv_def)
  note q = pass2_thread [OF t(1) _ p, unfolded len, OF n]
  have "v = part_sum fp mv x n t" unfolding q(3) part_sum_def
  proof (rule fold_cong [OF refl refl])
    fix i assume "i \<in> set (strided t 256 n)"
    then have "i mod 256 = t" "i < length x" using strided_mod [OF t(1)] n by auto
    then show "(\<lambda>s'. f_add fp s' (f_exp fp (f_sub fp (sm_x s ! i) (sm_smem s ! 0)))) = (\<lambda>s'. f_add fp s' (exps fp mv x i))"
      using old mv by (simp add: exps_def)
  qed
  moreover have "x' ! i = (if i < n \<and> Read_max (i mod 256) \<in> set (pre @ [Read_max t]) then exps fp mv x i else x ! i)" if "i < length x" for i
    using q(2) [OF that] that old [OF that] mv inv t(2) by (auto simp: softmax_inv_def exps_def)
  ultimately show ?thesis using inv p q(1) t by (auto simp: softmax_inv_def nth_list_update)
qed

lemma write_step:
  assumes inv: "softmax_inv fp mv m x n pre s" and w: "w < 8" and reads: "\<forall>t. t div 32 = w \<longrightarrow> Read_max t \<in> set pre"
  shows "softmax_inv fp mv m x n (pre @ [Write_sum w]) (softmax_access fp n 256 (Write_sum w) s)"
proof -
  have "warp_value (f_add fp) (\<lambda>t. sm_sums s ! t) w = warp_value (f_add fp) (part_sum fp mv x n) w"
    using inv reads w by (intro warp_value_cong) (auto simp: softmax_inv_def)
  then show ?thesis using inv w by (auto simp: softmax_inv_def nth_list_update)
qed

lemma takeWhile_split: "distinct (pre @ a # post) \<Longrightarrow> takeWhile (\<lambda>b. b \<noteq> a) (pre @ a # post) = pre"
  by (induction pre) auto

lemma order_inv:
  assumes ok: "possible_order order" and n: "n \<le> length x"
    and init: "softmax_inv fp mv m x n [] s0"
    and mv: "mv = (\<lambda>t. if late order t then warp_value (f_add fp) (part_sum fp mv x n) 0 else m)"
  shows "order = pre @ post \<Longrightarrow> softmax_inv fp mv m x n pre (fold (softmax_access fp n 256) pre s0)"
proof (induction pre arbitrary: post rule: rev_induct)
  case Nil
  show ?case using init by simp
next
  case (snoc a pre)
  then have o: "order = pre @ a # post" by simp
  have d: "distinct (pre @ a # post)" using ok by (simp add: possible_order_def o)
  have IH: "softmax_inv fp mv m x n pre (fold (softmax_access fp n 256) pre s0)" using snoc.IH o by blast
  note tw = takeWhile_split [OF d, folded o]
  have a: "a \<in> Read_max ` {..<256} \<union> Write_sum ` {..<8}" using ok by (auto simp: possible_order_def o)
  show ?case
  proof (cases a)
    case (Read_max t)
    have "late order t \<longleftrightarrow> Write_sum 0 \<in> set pre" using tw Read_max by (simp add: late_def)
    then have "mv t = sm_smem (fold (softmax_access fp n 256) pre s0) ! 0"
      using IH by (subst mv) (auto simp: softmax_inv_def)
    then show ?thesis using read_step [OF IH _ _ n] a d Read_max by auto
  next
    case (Write_sum w)
    have "Read_max t \<in> set pre" if "t div 32 = w" for t
      using ok that a Write_sum tw by (auto simp: possible_order_def)
    then show ?thesis using write_step [OF IH] a Write_sum by auto
  qed
qed

lemma not_late:
  assumes "possible_order order" "t < 256" "t div 32 = 0"
  shows "\<not> late order t"
proof
  assume "late order t"
  moreover have "Read_max t \<in> set (takeWhile (\<lambda>a. a \<noteq> Write_sum 0) order)" using assms by (auto simp: possible_order_def)
  ultimately show False unfolding late_def by (induction order) (auto split: if_splits)
qed

lemma softmax_max_front:
  assumes "length smem = 9"
  shows "length (softmax_max fp x n 256 smem) = 9" "softmax_max fp x n 256 smem ! 0 = block_max fp x n"
proof -
  let ?v = "warp_value (f_max fp) (softmax_local_max fp x n 256)"
  define sm where "sm = fold (\<lambda>w smem. smem[w := ?v w]) [0..<8] smem"
  have sm: "length sm = 9" "\<forall>w < 8. sm ! w = ?v w"
    using assms by (simp_all add: sm_def upt_rec numeral_eq_Suc nth_list_update All_less_Suc)
  then have "fold (\<lambda>w m. f_max fp m (sm ! w)) [0..<8] NEG_FLT_MAX = block_max fp x n"
    unfolding block_max_def by (intro fold_cong) auto
  then show "length (softmax_max fp x n 256 smem) = 9" "softmax_max fp x n 256 smem ! 0 = block_max fp x n"
    using sm by (simp_all add: softmax_max_def Let_def sm_def [symmetric])
qed

definition late_max :: "fpu \<Rightarrow> smem_access list \<Rightarrow> f32 list \<Rightarrow> nat \<Rightarrow> nat \<Rightarrow> f32" where
  "late_max fp order x n t =
     (if late order t then warp_value (f_add fp) (part_sum fp (\<lambda>_. block_max fp x n) x n) 0 else block_max fp x n)"

lemma late_max_eq:
  assumes "possible_order order"
  shows "late_max fp order x n = (\<lambda>t. if late order t then warp_value (f_add fp) (part_sum fp (late_max fp order x n) x n) 0 else block_max fp x n)"
proof -
  have "part_sum fp (\<lambda>_. block_max fp x n) x n t = part_sum fp (late_max fp order x n) x n t" if t: "t div 32 = 0" for t
    unfolding part_sum_def
  proof (rule fold_cong [OF refl refl])
    have t256: "t < 256" using t by (simp add: div_eq_0_iff)
    fix i assume "i \<in> set (strided t 256 n)"
    then have "i mod 256 = t" using strided_mod [OF t256] by auto
    then show "(\<lambda>s. f_add fp s (exps fp (\<lambda>_. block_max fp x n) x i)) = (\<lambda>s. f_add fp s (exps fp (late_max fp order x n) x i))"
      using not_late [OF assms t256 t] by (simp add: exps_def late_max_def)
  qed
  then show ?thesis by (intro ext) (simp add: late_max_def cong: warp_value_cong)
qed

lemma softmax_any_order:
  assumes ok: "possible_order order" and n: "n \<le> length x"
  shows "softmax_inplace fp order garbage x n = softmax_with fp (late_max fp order x n) x n"
proof -
  let ?mv = "late_max fp order x n" and ?m = "block_max fp x n"
  define s0 where "s0 = \<lparr>sm_x = x, sm_smem = softmax_max fp x n 256 (map garbage [0..<9]), sm_sums = replicate 256 0\<rparr>"
  define s where "s = fold (softmax_access fp n 256) order s0"
  have "softmax_inv fp ?mv ?m x n [] s0" using softmax_max_front [of "map garbage [0..<9]" fp x n] by (simp add: softmax_inv_def s0_def)
  then have inv: "softmax_inv fp ?mv ?m x n order s" unfolding s_def using order_inv [OF ok n _ late_max_eq [OF ok], where pre = order and post = "[]"] by simp
  have all: "Read_max t \<in> set order" "Write_sum w \<in> set order" if "t < 256" "w < 8" for t w using ok that by (auto simp: possible_order_def)
  have x: "length (sm_x s) = length x" "\<forall>i < length x. sm_x s ! i = (if i < n then exps fp ?mv x i else x ! i)"
    using inv all(1) [of _ 0] by (auto simp: softmax_inv_def)
  define v where "v = f_div fp f32_one (fold (\<lambda>w t. f_add fp t (warp_value (f_add fp) (part_sum fp ?mv x n) w)) [0..<8] 0)"
  have "fold (\<lambda>w t. f_add fp t (sm_smem s ! w)) [0..<8] 0 = fold (\<lambda>w t. f_add fp t (warp_value (f_add fp) (part_sum fp ?mv x n) w)) [0..<8] 0"
    using inv all(2) [of 0] by (intro fold_cong) (auto simp: softmax_inv_def)
  then have run: "softmax_inplace fp order garbage x n = fold (softmax_pass3 fp n 256 v) [0..<256] (sm_x s)"
    by (simp add: softmax_inplace_def softmax_kernel_def SOFTMAX_BLOCK_def Let_def s_def s0_def v_def)
  have "fold (softmax_pass3 fp n 256 v) [0..<256] (sm_x s) = map (\<lambda>i. f_mul fp (exps fp ?mv x i) v) [0..<n] @ drop n x"
    using pass3_threads [of 256 n "sm_x s" fp v] x n by (intro nth_equalityI) (auto simp: nth_append)
  then show ?thesis by (simp add: run softmax_with_def v_def)
qed

text \<open>Without a late thread the kernel is the softmax of the block.\<close>

lemma softmax_no_late:
  assumes "possible_order order" "n \<le> length x" "\<forall>t < 256. \<not> late order t"
  shows "softmax_inplace fp order garbage x n = softmax_with fp (\<lambda>_. block_max fp x n) x n"
proof -
  have "late_max fp order x n (i mod 256) = block_max fp x n" for i using assms(3) by (simp add: late_max_def)
  then have "exps fp (late_max fp order x n) x = exps fp (\<lambda>_. block_max fp x n) x" by (intro ext) (simp add: exps_def)
  then show ?thesis using softmax_any_order [OF assms(1,2)] by (simp add: softmax_with_def part_sum_def [abs_def])
qed

text \<open>(C38) The softmax kernel on every order of its accesses to shared memory: a thread that reads
  \<^verbatim>\<open>smem[0]\<close> before the first warp writes its partial sum there subtracts the maximum of the block, and a
  thread that reads after it subtracts that partial sum. The kernel has no barrier between the two.\<close>

theorem softmax_late_readers:
  assumes ok: "possible_order order" and n: "n \<le> length x"
  shows "softmax_inplace fp order garbage x n =
    softmax_with fp (\<lambda>t. if late order t then warp_value (f_add fp) (part_sum fp (\<lambda>_. block_max fp x n) x n) 0 else block_max fp x n) x n"
  using softmax_any_order [OF assms] by (simp only: late_max_def [abs_def])

text \<open>An order in which the first warp is fast and one in which every thread reads first. On 33 masked logits
  (\<^verbatim>\<open>-FLT_MAX\<close>) they give different results.\<close>

definition demo_fast_warp :: "smem_access list" where
  "demo_fast_warp = map Read_max [0..<32] @ Write_sum 0 # map Read_max [32..<256] @ map Write_sum [1..<8]"

definition demo_in_step :: "smem_access list" where
  "demo_in_step = map Read_max [0..<256] @ map Write_sum [0..<8]"

lemma takeWhile_front:
  assumes "order = pre @ post" "a \<notin> set pre" "b \<in> set pre"
  shows "b \<in> set (takeWhile (\<lambda>c. c \<noteq> a) order)"
proof -
  have "takeWhile (\<lambda>c. c \<noteq> a) order = pre @ takeWhile (\<lambda>c. c \<noteq> a) post"
    unfolding assms(1) by (rule takeWhile_append2) (use assms(2) in auto)
  then show ?thesis using assms(3) by simp
qed

lemma demo_fast_warp_possible: "possible_order demo_fast_warp"
proof -
  have "Read_max t \<in> set (takeWhile (\<lambda>a. a \<noteq> Write_sum (t div 32)) demo_fast_warp)" if "t < 256" for t
  proof (cases "t < 32")
    case True
    then show ?thesis by (intro takeWhile_front [OF demo_fast_warp_def]) (auto simp del: upt_rec_numeral)
  next
    case False
    then have "t div 32 \<noteq> 0" by (simp add: div_eq_0_iff)
    have e: "demo_fast_warp = (map Read_max [0..<32] @ Write_sum 0 # map Read_max [32..<256]) @ map Write_sum [1..<8]"
      by (simp add: demo_fast_warp_def del: upt_rec_numeral)
    show ?thesis by (rule takeWhile_front [OF e]) (use False that \<open>t div 32 \<noteq> 0\<close> in \<open>auto simp del: upt_rec_numeral\<close>)
  qed
  moreover have "distinct demo_fast_warp"
    by (auto simp: demo_fast_warp_def distinct_map inj_on_def simp del: upt_rec_numeral)
  moreover have "set demo_fast_warp = Read_max ` {..<256} \<union> Write_sum ` {..<8}"
    by (auto simp: demo_fast_warp_def image_iff simp del: upt_rec_numeral)
  ultimately show ?thesis by (simp add: possible_order_def)
qed

lemma demo_in_step_possible: "possible_order demo_in_step"
proof -
  have "Read_max t \<in> set (takeWhile (\<lambda>a. a \<noteq> Write_sum (t div 32)) demo_in_step)" if "t < 256" for t
    using that by (intro takeWhile_front [OF demo_in_step_def]) (auto simp del: upt_rec_numeral)
  then show ?thesis
    by (auto simp: possible_order_def demo_in_step_def distinct_map inj_on_def atLeast0LessThan simp del: upt_rec_numeral)
qed

lemma demo_late: "late demo_fast_warp 32" "t < 256 \<Longrightarrow> \<not> late demo_in_step t"
proof -
  have "demo_fast_warp = (map Read_max [0..<32] @ [Write_sum 0]) @ map Read_max [32..<256] @ map Write_sum [1..<8]"
    by (simp add: demo_fast_warp_def del: upt_rec_numeral)
  then show "late demo_fast_warp 32" unfolding late_def by (rule takeWhile_front) (auto simp del: upt_rec_numeral)
  assume "t < 256"
  then have "takeWhile (\<lambda>a. a \<noteq> Read_max t) demo_in_step = takeWhile (\<lambda>a. a \<noteq> Read_max t) (map Read_max [0..<256])"
    unfolding demo_in_step_def by (intro takeWhile_append1 [of "Read_max t"]) (simp_all del: upt_rec_numeral)
  then show "\<not> late demo_in_step t" by (auto simp: late_def simp del: upt_rec_numeral dest!: set_takeWhileD)
qed

lemma warp_value_const:
  assumes "f v v = v" "\<And>t. t div 32 = w \<Longrightarrow> part t = v"
  shows "warp_value f part w = v"
proof -
  define step where "step = (\<lambda>off l. map (\<lambda>i. f (l ! i) (l ! (i XOR off))) [0..<32 :: nat])"
  have "step off (replicate 32 v) = replicate 32 v" if "off < 32" for off
    using assms(1) xor_less_32 [OF _ that] by (intro nth_equalityI) (simp_all add: step_def del: upt_rec_numeral)
  moreover have "map part [32 * w..<32 * w + 32] = replicate 32 v"
    using assms(2) by (intro nth_equalityI) (auto simp: div_nat_eqI)
  ultimately show ?thesis by (simp add: warp_value_def warp_reduce_def step_def [symmetric])
qed

lemma fold_const: "(\<And>i. i \<in> set is \<Longrightarrow> g i v = v) \<Longrightarrow> fold g is v = v"
  by (induction "is") auto

lemma masked_logits:
  defines "x \<equiv> replicate 33 NEG_FLT_MAX"
  shows "block_max demo_fpu x 33 = NEG_FLT_MAX" "warp_value (f_add demo_fpu) (part_sum demo_fpu (\<lambda>_. NEG_FLT_MAX) x 33) w = 0"
proof -
  have x: "x ! i = NEG_FLT_MAX" if "i \<in> set (strided t st 33)" for i t st using strided_bound [OF that] by (simp add: x_def)
  have "softmax_local_max demo_fpu x 33 256 t = NEG_FLT_MAX" for t
    unfolding softmax_local_max_def using x by (intro fold_const) (simp add: demo_fpu_def)
  then have "warp_value (f_max demo_fpu) (softmax_local_max demo_fpu x 33 256) w = NEG_FLT_MAX" for w
    by (intro warp_value_const) (simp_all add: demo_fpu_def)
  then show "block_max demo_fpu x 33 = NEG_FLT_MAX" unfolding block_max_def by (intro fold_const) (simp add: demo_fpu_def)
  have "part_sum demo_fpu (\<lambda>_. NEG_FLT_MAX) x 33 t = 0" for t
    unfolding part_sum_def using x by (intro fold_const) (simp add: exps_def demo_fpu_def)
  then show "warp_value (f_add demo_fpu) (part_sum demo_fpu (\<lambda>_. NEG_FLT_MAX) x 33) w = 0"
    by (intro warp_value_const) (simp_all add: demo_fpu_def)
qed

theorem softmax_late_readers_witness:
  "softmax_inplace demo_fpu demo_fast_warp (\<lambda>_. 0) (replicate 33 NEG_FLT_MAX) 33 ! 32 = NEG_FLT_MAX * f32_one \<and>
   softmax_inplace demo_fpu demo_in_step (\<lambda>_. 0) (replicate 33 NEG_FLT_MAX) 33 ! 32 = 0 \<and> NEG_FLT_MAX * f32_one \<noteq> 0"
proof -
  have n: "33 \<le> length (replicate 33 NEG_FLT_MAX)" by simp
  have 1: "softmax_inplace demo_fpu demo_fast_warp (\<lambda>_. 0) (replicate 33 NEG_FLT_MAX) 33 ! 32 = NEG_FLT_MAX * f32_one"
    unfolding softmax_late_readers [OF demo_fast_warp_possible n] masked_logits
    by (simp add: softmax_with_def Let_def nth_append exps_def demo_late demo_fpu_def del: upt_rec_numeral)
  have 2: "softmax_inplace demo_fpu demo_in_step (\<lambda>_. 0) (replicate 33 NEG_FLT_MAX) 33 ! 32 = 0"
    unfolding softmax_late_readers [OF demo_in_step_possible n] masked_logits
    by (simp add: softmax_with_def Let_def nth_append exps_def demo_late demo_fpu_def del: upt_rec_numeral)
  show ?thesis using 1 2 by (simp add: NEG_FLT_MAX_def f32_one_def)
qed

end
