(* ===== verification/Spec2Isabelle.thy ===== *)
theory Spec2Isabelle
  imports Gguf_Model Tokenizer_Load Resume Load_Example Server Softmax
begin

text \<open>
  A verification development of reflex-llm, a C++/CUDA runtime that loads a language model from a GGUF
  file on a Jetson board, generates text with it and serves it over HTTP. Paths are relative to the
  directory \<^verbatim>\<open>src/\<close> of the repository.

  THE PROGRAM. \<^verbatim>\<open>main.cpp\<close> (command line) and \<^verbatim>\<open>main_server.cpp\<close> with \<^verbatim>\<open>server/http_server.cpp\<close> (server) own
  one \<^verbatim>\<open>Engine\<close> (\<^verbatim>\<open>engine/decode.cu\<close>). \<^verbatim>\<open>Engine::load\<close> reads the configuration and the tensor table
  (\<^verbatim>\<open>engine/model.cpp\<close>), maps the weights, places some of them in device memory, sizes the KV cache
  (\<^verbatim>\<open>memory/kv_cache.cpp\<close>) and the scratch pool (\<^verbatim>\<open>memory/pool.cpp\<close>) from the memory budget
  (\<^verbatim>\<open>memory/budget.cpp\<close>) and reads the tokenizer (\<^verbatim>\<open>engine/tokenizer.cpp\<close>). \<^verbatim>\<open>Engine::generate\<close> turns a
  prompt into tokens, restores a prefix of them from the cache file of the conversation
  (\<^verbatim>\<open>persistence/kv_cache_file.cpp\<close>), runs the rest through the transformer on one of two prefill paths,
  then alternates decode steps (kernels of \<^verbatim>\<open>kernels/\<close>, matrix products and attention of the library
  reflex-infer) with sampling (\<^verbatim>\<open>engine/sample.cpp\<close>), checks of memory and temperature (\<^verbatim>\<open>jetson/\<close>), and
  finally saves the KV cache of the conversation. The server formats chat messages into a prompt and
  divides the generated text at the thinking tags.

  THE THEORIES, from the bottom up, each with the code it models.
  \<^verbatim>\<open>Prelude\<close>: bytes, buffers, little-endian numbers, the environment; \<^verbatim>\<open>C_Text\<close>: number and line reading of
  the C library.
  \<^verbatim>\<open>Scratch_Pool\<close>: class ScratchPool; live blocks are disjoint, and the locale \<^verbatim>\<open>arena\<close> says when a sequence
  of requests succeeds. \<^verbatim>\<open>KV_Cache_Pool\<close>: class KVCachePool; the address arithmetic (entries and layers
  disjoint), gather and scatter as inverses, eviction, the INT8 scales, and the locale \<^verbatim>\<open>kv_store\<close>.
  \<^verbatim>\<open>Memory_Budget\<close>: MemoryBudget and OOMGuard.
  \<^verbatim>\<open>KV_File_Format\<close>: saving and loading a cache file; a crash at any system call leaves the old or the new
  file, and only complete images are accepted. \<^verbatim>\<open>KV_Cache_Dir\<close>: conversation ids, paths, the size limit
  and the sweep of stale temporaries.
  \<^verbatim>\<open>Bpe_Tokenizer\<close>, \<^verbatim>\<open>Tokenizer_Load\<close>: encoding, decoding and loading of the tokenizer; the merge loop gives a
  normal form, nothing is lost, every id indexes the vocabulary.
  \<^verbatim>\<open>Gguf_File\<close>, \<^verbatim>\<open>Gguf_Model\<close>: the container format with its encoder, configuration, tensor table, weight
  pointers.
  \<^verbatim>\<open>Gpu_Kernels\<close>: RoPE, RMSNorm, INT8 conversion, SwiGLU, addition; \<^verbatim>\<open>Softmax\<close>: the softmax kernel on every order
  of its unsynchronised accesses to shared memory; \<^verbatim>\<open>Infer_Bridge\<close>: the calls of reflex-infer (\<^verbatim>\<open>gemv_q4.cu\<close>,
  \<^verbatim>\<open>attention.cu\<close>); \<^verbatim>\<open>Embedding\<close>: the embedding lookup with its CPU dequantisation.
  \<^verbatim>\<open>Transformer\<close>: one layer for one token, and for a batch; \<^verbatim>\<open>Loop_Interchange\<close>, \<^verbatim>\<open>Prefill_Equiv\<close>: both prefill
  paths leave the same cache and hidden state. \<^verbatim>\<open>F32_Order\<close>, \<^verbatim>\<open>Sampler\<close>: comparisons of floats, greedy, top-k,
  top-p and the fast sampler. \<^verbatim>\<open>Jetson_Hal\<close>: sensors, clocks, back-off, board information.
  \<^verbatim>\<open>Engine\<close>: decode step, checks, hydration, generate, stop. \<^verbatim>\<open>KV_Reference\<close>, \<^verbatim>\<open>Engine_Refine\<close>, \<^verbatim>\<open>Hydrate\<close>,
  \<^verbatim>\<open>Session\<close>, \<^verbatim>\<open>Resume\<close>: the refinement described next.
  \<^verbatim>\<open>Weight_Placement\<close>, \<^verbatim>\<open>Engine_Load\<close>: the stages of load, and unload. \<^verbatim>\<open>Think_Split\<close>, \<^verbatim>\<open>Chat_Server\<close>: the splitter of
  the reply, the chat handler with its stream. \<^verbatim>\<open>Cli\<close>: the command line and the arguments of the server.
  \<^verbatim>\<open>Server\<close>: the routes, the server's program, and runs of the server. \<^verbatim>\<open>Load_Example\<close>: a GGUF file of 586 bytes
  that loads, for the witnesses. This theory: the properties that span the server, the engine and the
  files.

  THE MAIN LINE. The specification of generation is \<^verbatim>\<open>ref_loop\<close> of \<^verbatim>\<open>Engine_Refine\<close>: sample the next token from
  the logits of the whole list so far, with no cache, no buffers and no files. \<^verbatim>\<open>kv_holds\<close> of \<^verbatim>\<open>KV_Reference\<close> is the
  abstraction: the first positions of the pool hold the keys and values the specification's transformer
  computes for a token list. Prefill, decode step, save and restore each keep it, so \<^verbatim>\<open>generate\<close> delivers
  the tokens of \<^verbatim>\<open>ref_loop\<close> (\<^verbatim>\<open>generate_refines_reference\<close>), after any history of turns, rejected requests
  and crashes: \<^verbatim>\<open>session\<close> of \<^verbatim>\<open>Session\<close> is the step relation, \<^verbatim>\<open>session_inv\<close> its invariant, and the proof a rule
  induction. \<^verbatim>\<open>Engine_Load\<close> establishes the invariant, \<^verbatim>\<open>Server\<close> shows that every request is a step of a
  session, and this theory puts these together: \<^verbatim>\<open>chat_reply_is_reference\<close> from one request to its reply,
  \<^verbatim>\<open>server_keeps_session\<close> from the arguments of the server to any number of requests.

  INTERFACES. Three contracts are locales, each interpreted on the program's own operations in the theory
  of the provider: \<^verbatim>\<open>arena\<close> on ScratchPool (\<^verbatim>\<open>scratch\<close>), for the forward pass; \<^verbatim>\<open>kv_store\<close> on KVCachePool (\<^verbatim>\<open>kv\<close>), for
  the interchange of the prefill loops in \<^verbatim>\<open>Loop_Interchange\<close>; \<^verbatim>\<open>allocator\<close> on the CUDA allocation calls as the
  code makes them (\<^verbatim>\<open>cu\<close>), for the ownership proofs of load and unload.

  WHAT IS A PARAMETER. Code outside the repository is an argument of the definitions that use it. The
  arithmetic of the hardware and of the CUDA math library is the record \<^verbatim>\<open>fpu\<close>; reflex-infer is the record
  \<^verbatim>\<open>infer\<close> with its documented behaviour as \<^verbatim>\<open>infer_contract\<close> (a product depends on its row and input only,
  attention on the entries of its positions); CUDA calls, the answers of the kernel's file system and its
  directory listings are records of outcomes (\<^verbatim>\<open>cuda_env\<close>, \<^verbatim>\<open>io_env\<close>, \<^verbatim>\<open>dir_env\<close>, \<^verbatim>\<open>map_env\<close>, \<^verbatim>\<open>load_env\<close>, \<^verbatim>\<open>world\<close>),
  where every call may fail and every transfer may be short; the sorting functions of the C++ library and
  the random numbers are the record \<^verbatim>\<open>stl\<close> with \<^verbatim>\<open>stl_ok\<close>; JSON is the record \<^verbatim>\<open>json_lib\<close>; the board's text files are
  the record \<^verbatim>\<open>sysfs\<close>. Floats are bit patterns; nothing is said about rounding.

  NUMBERS, BOUNDS, FUEL. Bytes and unsigned fields of files are words, with their wrap-around (the file
  sizes of the cache header are computed modulo 2^64, as in the code). Signed integers are \<^verbatim>\<open>int\<close>: overflow
  is undefined in C++, and conversions that narrow are written out (\<^verbatim>\<open>to_int32\<close>). The loop of \<^verbatim>\<open>encode\<close> has one
  unit of fuel per character, which is enough as no special token is empty (\<^verbatim>\<open>encode_loop_total\<close>); every other
  loop is a function with a termination proof, the decode loop with \<^verbatim>\<open>max_tokens\<close> as its measure. Undefined
  accesses (reading past a file's end into an uninitialised variable, a null scratch buffer, a copy past a
  buffer) are the value None or the error Bad_access, and the properties say when they cannot happen. The
  refinement of generation is for the FP16 cache without the overflow pool, the default of the server;
  the operations themselves are modelled for INT8 and overflow too.

  NOT MODELLED. What cpp-httplib does (routing, threads, sockets, timeouts): the mutex of the engine makes
  requests that generate one after the other, and a run of the server is a sequence of requests. Signals,
  \<^verbatim>\<open>stop\<close> apart, which is a flag that may be set between any two steps. Messages, timings and speeds.
  \<^verbatim>\<open>Engine::build_cuda_graph\<close>, which nothing calls, and \<^verbatim>\<open>fp16_to_fp32\<close> likewise. \<^verbatim>\<open>print_jetson_info\<close> and
  \<^verbatim>\<open>MemoryBudget::print\<close>, which only print. Tests and benchmarks. What remains uncovered in the sources beside
  these is declarations and comments.
\<close>


section \<open>From a request to its reply\<close>

text \<open>The text of a reply: the pieces of the tokens without the end-of-sequence token, each cut at its first
  NUL byte as the callback's \<^verbatim>\<open>const char *\<close> is.\<close>

definition reply_text :: "tokenizer \<Rightarrow> int list \<Rightarrow> string" where
  "reply_text t ids = concat (map (\<lambda>i. c_str (decode_token t i)) (filter (\<lambda>i. i \<noteq> eos_id t) ids))"

lemma c_str_idem: "c_str (c_str s) = c_str s"
  by (simp add: c_str_def)

lemma callbacks_text: "concat (map c_str (map fst (filter (\<lambda>(piece, eos). \<not> eos) (callbacks e ids)))) = reply_text (en_tok e) ids"
  by (induction ids) (simp_all add: callbacks_def reply_text_def c_str_idem)

lemma whole_reply:
  assumes "chat_request jl kv8 body messages = Inr (params, prompt, False)" "jl_parse jl req = Inr body"
    "jl_array jl body ''messages'' = Inr (Some messages)" "messages \<noteq> []"
    "generate d st w prompt params e fsys = Inr (s, fsys')" "ls_out s = callbacks e ids"
  shows "\<exists>co ws. chat_completions jl kv8 d st w sink req e fsys = (Completion_reply co, ls_engine s, fsys') \<and>
    think_ref (reply_text (en_tok e) ids) = (case co_reasoning co of None \<Rightarrow> [] | Some r \<Rightarrow> r, ws @ co_content co) \<and>
    (\<forall>c \<in> set ws. is_separator c) \<and> co_completion_tokens co = int (length ids)"
proof -
  let ?cs = "map fst (filter (\<lambda>(piece, eos). \<not> eos) (ls_out s))"
  obtain co where b: "build_completion d st w prompt params e fsys = Inr (co, ls_engine s, fsys')"
    and co: "co_content co = content_of (split_text ?cs)" "co_completion_tokens co = gs_completion_tokens (ls_stats s)"
      "co_reasoning co = (if reasoning_of (split_text ?cs) = [] then None else Some (reasoning_of (split_text ?cs)))"
    using assms(5) by (simp add: build_completion_def Let_def)
  have "co_completion_tokens co = int (length ids)"
    using generate_done [OF assms(5)] co(2) assms(6) by (simp add: loop_done_def callbacks_def)
  moreover have "chat_completions jl kv8 d st w sink req e fsys = (Completion_reply co, ls_engine s, fsys')"
    using assms(1-4) b by (simp add: chat_completions_def)
  ultimately show ?thesis
    using split_text_parts [of ?cs] callbacks_text [of e ids] co(1,3) assms(6) by (cases "think_ref (reply_text (en_tok e) ids)") auto
qed



section \<open>A request to the small model\<close>

text \<open>A JSON library that reads one user message and a limit of two tokens.\<close>

definition demo_chat :: "unit json_lib" where
  "demo_chat = demo_json\<lparr>jl_array := (\<lambda>j k. Inr (Some [()])), jl_int := (\<lambda>j k v. Inr 2),
     jl_string := (\<lambda>j k v. Inr (if k = ''content'' then ''b'' else v))\<rparr>"

definition demo_chat_params :: gen_params where
  "demo_chat_params = gen_params_default\<lparr>gp_max_tokens := 2, gp_temperature := 0x3F333333, gp_top_k := 2, gp_top_p := 0x3F666666,
     gp_kv_int8 := False, gp_conversation_id := []\<rparr>"

definition demo_chat_ids :: "int list" where
  "demo_chat_ids = fst (ref_loop demo_dev demo_stl demo_G demo_A demo_world (with_params demo_engine demo_chat_params) (kv_max_tokens demo_kv8) 0 [0, 1, 3, 0, 0, 0] [] 0)"

lemma demo_chat_request: "chat_request demo_chat False () [()] = Inr (demo_chat_params, format_qwen_chat [(''user'', ''b'')] False, False)"
  by (simp add: chat_request_def chat_params_def demo_chat_def demo_json_def demo_chat_params_def)

lemma demo_chat_turn: "turn_ok demo_kv8 demo_world (format_qwen_chat [(''user'', ''b'')] False) demo_chat_params demo_engine (6, [0, 1, 3, 0, 0, 0])"
proof -
  have "prompt_tokens_of demo_tok (kv_max_tokens demo_kv8) 2 (format_qwen_chat [(''user'', ''b'')] False) = Inr (6, [0, 1, 3, 0, 0, 0])" by code_simp
  then show ?thesis by (simp add: turn_ok_def demo_engine_def demo_world_def demo_cfg_def demo_chat_params_def)
qed

lemma demo_chat_calm: "calm_start demo_world (with_params demo_engine demo_chat_params) (int (length [0 :: int, 1, 3, 0, 0, 0]) - 1)"
  using demo_calm by (simp add: calm_start_def mem_ok_def demo_world_def demo_chat_params_def demo_params_def)



section \<open>The server from its arguments on\<close>


lemma demo_tok_ok: "tok_ok demo_tok" "tok_fits demo_load_cfg demo_tok"
  by (auto simp: tok_ok_def tok_fits_def ids_ok_def demo_tok_def demo_load_cfg_def split: if_splits)

lemma demo_listening:
  obtains L' where "server_main (demo_le demo_map) [''-m'', ''m.gguf''] demo_unloaded = Listening L' 8080 False"
    "en_cfg (ld_engine L') = demo_load_cfg" "mw_embd_type (en_mw (ld_engine L')) = 12" "max_context (kv_cfg (en_kv (ld_engine L'))) = 8"
    "en_tok (ld_engine L') = demo_tok"
proof -
  let ?p = "server_params 0 False"
  have "me_mmap demo_map = Some 65536" by (simp add: demo_map_def)
  then obtain L' where L': "engine_load (demo_le demo_map) ''m.gguf'' ?p demo_unloaded = Some (True, L')" "en_cfg (ld_engine L') = demo_load_cfg"
    "mw_embd_type (en_mw (ld_engine L')) = 12" "ld_weights_size L' = 586" using demo_load [of demo_map, where p = ?p] by metis
  have "\<not> gp_kv_int8 ?p" "gp_context_limit ?p = 0" by (simp_all add: server_params_def)
  then have "max_context (kv_cfg (en_kv (ld_engine L'))) = 8" using demo_context [OF L'(1,2,4)] by simp
  moreover have "en_tok (ld_engine L') = demo_tok"
    using engine_load_tok [OF L'(1)] by (simp add: demo_load_env_def load_from_gguf_def demo_unloaded_def demo_engine_def)
  moreover have "server_main (demo_le demo_map) [''-m'', ''m.gguf''] demo_unloaded = Listening L' 8080 False"
    using L'(1) by (simp add: server_main_def)
  ultimately show ?thesis using that L'(2,3) by blast
qed

definition demo_moment :: moment where
  "demo_moment = \<lparr>mo_sysfs = demo_board, mo_world = demo_world, mo_sink = (\<lambda>_. True)\<rparr>"


end
